(* ===== verification/Decdn_Prelude.thy ===== *)
theory Decdn_Prelude
  imports Main "HOL-Library.Word" "HOL-Library.AList" "HOL-Library.List_Lexorder"
begin

text \<open>
  The vocabulary shared by every component of the development.

  \<^item> Machine integers keep their width: \<open>u8\<close>, \<open>u32\<close>, \<open>u64\<close> and the 256-bit token amounts
    \<open>u256\<close> are words, so \<open>+\<close>, \<open>-\<close> and \<open>*\<close> wrap as the operators of the 256-bit type do.
  \<^item> The saturating and checked operations of the language's integer types are defined once
    for words of every width, together with the equations that read them as natural
    numbers; those equations are collected in \<open>word_nat\<close> and carry the arithmetic of the
    component theories.
  \<^item> Results of fallible operations are sums: \<open>Inl\<close> an error, \<open>Inr\<close> a value.
\<close>

type_synonym u8 = "8 word"
type_synonym u16 = "16 word"
type_synonym u32 = "32 word"
type_synonym u64 = "64 word"
type_synonym u256 = "256 word"

type_synonym b256 = "256 word"
type_synonym address = "160 word"

unbundle bit_operations_syntax

named_theorems word_nat \<open>reading word operations as natural numbers\<close>

subsection \<open>Saturating and checked word arithmetic\<close>

definition sat_add :: "'a::len word \<Rightarrow> 'a word \<Rightarrow> 'a word" where
  "sat_add a b = (if unat a + unat b < 2 ^ LENGTH('a) then a + b else - 1)"

definition sat_sub :: "'a::len word \<Rightarrow> 'a word \<Rightarrow> 'a word" where
  "sat_sub a b = (if b \<le> a then a - b else 0)"

definition sat_mul :: "'a::len word \<Rightarrow> 'a word \<Rightarrow> 'a word" where
  "sat_mul a b = (if unat a * unat b < 2 ^ LENGTH('a) then a * b else - 1)"

definition checked_add :: "'a::len word \<Rightarrow> 'a word \<Rightarrow> 'a word option" where
  "checked_add a b = (if unat a + unat b < 2 ^ LENGTH('a) then Some (a + b) else None)"

definition checked_sub :: "'a::len word \<Rightarrow> 'a word \<Rightarrow> 'a word option" where
  "checked_sub a b = (if b \<le> a then Some (a - b) else None)"

definition checked_mul :: "'a::len word \<Rightarrow> 'a word \<Rightarrow> 'a word option" where
  "checked_mul a b = (if unat a * unat b < 2 ^ LENGTH('a) then Some (a * b) else None)"

definition div_ceil :: "'a::len word \<Rightarrow> 'a word \<Rightarrow> 'a word" where
  "div_ceil a b = (if a mod b = 0 then a div b else a div b + 1)"

lemmas word_order_nat = word_le_nat_alt word_less_nat_alt

lemma unat_below [simp]: "unat (a :: 'a::len word) < 2 ^ LENGTH('a)"
  by (rule unsigned_less)

lemma unat_max_word [word_nat]: "unat (- 1 :: 'a::len word) = 2 ^ LENGTH('a) - 1"
  by (simp add: unsigned_minus_1_eq_mask mask_eq_exp_minus_1)

lemma unat_add_exact:
  "unat (a :: 'a::len word) + unat b < 2 ^ LENGTH('a) \<Longrightarrow> unat (a + b) = unat a + unat b"
  by (rule unat_add_lem [THEN iffD1])

lemma unat_mult_exact:
  "unat (a :: 'a::len word) * unat b < 2 ^ LENGTH('a) \<Longrightarrow> unat (a * b) = unat a * unat b"
  by (rule unat_mult_lem [THEN iffD1])

lemma unat_sub_exact: "(b :: 'a::len word) \<le> a \<Longrightarrow> unat (a - b) = unat a - unat b"
  by (rule unat_sub)

lemma unat_sat_add [word_nat]:
  "unat (sat_add a (b :: 'a::len word)) = min (unat a + unat b) (2 ^ LENGTH('a) - 1)"
  by (auto simp: sat_add_def unat_add_exact unat_max_word min_def)

lemma unat_sat_sub [word_nat]: "unat (sat_sub a (b :: 'a::len word)) = unat a - unat b"
  by (auto simp: sat_sub_def unat_sub_exact word_le_nat_alt)

lemma unat_sat_mul [word_nat]:
  "unat (sat_mul a (b :: 'a::len word)) = min (unat a * unat b) (2 ^ LENGTH('a) - 1)"
proof (cases "unat a * unat b < 2 ^ LENGTH('a)")
  case True
  then have "unat a * unat b \<le> 2 ^ LENGTH('a) - 1" by linarith
  with True show ?thesis by (simp only: sat_mul_def if_True unat_mult_exact min_absorb1)
next
  case False
  then have "2 ^ LENGTH('a) - 1 \<le> unat a * unat b" by linarith
  with False show ?thesis by (simp only: sat_mul_def if_False unat_max_word min_absorb2)
qed

lemma ex_unat_eq: "(\<exists>w :: 'a::len word. unat w = n) \<longleftrightarrow> n < 2 ^ LENGTH('a)"
proof
  assume "n < 2 ^ LENGTH('a)"
  then have "unat (of_nat n :: 'a word) = n" by (simp add: unat_of_nat take_bit_nat_eq_self)
  then show "\<exists>w :: 'a word. unat w = n" by blast
qed auto

lemma checked_add_Some_iff:
  "checked_add a (b :: 'a::len word) = Some c \<longleftrightarrow> unat c = unat a + unat b"
proof (cases "unat a + unat b < 2 ^ LENGTH('a)")
  case True
  then show ?thesis by (auto simp: checked_add_def word_unat_eq_iff unat_add_exact)
next
  case False
  then have "unat c \<noteq> unat a + unat b" using unat_below [of c] by linarith
  with False show ?thesis by (simp add: checked_add_def)
qed

lemma checked_mul_Some_iff:
  "checked_mul a (b :: 'a::len word) = Some c \<longleftrightarrow> unat c = unat a * unat b"
proof (cases "unat a * unat b < 2 ^ LENGTH('a)")
  case True
  then show ?thesis by (auto simp: checked_mul_def word_unat_eq_iff unat_mult_exact)
next
  case False
  then have "unat c \<noteq> unat a * unat b" using unat_below [of c] by linarith
  with False show ?thesis by (simp add: checked_mul_def)
qed

lemma checked_sub_Some_iff:
  "checked_sub a (b :: 'a::len word) = Some c \<longleftrightarrow> unat b \<le> unat a \<and> c = a - b"
  by (auto simp: checked_sub_def word_le_nat_alt)

subsection \<open>Widening casts\<close>

lemma unat_widen_u64 [simp]: "unat (ucast (x :: u64) :: u256) = unat x"
  by (simp add: unsigned_ucast_eq take_bit_nat_eq_self less_le_trans [OF unat_below])

lemma unat_widen_u8 [simp]: "unat (ucast (x :: u8) :: u256) = unat x"
  by (simp add: unsigned_ucast_eq take_bit_nat_eq_self less_le_trans [OF unat_below])

subsection \<open>Rounding division\<close>

lemma le_ceil_div_iff: "0 < b \<Longrightarrow> (a + b - 1) div b \<le> c \<longleftrightarrow> a \<le> c * (b :: nat)"
proof -
  assume b: "0 < b"
  have "(a + b - 1) div b \<le> c \<longleftrightarrow> (a + b - 1) div b < c + 1" by linarith
  also have "\<dots> \<longleftrightarrow> a + b - 1 < (c + 1) * b" using b by (simp add: div_less_iff_less_mult)
  also have "\<dots> \<longleftrightarrow> a \<le> c * b" using b by (simp add: algebra_simps) linarith
  finally show ?thesis .
qed

lemma nat_div_ceil:
  assumes "0 < (b :: nat)"
  shows "(if a mod b = 0 then a div b else a div b + 1) = (a + b - 1) div b"
proof (cases "a mod b = 0")
  case True
  then obtain q where "a = b * q" by auto
  with assms have "(a + b - 1) div b = q" by (intro div_nat_eqI) (auto simp: algebra_simps)
  with \<open>a = b * q\<close> assms True show ?thesis by simp
next
  case False
  have "(a + b - 1) div b = a div b + 1"
  proof (rule div_nat_eqI)
    show "b * (a div b + 1) \<le> a + b - 1"
    proof -
      have "b * (a div b) + a mod b = a" by (rule mult_div_mod_eq)
      with False show ?thesis by (simp only: distrib_left)
    qed
    have "b * (a div b) + a mod b = a" by (rule mult_div_mod_eq)
    then show "a + b - 1 < b * Suc (a div b + 1)"
      unfolding Suc_eq_plus1 distrib_left using mod_less_divisor [OF assms, of a] assms by linarith
  qed
  with False show ?thesis by simp
qed

lemma unat_div_ceil [word_nat]:
  assumes b: "0 < unat (b :: 'a::len word)"
  shows "unat (div_ceil a b) = (unat a + unat b - 1) div unat b"
proof (cases "unat a mod unat b = 0")
  case True
  then have "a mod b = 0" by (simp add: word_unat_eq_iff unat_mod_distrib)
  with nat_div_ceil [OF b, of "unat a"] True show ?thesis
    by (simp add: div_ceil_def unat_div_distrib)
next
  case False
  then have ne: "a mod b \<noteq> 0" by (simp add: word_unat_eq_iff unat_mod_distrib)
  have "unat b \<noteq> 1" using False by auto
  then have "2 \<le> unat b" using b by linarith
  moreover have "0 < unat a" using False by (cases "unat a") auto
  ultimately have "unat a div unat b < unat a" by simp
  then have "unat (a div b) + unat (1 :: 'a word) < 2 ^ LENGTH('a)"
    unfolding unat_div_distrib unat_1 using unat_below [of a] by linarith
  then have "unat (a div b + 1) = unat (a div b) + 1"
    by (simp add: unat_add_exact)
  with nat_div_ceil [OF b, of "unat a"] False ne show ?thesis
    by (simp add: div_ceil_def unat_div_distrib)
qed
subsection \<open>Big-endian byte strings\<close>

definition to_be_bytes :: "nat \<Rightarrow> 'a::len word \<Rightarrow> u8 list" where
  "to_be_bytes n w = map (\<lambda>i. ucast (drop_bit (8 * (n - 1 - i)) w)) [0..<n]"

definition from_be_bytes :: "u8 list \<Rightarrow> 'a::len word" where
  "from_be_bytes bs = foldl (\<lambda>acc b. push_bit 8 acc OR ucast b) 0 bs"

lemma length_to_be_bytes [simp]: "length (to_be_bytes n w) = n"
  by (simp add: to_be_bytes_def)

lemma to_be_bytes_Suc: "to_be_bytes (Suc n) w = to_be_bytes n (drop_bit 8 w) @ [ucast w]"
proof -
  have "8 * (Suc n - 1 - i) = 8 + 8 * (n - 1 - i)" if "i < n" for i
    using that by (cases n) auto
  then show ?thesis
    by (auto simp: to_be_bytes_def drop_bit_drop_bit add.commute intro!: map_cong)
qed

lemma from_be_bytes_snoc: "from_be_bytes (bs @ [b]) = push_bit 8 (from_be_bytes bs) OR ucast b"
  by (simp add: from_be_bytes_def)

lemma from_to_be_bytes_take: "from_be_bytes (to_be_bytes n w) = take_bit (8 * n) (w :: 'a::len word)"
proof (induction n arbitrary: w)
  case 0
  then show ?case by (simp add: to_be_bytes_def from_be_bytes_def)
next
  case (Suc n)
  have "push_bit 8 (take_bit (8 * n) (drop_bit 8 w)) OR ucast (ucast w :: u8) = take_bit (8 * Suc n) w"
    by (rule bit_eqI)
       (auto simp: bit_or_iff bit_push_bit_iff bit_take_bit_iff bit_drop_bit_eq bit_ucast_iff)
  then show ?case by (simp add: to_be_bytes_Suc from_be_bytes_snoc Suc)
qed

lemma from_to_be_bytes:
  assumes "LENGTH('a) \<le> 8 * n"
  shows "from_be_bytes (to_be_bytes n w) = (w :: 'a::len word)"
  using assms by (simp add: from_to_be_bytes_take take_bit_word_eq_self)

subsection \<open>Decimal display of a number\<close>

fun show_nat :: "nat \<Rightarrow> string" where
  "show_nat n = (if n < 10 then [char_of (48 + n)] else show_nat (n div 10) @ [char_of (48 + n mod 10)])"

declare show_nat.simps [simp del]

end
