(* ===== verification/Hash_Chain.thy ===== *)
theory Hash_Chain
  imports Decdn_Prelude
begin

text \<open>
  The PayWord hash chain of \<open>src/crates/incentive/src/chain.rs\<close>: hashing forward from a
  released preimage, the root committed in a voucher, and the packed meter word submitted
  on-chain.

  The hash itself belongs to a third-party package, so it is the parameter \<open>keccak\<close> of
  every definition that uses it; nothing is assumed of it. In particular no lemma relies on
  injectivity: the walk is sound for any function.
\<close>

definition MB_BYTES :: u64 where
  "MB_BYTES = 1048576"

definition CHUNK_BYTES :: u64 where
  "CHUNK_BYTES = MB_BYTES"

definition MAX_CHAIN_LENGTH :: u8 where
  "MAX_CHAIN_LENGTH = 255"

definition hash_forward :: "(b256 \<Rightarrow> b256) \<Rightarrow> b256 \<Rightarrow> u8 \<Rightarrow> b256" where
  "hash_forward keccak value steps = fold (\<lambda>_ acc. keccak acc) [0..<unat steps] value"

definition root_from_seed :: "(b256 \<Rightarrow> b256) \<Rightarrow> b256 \<Rightarrow> b256" where
  "root_from_seed keccak seed = hash_forward keccak seed MAX_CHAIN_LENGTH"

definition preimage_at :: "(b256 \<Rightarrow> b256) \<Rightarrow> b256 \<Rightarrow> u8 \<Rightarrow> b256" where
  "preimage_at keccak seed index = hash_forward keccak seed (MAX_CHAIN_LENGTH - index)"

definition verify_forward :: "(b256 \<Rightarrow> b256) \<Rightarrow> b256 \<Rightarrow> u8 \<Rightarrow> b256 \<Rightarrow> bool" where
  "verify_forward keccak preimage steps tip \<longleftrightarrow> hash_forward keccak preimage steps = tip"

datatype chain_meter_error = PriceExceedsWireWidth

definition u64_try_from :: "u256 \<Rightarrow> u64 option" where
  "u64_try_from x = (if unat x < 2 ^ 64 then Some (ucast x) else None)"

definition pack_chain_meter :: "u256 \<Rightarrow> u8 \<Rightarrow> chain_meter_error + u256" where
  "pack_chain_meter chunk_price chain_index =
     (case u64_try_from chunk_price of
        None \<Rightarrow> Inl PriceExceedsWireWidth
      | Some price \<Rightarrow> Inr (push_bit 8 (ucast price :: u256) OR ucast chain_index))"

subsection \<open>Walking the chain\<close>

lemma fold_const_funpow: "fold (\<lambda>_ acc. f acc) xs v = (f ^^ length xs) v"
  by (induction xs arbitrary: v) (simp_all add: funpow_swap1)

lemma hash_forward_funpow: "hash_forward keccak value steps = (keccak ^^ unat steps) value"
  by (simp add: hash_forward_def fold_const_funpow)

lemma hash_forward_zero [simp]: "hash_forward keccak value 0 = value"
  by (simp add: hash_forward_def)

lemma hash_forward_add:
  assumes "unat k = unat i + unat j"
  shows "hash_forward keccak (hash_forward keccak v j) i = hash_forward keccak v k"
  by (simp add: hash_forward_funpow assms funpow_add)

lemma verify_forward_trans:
  assumes "verify_forward keccak p j q" and "verify_forward keccak q i r"
    and "unat k = unat i + unat j"
  shows "verify_forward keccak p k r"
  using assms by (auto simp: verify_forward_def hash_forward_add [symmetric])

lemma le_MAX_CHAIN_LENGTH [simp]: "i \<le> MAX_CHAIN_LENGTH"
  using unat_below [of i] by (simp add: MAX_CHAIN_LENGTH_def word_le_nat_alt)

lemma preimage_at_zero: "preimage_at keccak seed 0 = root_from_seed keccak seed"
  by (simp add: preimage_at_def root_from_seed_def)

lemma preimage_at_forward:
  assumes "i \<le> j"
  shows "verify_forward keccak (preimage_at keccak seed j) (j - i) (preimage_at keccak seed i)"
proof -
  have "unat (MAX_CHAIN_LENGTH - i) = unat (j - i) + unat (MAX_CHAIN_LENGTH - j)"
    using assms unat_below [of j] unat_below [of i]
    by (simp add: unat_sub_exact word_le_nat_alt MAX_CHAIN_LENGTH_def)
  then show ?thesis
    by (simp add: verify_forward_def preimage_at_def hash_forward_add)
qed

subsection \<open>The packed meter word\<close>

lemma u64_try_from_Some:
  "u64_try_from x = Some p \<Longrightarrow> (ucast p :: u256) = x"
  by (auto simp: u64_try_from_def word_unat_eq_iff unsigned_ucast_eq take_bit_nat_eq_self
      split: if_splits)

lemma pack_chain_meter_shape:
  assumes "pack_chain_meter price idx = Inr w"
  obtains p where "price = ucast (p :: u64)" and "w = push_bit 8 (ucast p) OR ucast idx"
  using assms by (auto simp: pack_chain_meter_def dest!: u64_try_from_Some split: option.splits)

lemma bit_u8_bound: "bit (x :: u8) n \<Longrightarrow> n < 8"
  using bit_imp_le_length [of x n] by simp

lemma bit_u64_bound: "bit (x :: u64) n \<Longrightarrow> n < 64"
  using bit_imp_le_length [of x n] by simp

lemma pack_chain_meter_price:
  assumes "pack_chain_meter price idx = Inr w"
  shows "drop_bit 8 w = price"
proof -
  obtain p where p: "price = ucast (p :: u64)" "w = push_bit 8 (ucast p) OR ucast idx"
    using assms by (rule pack_chain_meter_shape)
  show ?thesis
    unfolding p
    by (rule bit_eqI)
       (auto simp: bit_drop_bit_eq bit_or_iff bit_push_bit_iff bit_ucast_iff
         dest: bit_u8_bound bit_u64_bound)
qed

lemma pack_chain_meter_index:
  assumes "pack_chain_meter price idx = Inr w"
  shows "(ucast w :: u8) = idx"
proof -
  obtain p where p: "price = ucast (p :: u64)" "w = push_bit 8 (ucast p) OR ucast idx"
    using assms by (rule pack_chain_meter_shape)
  show ?thesis
    unfolding p
    by (rule bit_eqI)
       (auto simp: bit_or_iff bit_push_bit_iff bit_ucast_iff dest: bit_u8_bound)
qed

lemma pack_chain_meter_reserved:
  assumes "pack_chain_meter price idx = Inr w"
  shows "drop_bit 72 w = 0"
proof -
  obtain p where p: "price = ucast (p :: u64)" "w = push_bit 8 (ucast p) OR ucast idx"
    using assms by (rule pack_chain_meter_shape)
  show ?thesis
    unfolding p
    by (rule bit_eqI)
       (auto simp: bit_drop_bit_eq bit_or_iff bit_push_bit_iff bit_ucast_iff
         dest: bit_u8_bound bit_u64_bound)
qed

lemma pack_chain_meter_error_iff:
  "pack_chain_meter price idx = Inl PriceExceedsWireWidth \<longleftrightarrow> 2 ^ 64 \<le> unat price"
  by (simp add: pack_chain_meter_def u64_try_from_def not_less)

subsection \<open>Properties\<close>

text \<open>
  The packed meter word the redeemer submits can be read back on chain: packing succeeds
  exactly when the chunk price fits 64 bits, and the word then holds the index in its low byte,
  the price above it and nothing above bit 72.
\<close>

theorem chain_meter_roundtrip:
  "case pack_chain_meter price idx of
     Inl e \<Rightarrow> e = PriceExceedsWireWidth \<and> 2 ^ 64 \<le> unat price
   | Inr w \<Rightarrow> unat price < 2 ^ 64 \<and> drop_bit 8 w = price \<and> (ucast w :: u8) = idx \<and> drop_bit 72 w = 0"
proof (cases "pack_chain_meter price idx")
  case (Inl e)
  then show ?thesis using pack_chain_meter_error_iff [of price idx] by (cases e) simp
next
  case (Inr w)
  with pack_chain_meter_error_iff [of price idx] have "unat price < 2 ^ 64" by (simp add: not_le)
  with Inr pack_chain_meter_price [OF Inr] pack_chain_meter_index [OF Inr] pack_chain_meter_reserved [OF Inr]
  show ?thesis by simp
qed

end
