(* ===== verification/Voucher.thy ===== *)
theory Voucher
  imports Hash_Chain
begin

text \<open>
  Signed payment vouchers (\<open>src/crates/incentive/src/voucher.rs\<close>,
  \<open>src/crates/incentive/src/sig_canon.rs\<close>) and the price of delivered bytes
  (\<open>src/crates/incentive/src/rate.rs\<close>, \<open>src/crates/incentive/src/credit.rs\<close>).

  ECDSA recovery, the low-\<open>s\<close> normalisation and the EIP-712 digest come from third-party
  packages. They are the fields of the record \<open>alloy\<close>, an argument of every definition that
  verifies a signature; no law is assumed of them here.
\<close>

subsection \<open>The signed payload\<close>

definition DOMAIN_NAME :: string where
  "DOMAIN_NAME = ''PaymentPool''"

definition DOMAIN_VERSION :: string where
  "DOMAIN_VERSION = ''1''"

record eip712_domain =
  dom_name :: string
  dom_version :: string
  dom_chain_id :: u64
  dom_verifying_contract :: address

definition voucher_domain :: "u64 \<Rightarrow> address \<Rightarrow> eip712_domain" where
  "voucher_domain chain_id verifying_contract =
     \<lparr>dom_name = DOMAIN_NAME, dom_version = DOMAIN_VERSION, dom_chain_id = chain_id,
      dom_verifying_contract = verifying_contract\<rparr>"

record voucher_sol =
  sol_poolId :: b256
  sol_signer :: address
  sol_provider :: address
  sol_amount :: u256
  sol_bytesDelivered :: u256
  sol_chainRoot :: b256
  sol_chunkPrice :: u256

record voucher =
  v_pool_id :: b256
  v_signer :: address
  v_provider :: address
  v_amount :: u256
  v_bytes_delivered :: u256
  v_chain_root :: b256
  v_chunk_price :: u256

definition to_sol :: "voucher \<Rightarrow> voucher_sol" where
  "to_sol v =
     \<lparr>sol_poolId = v_pool_id v, sol_signer = v_signer v, sol_provider = v_provider v,
      sol_amount = v_amount v, sol_bytesDelivered = v_bytes_delivered v,
      sol_chainRoot = v_chain_root v, sol_chunkPrice = v_chunk_price v\<rparr>"

type_synonym sig65 = "u8 list"

record 'sig alloy =
  eip712_signing_hash :: "voucher_sol \<Rightarrow> eip712_domain \<Rightarrow> b256"
  normalize_s :: "'sig \<Rightarrow> 'sig option"
  recover_address_from_prehash :: "'sig \<Rightarrow> b256 \<Rightarrow> address option"
  as_bytes :: "'sig \<Rightarrow> sig65"

definition signing_hash :: "'sig alloy \<Rightarrow> voucher \<Rightarrow> eip712_domain \<Rightarrow> b256" where
  "signing_hash A v domain = eip712_signing_hash A (to_sol v) domain"

definition is_high_s :: "'sig alloy \<Rightarrow> 'sig \<Rightarrow> bool" where
  "is_high_s A sig \<longleftrightarrow> normalize_s A sig \<noteq> None"

record 'sig signed_voucher =
  sv_voucher :: voucher
  sv_signature :: 'sig

datatype voucher_error = InvalidSignature | WrongSigner (ws_expected: address) (ws_recovered: address)

definition voucher_sign ::
  "'sig alloy \<Rightarrow> (b256 \<Rightarrow> 'e + 'sig) \<Rightarrow> voucher \<Rightarrow> eip712_domain \<Rightarrow> 'e + 'sig signed_voucher" where
  "voucher_sign A sign_hash_sync v domain =
     (case sign_hash_sync (signing_hash A v domain) of
        Inl e \<Rightarrow> Inl e
      | Inr sig \<Rightarrow> Inr \<lparr>sv_voucher = v, sv_signature = sig\<rparr>)"

definition recover_signer ::
  "'sig alloy \<Rightarrow> 'sig signed_voucher \<Rightarrow> eip712_domain \<Rightarrow> voucher_error + address" where
  "recover_signer A sv domain =
     (if is_high_s A (sv_signature sv) then Inl InvalidSignature
      else case recover_address_from_prehash A (sv_signature sv)
                  (signing_hash A (sv_voucher sv) domain) of
             None \<Rightarrow> Inl InvalidSignature
           | Some a \<Rightarrow> Inr a)"

definition verify_signer ::
  "'sig alloy \<Rightarrow> 'sig signed_voucher \<Rightarrow> address \<Rightarrow> eip712_domain \<Rightarrow> voucher_error + unit" where
  "verify_signer A sv expected domain =
     (case recover_signer A sv domain of
        Inl e \<Rightarrow> Inl e
      | Inr recovered \<Rightarrow>
          if recovered = expected then Inr () else Inl (WrongSigner expected recovered))"

subsection \<open>The price of delivered bytes\<close>

definition BYTES_PER_MB :: u64 where
  "BYTES_PER_MB = 1048576"

definition BPS_SCALE :: u64 where
  "BPS_SCALE = 10000"

definition DEFAULT_TOLERANCE_BPS :: u64 where
  "DEFAULT_TOLERANCE_BPS = 100"

datatype rate_error =
    ZeroBytes
  | Underpayment (up_paid: u256) (up_bytes: u256) (up_rate_per_mb: u64) (up_tolerance_bps: u64)
  | RateOverflow

definition verify_rate :: "u256 \<Rightarrow> u256 \<Rightarrow> u64 \<Rightarrow> u64 \<Rightarrow> rate_error + unit" where
  "verify_rate amount_delta bytes_delta rate_per_mb tolerance_bps =
     (if bytes_delta = 0 then Inl ZeroBytes
      else
        let tolerance = min tolerance_bps BPS_SCALE;
            allowed_bps = BPS_SCALE - tolerance
        in case Option.bind (checked_mul amount_delta (ucast BYTES_PER_MB))
                  (\<lambda>v. checked_mul v (ucast BPS_SCALE)) of
             None \<Rightarrow> Inl RateOverflow
           | Some lhs \<Rightarrow>
               (case Option.bind (checked_mul bytes_delta (ucast rate_per_mb))
                       (\<lambda>v. checked_mul v (ucast allowed_bps)) of
                  None \<Rightarrow> Inl RateOverflow
                | Some rhs \<Rightarrow>
                    if rhs \<le> lhs then Inr ()
                    else Inl (Underpayment amount_delta bytes_delta rate_per_mb tolerance)))"

definition min_payment :: "u64 \<Rightarrow> u64 \<Rightarrow> u256" where
  "min_payment bytes rate_per_mb =
     div_ceil (sat_mul (ucast bytes) (ucast rate_per_mb)) (ucast BYTES_PER_MB)"

definition pool_budget_covers :: "u256 \<Rightarrow> u256 \<Rightarrow> u256 \<Rightarrow> u256 \<Rightarrow> bool" where
  "pool_budget_covers remaining m committed new_reserve \<longleftrightarrow>
     sat_add committed new_reserve \<le> sat_sub remaining m"

definition ramped_credit_window :: "u64 \<Rightarrow> u64 \<Rightarrow> u64 \<Rightarrow> u64 \<Rightarrow> u64" where
  "ramped_credit_window divisor floor_bytes credit_max paid =
     (let ceiling = max credit_max floor_bytes in
      if divisor = 0 then ceiling
      else max floor_bytes (min ceiling (paid div divisor)))"

subsection \<open>Signature verification\<close>

lemma recover_signer_Inr_iff:
  "recover_signer A sv domain = Inr a \<longleftrightarrow>
     \<not> is_high_s A (sv_signature sv) \<and>
     recover_address_from_prehash A (sv_signature sv) (signing_hash A (sv_voucher sv) domain) = Some a"
  by (auto simp: recover_signer_def split: option.splits)

lemma verify_signer_Inr_iff:
  "verify_signer A sv expected domain = Inr () \<longleftrightarrow> recover_signer A sv domain = Inr expected"
  by (auto simp: verify_signer_def split: sum.splits)

lemma voucher_sign_Inr:
  "voucher_sign A sign v domain = Inr sv \<Longrightarrow>
     sv_voucher sv = v \<and> sign (signing_hash A v domain) = Inr (sv_signature sv)"
  by (auto simp: voucher_sign_def split: sum.splits)

subsection \<open>Rate arithmetic\<close>

lemmas rate_constants = BYTES_PER_MB_def BPS_SCALE_def

lemma bind_checked_mul_Some:
  "Option.bind (checked_mul a b) (\<lambda>v. checked_mul v c) = Some d \<longleftrightarrow>
     unat a * unat b < 2 ^ LENGTH('a) \<and> unat d = unat a * unat b * unat (c :: 'a::len word)"
proof (cases "unat a * unat b < 2 ^ LENGTH('a)")
  case True
  then have "checked_mul a b = Some (a * b)" and "unat (a * b) = unat a * unat b"
    by (simp_all add: checked_mul_def unat_mult_exact)
  then have "Option.bind (checked_mul a b) (\<lambda>v. checked_mul v c) = checked_mul (a * b) c"
    by simp
  with True \<open>unat (a * b) = unat a * unat b\<close> show ?thesis by (simp add: checked_mul_Some_iff)
next
  case False
  then show ?thesis by (simp add: checked_mul_def)
qed

lemma allowed_bps_nat:
  "unat (BPS_SCALE - min t BPS_SCALE) = 10000 - min (unat t) 10000"
  by (auto simp: unat_sub_exact rate_constants min_def word_le_nat_alt)

text \<open>An accepted payment is exactly one that meets the tolerated rate, without overflow.\<close>

lemma unat_rate_constants: "unat BYTES_PER_MB = 1048576" "unat BPS_SCALE = 10000"
  by (simp_all add: rate_constants)

lemma rate_pair_ex:
  "(\<exists>(l :: u256) (r :: u256). (P \<and> unat l = a) \<and> (Q \<and> unat r = b) \<and> unat r \<le> unat l) \<longleftrightarrow>
     P \<and> Q \<and> a < 2 ^ 256 \<and> b < 2 ^ 256 \<and> b \<le> a"
  using ex_unat_eq [where 'a = 256, of a] ex_unat_eq [where 'a = 256, of b]
  by auto

lemma rate_bound_step: "a * (1048576 * 10000) < 2 ^ 256 \<Longrightarrow> a * 1048576 < (2 ^ 256 :: nat)"
  by simp

lemma verify_rate_Inr_iff:
  "verify_rate amount bytes rate tol = Inr () \<longleftrightarrow>
     bytes \<noteq> 0 \<and>
     unat amount * (1048576 * 10000) < 2 ^ 256 \<and>
     unat bytes * unat rate < 2 ^ 256 \<and>
     unat bytes * unat rate * (10000 - min (unat tol) 10000) < 2 ^ 256 \<and>
     unat bytes * unat rate * (10000 - min (unat tol) 10000) \<le> unat amount * (1048576 * 10000)"
  (is "?lhs \<longleftrightarrow> ?rhs")
proof -
  let ?L = "Option.bind (checked_mul amount (ucast BYTES_PER_MB))
              (\<lambda>v. checked_mul v (ucast BPS_SCALE))"
  let ?R = "Option.bind (checked_mul bytes (ucast rate))
              (\<lambda>v. checked_mul v (ucast (BPS_SCALE - min tol BPS_SCALE)))"
  have "?lhs \<longleftrightarrow> bytes \<noteq> 0 \<and> (\<exists>l r. ?L = Some l \<and> ?R = Some r \<and> unat r \<le> unat l)"
    by (auto simp: verify_rate_def Let_def word_le_nat_alt split: option.splits)
  also have "\<dots> \<longleftrightarrow> bytes \<noteq> 0 \<and> (\<exists>(l :: u256) (r :: u256).
      (unat amount * 1048576 < 2 ^ 256 \<and> unat l = unat amount * (1048576 * 10000)) \<and>
      (unat bytes * unat rate < 2 ^ 256 \<and>
       unat r = unat bytes * unat rate * (10000 - min (unat tol) 10000)) \<and> unat r \<le> unat l)"
    unfolding bind_checked_mul_Some unat_widen_u64 allowed_bps_nat unat_rate_constants mult.assoc
    by simp
  also have "\<dots> \<longleftrightarrow> ?rhs"
    unfolding rate_pair_ex by (auto simp: rate_bound_step)
  finally show ?thesis .
qed

lemma div_le_iff_le_mult_ceil: "(n + 1048575) div 1048576 \<le> a \<longleftrightarrow> n \<le> a * (1048576 :: nat)"
  by linarith

lemma unat_min_payment:
  "unat (min_payment bytes rate) = (unat bytes * unat rate + 1048575) div 1048576"
proof -
  have "unat bytes * unat rate < 2 ^ 64 * 2 ^ 64"
    using unat_below [of bytes] unat_below [of rate] by (intro mult_strict_mono) auto
  then show ?thesis
    by (simp add: min_payment_def word_nat rate_constants min_def)
qed

lemma ramped_credit_window_bounds:
  "unat floor_bytes \<le> unat (ramped_credit_window divisor floor_bytes credit_max paid) \<and>
   unat (ramped_credit_window divisor floor_bytes credit_max paid)
     \<le> max (unat credit_max) (unat floor_bytes)"
  by (auto simp: ramped_credit_window_def Let_def max_def min_def word_le_nat_alt)

lemma ramped_credit_window_mono:
  assumes "paid \<le> paid'"
  shows "ramped_credit_window divisor floor_bytes credit_max paid
           \<le> ramped_credit_window divisor floor_bytes credit_max paid'"
proof -
  have "paid div divisor \<le> paid' div divisor"
    using assms by (simp add: word_le_nat_alt unat_div_distrib div_le_mono)
  then show ?thesis
    by (auto simp: ramped_credit_window_def Let_def max_def min_def)
qed

lemma ramped_credit_window_exposure:
  assumes "divisor \<noteq> 0"
  shows "unat (ramped_credit_window divisor floor_bytes credit_max paid)
           \<le> max (unat floor_bytes) (unat paid div unat divisor)"
  using assms
  by (auto simp: ramped_credit_window_def Let_def max_def min_def word_le_nat_alt unat_div_distrib)

subsection \<open>Properties\<close>

text \<open>
  The quote and the check agree: for a non-empty delivery and an amount whose scaled value
  fits the 256-bit arithmetic, the zero-tolerance rate check accepts an amount exactly when it
  is at least \<open>min_payment\<close> for those bytes, so the quoted minimum is the least accepted payment.
\<close>

theorem min_payment_least_accepted:
  assumes "bytes \<noteq> 0" and "unat amount * (1048576 * 10000) < 2 ^ 256"
  shows "verify_rate amount (ucast (bytes :: u64)) rate 0 = Inr () \<longleftrightarrow> min_payment bytes rate \<le> amount"
proof -
  have prod: "unat bytes * unat rate < 2 ^ 128"
    using mult_strict_mono [OF unat_below [of bytes] unat_below [of rate]] by simp
  have "(ucast bytes :: u256) \<noteq> 0"
    using assms(1) unat_widen_u64 [of bytes] by (metis unat_eq_zero)
  with assms(2) prod have "verify_rate amount (ucast bytes) rate 0 = Inr () \<longleftrightarrow>
      unat bytes * unat rate \<le> unat amount * 1048576"
    by (simp add: verify_rate_Inr_iff unat_widen_u64 mult.commute)
  also have "\<dots> \<longleftrightarrow> (unat bytes * unat rate + 1048575) div 1048576 \<le> unat amount"
    by (simp add: div_le_iff_le_mult_ceil)
  finally show ?thesis by (simp add: word_le_nat_alt unat_min_payment)
qed

theorem min_payment_least_accepted_witness:
  "verify_rate 20 (ucast (2097152 :: u64)) 10 0 = Inr () \<and> verify_rate 19 (ucast (2097152 :: u64)) 10 0 \<noteq> Inr ()"
proof -
  have "unat (min_payment 2097152 10) = 20" by (simp add: unat_min_payment)
  then have "min_payment 2097152 10 = 20" by (simp add: word_unat_eq_iff)
  then show ?thesis
    using min_payment_least_accepted [of 2097152 20 10] min_payment_least_accepted [of 2097152 19 10] by simp
qed

text \<open>
  The credit a seller extends ahead of payment never drops below the configured floor,
  never exceeds the larger of the floor and the cap, does not shrink as the buyer pays more,
  and with a ramp divisor is at most the larger of the floor and the paid bytes over the divisor.
\<close>

theorem credit_window_bounded:
  "floor_bytes \<le> ramped_credit_window divisor floor_bytes credit_max paid \<and>
   ramped_credit_window divisor floor_bytes credit_max paid \<le> max credit_max floor_bytes \<and>
   (paid \<le> paid' \<longrightarrow> ramped_credit_window divisor floor_bytes credit_max paid
                       \<le> ramped_credit_window divisor floor_bytes credit_max paid') \<and>
   (divisor \<noteq> 0 \<longrightarrow> ramped_credit_window divisor floor_bytes credit_max paid \<le> max floor_bytes (paid div divisor))"
  by (auto simp: ramped_credit_window_mono)
     (auto simp: ramped_credit_window_def Let_def max_def min_def)

theorem credit_window_bounded_witness:
  "ramped_credit_window 4 100 1000 2000 = 500 \<and>
   ramped_credit_window 4 100 1000 2000 \<le> ramped_credit_window 4 100 1000 9000"
  using credit_window_bounded [of 100 4 1000 2000 9000]
  by (simp add: ramped_credit_window_def Let_def max_def min_def)

end
