(* ===== verification/Lane.thy ===== *)
theory Lane
  imports Voucher
begin

text \<open>
  The seller's voucher lane (\<open>src/crates/incentive/src/lane.rs\<close>): the state a node keeps per
  \<open>(pool, signer, provider)\<close> triple, the guards a voucher passes before it advances the
  lane, the folding of released hash-chain preimages, and the claim the node redeems.

  Every operation that the code writes as \<open>&self\<close> returning a successor is a function
  from a lane to a sum of the error and the successor. \<open>apply_voucher\<close>, which mutates the
  lane and calls the persistent store, returns the result together with the new lane and
  the new store. The store's \<open>record\<close> operation is an argument.
\<close>

subsection \<open>State\<close>

record lane_key =
  lk_pool_id :: b256
  lk_signer :: address
  lk_provider :: address

record lane_chain =
  chain_root :: b256
  chunk_price :: u256
  verified_index :: u8
  tip :: b256

record lane_state =
  pool_id :: b256
  signer :: address
  provider :: address
  cap :: u256
  expiry :: u64
  registered_until :: u64
  owner_sig :: "sig65 option"
  paid_cumulative :: u256
  last_amount :: u256
  last_bytes_delivered :: u256
  last_signature :: "sig65 option"
  chain :: lane_chain

record redeem_claim =
  rc_amount :: u256
  rc_bytes_delivered :: u256
  rc_signature :: sig65
  rc_chain :: lane_chain

datatype store_error =
    Io string
  | Codec string
  | Backend string
  | UnsupportedSchema (us_found: u32) (us_supported: u32)
  | Corrupt (co_pool_id: "b256 option") (co_detail: string)
  | PermissionTighten (pt_path: string) (pt_source: string)
  | AlreadyOpen (ao_path: string)
  | NeedsRepair (nr_path: string)
  | Absent (ab_path: string)

datatype fold_axis = Amount | Bytes

datatype pool_error =
    WrongPool (wpo_expected: b256) (wpo_got: b256)
  | WrongProvider (wpr_expected: address) (wpr_got: address)
  | AmountRegression (ar_last: u256) (ar_got: u256)
  | UnderFold (uf_axis: fold_axis) (uf_owed: u256) (uf_got: u256)
  | BytesRegression (br_last: u256) (br_got: u256)
  | CapExceeded (ce_cap: u256) (ce_got: u256)
  | BadPreimage (bp_index: u8) (bp_verified: u8)
  | Signature voucher_error
  | Store store_error

record voucher_applied =
  va_amount_delta :: u256
  va_bytes_delta :: u256

record preimage_applied =
  pa_amount_delta :: u256
  pa_bytes_delta :: u256

subsection \<open>Chains and claims\<close>

definition NONE_chain :: lane_chain where
  "NONE_chain = \<lparr>chain_root = 0, chunk_price = 0, verified_index = 0, tip = 0\<rparr>"

definition opened :: "b256 \<Rightarrow> u256 \<Rightarrow> lane_chain" where
  "opened root price = \<lparr>chain_root = root, chunk_price = price, verified_index = 0, tip = root\<rparr>"

definition accrued :: "lane_chain \<Rightarrow> u256" where
  "accrued c = chunk_price c * ucast (verified_index c)"

definition accrued_bytes :: "lane_chain \<Rightarrow> u256" where
  "accrued_bytes c = ucast CHUNK_BYTES * ucast (verified_index c)"

definition claim_value :: "redeem_claim \<Rightarrow> u256" where
  "claim_value c = rc_amount c + accrued (rc_chain c)"

definition claim_bytes_value :: "redeem_claim \<Rightarrow> u256" where
  "claim_bytes_value c = rc_bytes_delivered c + accrued_bytes (rc_chain c)"

definition claim_chain_meter :: "redeem_claim \<Rightarrow> chain_meter_error + u256" where
  "claim_chain_meter c = pack_chain_meter (chunk_price (rc_chain c)) (verified_index (rc_chain c))"

definition PreimageApplied_ZERO :: preimage_applied where
  "PreimageApplied_ZERO = \<lparr>pa_amount_delta = 0, pa_bytes_delta = 0\<rparr>"

definition pa_advanced :: "preimage_applied \<Rightarrow> bool" where
  "pa_advanced p \<longleftrightarrow> pa_amount_delta p \<noteq> 0 \<or> pa_bytes_delta p \<noteq> 0"

subsection \<open>Construction and registration terms\<close>

definition hydrate ::
  "b256 \<Rightarrow> address \<Rightarrow> address \<Rightarrow> u256 \<Rightarrow> u64 \<Rightarrow> u256 \<Rightarrow> u256 \<Rightarrow> sig65 option \<Rightarrow> lane_chain
     \<Rightarrow> lane_state" where
  "hydrate pid sg prov c e amount bytes sig ch =
     \<lparr>pool_id = pid, signer = sg, provider = prov, cap = c, expiry = e,
      registered_until = 0, owner_sig = None, paid_cumulative = 0,
      last_amount = amount, last_bytes_delivered = bytes, last_signature = sig, chain = ch\<rparr>"

definition clamp_to_registration :: "lane_state \<Rightarrow> u64 \<Rightarrow> u64 \<Rightarrow> bool \<times> lane_state" where
  "clamp_to_registration s reg_cap reg_expiry =
     (let before = (cap s, expiry s, registered_until s);
          held_expiry = max reg_expiry 1;
          s' = s\<lparr>cap := min (cap s) (ucast reg_cap),
                 expiry := (if expiry s = 0 then held_expiry else min (expiry s) held_expiry),
                 registered_until := max (registered_until s) reg_expiry\<rparr>
      in (before \<noteq> (cap s', expiry s', registered_until s'), s'))"

definition lane_key_of :: "lane_state \<Rightarrow> lane_key" where
  "lane_key_of s = \<lparr>lk_pool_id = pool_id s, lk_signer = signer s, lk_provider = provider s\<rparr>"

definition live_claim :: "lane_state \<Rightarrow> redeem_claim option" where
  "live_claim s =
     map_option
       (\<lambda>sig. \<lparr>rc_amount = last_amount s, rc_bytes_delivered = last_bytes_delivered s,
               rc_signature = sig, rc_chain = chain s\<rparr>)
       (last_signature s)"

definition owed_bytes :: "lane_state \<Rightarrow> u256" where
  "owed_bytes s = (case live_claim s of None \<Rightarrow> 0 | Some c \<Rightarrow> claim_bytes_value c)"

definition owed :: "lane_state \<Rightarrow> u256" where
  "owed s = (case live_claim s of None \<Rightarrow> 0 | Some c \<Rightarrow> claim_value c)"

definition unredeemed :: "lane_state \<Rightarrow> u256" where
  "unredeemed s = sat_sub (owed s) (paid_cumulative s)"

subsection \<open>Adopting a chain without moving money\<close>

definition adopt_chain :: "'sig alloy \<Rightarrow> lane_state \<Rightarrow> 'sig signed_voucher \<Rightarrow> lane_state option" where
  "adopt_chain A s sv =
     (let v = sv_voucher sv; root = v_chain_root v in
      if root = 0 then None
      else if chain_root (chain s) = root then
        (if last_signature s \<noteq> None then None
         else Some (s\<lparr>chain := (chain s)\<lparr>chunk_price := v_chunk_price v\<rparr>,
                      last_amount := v_amount v,
                      last_bytes_delivered := v_bytes_delivered v,
                      last_signature := Some (as_bytes A (sv_signature sv))\<rparr>))
      else if 0 < verified_index (chain s) then None
      else if v_amount v \<noteq> last_amount s \<or> v_bytes_delivered v \<noteq> last_bytes_delivered s then None
      else Some (s\<lparr>chain := opened root (v_chunk_price v),
                   last_signature := Some (as_bytes A (sv_signature sv))\<rparr>))"

subsection \<open>Folding a released preimage\<close>

definition chain_slot :: "lane_state \<Rightarrow> b256 \<Rightarrow> lane_chain option" where
  "chain_slot s root = (if root \<noteq> 0 \<and> root = chain_root (chain s) then Some (chain s) else None)"

definition preimage_frontier :: "lane_state \<Rightarrow> b256 \<Rightarrow> u8 \<Rightarrow> (u8 \<times> b256) option" where
  "preimage_frontier s root index =
     (case chain_slot s root of
        None \<Rightarrow> None
      | Some target \<Rightarrow>
          if verified_index target < index then Some (verified_index target, tip target) else None)"

definition advance_preimage_verified ::
  "(b256 \<Rightarrow> b256) \<Rightarrow> lane_state \<Rightarrow> b256 \<Rightarrow> u8 \<Rightarrow> b256 \<Rightarrow> (u8 \<times> b256) option \<Rightarrow> bool
     \<Rightarrow> pool_error + (lane_state \<times> preimage_applied)" where
  "advance_preimage_verified keccak s root index preimage walked walked_ok =
     (case chain_slot s root of
        None \<Rightarrow> Inr (s, PreimageApplied_ZERO)
      | Some target \<Rightarrow>
          if index \<le> verified_index target then Inr (s, PreimageApplied_ZERO)
          else
            let verified =
                  (case walked of
                     Some (wv, wtip) \<Rightarrow>
                       if wv = verified_index target \<and> wtip = tip target then walked_ok
                       else verify_forward keccak preimage (index - verified_index target) (tip target)
                   | None \<Rightarrow>
                       verify_forward keccak preimage (index - verified_index target) (tip target))
            in if \<not> verified then Inl (BadPreimage index (verified_index target))
               else
                 let steps = ucast (index - verified_index target) :: u256;
                     applied = \<lparr>pa_amount_delta = chunk_price target * steps,
                                pa_bytes_delta = ucast CHUNK_BYTES * steps\<rparr>;
                     next = s\<lparr>chain := (chain s)\<lparr>verified_index := index, tip := preimage\<rparr>\<rparr>;
                     claimed = sat_add (last_amount s) (accrued (chain next))
                 in if cap s < claimed then Inl (CapExceeded (cap s) claimed)
                    else Inr (next, applied))"

definition advance_preimage ::
  "(b256 \<Rightarrow> b256) \<Rightarrow> lane_state \<Rightarrow> b256 \<Rightarrow> u8 \<Rightarrow> b256
     \<Rightarrow> pool_error + (lane_state \<times> preimage_applied)" where
  "advance_preimage keccak s root index preimage =
     (let walked = preimage_frontier s root index;
          walked_ok = (case walked of
                         Some (verified, t) \<Rightarrow> verify_forward keccak preimage (index - verified) t
                       | None \<Rightarrow> False)
      in advance_preimage_verified keccak s root index preimage walked walked_ok)"

subsection \<open>Accepting a voucher\<close>

definition advance_presigned ::
  "'sig alloy \<Rightarrow> lane_state \<Rightarrow> 'sig signed_voucher \<Rightarrow> pool_error + (lane_state \<times> voucher_applied)" where
  "advance_presigned A s sv =
     (let v = sv_voucher sv in
      if v_amount v \<le> last_amount s then
        (case live_claim s of
           Some live \<Rightarrow>
             if v_amount v = last_amount s \<and> v_chain_root v \<noteq> 0 \<and>
                v_chain_root v \<noteq> chain_root (chain s) \<and> v_amount v < claim_value live
             then Inl (UnderFold Amount (claim_value live) (v_amount v))
             else Inl (AmountRegression (last_amount s) (v_amount v))
         | None \<Rightarrow> Inl (AmountRegression (last_amount s) (v_amount v)))
      else if v_bytes_delivered v < last_bytes_delivered s then
        Inl (BytesRegression (last_bytes_delivered s) (v_bytes_delivered v))
      else if cap s < v_amount v then Inl (CapExceeded (cap s) (v_amount v))
      else
        let amount_delta = v_amount v - last_amount s;
            bytes_delta = v_bytes_delivered v - last_bytes_delivered s;
            finish = (\<lambda>ch. Inr (s\<lparr>chain := ch, last_amount := v_amount v,
                                   last_bytes_delivered := v_bytes_delivered v,
                                   last_signature := Some (as_bytes A (sv_signature sv))\<rparr>,
                                 \<lparr>va_amount_delta = amount_delta, va_bytes_delta = bytes_delta\<rparr>))
        in if v_chain_root v = chain_root (chain s) then
             (let ch = (chain s)\<lparr>chunk_price := v_chunk_price v\<rparr>;
                  claimed = sat_add (v_amount v) (accrued ch)
              in if cap s < claimed then Inl (CapExceeded (cap s) claimed) else finish ch)
           else
             (case live_claim s of
                Some live \<Rightarrow>
                  if v_amount v < claim_value live
                  then Inl (UnderFold Amount (claim_value live) (v_amount v))
                  else if v_bytes_delivered v < claim_bytes_value live
                  then Inl (UnderFold Bytes (claim_bytes_value live) (v_bytes_delivered v))
                  else finish (opened (v_chain_root v) (v_chunk_price v))
              | None \<Rightarrow> finish (opened (v_chain_root v) (v_chunk_price v))))"

definition stage_voucher ::
  "'sig alloy \<Rightarrow> eip712_domain \<Rightarrow> lane_state \<Rightarrow> 'sig signed_voucher
     \<Rightarrow> pool_error + (lane_state \<times> voucher_applied)" where
  "stage_voucher A domain s sv =
     (if v_pool_id (sv_voucher sv) \<noteq> pool_id s
      then Inl (WrongPool (pool_id s) (v_pool_id (sv_voucher sv)))
      else if v_provider (sv_voucher sv) \<noteq> provider s
      then Inl (WrongProvider (provider s) (v_provider (sv_voucher sv)))
      else case verify_signer A sv (signer s) domain of
             Inl e \<Rightarrow> Inl (Signature e)
           | Inr _ \<Rightarrow> advance_presigned A s sv)"

type_synonym 'st record_op = "'st \<Rightarrow> lane_state \<Rightarrow> (store_error + unit) \<times> 'st"

definition apply_voucher ::
  "'sig alloy \<Rightarrow> eip712_domain \<Rightarrow> 'st record_op \<Rightarrow> 'st \<Rightarrow> lane_state \<Rightarrow> 'sig signed_voucher
     \<Rightarrow> (pool_error + voucher_applied) \<times> lane_state \<times> 'st" where
  "apply_voucher A domain record_st st s sv =
     (case stage_voucher A domain s sv of
        Inl e \<Rightarrow> (Inl e, s, st)
      | Inr (next, applied) \<Rightarrow>
          (case record_st st next of
             (Inl e, st') \<Rightarrow> (Inl (Store e), s, st')
           | (Inr _, st') \<Rightarrow> (Inr applied, next, st')))"

subsection \<open>Claims as natural numbers\<close>

text \<open>
  Vouchers arrive over the wire with 64-bit amounts, byte counts and prices. A lane built from
  such vouchers never wraps a 256-bit sum: 255 chunks of a 64-bit price stay below \<open>2 ^ 72\<close>.
\<close>

definition wire_voucher :: "voucher \<Rightarrow> bool" where
  "wire_voucher v \<longleftrightarrow> unat (v_amount v) < 2 ^ 64 \<and> unat (v_bytes_delivered v) < 2 ^ 64 \<and>
     unat (v_chunk_price v) < 2 ^ 64"

definition lane_wf :: "lane_state \<Rightarrow> bool" where
  "lane_wf s \<longleftrightarrow> unat (last_amount s) < 2 ^ 64 \<and> unat (last_bytes_delivered s) < 2 ^ 64 \<and>
     unat (chunk_price (chain s)) < 2 ^ 64"

lemma accrued_nat:
  assumes "unat (chunk_price c) < 2 ^ 64"
  shows "unat (accrued c) = unat (chunk_price c) * unat (verified_index c)"
    and "unat (accrued c) \<le> 2 ^ 64 * 255"
proof -
  have idx: "unat (verified_index c) \<le> 255"
    using unat_below [of "verified_index c"] by simp
  then have le: "unat (chunk_price c) * unat (verified_index c) \<le> 2 ^ 64 * 255"
    using assms by (intro mult_le_mono) auto
  then show "unat (accrued c) = unat (chunk_price c) * unat (verified_index c)"
    by (simp add: accrued_def unat_mult_exact)
  with le show "unat (accrued c) \<le> 2 ^ 64 * 255" by simp
qed

lemma unat_CHUNK_BYTES [simp]: "unat CHUNK_BYTES = 1048576"
  by (simp add: CHUNK_BYTES_def MB_BYTES_def)

lemma accrued_bytes_nat: "unat (accrued_bytes c) = 1048576 * unat (verified_index c)"
  using unat_below [of "verified_index c"] by (simp add: accrued_bytes_def unat_mult_exact)

lemma accrued_bytes_bound: "unat (accrued_bytes c) \<le> 1048576 * 255"
  using unat_below [of "verified_index c"] by (simp add: accrued_bytes_nat)

lemma claim_value_nat:
  assumes "unat (rc_amount c) < 2 ^ 64" and "unat (chunk_price (rc_chain c)) < 2 ^ 64"
  shows "unat (claim_value c)
           = unat (rc_amount c) + unat (chunk_price (rc_chain c)) * unat (verified_index (rc_chain c))"
  using assms accrued_nat [of "rc_chain c"]
  by (simp add: claim_value_def unat_add_exact)

lemma claim_bytes_value_nat:
  assumes "unat (rc_bytes_delivered c) < 2 ^ 64"
  shows "unat (claim_bytes_value c)
           = unat (rc_bytes_delivered c) + 1048576 * unat (verified_index (rc_chain c))"
  using assms accrued_bytes_bound [of "rc_chain c"]
  by (simp add: claim_bytes_value_def unat_add_exact accrued_bytes_nat)

lemma live_claim_Some:
  "live_claim s = Some c \<longleftrightarrow>
     (\<exists>sig. last_signature s = Some sig \<and>
       c = \<lparr>rc_amount = last_amount s, rc_bytes_delivered = last_bytes_delivered s,
            rc_signature = sig, rc_chain = chain s\<rparr>)"
  by (auto simp: live_claim_def)

lemma live_claim_None: "live_claim s = None \<longleftrightarrow> last_signature s = None"
  by (simp add: live_claim_def)

lemma owed_nat:
  assumes "lane_wf s"
  shows "unat (owed s) =
     (if last_signature s = None then 0
      else unat (last_amount s) + unat (chunk_price (chain s)) * unat (verified_index (chain s)))"
  using assms by (auto simp: owed_def live_claim_Some live_claim_None lane_wf_def claim_value_nat split: option.splits)

lemma owed_bytes_nat:
  assumes "lane_wf s"
  shows "unat (owed_bytes s) =
     (if last_signature s = None then 0
      else unat (last_bytes_delivered s) + 1048576 * unat (verified_index (chain s)))"
  using assms
  by (auto simp: owed_bytes_def live_claim_Some live_claim_None lane_wf_def claim_bytes_value_nat
      split: option.splits)

subsection \<open>What an accepted voucher is\<close>

text \<open>
  The specification of acceptance: the guards as one predicate and the successor as one
  function. \<open>advance_presigned\<close> implements them.
\<close>

definition presigned_ok :: "lane_state \<Rightarrow> voucher \<Rightarrow> bool" where
  "presigned_ok s v \<longleftrightarrow>
     last_amount s < v_amount v \<and> last_bytes_delivered s \<le> v_bytes_delivered v \<and>
     v_amount v \<le> cap s \<and>
     (if v_chain_root v = chain_root (chain s)
      then sat_add (v_amount v) (accrued ((chain s)\<lparr>chunk_price := v_chunk_price v\<rparr>)) \<le> cap s
      else last_signature s \<noteq> None \<longrightarrow> owed s \<le> v_amount v \<and> owed_bytes s \<le> v_bytes_delivered v)"

definition presigned_next :: "'sig alloy \<Rightarrow> lane_state \<Rightarrow> 'sig signed_voucher \<Rightarrow> lane_state" where
  "presigned_next A s sv =
     (let v = sv_voucher sv in
      s\<lparr>chain := (if v_chain_root v = chain_root (chain s)
                  then (chain s)\<lparr>chunk_price := v_chunk_price v\<rparr>
                  else opened (v_chain_root v) (v_chunk_price v)),
        last_amount := v_amount v, last_bytes_delivered := v_bytes_delivered v,
        last_signature := Some (as_bytes A (sv_signature sv))\<rparr>)"

lemma owed_live: "live_claim s = Some c \<Longrightarrow> owed s = claim_value c \<and> owed_bytes s = claim_bytes_value c"
  by (simp add: owed_def owed_bytes_def)

lemma advance_presigned_Inr_iff:
  "advance_presigned A s sv = Inr (s', applied) \<longleftrightarrow>
     presigned_ok s (sv_voucher sv) \<and> s' = presigned_next A s sv \<and>
     applied = \<lparr>va_amount_delta = v_amount (sv_voucher sv) - last_amount s,
                va_bytes_delta = v_bytes_delivered (sv_voucher sv) - last_bytes_delivered s\<rparr>"
proof (cases "live_claim s")
  case None
  then have "last_signature s = None" by (simp add: live_claim_None)
  with None show ?thesis
    by (auto simp: advance_presigned_def presigned_ok_def presigned_next_def Let_def not_less not_le)
next
  case (Some c)
  then have "last_signature s \<noteq> None" by (auto simp: live_claim_Some)
  with Some owed_live [OF Some] show ?thesis
    by (auto simp: advance_presigned_def presigned_ok_def presigned_next_def Let_def not_less not_le)
qed

subsection \<open>What each operation does to the claim\<close>

lemma adopt_chain_Some_cases:
  assumes "adopt_chain A s sv = Some s'"
  obtains
    (anchor) "last_signature s = None" "v_chain_root (sv_voucher sv) = chain_root (chain s)"
      "v_chain_root (sv_voucher sv) \<noteq> 0"
      "s' = s\<lparr>chain := (chain s)\<lparr>chunk_price := v_chunk_price (sv_voucher sv)\<rparr>,
             last_amount := v_amount (sv_voucher sv),
             last_bytes_delivered := v_bytes_delivered (sv_voucher sv),
             last_signature := Some (as_bytes A (sv_signature sv))\<rparr>"
  | (root) "verified_index (chain s) = 0" "v_chain_root (sv_voucher sv) \<noteq> 0"
      "v_chain_root (sv_voucher sv) \<noteq> chain_root (chain s)"
      "v_amount (sv_voucher sv) = last_amount s"
      "v_bytes_delivered (sv_voucher sv) = last_bytes_delivered s"
      "s' = s\<lparr>chain := opened (v_chain_root (sv_voucher sv)) (v_chunk_price (sv_voucher sv)),
             last_signature := Some (as_bytes A (sv_signature sv))\<rparr>"
  using assms
  by (auto simp: adopt_chain_def Let_def simp flip: word_neq_0_conv split: if_splits)

text \<open>
  The off-lock walk never changes the outcome: whatever snapshot the caller hashed against,
  trusting a truthful answer equals hashing against the live tip.
\<close>

definition truthful_walk :: "(b256 \<Rightarrow> b256) \<Rightarrow> u8 \<Rightarrow> b256 \<Rightarrow> (u8 \<times> b256) option \<Rightarrow> bool \<Rightarrow> bool" where
  "truthful_walk keccak index preimage walked walked_ok \<longleftrightarrow>
     (case walked of
        None \<Rightarrow> True
      | Some (verified, t) \<Rightarrow> walked_ok = verify_forward keccak preimage (index - verified) t)"

lemma advance_preimage_verified_eq:
  assumes "truthful_walk keccak index preimage walked walked_ok"
  shows "advance_preimage_verified keccak s root index preimage walked walked_ok =
    (let c = chain s;
         next = s\<lparr>chain := c\<lparr>verified_index := index, tip := preimage\<rparr>\<rparr>;
         steps = ucast (index - verified_index c) :: u256;
         claimed = sat_add (last_amount s) (accrued (chain next))
     in if root = 0 \<or> root \<noteq> chain_root c \<or> index \<le> verified_index c
        then Inr (s, PreimageApplied_ZERO)
        else if \<not> verify_forward keccak preimage (index - verified_index c) (tip c)
        then Inl (BadPreimage index (verified_index c))
        else if cap s < claimed then Inl (CapExceeded (cap s) claimed)
        else Inr (next, \<lparr>pa_amount_delta = chunk_price c * steps,
                         pa_bytes_delta = ucast CHUNK_BYTES * steps\<rparr>))"
proof (cases walked)
  case None
  then show ?thesis
    by (auto simp add: advance_preimage_verified_def chain_slot_def Let_def)
next
  case (Some w)
  obtain wv wtip where w: "w = (wv, wtip)" by (cases w)
  have "(if wv = verified_index (chain s) \<and> wtip = tip (chain s) then walked_ok
         else verify_forward keccak preimage (index - verified_index (chain s)) (tip (chain s)))
        = verify_forward keccak preimage (index - verified_index (chain s)) (tip (chain s))"
    using assms by (simp add: truthful_walk_def Some w)
  then show ?thesis
    by (auto simp add: advance_preimage_verified_def chain_slot_def Let_def Some w)
qed

lemma advance_preimage_verified_Inr_cases:
  assumes "advance_preimage_verified keccak s root index preimage walked walked_ok = Inr (s', applied)"
    and "truthful_walk keccak index preimage walked walked_ok"
  obtains
    (covered) "s' = s" "applied = PreimageApplied_ZERO"
      "root = 0 \<or> root \<noteq> chain_root (chain s) \<or> index \<le> verified_index (chain s)"
  | (advance) "root \<noteq> 0" "root = chain_root (chain s)" "verified_index (chain s) < index"
      "verify_forward keccak preimage (index - verified_index (chain s)) (tip (chain s))"
      "s' = s\<lparr>chain := (chain s)\<lparr>verified_index := index, tip := preimage\<rparr>\<rparr>"
      "sat_add (last_amount s) (accrued (chain s')) \<le> cap s"
      "applied = \<lparr>pa_amount_delta = chunk_price (chain s) * ucast (index - verified_index (chain s)),
                  pa_bytes_delta = ucast CHUNK_BYTES * ucast (index - verified_index (chain s))\<rparr>"
proof -
  note eq = assms(1) [unfolded advance_preimage_verified_eq [OF assms(2)] Let_def]
  show thesis
  proof (cases "root = 0 \<or> root \<noteq> chain_root (chain s) \<or> index \<le> verified_index (chain s)")
    case True
    with eq show thesis by (auto intro: covered)
  next
    case False
    then have "verify_forward keccak preimage (index - verified_index (chain s)) (tip (chain s))"
      using eq by (auto split: if_splits)
    with False eq show thesis by (intro advance) (auto split: if_splits)
  qed
qed

lemma advance_preimage_verified_walk_irrelevant:
  assumes "truthful_walk keccak index preimage w ok" and "truthful_walk keccak index preimage w' ok'"
  shows "advance_preimage_verified keccak s root index preimage w ok
           = advance_preimage_verified keccak s root index preimage w' ok'"
  by (simp add: advance_preimage_verified_eq [OF assms(1)] advance_preimage_verified_eq [OF assms(2)])

lemma truthful_frontier:
  "truthful_walk keccak index preimage (preimage_frontier s0 root index)
     (case preimage_frontier s0 root index of
        Some (verified, t) \<Rightarrow> verify_forward keccak preimage (index - verified) t
      | None \<Rightarrow> False)"
  by (auto simp: truthful_walk_def split: option.splits)

subsection \<open>A lane and its steps\<close>

text \<open>
  The steps a node takes on one lane: it accepts a signed voucher, adopts a chain from a voucher
  that does not move money, folds a reveal whose walk ran against an earlier snapshot of the
  lane, clamps the terms to the on-chain registration, and records an observed redemption.
  Vouchers are rebuilt from the lane's own identity with wire-width figures, and carry the node's
  quoted rate, which the handler checks before it verifies anything else.
\<close>

definition quoted_price :: "u64 \<Rightarrow> b256 \<Rightarrow> u256" where
  "quoted_price rate root = (if root = 0 then 0 else ucast rate)"

definition lane_voucher :: "u64 \<Rightarrow> lane_state \<Rightarrow> voucher \<Rightarrow> bool" where
  "lane_voucher rate s v \<longleftrightarrow> wire_voucher v \<and> v_pool_id v = pool_id s \<and> v_signer v = signer s \<and>
     v_provider v = provider s \<and> v_chunk_price v = quoted_price rate (v_chain_root v)"

inductive lane_step ::
  "'sig alloy \<Rightarrow> eip712_domain \<Rightarrow> (b256 \<Rightarrow> b256) \<Rightarrow> u64 \<Rightarrow> lane_state \<Rightarrow> lane_state \<Rightarrow> bool"
  for A :: "'sig alloy" and domain :: eip712_domain and keccak :: "b256 \<Rightarrow> b256" and rate :: u64 where
  accept: "lane_voucher rate s (sv_voucher sv) \<Longrightarrow> stage_voucher A domain s sv = Inr (s', applied) \<Longrightarrow>
     lane_step A domain keccak rate s s'"
| adopt: "lane_voucher rate s (sv_voucher sv) \<Longrightarrow> verify_signer A sv (signer s) domain = Inr () \<Longrightarrow>
     adopt_chain A s sv = Some s' \<Longrightarrow> lane_step A domain keccak rate s s'"
| reveal: "truthful_walk keccak index preimage walked ok \<Longrightarrow>
     advance_preimage_verified keccak s root index preimage walked ok = Inr (s', applied) \<Longrightarrow>
     lane_step A domain keccak rate s s'"
| clamp: "clamp_to_registration s c e = (changed, s') \<Longrightarrow> lane_step A domain keccak rate s s'"
| redeemed: "s' = s\<lparr>paid_cumulative := max (paid_cumulative s) p\<rparr> \<Longrightarrow> lane_step A domain keccak rate s s'"

definition fresh_lane :: "lane_state \<Rightarrow> bool" where
  "fresh_lane s \<longleftrightarrow> last_amount s = 0 \<and> last_bytes_delivered s = 0 \<and> last_signature s = None \<and>
     chain s = NONE_chain"

inductive lane_reachable ::
  "'sig alloy \<Rightarrow> eip712_domain \<Rightarrow> (b256 \<Rightarrow> b256) \<Rightarrow> u64 \<Rightarrow> lane_state \<Rightarrow> bool"
  for A :: "'sig alloy" and domain :: eip712_domain and keccak :: "b256 \<Rightarrow> b256" and rate :: u64 where
  fresh: "fresh_lane s \<Longrightarrow> lane_reachable A domain keccak rate s"
| step: "lane_reachable A domain keccak rate s \<Longrightarrow> lane_step A domain keccak rate s s' \<Longrightarrow>
     lane_reachable A domain keccak rate s'"

text \<open>
  The claim a node submits is rebuilt on-chain from the anchor's figures, its root and price, the
  index and the tip. \<open>claim_backed\<close> says that those figures come from one voucher that the
  lane's signer signed and that the tip hashes forward to the committed root.
\<close>

definition anchor_voucher :: "lane_state \<Rightarrow> voucher" where
  "anchor_voucher s =
     \<lparr>v_pool_id = pool_id s, v_signer = signer s, v_provider = provider s,
      v_amount = last_amount s, v_bytes_delivered = last_bytes_delivered s,
      v_chain_root = chain_root (chain s), v_chunk_price = chunk_price (chain s)\<rparr>"

definition claim_backed ::
  "'sig alloy \<Rightarrow> eip712_domain \<Rightarrow> (b256 \<Rightarrow> b256) \<Rightarrow> lane_state \<Rightarrow> bool" where
  "claim_backed A domain keccak s \<longleftrightarrow>
     verify_forward keccak (tip (chain s)) (verified_index (chain s)) (chain_root (chain s)) \<and>
     (case last_signature s of
        None \<Rightarrow> last_amount s = 0 \<and> last_bytes_delivered s = 0 \<and> chain s = NONE_chain
      | Some sig \<Rightarrow>
          (\<exists>sv. verify_signer A sv (signer s) domain = Inr () \<and> as_bytes A (sv_signature sv) = sig \<and>
             sv_voucher sv = anchor_voucher s))"

lemma stage_voucher_Inr:
  assumes "stage_voucher A domain s sv = Inr (s', applied)"
  shows "v_pool_id (sv_voucher sv) = pool_id s" "v_provider (sv_voucher sv) = provider s"
    and "verify_signer A sv (signer s) domain = Inr ()"
    and "advance_presigned A s sv = Inr (s', applied)"
  using assms by (auto simp: stage_voucher_def split: if_splits sum.splits)

lemma presigned_next_fields [simp]:
  "pool_id (presigned_next A s sv) = pool_id s"
  "signer (presigned_next A s sv) = signer s"
  "provider (presigned_next A s sv) = provider s"
  "cap (presigned_next A s sv) = cap s"
  "paid_cumulative (presigned_next A s sv) = paid_cumulative s"
  "last_amount (presigned_next A s sv) = v_amount (sv_voucher sv)"
  "last_bytes_delivered (presigned_next A s sv) = v_bytes_delivered (sv_voucher sv)"
  "last_signature (presigned_next A s sv) = Some (as_bytes A (sv_signature sv))"
  "chain_root (chain (presigned_next A s sv)) = v_chain_root (sv_voucher sv)"
  "chunk_price (chain (presigned_next A s sv)) = v_chunk_price (sv_voucher sv)"
  by (simp_all add: presigned_next_def Let_def opened_def)

lemma anchor_voucherI:
  "v_pool_id v = pool_id s \<Longrightarrow> v_signer v = signer s \<Longrightarrow> v_provider v = provider s \<Longrightarrow>
   v_amount v = last_amount s \<Longrightarrow> v_bytes_delivered v = last_bytes_delivered s \<Longrightarrow>
   v_chain_root v = chain_root (chain s) \<Longrightarrow> v_chunk_price v = chunk_price (chain s) \<Longrightarrow>
   v = anchor_voucher s"
  by (simp add: anchor_voucher_def)

lemma claim_backedI:
  assumes "verify_forward keccak (tip (chain s)) (verified_index (chain s)) (chain_root (chain s))"
    and "verify_signer A sv (signer s) domain = Inr ()"
    and "last_signature s = Some (as_bytes A (sv_signature sv))"
    and "sv_voucher sv = anchor_voucher s"
  shows "claim_backed A domain keccak s"
  using assms by (auto simp: claim_backed_def)

lemma clamp_to_registration_fields:
  assumes "clamp_to_registration s c e = (changed, s')"
  shows "s' = s\<lparr>cap := cap s', expiry := expiry s', registered_until := registered_until s'\<rparr>"
    and "cap s' \<le> cap s" and "cap s' \<le> ucast c" and "registered_until s \<le> registered_until s'"
    and "expiry s' \<noteq> 0" and "expiry s \<noteq> 0 \<Longrightarrow> expiry s' \<le> expiry s" and "expiry s' \<le> max e 1"
  using assms
  by (auto simp: clamp_to_registration_def Let_def min_def max_def word_le_nat_alt
      word_unat_eq_iff split: if_splits)

lemma clampE:
  assumes "clamp_to_registration s c e = (changed, s')"
  obtains c' e' r' where "s' = s\<lparr>cap := c', expiry := e', registered_until := r'\<rparr>"
  using clamp_to_registration_fields(1) [OF assms] by blast

lemma claim_backed_step:
  assumes "lane_step A domain keccak rate s s'" and "claim_backed A domain keccak s"
  shows "claim_backed A domain keccak s'"
  using assms
proof (cases rule: lane_step.cases)
  case (accept sv applied)
  note st = stage_voucher_Inr [OF accept(2)]
  have nxt: "s' = presigned_next A s sv"
    using st(4) by (simp add: advance_presigned_Inr_iff)
  show ?thesis
  proof (rule claim_backedI)
    show "verify_forward keccak (tip (chain s')) (verified_index (chain s')) (chain_root (chain s'))"
      using assms(2)
      by (auto simp: nxt presigned_next_def Let_def opened_def claim_backed_def verify_forward_def)
    show "verify_signer A sv (signer s') domain = Inr ()" using st(3) by (simp add: nxt)
    show "last_signature s' = Some (as_bytes A (sv_signature sv))" by (simp add: nxt)
    show "sv_voucher sv = anchor_voucher s'"
      using accept(1) by (intro anchor_voucherI) (simp_all add: nxt lane_voucher_def)
  qed
next
  case (adopt sv)
  from adopt(3) show ?thesis
  proof (cases rule: adopt_chain_Some_cases)
    case anchor
    then show ?thesis using assms(2) by (simp add: claim_backed_def NONE_chain_def)
  next
    case root
    show ?thesis
    proof (rule claim_backedI)
      show "verify_signer A sv (signer s') domain = Inr ()" using adopt(2) root(6) by simp
      show "sv_voucher sv = anchor_voucher s'"
        using adopt(1) root by (intro anchor_voucherI) (simp_all add: lane_voucher_def opened_def)
    qed (simp_all add: root(6) opened_def verify_forward_def)
  qed
next
  case (reveal index preimage walked ok root applied)
  from reveal(2,1) show ?thesis
  proof (cases rule: advance_preimage_verified_Inr_cases)
    case covered
    then show ?thesis using assms(2) by simp
  next
    case advance
    have "verify_forward keccak preimage index (chain_root (chain s))"
    proof (rule verify_forward_trans [OF advance(4)])
      show "verify_forward keccak (tip (chain s)) (verified_index (chain s)) (chain_root (chain s))"
        using assms(2) by (simp add: claim_backed_def)
      show "unat index = unat (verified_index (chain s)) + unat (index - verified_index (chain s))"
        using advance(3) by (simp add: unat_sub_exact word_less_nat_alt word_le_nat_alt)
    qed
    then show ?thesis
      using assms(2) advance(1,2)
      by (auto simp: claim_backed_def advance(5) NONE_chain_def anchor_voucher_def split: option.splits)
  qed
next
  case (clamp c e changed)
  then obtain c' e' r' where "s' = s\<lparr>cap := c', expiry := e', registered_until := r'\<rparr>"
    by (rule clampE)
  then show ?thesis
    using assms(2) by (auto simp: claim_backed_def anchor_voucher_def split: option.splits)
next
  case (redeemed p)
  then show ?thesis
    using assms(2) by (auto simp: claim_backed_def anchor_voucher_def split: option.splits)
qed

subsection \<open>The claim never shrinks\<close>

definition lane_inv ::
  "'sig alloy \<Rightarrow> eip712_domain \<Rightarrow> (b256 \<Rightarrow> b256) \<Rightarrow> u64 \<Rightarrow> lane_state \<Rightarrow> bool" where
  "lane_inv A domain keccak rate s \<longleftrightarrow>
     claim_backed A domain keccak s \<and> lane_wf s \<and>
     chunk_price (chain s) = quoted_price rate (chain_root (chain s))"

lemma quoted_price_wire [simp]: "unat (quoted_price rate root) < 18446744073709551616"
  using unat_below [of rate] by (simp add: quoted_price_def)

lemma fresh_lane_inv: "fresh_lane s \<Longrightarrow> lane_inv A domain keccak rate s"
  by (simp add: fresh_lane_def lane_inv_def claim_backed_def lane_wf_def NONE_chain_def
      quoted_price_def verify_forward_def)

lemma opened_fields [simp]:
  "chain_root (opened r p) = r" "chunk_price (opened r p) = p"
  "verified_index (opened r p) = 0" "tip (opened r p) = r"
  by (simp_all add: opened_def)

lemma lane_inv_step:
  assumes "lane_step A domain keccak rate s s'" and "lane_inv A domain keccak rate s"
  shows "lane_inv A domain keccak rate s'"
proof -
  have "lane_wf s' \<and> chunk_price (chain s') = quoted_price rate (chain_root (chain s'))"
    using assms(1)
  proof (cases rule: lane_step.cases)
    case (accept sv applied)
    then have "s' = presigned_next A s sv"
      by (auto dest!: stage_voucher_Inr(4) simp: advance_presigned_Inr_iff)
    then show ?thesis
      using accept(1)
      by (simp add: lane_wf_def lane_voucher_def wire_voucher_def)
  next
    case (adopt sv)
    from adopt(3) show ?thesis
      using adopt(1) assms(2)
      by (cases rule: adopt_chain_Some_cases)
         (simp_all add: lane_wf_def lane_voucher_def wire_voucher_def lane_inv_def)
  next
    case (reveal index preimage walked ok root applied)
    from reveal(2,1) show ?thesis
      using assms(2)
      by (cases rule: advance_preimage_verified_Inr_cases) (simp_all add: lane_inv_def lane_wf_def)
  next
    case (clamp c e changed)
    then obtain c' e' r' where "s' = s\<lparr>cap := c', expiry := e', registered_until := r'\<rparr>"
      by (rule clampE)
    then show ?thesis using assms(2) by (simp add: lane_inv_def lane_wf_def)
  next
    case (redeemed p)
    then show ?thesis using assms(2) by (simp add: lane_inv_def lane_wf_def)
  qed
  with assms claim_backed_step show ?thesis by (auto simp: lane_inv_def)
qed

lemma lane_reachable_inv: "lane_reachable A domain keccak rate s \<Longrightarrow> lane_inv A domain keccak rate s"
  by (induction rule: lane_reachable.induct) (auto intro: fresh_lane_inv lane_inv_step)

text \<open>Accepting a voucher keeps the claim growing, on both axes.\<close>

lemma presigned_next_owed:
  assumes "presigned_ok s (sv_voucher sv)" and "lane_wf s" and "wire_voucher (sv_voucher sv)"
    and "v_chain_root (sv_voucher sv) = chain_root (chain s) \<Longrightarrow>
           chunk_price (chain s) \<le> v_chunk_price (sv_voucher sv)"
  shows "owed s \<le> owed (presigned_next A s sv)" "owed_bytes s \<le> owed_bytes (presigned_next A s sv)"
proof -
  let ?s' = "presigned_next A s sv"
  have wf': "lane_wf ?s'" using assms(3) by (simp add: lane_wf_def wire_voucher_def)
  have idx: "unat (verified_index (chain ?s')) = unat (verified_index (chain s))"
    if "v_chain_root (sv_voucher sv) = chain_root (chain s)"
    using that by (simp add: presigned_next_def Let_def)
  show "owed s \<le> owed ?s'"
  proof (cases "v_chain_root (sv_voucher sv) = chain_root (chain s)")
    case True
    have "unat (chunk_price (chain s)) * unat (verified_index (chain s))
            \<le> unat (v_chunk_price (sv_voucher sv)) * unat (verified_index (chain s))"
      using assms(4) [OF True] unfolding word_le_nat_alt by (rule mult_le_mono1)
    moreover have "unat (last_amount s) \<le> unat (v_amount (sv_voucher sv))"
      using assms(1) by (simp add: presigned_ok_def word_order_nat)
    moreover have "unat (owed ?s') =
        unat (v_amount (sv_voucher sv)) + unat (v_chunk_price (sv_voucher sv)) * unat (verified_index (chain s))"
      by (simp add: owed_nat [OF wf'] idx [OF True])
    moreover have "unat (owed s)
        \<le> unat (last_amount s) + unat (chunk_price (chain s)) * unat (verified_index (chain s))"
      by (simp add: owed_nat [OF assms(2)])
    ultimately show ?thesis
      unfolding word_le_nat_alt by linarith
  next
    case False
    with assms(1) show ?thesis
      by (auto simp: word_order_nat owed_nat [OF assms(2)] owed_nat [OF wf'] presigned_ok_def)
  qed
  show "owed_bytes s \<le> owed_bytes ?s'"
  proof (cases "v_chain_root (sv_voucher sv) = chain_root (chain s)")
    case True
    with assms(1) show ?thesis
      by (simp add: word_order_nat owed_bytes_nat [OF assms(2)] owed_bytes_nat [OF wf'] idx presigned_ok_def)
  next
    case False
    with assms(1) show ?thesis
      by (auto simp: word_order_nat owed_bytes_nat [OF assms(2)] owed_bytes_nat [OF wf'] presigned_ok_def)
  qed
qed

lemma owed_congs:
  "last_amount s' = last_amount s \<Longrightarrow> last_bytes_delivered s' = last_bytes_delivered s \<Longrightarrow>
   last_signature s' = last_signature s \<Longrightarrow> chain s' = chain s \<Longrightarrow>
   owed s' = owed s \<and> owed_bytes s' = owed_bytes s"
  by (simp add: owed_def owed_bytes_def live_claim_def)

lemma owed_mono_step:
  assumes step: "lane_step A domain keccak rate s s'" and inv: "lane_inv A domain keccak rate s"
  shows "owed s \<le> owed s' \<and> owed_bytes s \<le> owed_bytes s'"
proof -
  have wf: "lane_wf s" using inv by (simp add: lane_inv_def)
  have wf': "lane_wf s'" using lane_inv_step [OF step inv] by (simp add: lane_inv_def)
  from step show ?thesis
  proof (cases rule: lane_step.cases)
    case (accept sv applied)
    then have "s' = presigned_next A s sv" and ok: "presigned_ok s (sv_voucher sv)"
      by (auto dest!: stage_voucher_Inr(4) simp: advance_presigned_Inr_iff)
    then show ?thesis
      using presigned_next_owed [OF ok wf] accept(1) inv by (simp add: lane_voucher_def lane_inv_def)
  next
    case (adopt sv)
    from adopt(3) show ?thesis
      unfolding word_order_nat owed_nat [OF wf] owed_nat [OF wf'] owed_bytes_nat [OF wf]
        owed_bytes_nat [OF wf']
      by (cases rule: adopt_chain_Some_cases) simp_all
  next
    case (reveal index preimage walked ok root applied)
    from reveal(2,1) show ?thesis
      unfolding word_order_nat owed_nat [OF wf] owed_nat [OF wf'] owed_bytes_nat [OF wf]
        owed_bytes_nat [OF wf']
      by (cases rule: advance_preimage_verified_Inr_cases) (simp_all add: word_less_nat_alt)
  next
    case (clamp c e changed)
    then obtain c' e' r' where "s' = s\<lparr>cap := c', expiry := e', registered_until := r'\<rparr>"
      by (rule clampE)
    then show ?thesis using owed_congs [of s' s] by simp
  next
    case (redeemed p)
    then show ?thesis using owed_congs [of s' s] by simp
  qed
qed

subsection \<open>The cap, replay and honest reveals\<close>

lemma sat_add_le_exact:
  assumes "sat_add a b \<le> (c :: 'a::len word)" and "unat a + unat b < 2 ^ LENGTH('a) - 1"
  shows "unat a + unat b \<le> unat c"
  using assms by (simp add: word_le_nat_alt unat_sat_add)

lemma claim_sum_small:
  assumes "unat (a :: u256) < 2 ^ 64" and "unat (chunk_price c) < 2 ^ 64"
  shows "unat a + unat (accrued c) < 2 ^ LENGTH(256) - 1"
  using assms accrued_nat(2) [OF assms(2)] by simp

lemma claim_within_cap:
  assumes "sat_add a (accrued c) \<le> (k :: u256)" and "unat a < 2 ^ 64" and "unat (chunk_price c) < 2 ^ 64"
  shows "unat a + unat (chunk_price c) * unat (verified_index c) \<le> unat k"
  using sat_add_le_exact [OF assms(1) claim_sum_small [OF assms(2,3)]] accrued_nat(1) [OF assms(3)]
  by simp

lemma presigned_next_cap:
  assumes ok: "presigned_ok s (sv_voucher sv)" and wire: "wire_voucher (sv_voucher sv)"
  shows "owed (presigned_next A s sv) \<le> cap s"
proof -
  let ?s' = "presigned_next A s sv"
  have wf': "lane_wf ?s'" using wire by (simp add: lane_wf_def wire_voucher_def)
  show ?thesis
  proof (cases "v_chain_root (sv_voucher sv) = chain_root (chain s)")
    case True
    then have "sat_add (v_amount (sv_voucher sv)) (accrued (chain ?s')) \<le> cap s"
      using ok by (simp add: presigned_ok_def presigned_next_def Let_def)
    from claim_within_cap [OF this] show ?thesis
      using wire by (simp add: word_le_nat_alt owed_nat [OF wf'] wire_voucher_def)
  next
    case False
    with ok show ?thesis
      by (simp add: word_le_nat_alt owed_nat [OF wf'] presigned_ok_def)
         (simp add: presigned_next_def Let_def)
  qed
qed

lemma owed_cap_step:
  assumes step: "lane_step A domain keccak rate s s'" and inv: "lane_inv A domain keccak rate s"
  shows "owed s' \<le> cap s' \<or> owed s' = owed s"
proof -
  have wf: "lane_wf s" using inv by (simp add: lane_inv_def)
  have wf': "lane_wf s'" using lane_inv_step [OF step inv] by (simp add: lane_inv_def)
  from step show ?thesis
  proof (cases rule: lane_step.cases)
    case (accept sv applied)
    then have "s' = presigned_next A s sv" and "presigned_ok s (sv_voucher sv)"
      by (auto dest!: stage_voucher_Inr(4) simp: advance_presigned_Inr_iff)
    then show ?thesis
      using presigned_next_cap [of s sv A] accept(1) by (auto simp: lane_voucher_def)
  next
    case (adopt sv)
    have "unat (owed s') = unat (owed s)"
      unfolding owed_nat [OF wf] owed_nat [OF wf']
      using adopt(3) inv
      by (cases rule: adopt_chain_Some_cases)
         (auto simp: lane_inv_def claim_backed_def NONE_chain_def)
    then show ?thesis by (simp add: word_unat_eq_iff)
  next
    case (reveal index preimage walked ok root applied)
    from reveal(2,1) show ?thesis
    proof (cases rule: advance_preimage_verified_Inr_cases)
      case covered
      then show ?thesis by simp
    next
      case advance
      then have "cap s' = cap s" by simp
      have "unat (owed s') \<le> unat (cap s)"
        unfolding owed_nat [OF wf']
        using claim_within_cap [OF advance(6)] wf by (simp add: advance(5) lane_wf_def)
      with \<open>cap s' = cap s\<close> show ?thesis by (simp add: word_le_nat_alt)
    qed
  next
    case (clamp c e changed)
    then obtain c' e' r' where "s' = s\<lparr>cap := c', expiry := e', registered_until := r'\<rparr>"
      by (rule clampE)
    then show ?thesis using owed_congs [of s' s] by simp
  next
    case (redeemed p)
    then show ?thesis using owed_congs [of s' s] by simp
  qed
qed

lemma last_amount_mono_step:
  assumes "lane_step A domain keccak rate s s'" and "lane_inv A domain keccak rate s"
  shows "last_amount s \<le> last_amount s'"
  using assms(1)
proof (cases rule: lane_step.cases)
  case (accept sv applied)
  then have "s' = presigned_next A s sv" and "presigned_ok s (sv_voucher sv)"
    by (auto dest!: stage_voucher_Inr(4) simp: advance_presigned_Inr_iff)
  then show ?thesis by (auto simp: presigned_ok_def)
next
  case (adopt sv)
  from adopt(3) show ?thesis
    using assms(2)
    by (cases rule: adopt_chain_Some_cases) (auto simp: lane_inv_def claim_backed_def)
next
  case (reveal index preimage walked ok root applied)
  from reveal(2,1) show ?thesis
    by (cases rule: advance_preimage_verified_Inr_cases) simp_all
next
  case (clamp c e changed)
  then show ?thesis by (rule clampE) simp
next
  case (redeemed p)
  then show ?thesis by simp
qed

definition honest_tip :: "(b256 \<Rightarrow> b256) \<Rightarrow> b256 \<Rightarrow> lane_state \<Rightarrow> bool" where
  "honest_tip keccak seed s \<longleftrightarrow>
     chain_root (chain s) = root_from_seed keccak seed \<and>
     tip (chain s) = preimage_at keccak seed (verified_index (chain s))"

lemma advance_preimage_eq:
  "advance_preimage keccak s root index preimage
     = advance_preimage_verified keccak s root index preimage None ok"
  unfolding advance_preimage_def Let_def
  by (rule advance_preimage_verified_walk_irrelevant [OF truthful_frontier]) (simp add: truthful_walk_def)

lemma honest_reveal:
  assumes "lane_wf s" and "last_signature s \<noteq> None" and "honest_tip keccak seed s"
    and "chain_root (chain s) \<noteq> 0" and "verified_index (chain s) < index"
    and "unat (last_amount s) + unat (chunk_price (chain s)) * unat index \<le> unat (cap s)"
  shows "\<exists>s' applied. advance_preimage keccak s (chain_root (chain s)) index (preimage_at keccak seed index)
            = Inr (s', applied) \<and> pa_advanced applied \<and>
          s' = s\<lparr>chain := (chain s)\<lparr>verified_index := index, tip := preimage_at keccak seed index\<rparr>\<rparr> \<and>
          honest_tip keccak seed s' \<and>
          unat (owed s') = unat (owed s)
            + unat (chunk_price (chain s)) * (unat index - unat (verified_index (chain s)))"
proof -
  let ?p = "preimage_at keccak seed index"
  let ?c' = "(chain s)\<lparr>verified_index := index, tip := ?p\<rparr>"
  let ?s' = "s\<lparr>chain := ?c'\<rparr>"
  have vf: "verify_forward keccak ?p (index - verified_index (chain s)) (tip (chain s))"
    using assms(3,5) preimage_at_forward [of "verified_index (chain s)" index] by (simp add: honest_tip_def)
  have "unat (accrued ?c') = unat (chunk_price (chain s)) * unat index"
    using assms(1) accrued_nat(1) [of ?c'] by (simp add: lane_wf_def)
  then have capped: "\<not> cap s < sat_add (last_amount s) (accrued ?c')"
    using assms(6) by (simp add: word_less_nat_alt not_less unat_sat_add)
  define d where "d = index - verified_index (chain s)"
  have d: "unat d = unat index - unat (verified_index (chain s))" "0 < unat d"
    using assms(5) by (simp_all add: d_def unat_sub_exact word_order_nat)
  let ?app = "\<lparr>pa_amount_delta = chunk_price (chain s) * ucast d, pa_bytes_delta = ucast CHUNK_BYTES * ucast d\<rparr>"
  have eq: "advance_preimage keccak s (chain_root (chain s)) index ?p = Inr (?s', ?app)"
    using assms(4,5) vf capped
    by (simp add: advance_preimage_eq [where ok = True] advance_preimage_verified_eq truthful_walk_def
        Let_def d_def not_le)
  have "unat (pa_bytes_delta ?app) = 1048576 * unat d"
    using unat_below [of d] by (simp add: unat_mult_exact)
  then have adv: "pa_advanced ?app" using d(2) by (auto simp: pa_advanced_def)
  have "lane_wf ?s'" using assms(1) by (simp add: lane_wf_def)
  then have "unat (owed ?s') = unat (owed s) + unat (chunk_price (chain s)) * unat d"
    using assms(2,5) by (auto simp: owed_nat assms(1) d(1) word_less_nat_alt diff_mult_distrib2)
  moreover have "honest_tip keccak seed ?s'" using assms(3) by (simp add: honest_tip_def)
  ultimately show ?thesis using eq adv by (auto simp: d(1))
qed

lemma lane_steps_inv:
  assumes "(lane_step A domain keccak rate)\<^sup>*\<^sup>* s s'" and "lane_inv A domain keccak rate s"
  shows "lane_inv A domain keccak rate s'"
  using assms by (induction rule: rtranclp_induct) (auto intro: lane_inv_step)

lemma owed_mono_steps:
  assumes "(lane_step A domain keccak rate)\<^sup>*\<^sup>* s s'" and "lane_inv A domain keccak rate s"
  shows "owed s \<le> owed s' \<and> owed_bytes s \<le> owed_bytes s'"
  using assms
proof (induction rule: rtranclp_induct)
  case (step y z)
  note inv = lane_steps_inv [OF step.hyps(1) step.prems]
  from owed_mono_step [OF step.hyps(2) inv] step show ?case by (auto intro: order_trans)
qed simp

lemma cap_step:
  assumes "lane_step A domain keccak rate s s'"
  shows "cap s' \<le> cap s"
  using assms
proof (cases rule: lane_step.cases)
  case (accept sv applied)
  then show ?thesis by (auto dest!: stage_voucher_Inr(4) simp: advance_presigned_Inr_iff)
next
  case (adopt sv)
  from adopt(3) show ?thesis by (cases rule: adopt_chain_Some_cases) simp_all
next
  case (reveal index preimage walked ok root applied)
  from reveal(2,1) show ?thesis by (cases rule: advance_preimage_verified_Inr_cases) simp_all
next
  case (clamp c e changed)
  then show ?thesis by (auto simp: clamp_to_registration_def Let_def)
qed simp

lemma owed_cap_steps:
  assumes "(lane_step A domain keccak rate)\<^sup>*\<^sup>* s s'" and "lane_inv A domain keccak rate s"
  shows "cap s' \<le> cap s \<and> (owed s' = owed s \<or> owed s' \<le> cap s)"
  using assms
proof (induction rule: rtranclp_induct)
  case (step y z)
  note inv = lane_steps_inv [OF step.hyps(1) step.prems]
  from owed_cap_step [OF step.hyps(2) inv] cap_step [OF step.hyps(2)] step
  show ?case by (metis order_trans)
qed simp

lemma last_amount_mono_steps:
  assumes "(lane_step A domain keccak rate)\<^sup>*\<^sup>* s s'" and "lane_inv A domain keccak rate s"
  shows "last_amount s \<le> last_amount s'"
  using assms
proof (induction rule: rtranclp_induct)
  case (step y z)
  note inv = lane_steps_inv [OF step.hyps(1) step.prems]
  from last_amount_mono_step [OF step.hyps(2) inv] step show ?case by (auto intro: order_trans)
qed simp

lemma apply_voucher_Inr:
  assumes "apply_voucher A domain rec st s sv = (Inr applied, s', st')"
  shows "stage_voucher A domain s sv = Inr (s', applied)" and "rec st s' = (Inr (), st')"
  using assms by (auto simp: apply_voucher_def split: sum.splits prod.splits)

subsection \<open>A concrete instance\<close>

text \<open>
  A signature scheme in which a signature is the signer's address and an additive hash: enough
  to run the definitions. It instantiates the parameters in the worked examples below.
\<close>

definition demo_alloy :: "address alloy" where
  "demo_alloy = \<lparr>eip712_signing_hash = (\<lambda>sol _. sol_amount sol), normalize_s = (\<lambda>_. None),
     recover_address_from_prehash = (\<lambda>a _. Some a), as_bytes = (\<lambda>_. [])\<rparr>"

definition demo_domain :: eip712_domain where
  "demo_domain = voucher_domain 421614 9"

definition demo_keccak :: "b256 \<Rightarrow> b256" where
  "demo_keccak x = x + 1"

definition demo_lane :: lane_state where
  "demo_lane = hydrate 1 7 8 1000 5000 0 0 None NONE_chain"

definition demo_voucher :: "u256 \<Rightarrow> u256 \<Rightarrow> b256 \<Rightarrow> address signed_voucher" where
  "demo_voucher amount bytes root =
     \<lparr>sv_voucher = \<lparr>v_pool_id = 1, v_signer = 7, v_provider = 8, v_amount = amount,
                    v_bytes_delivered = bytes, v_chain_root = root,
                    v_chunk_price = (if root = 0 then 0 else 10)\<rparr>,
      sv_signature = 7\<rparr>"

definition demo_lane1 :: lane_state where
  "demo_lane1 = presigned_next demo_alloy demo_lane (demo_voucher 10 1048576 355)"

definition demo_lane2 :: lane_state where
  "demo_lane2 = demo_lane1\<lparr>chain := (chain demo_lane1)\<lparr>verified_index := 2, tip := 353\<rparr>\<rparr>"

lemmas demo_defs = demo_alloy_def demo_domain_def demo_keccak_def demo_lane_def demo_voucher_def
  demo_lane1_def demo_lane2_def hydrate_def NONE_chain_def

lemma demo_lane_fresh: "fresh_lane demo_lane"
  by (simp add: fresh_lane_def demo_defs)

lemma demo_stage1:
  "stage_voucher demo_alloy demo_domain demo_lane (demo_voucher 10 1048576 355)
     = Inr (demo_lane1, \<lparr>va_amount_delta = 10, va_bytes_delta = 1048576\<rparr>)"
  by (simp add: stage_voucher_def verify_signer_def recover_signer_def is_high_s_def
      advance_presigned_def live_claim_def presigned_next_def Let_def demo_defs)

lemma demo_step1: "lane_step demo_alloy demo_domain demo_keccak 10 demo_lane demo_lane1"
  by (rule lane_step.accept [OF _ demo_stage1])
     (simp add: lane_voucher_def wire_voucher_def quoted_price_def demo_defs)

lemma demo_reveal:
  "advance_preimage demo_keccak demo_lane1 355 2 353
     = Inr (demo_lane2, \<lparr>pa_amount_delta = 20, pa_bytes_delta = 2097152\<rparr>)"
  by (simp add: advance_preimage_eq [where ok = True] advance_preimage_verified_def chain_slot_def
      verify_forward_def hash_forward_def upt_rec sat_add_def accrued_def presigned_next_def Let_def
      CHUNK_BYTES_def MB_BYTES_def opened_def demo_defs)

lemma demo_reachable1: "lane_reachable demo_alloy demo_domain demo_keccak 10 demo_lane1"
  by (rule lane_reachable.step [OF lane_reachable.fresh [OF demo_lane_fresh] demo_step1])

lemma demo_step2: "lane_step demo_alloy demo_domain demo_keccak 10 demo_lane1 demo_lane2"
  by (rule lane_step.reveal [where walked = None and ok = True,
        OF _ demo_reveal [unfolded advance_preimage_eq [where ok = True]]])
     (simp add: truthful_walk_def)

subsection \<open>Properties\<close>

text \<open>
  C1. Whatever steps a lane has taken since it was registered, the claim it would redeem is
  backed: its signature is one that the lane's signer made over exactly the anchor's pool,
  signer, provider, amount, bytes, root and price, its tip hashes forward to the committed root
  in \<open>verified_index\<close> steps, and its meter packs into the on-chain word.
\<close>

theorem lane_claim_redeemable:
  assumes "lane_reachable A domain keccak rate s" and "live_claim s = Some c"
  shows "(\<exists>sv. verify_signer A sv (signer s) domain = Inr () \<and>
            as_bytes A (sv_signature sv) = rc_signature c \<and> sv_voucher sv = anchor_voucher s) \<and>
         hash_forward keccak (tip (rc_chain c)) (verified_index (rc_chain c)) = chain_root (rc_chain c) \<and>
         (\<exists>w. claim_chain_meter c = Inr w \<and> drop_bit 8 w = chunk_price (rc_chain c))"
proof -
  have inv: "lane_inv A domain keccak rate s" by (rule lane_reachable_inv [OF assms(1)])
  obtain sig where c: "last_signature s = Some sig"
    "c = \<lparr>rc_amount = last_amount s, rc_bytes_delivered = last_bytes_delivered s,
          rc_signature = sig, rc_chain = chain s\<rparr>"
    using assms(2) by (auto simp: live_claim_Some)
  have "claim_chain_meter c \<noteq> Inl PriceExceedsWireWidth"
    using inv by (simp add: claim_chain_meter_def pack_chain_meter_error_iff c lane_inv_def not_le)
  then obtain w where "claim_chain_meter c = Inr w"
    by (cases "claim_chain_meter c") (metis chain_meter_error.exhaust)+
  then show ?thesis
    using inv c by (auto simp: lane_inv_def claim_backed_def verify_forward_def claim_chain_meter_def
        dest: pack_chain_meter_price)
qed

theorem lane_claim_redeemable_witness:
  "\<exists>c. live_claim demo_lane1 = Some c \<and>
     (\<exists>sv. verify_signer demo_alloy sv (signer demo_lane1) demo_domain = Inr () \<and>
        as_bytes demo_alloy (sv_signature sv) = rc_signature c \<and> sv_voucher sv = anchor_voucher demo_lane1)"
proof -
  obtain c where c: "live_claim demo_lane1 = Some c"
    by (simp add: live_claim_def presigned_next_def Let_def demo_lane1_def)
  show ?thesis using c lane_claim_redeemable [OF demo_reachable1 c] by blast
qed

text \<open>
  C2. While the node quotes one rate, a lane's claim never shrinks, on either axis: no sequence of
  accepted vouchers that name this rate, adopted chains, folded reveals, registration clamps and
  observed redemptions lowers what the node is owed or the bytes it was paid for. The rate is
  configuration, and a lane may outlive a change of it: what a voucher at another rate does is
  \<open>same_root_voucher_reprices\<close>.
\<close>

theorem lane_claim_never_shrinks:
  assumes "lane_reachable A domain keccak rate s" and "(lane_step A domain keccak rate)\<^sup>*\<^sup>* s s'"
  shows "owed s \<le> owed s' \<and> owed_bytes s \<le> owed_bytes s'"
  using owed_mono_steps [OF assms(2) lane_reachable_inv [OF assms(1)]] .

theorem lane_claim_never_shrinks_witness:
  "owed demo_lane1 \<le> owed demo_lane2 \<and> owed_bytes demo_lane1 \<le> owed_bytes demo_lane2"
  by (rule lane_claim_never_shrinks [OF demo_reachable1 r_into_rtranclp [where r = "lane_step _ _ _ _"]])
     (rule demo_step2)

text \<open>
  C3. The capability's cap binds the whole claim and not only the signed amount. From a lane whose
  claim is within its cap (a new lane, which claims nothing) no sequence of steps takes the claim
  past that cap, and every step that changes the claim leaves it within the cap the lane then
  holds. A clamp to the registration may lower the cap of a lane below what it is owed already;
  such a lane keeps its claim and takes no more.
\<close>

theorem lane_claim_capped:
  assumes "lane_reachable A domain keccak rate s" and "owed s \<le> cap s"
    and "(lane_step A domain keccak rate)\<^sup>*\<^sup>* s s'"
  shows "owed s' \<le> cap s \<and>
         (\<forall>s''. lane_step A domain keccak rate s' s'' \<longrightarrow> owed s'' = owed s' \<or> owed s'' \<le> cap s'')"
proof -
  note inv = lane_reachable_inv [OF assms(1)]
  have "owed s' \<le> cap s" using owed_cap_steps [OF assms(3) inv] assms(2) by auto
  then show ?thesis using owed_cap_step lane_steps_inv [OF assms(3) inv] by blast
qed

lemma demo_owed: "owed demo_lane = 0" "owed demo_lane1 = 10" "owed demo_lane2 = 30"
  by (simp_all add: owed_def live_claim_def claim_value_def accrued_def presigned_next_def Let_def
      opened_def demo_defs)

theorem lane_claim_capped_witness: "owed demo_lane2 = 30 \<and> owed demo_lane2 \<le> cap demo_lane"
proof -
  have "(lane_step demo_alloy demo_domain demo_keccak 10)\<^sup>*\<^sup>* demo_lane demo_lane2"
    using demo_step1 demo_step2 by auto
  from lane_claim_capped [OF lane_reachable.fresh [OF demo_lane_fresh] _ this] show ?thesis
    by (simp add: demo_owed)
qed

text \<open>
  C40. What a change of the rate does to a lane that outlives it. A voucher at the new rate that
  names the lane's root again re-prices the whole kept frontier: the node is then owed the
  voucher's amount and the new rate for every chunk revealed so far, and its claim falls exactly
  when the amount grew by less than the frontier lost. A node restarted with a lower rate thus
  takes a voucher that lowers its claim for chunks it served at the old one.
\<close>

theorem same_root_voucher_reprices:
  assumes "lane_reachable A domain keccak rate s" and "last_signature s \<noteq> None"
    and "lane_voucher rate' s (sv_voucher sv)"
    and "v_chain_root (sv_voucher sv) = chain_root (chain s)" and "chain_root (chain s) \<noteq> 0"
    and "stage_voucher A domain s sv = Inr (s', applied)"
  shows "let i = unat (verified_index (chain s)) in
         unat (owed s) = unat (last_amount s) + unat rate * i \<and>
         unat (owed s') = unat (v_amount (sv_voucher sv)) + unat rate' * i \<and>
         (owed s' < owed s \<longleftrightarrow>
            unat (v_amount (sv_voucher sv)) + unat rate' * i < unat (last_amount s) + unat rate * i)"
proof -
  note inv = lane_reachable_inv [OF assms(1)]
  have wf: "lane_wf s" and price: "chunk_price (chain s) = ucast rate"
    using inv assms(2,5) by (auto simp: lane_inv_def quoted_price_def)
  have nxt: "s' = presigned_next A s sv"
    using assms(6) by (auto dest!: stage_voucher_Inr(4) simp: advance_presigned_Inr_iff)
  have "lane_wf s'" using assms(3) by (simp add: nxt lane_wf_def lane_voucher_def wire_voucher_def)
  from owed_nat [OF this] owed_nat [OF wf] show ?thesis
    using assms(2-5) price
    by (simp add: nxt presigned_next_def lane_voucher_def quoted_price_def Let_def word_less_nat_alt)
qed

lemma demo_reprice:
  "stage_voucher demo_alloy demo_domain demo_lane2
     ((demo_voucher 11 1048576 355)\<lparr>sv_voucher := (sv_voucher (demo_voucher 11 1048576 355))\<lparr>v_chunk_price := 5\<rparr>\<rparr>)
   = Inr (presigned_next demo_alloy demo_lane2
       ((demo_voucher 11 1048576 355)\<lparr>sv_voucher := (sv_voucher (demo_voucher 11 1048576 355))\<lparr>v_chunk_price := 5\<rparr>\<rparr>),
      \<lparr>va_amount_delta = 1, va_bytes_delta = 0\<rparr>)"
  by (simp add: stage_voucher_def verify_signer_def recover_signer_def is_high_s_def
      advance_presigned_def live_claim_def presigned_next_def opened_def accrued_def sat_add_def Let_def demo_defs)

theorem same_root_voucher_reprices_witness:
  "\<exists>sv s' applied. stage_voucher demo_alloy demo_domain demo_lane2 sv = Inr (s', applied) \<and>
     owed demo_lane2 = 30 \<and> unat (owed s') = 21 \<and> owed s' < owed demo_lane2"
proof -
  have r: "lane_reachable demo_alloy demo_domain demo_keccak 10 demo_lane2"
    by (rule lane_reachable.step [OF demo_reachable1 demo_step2])
  have "\<exists>s' applied. unat (owed s') = 21 \<and> owed s' < owed demo_lane2 \<and>
     stage_voucher demo_alloy demo_domain demo_lane2
     ((demo_voucher 11 1048576 355)\<lparr>sv_voucher := (sv_voucher (demo_voucher 11 1048576 355))\<lparr>v_chunk_price := 5\<rparr>\<rparr>)
     = Inr (s', applied)"
    using same_root_voucher_reprices [OF r _ _ _ _ demo_reprice, of 5] demo_reprice
    by (auto simp: lane_voucher_def wire_voucher_def quoted_price_def presigned_next_def opened_def Let_def demo_defs)
  then show ?thesis using demo_owed(3) by blast
qed

text \<open>
  C4. A voucher is accepted at most once. After it was accepted and recorded, no further step of
  the lane makes the same voucher acceptable again: the replay window stays closed.
\<close>

theorem voucher_never_accepted_twice:
  assumes "lane_reachable A domain keccak rate s" and "lane_voucher rate s (sv_voucher sv)"
    and "apply_voucher A domain rec st s sv = (Inr applied, s', st')"
    and "(lane_step A domain keccak rate)\<^sup>*\<^sup>* s' s''"
  shows "\<exists>e. apply_voucher A domain rec st'' s'' sv = (Inl e, s'', st'')"
proof -
  note st = apply_voucher_Inr(1) [OF assms(3)]
  have "lane_step A domain keccak rate s s'" by (rule lane_step.accept [OF assms(2) st])
  then have inv': "lane_inv A domain keccak rate s'"
    using lane_inv_step lane_reachable_inv [OF assms(1)] by blast
  have "last_amount s' = v_amount (sv_voucher sv)"
    using stage_voucher_Inr(4) [OF st] by (simp add: advance_presigned_Inr_iff)
  then have "v_amount (sv_voucher sv) \<le> last_amount s''"
    using last_amount_mono_steps [OF assms(4) inv'] by simp
  then have "stage_voucher A domain s'' sv \<noteq> Inr (t, a)" for t a
    using stage_voucher_Inr(4) [of A domain s'' sv t a]
    by (auto simp: advance_presigned_Inr_iff presigned_ok_def)
  then obtain e where "stage_voucher A domain s'' sv = Inl e"
    by (cases "stage_voucher A domain s'' sv") (auto simp: prod_eq_iff)
  then show ?thesis by (simp add: apply_voucher_def)
qed

theorem voucher_never_accepted_twice_witness:
  "\<exists>e. apply_voucher demo_alloy demo_domain (\<lambda>st s. (Inr (), s # st)) [] demo_lane2
         (demo_voucher 10 1048576 355) = (Inl e, demo_lane2, [])"
proof (rule voucher_never_accepted_twice
    [where s = demo_lane and s' = demo_lane1 and keccak = demo_keccak and rate = 10 and st = "[]"])
  show "lane_reachable demo_alloy demo_domain demo_keccak 10 demo_lane"
    by (rule lane_reachable.fresh [OF demo_lane_fresh])
  show "lane_voucher 10 demo_lane (sv_voucher (demo_voucher 10 1048576 355))"
    by (simp add: lane_voucher_def wire_voucher_def quoted_price_def demo_defs)
  show "apply_voucher demo_alloy demo_domain (\<lambda>st s. (Inr (), s # st)) [] demo_lane
          (demo_voucher 10 1048576 355)
        = (Inr \<lparr>va_amount_delta = 10, va_bytes_delta = 1048576\<rparr>, demo_lane1, [demo_lane1])"
    by (simp add: apply_voucher_def demo_stage1)
  show "(lane_step demo_alloy demo_domain demo_keccak 10)\<^sup>*\<^sup>* demo_lane1 demo_lane2"
    using demo_step2 by (rule r_into_rtranclp)
qed

text \<open>
  Hashing outside the lane's lock is safe. A reveal whose walk ran against any earlier snapshot
  \<open>s0\<close> of the lane, with the lock released in between, has exactly the outcome of a reveal
  hashed against the live lane in one critical section.
\<close>

theorem optimistic_walk_equivalent:
  "advance_preimage_verified keccak s root index preimage (preimage_frontier s0 root index)
     (case preimage_frontier s0 root index of
        Some (verified, t) \<Rightarrow> verify_forward keccak preimage (index - verified) t
      | None \<Rightarrow> False)
   = advance_preimage keccak s root index preimage"
  unfolding advance_preimage_def Let_def
  by (rule advance_preimage_verified_walk_irrelevant [OF truthful_frontier truthful_frontier])

text \<open>
  A rollover strands nothing. A voucher under a different root that the lane accepts signs for at
  least the whole claim of the chain it retires, on both axes, and the lane is then owed exactly
  the voucher's own figures.
\<close>

theorem rollover_folds_frontier:
  assumes "stage_voucher A domain s sv = Inr (s', applied)" and "last_signature s \<noteq> None"
    and "v_chain_root (sv_voucher sv) \<noteq> chain_root (chain s)"
  shows "owed s \<le> v_amount (sv_voucher sv) \<and> owed_bytes s \<le> v_bytes_delivered (sv_voucher sv) \<and>
         owed s' = v_amount (sv_voucher sv) \<and> owed_bytes s' = v_bytes_delivered (sv_voucher sv)"
proof -
  from stage_voucher_Inr(4) [OF assms(1)]
  have ok: "presigned_ok s (sv_voucher sv)" and nxt: "s' = presigned_next A s sv"
    by (simp_all add: advance_presigned_Inr_iff)
  have "owed s' = v_amount (sv_voucher sv)" "owed_bytes s' = v_bytes_delivered (sv_voucher sv)"
    using assms(3)
    by (simp_all add: nxt owed_def owed_bytes_def live_claim_def claim_value_def claim_bytes_value_def
        presigned_next_def Let_def accrued_def accrued_bytes_def)
  with ok assms(2,3) show ?thesis by (simp add: presigned_ok_def)
qed

lemma demo_stage3:
  "stage_voucher demo_alloy demo_domain demo_lane2 (demo_voucher 30 3145728 900)
     = Inr (presigned_next demo_alloy demo_lane2 (demo_voucher 30 3145728 900),
            \<lparr>va_amount_delta = 20, va_bytes_delta = 2097152\<rparr>)"
  by (simp add: stage_voucher_def verify_signer_def recover_signer_def is_high_s_def
      advance_presigned_def live_claim_def claim_value_def claim_bytes_value_def accrued_def
      accrued_bytes_def CHUNK_BYTES_def MB_BYTES_def presigned_next_def Let_def demo_defs opened_def)

theorem rollover_folds_frontier_witness:
  "owed demo_lane2 \<le> 30 \<and> owed_bytes demo_lane2 \<le> 3145728 \<and>
   owed (presigned_next demo_alloy demo_lane2 (demo_voucher 30 3145728 900)) = 30"
  using rollover_folds_frontier [OF demo_stage3]
  by (simp add: demo_voucher_def demo_lane2_def demo_lane1_def presigned_next_def Let_def opened_def)

text \<open>
  An honest payer's reveal is always accepted. On a lane metering the chain of a seed, releasing
  the preimage at any deeper index within the cap succeeds, raises what the lane is owed by
  exactly the price of the chunks between, and leaves the lane ready for the next reveal.
\<close>

theorem honest_reveal_accepted:
  assumes "lane_wf s" and "last_signature s \<noteq> None" and "honest_tip keccak seed s"
    and "chain_root (chain s) \<noteq> 0" and "verified_index (chain s) < index"
    and "unat (last_amount s) + unat (chunk_price (chain s)) * unat index \<le> unat (cap s)"
  shows "\<exists>s' applied. advance_preimage keccak s (chain_root (chain s)) index (preimage_at keccak seed index)
            = Inr (s', applied) \<and> pa_advanced applied \<and> honest_tip keccak seed s' \<and>
          unat (owed s') = unat (owed s)
            + unat (chunk_price (chain s)) * (unat index - unat (verified_index (chain s)))"
  using honest_reveal [OF assms] by (auto simp: honest_tip_def)

theorem honest_reveal_accepted_witness:
  "\<exists>s' applied. advance_preimage demo_keccak demo_lane1 355 2 353 = Inr (s', applied) \<and>
     pa_advanced applied \<and> unat (owed s') = unat (owed demo_lane1) + 10 * 2"
proof -
  have facts: "lane_wf demo_lane1" "last_signature demo_lane1 \<noteq> None" "chain_root (chain demo_lane1) = 355"
    "verified_index (chain demo_lane1) = 0" "chunk_price (chain demo_lane1) = 10" "tip (chain demo_lane1) = 355"
    "last_amount demo_lane1 = 10" "cap demo_lane1 = 1000"
    by (simp_all add: lane_wf_def presigned_next_def Let_def opened_def demo_defs)
  have pre: "hash_forward demo_keccak 100 n = 100 + of_nat (unat n)" for n
  proof -
    have "(demo_keccak ^^ k) v = v + of_nat k" for k v
      by (induction k) (simp_all add: demo_keccak_def)
    then show ?thesis by (simp add: hash_forward_funpow)
  qed
  have "honest_tip demo_keccak 100 demo_lane1" and p: "preimage_at demo_keccak 100 2 = 353"
    by (simp_all add: honest_tip_def facts preimage_at_def root_from_seed_def pre MAX_CHAIN_LENGTH_def)
  from honest_reveal_accepted [OF facts(1,2) this(1), of 2] show ?thesis
    by (auto simp: facts p)
qed

end
