(* ===== verification/Wire.thy ===== *)
theory Wire
  imports Lane
begin

text \<open>
  The payment messages of the \<open>cdn/client/v1\<close> protocol (\<open>src/crates/protocol/src/client.rs\<close>) and
  the bridge between them and the lane (\<open>src/crates/incentive/src/client_bridge.rs\<close>).

  Fixed-width byte arrays of the messages that hold a hash are words here. The parser of a raw
  signature is the third-party parameter \<open>from_raw\<close>.
\<close>

subsection \<open>Messages\<close>

definition VOUCHER_SIG_LEN :: nat where
  "VOUCHER_SIG_LEN = 65"

datatype message_validation_error = InvalidVoucherSigLen nat

record client_voucher =
  cv_signature :: "u8 list"
  cv_amount :: u64
  cv_bytes_delivered :: u64
  cv_chain_root :: b256
  cv_chunk_price :: u64

definition voucher_validate :: "client_voucher \<Rightarrow> message_validation_error + unit" where
  "voucher_validate wire =
     (if length (cv_signature wire) \<noteq> VOUCHER_SIG_LEN
      then Inl (InvalidVoucherSigLen (length (cv_signature wire))) else Inr ())"

record chunk_preimage =
  cp_preimage :: b256
  cp_index :: u8

record watermark_bundle =
  wb_amount :: u64
  wb_bytes_delivered :: u64
  wb_chain_root :: b256
  wb_verified_index :: u8
  wb_tip :: b256
  wb_chunk_price :: u64
  wb_last_signature :: "u8 list"

definition bundle_validate :: "watermark_bundle \<Rightarrow> message_validation_error + unit" where
  "bundle_validate b =
     (if length (wb_last_signature b) \<noteq> VOUCHER_SIG_LEN
      then Inl (InvalidVoucherSigLen (length (wb_last_signature b))) else Inr ())"

datatype reject_reason =
    BadSignature
  | WrongSigner
  | WrongPool
  | WrongProvider
  | AmountRegression
  | BytesRegression
  | SpendingCapExhausted
  | CapabilityExpired
  | PoolExhausted
  | SignerCapExhausted
  | BadPreimage
  | ChainIndexZero
  | UnanchoredPreimage
  | ChunkPriceMismatch
  | Underpaid
  | UnderFold

definition is_watermark_gated :: "reject_reason \<Rightarrow> bool" where
  "is_watermark_gated r \<longleftrightarrow>
     r \<in> {reject_reason.SpendingCapExhausted, reject_reason.AmountRegression,
          reject_reason.BytesRegression, reject_reason.Underpaid, reject_reason.UnderFold}"

fun refuses_proof :: "reject_reason \<Rightarrow> bool" where
  "refuses_proof reject_reason.PoolExhausted = False"
| "refuses_proof reject_reason.SignerCapExhausted = False"
| "refuses_proof _ = True"

datatype stream_error =
    NotFound
  | Declined
  | Unfunded
  | VoucherRejected (rejected_reason: reject_reason) (rejected_bundle: "watermark_bundle option")

definition is_mid_stream :: "stream_error \<Rightarrow> bool" where
  "is_mid_stream e \<longleftrightarrow> (case e of VoucherRejected _ _ \<Rightarrow> True | _ \<Rightarrow> False)"

definition is_delivery_side :: "stream_error \<Rightarrow> bool" where
  "is_delivery_side e \<longleftrightarrow> \<not> is_mid_stream e"

subsection \<open>The bridge\<close>

datatype wire_voucher_error = WireBadSignature | ValueExceedsWireWidth

datatype retry_signal = RetrySignal

definition wire_voucher_to_signed ::
  "(u8 list \<Rightarrow> 'sig option) \<Rightarrow> client_voucher \<Rightarrow> b256 \<Rightarrow> address \<Rightarrow> address
     \<Rightarrow> wire_voucher_error + 'sig signed_voucher" where
  "wire_voucher_to_signed from_raw wire pid sg prov =
     (case voucher_validate wire of
        Inl _ \<Rightarrow> Inl WireBadSignature
      | Inr _ \<Rightarrow>
          (case from_raw (cv_signature wire) of
             None \<Rightarrow> Inl WireBadSignature
           | Some sig \<Rightarrow>
               Inr \<lparr>sv_voucher = \<lparr>v_pool_id = pid, v_signer = sg, v_provider = prov,
                                   v_amount = ucast (cv_amount wire),
                                   v_bytes_delivered = ucast (cv_bytes_delivered wire),
                                   v_chain_root = cv_chain_root wire,
                                   v_chunk_price = ucast (cv_chunk_price wire)\<rparr>,
                    sv_signature = sig\<rparr>))"

definition signed_to_wire_voucher ::
  "'sig alloy \<Rightarrow> 'sig signed_voucher \<Rightarrow> wire_voucher_error + client_voucher" where
  "signed_to_wire_voucher A sv =
     (case u64_try_from (v_amount (sv_voucher sv)) of
        None \<Rightarrow> Inl ValueExceedsWireWidth
      | Some amount \<Rightarrow>
          (case u64_try_from (v_bytes_delivered (sv_voucher sv)) of
             None \<Rightarrow> Inl ValueExceedsWireWidth
           | Some bytes \<Rightarrow>
               (case u64_try_from (v_chunk_price (sv_voucher sv)) of
                  None \<Rightarrow> Inl ValueExceedsWireWidth
                | Some price \<Rightarrow>
                    Inr \<lparr>cv_signature = as_bytes A (sv_signature sv), cv_amount = amount,
                         cv_bytes_delivered = bytes, cv_chain_root = v_chain_root (sv_voucher sv),
                         cv_chunk_price = price\<rparr>)))"

fun voucher_reject_reason :: "pool_error \<Rightarrow> retry_signal + reject_reason" where
  "voucher_reject_reason (pool_error.WrongPool _ _) = Inr reject_reason.WrongPool"
| "voucher_reject_reason (pool_error.WrongProvider _ _) = Inr reject_reason.WrongProvider"
| "voucher_reject_reason (pool_error.AmountRegression _ _) = Inr reject_reason.AmountRegression"
| "voucher_reject_reason (pool_error.UnderFold _ _ _) = Inr reject_reason.UnderFold"
| "voucher_reject_reason (pool_error.BytesRegression _ _) = Inr reject_reason.BytesRegression"
| "voucher_reject_reason (pool_error.CapExceeded _ _) = Inr reject_reason.SpendingCapExhausted"
| "voucher_reject_reason (pool_error.BadPreimage _ _) = Inr reject_reason.BadPreimage"
| "voucher_reject_reason (pool_error.Signature InvalidSignature) = Inr reject_reason.BadSignature"
| "voucher_reject_reason (pool_error.Signature (voucher_error.WrongSigner _ _)) = Inr reject_reason.WrongSigner"
| "voucher_reject_reason (pool_error.Store _) = Inl RetrySignal"

subsection \<open>Lemmas\<close>

lemma u64_try_from_None: "u64_try_from x = None \<longleftrightarrow> 2 ^ 64 \<le> unat x"
  by (simp add: u64_try_from_def not_less)

lemma u64_try_from_ucast [simp]: "u64_try_from (ucast (w :: u64)) = Some w"
proof (cases "u64_try_from (ucast w)")
  case None
  then show ?thesis using unat_below [of w] by (simp add: u64_try_from_None unat_widen_u64)
next
  case (Some p)
  from u64_try_from_Some [OF Some] have "unat (ucast p :: u256) = unat (ucast w :: u256)" by simp
  then show ?thesis using Some by (simp add: unat_widen_u64 word_unat_eq_iff)
qed

lemma wire_voucher_to_signed_Inr:
  assumes "wire_voucher_to_signed from_raw wire pid sg prov = Inr sv"
  shows "length (cv_signature wire) = 65" and "from_raw (cv_signature wire) = Some (sv_signature sv)"
    and "sv_voucher sv = \<lparr>v_pool_id = pid, v_signer = sg, v_provider = prov,
           v_amount = ucast (cv_amount wire), v_bytes_delivered = ucast (cv_bytes_delivered wire),
           v_chain_root = cv_chain_root wire, v_chunk_price = ucast (cv_chunk_price wire)\<rparr>"
  using assms
  by (auto simp: wire_voucher_to_signed_def voucher_validate_def VOUCHER_SIG_LEN_def
      split: option.splits if_splits)

lemma wire_voucher_to_signed_wire:
  "wire_voucher_to_signed from_raw wire pid sg prov = Inr sv \<Longrightarrow> wire_voucher (sv_voucher sv)"
  using wire_voucher_to_signed_Inr(3) [of from_raw wire pid sg prov sv]
    unat_below [of "cv_amount wire"] unat_below [of "cv_bytes_delivered wire"] unat_below [of "cv_chunk_price wire"]
  by (simp add: wire_voucher_def unat_widen_u64)

lemma signed_to_wire_voucher_Inr:
  assumes "signed_to_wire_voucher A sv = Inr wire"
  shows "wire = \<lparr>cv_signature = as_bytes A (sv_signature sv), cv_amount = cv_amount wire,
      cv_bytes_delivered = cv_bytes_delivered wire, cv_chain_root = v_chain_root (sv_voucher sv),
      cv_chunk_price = cv_chunk_price wire\<rparr>"
    and "v_amount (sv_voucher sv) = ucast (cv_amount wire)"
    and "v_bytes_delivered (sv_voucher sv) = ucast (cv_bytes_delivered wire)"
    and "v_chunk_price (sv_voucher sv) = ucast (cv_chunk_price wire)"
  using assms by (auto simp: signed_to_wire_voucher_def split: option.splits dest!: u64_try_from_Some)

lemma signed_to_wire_voucher_Inl:
  "signed_to_wire_voucher A sv = Inl e \<Longrightarrow> e = ValueExceedsWireWidth \<and> \<not> wire_voucher (sv_voucher sv)"
  by (auto simp: signed_to_wire_voucher_def wire_voucher_def u64_try_from_None split: option.splits)

lemma signed_wire_roundtrip:
  assumes "\<And>g. length (as_bytes A g) = 65" and "\<And>g. from_raw (as_bytes A g) = Some g"
    and "signed_to_wire_voucher A sv = Inr wire"
  shows "wire_voucher (sv_voucher sv) \<and>
     wire_voucher_to_signed from_raw wire (v_pool_id (sv_voucher sv))
       (v_signer (sv_voucher sv)) (v_provider (sv_voucher sv)) = Inr sv"
proof -
  note w = signed_to_wire_voucher_Inr [OF assms(3)]
  have "wire_voucher_to_signed from_raw wire (v_pool_id (sv_voucher sv))
      (v_signer (sv_voucher sv)) (v_provider (sv_voucher sv)) = Inr sv"
    by (subst w(1)) (simp add: wire_voucher_to_signed_def voucher_validate_def VOUCHER_SIG_LEN_def
        assms flip: w(2-4))
  with wire_voucher_to_signed_wire [OF this] show ?thesis by simp
qed

subsection \<open>Properties\<close>

text \<open>
  C10. The bridge loses nothing: a signed voucher that encodes to the wire is rebuilt from it
  exactly, signature included, by a receiver that knows the pool, signer and provider; and
  encoding is refused, never truncated, exactly when a figure exceeds 64 bits.
\<close>

theorem wire_voucher_roundtrip:
  assumes "\<And>g. length (as_bytes A g) = 65" and "\<And>g. from_raw (as_bytes A g) = Some g"
  shows "case signed_to_wire_voucher A sv of
           Inl e \<Rightarrow> e = ValueExceedsWireWidth \<and> \<not> wire_voucher (sv_voucher sv)
         | Inr wire \<Rightarrow> wire_voucher (sv_voucher sv) \<and>
             wire_voucher_to_signed from_raw wire (v_pool_id (sv_voucher sv))
               (v_signer (sv_voucher sv)) (v_provider (sv_voucher sv)) = Inr sv"
  using signed_wire_roundtrip [OF assms] signed_to_wire_voucher_Inl
  by (fastforce split: sum.splits)

theorem wire_voucher_roundtrip_witness:
  "case signed_to_wire_voucher (demo_alloy\<lparr>as_bytes := (\<lambda>a. to_be_bytes 45 (0 :: u256) @ to_be_bytes 20 a)\<rparr>)
          (demo_voucher 10 1048576 355) of
     Inl e \<Rightarrow> False
   | Inr wire \<Rightarrow> wire_voucher_to_signed (\<lambda>bs. Some (from_be_bytes (drop 45 bs))) wire 1 7 8
                   = Inr (demo_voucher 10 1048576 355)"
proof -
  let ?A = "demo_alloy\<lparr>as_bytes := (\<lambda>a. to_be_bytes 45 (0 :: u256) @ to_be_bytes 20 a)\<rparr>"
  have "wire_voucher (sv_voucher (demo_voucher 10 1048576 355))"
    by (simp add: wire_voucher_def demo_voucher_def)
  moreover have "length (as_bytes ?A g) = 65" "(\<lambda>bs. Some (from_be_bytes (drop 45 bs))) (as_bytes ?A g) = Some g" for g
    by (simp_all add: from_to_be_bytes)
  note wire_voucher_roundtrip [where A = ?A and sv = "demo_voucher 10 1048576 355", OF this]
  ultimately show ?thesis
    by (auto simp: demo_voucher_def split: sum.splits)
qed

end
