(* ===== verification/Pool_Store.thy ===== *)
theory Pool_Store
  imports Lane
begin

text \<open>
  Persistence of lane state: the store interface and its in-memory reference
  (\<open>src/crates/incentive/src/store.rs\<close>) and the node's buffered, disk-backed store
  (\<open>src/crates/node/src/pool_store.rs\<close>).

  The locale \<open>lane_store\<close> states what a lane relies on: after a successful \<open>record\<close> a point
  lookup returns the recorded frontier, other lanes are untouched, and the two watermark
  setters touch only their own field. Both stores are interpreted in it.

  The disk-backed store keeps a working set, a work-list of changed keys, and the database
  table. A flush drains the work-list and snapshots the slots (\<open>flush_begin\<close>), then commits
  the snapshot in one transaction (\<open>flush_commit\<close>); other operations may run between the two.
  The record codec of the third-party package is the pair of parameters \<open>enc\<close> and \<open>dec\<close>, and
  the outcome of the database transaction is an argument.
\<close>

type_synonym 'st lane_get = "'st \<Rightarrow> lane_key \<Rightarrow> store_error + lane_state option"
type_synonym 'st lane_op = "'st \<Rightarrow> lane_key \<Rightarrow> (store_error + unit) \<times> 'st"

subsection \<open>The in-memory store\<close>

record mem_store =
  poisoned :: bool
  inner :: "(lane_key \<times> lane_state) list"

definition MemoryPoolStateStore_new :: mem_store where
  "MemoryPoolStateStore_new = \<lparr>poisoned = False, inner = []\<rparr>"

definition mem_poison_error :: store_error where
  "mem_poison_error =
     Backend ''memory store mutex poisoned: poisoned lock: another task failed inside''"

definition mem_len :: "mem_store \<Rightarrow> nat" where
  "mem_len st = (if poisoned st then 0 else length (inner st))"

definition mem_is_empty :: "mem_store \<Rightarrow> bool" where
  "mem_is_empty st \<longleftrightarrow> mem_len st = 0"

definition mem_load_all :: "mem_store \<Rightarrow> store_error + lane_state list" where
  "mem_load_all st = (if poisoned st then Inl mem_poison_error else Inr (map snd (inner st)))"

definition mem_record :: "mem_store record_op" where
  "mem_record st s =
     (if poisoned st then (Inl mem_poison_error, st)
      else
        let next = (case map_of (inner st) (lane_key_of s) of
                      Some existing \<Rightarrow>
                        s\<lparr>registered_until := max (registered_until s) (registered_until existing),
                          paid_cumulative := max (paid_cumulative s) (paid_cumulative existing)\<rparr>
                    | None \<Rightarrow> s)
        in (Inr (), st\<lparr>inner := AList.update (lane_key_of next) next (inner st)\<rparr>))"

definition mem_update_existing ::
  "mem_store \<Rightarrow> lane_key \<Rightarrow> (lane_state \<Rightarrow> lane_state) \<Rightarrow> (store_error + unit) \<times> mem_store" where
  "mem_update_existing st key f =
     (if poisoned st then (Inl mem_poison_error, st)
      else case map_of (inner st) key of
             Some state \<Rightarrow> (Inr (), st\<lparr>inner := AList.update key (f state) (inner st)\<rparr>)
           | None \<Rightarrow> (Inr (), st))"

definition mem_set_registered_until :: "u64 \<Rightarrow> mem_store lane_op" where
  "mem_set_registered_until r st key =
     mem_update_existing st key (\<lambda>s. s\<lparr>registered_until := max (registered_until s) r\<rparr>)"

definition mem_set_paid_cumulative :: "u256 \<Rightarrow> mem_store lane_op" where
  "mem_set_paid_cumulative p st key =
     mem_update_existing st key (\<lambda>s. s\<lparr>paid_cumulative := max (paid_cumulative s) p\<rparr>)"

definition mem_forget :: "mem_store lane_op" where
  "mem_forget st key =
     (if poisoned st then (Inl mem_poison_error, st)
      else (Inr (), st\<lparr>inner := AList.delete key (inner st)\<rparr>))"

definition mem_get :: "mem_store lane_get" where
  "mem_get st key = (if poisoned st then Inl mem_poison_error else Inr (map_of (inner st) key))"

subsection \<open>The on-disk record\<close>

definition SUPPORTED_SCHEMA_VERSION :: u32 where
  "SUPPORTED_SCHEMA_VERSION = 1"

record stored_lane =
  sl_schema_version :: u32
  sl_last_amount :: "u8 list"
  sl_last_bytes_delivered :: "u8 list"
  sl_signature :: "u8 list"
  sl_cap :: "u8 list"
  sl_expiry :: u64
  sl_registered_until :: u64
  sl_chain_root :: "u8 list"
  sl_chunk_price :: "u8 list"
  sl_verified_index :: u8
  sl_tip :: "u8 list"
  sl_owner_sig :: "u8 list"
  sl_paid_cumulative :: "u8 list"

definition lane_key_bytes :: "lane_key \<Rightarrow> u8 list" where
  "lane_key_bytes k =
     to_be_bytes 32 (lk_pool_id k) @ to_be_bytes 20 (lk_signer k) @ to_be_bytes 20 (lk_provider k)"

definition lane_key_parts :: "u8 list \<Rightarrow> b256 \<times> address \<times> address" where
  "lane_key_parts bytes =
     (from_be_bytes (take 32 bytes), from_be_bytes (take 20 (drop 32 bytes)), from_be_bytes (drop 52 bytes))"

definition stored_from :: "lane_state \<Rightarrow> stored_lane" where
  "stored_from s =
     \<lparr>sl_schema_version = SUPPORTED_SCHEMA_VERSION,
      sl_last_amount = to_be_bytes 32 (last_amount s),
      sl_last_bytes_delivered = to_be_bytes 32 (last_bytes_delivered s),
      sl_signature = (case last_signature s of None \<Rightarrow> [] | Some b \<Rightarrow> b),
      sl_cap = to_be_bytes 32 (cap s),
      sl_expiry = expiry s,
      sl_registered_until = registered_until s,
      sl_chain_root = to_be_bytes 32 (chain_root (chain s)),
      sl_chunk_price = to_be_bytes 32 (chunk_price (chain s)),
      sl_verified_index = verified_index (chain s),
      sl_tip = to_be_bytes 32 (tip (chain s)),
      sl_owner_sig = (case owner_sig s of None \<Rightarrow> [] | Some b \<Rightarrow> b),
      sl_paid_cumulative = to_be_bytes 32 (paid_cumulative s)\<rparr>"

definition decode_signature :: "u8 list \<Rightarrow> b256 \<Rightarrow> string \<Rightarrow> store_error + sig65 option" where
  "decode_signature bytes pid what =
     (if bytes = [] then Inr None
      else if length bytes = 65 then Inr (Some bytes)
      else Inl (Corrupt (Some pid) (''stored '' @ what @ '' signature is '' @ show_nat (length bytes)
             @ '' bytes, expected 0 or 65'')))"

definition stored_into_state ::
  "stored_lane \<Rightarrow> b256 \<Rightarrow> address \<Rightarrow> address \<Rightarrow> store_error + lane_state" where
  "stored_into_state r pid sg prov =
     (if SUPPORTED_SCHEMA_VERSION < sl_schema_version r
      then Inl (UnsupportedSchema (sl_schema_version r) SUPPORTED_SCHEMA_VERSION)
      else case decode_signature (sl_signature r) pid ''voucher'' of
        Inl e \<Rightarrow> Inl e
      | Inr sig \<Rightarrow>
        (case decode_signature (sl_owner_sig r) pid ''owner capability'' of
           Inl e \<Rightarrow> Inl e
         | Inr osig \<Rightarrow>
             Inr ((hydrate pid sg prov (from_be_bytes (sl_cap r)) (sl_expiry r)
                     (from_be_bytes (sl_last_amount r)) (from_be_bytes (sl_last_bytes_delivered r)) sig
                     \<lparr>chain_root = from_be_bytes (sl_chain_root r),
                      chunk_price = from_be_bytes (sl_chunk_price r),
                      verified_index = sl_verified_index r,
                      tip = from_be_bytes (sl_tip r)\<rparr>)
                  \<lparr>registered_until := sl_registered_until r, owner_sig := osig,
                   paid_cumulative := from_be_bytes (sl_paid_cumulative r)\<rparr>)))"

type_synonym lane_decoder = "u8 list \<Rightarrow> string + stored_lane \<times> u8 list"
type_synonym lane_encoder = "stored_lane \<Rightarrow> string + u8 list"

definition decode_record :: "lane_decoder \<Rightarrow> u8 list \<Rightarrow> u8 list \<Rightarrow> store_error + lane_state" where
  "decode_record dec key_bytes value_bytes =
     (case lane_key_parts key_bytes of (pid, sg, prov) \<Rightarrow>
        (case dec value_bytes of
           Inl err \<Rightarrow> Inl (Corrupt (Some pid) (''postcard decode failed: '' @ err))
         | Inr (stored, remainder) \<Rightarrow> stored_into_state stored pid sg prov))"

subsection \<open>The disk-backed store\<close>

datatype lane_slot = Live lane_state | Tombstoned

record pstore =
  ps_lanes :: "(lane_key \<times> lane_slot) list"
  ps_dirty :: "lane_key list"
  ps_disk :: "(u8 list \<times> u8 list) list"

definition slot_live :: "lane_slot \<Rightarrow> lane_state option" where
  "slot_live slot = (case slot of Live s \<Rightarrow> Some s | Tombstoned \<Rightarrow> None)"

fun hydrate_rows ::
  "lane_decoder \<Rightarrow> (u8 list \<times> u8 list) list \<Rightarrow> (lane_key \<times> lane_slot) list
     \<Rightarrow> store_error + (lane_key \<times> lane_slot) list" where
  "hydrate_rows dec [] out = Inr out"
| "hydrate_rows dec ((k, v) # rows) out =
     (case decode_record dec k v of
        Inl e \<Rightarrow> Inl e
      | Inr s \<Rightarrow> hydrate_rows dec rows (AList.update (lane_key_of s) (Live s) out))"

definition hydrate_lanes ::
  "lane_decoder \<Rightarrow> (u8 list \<times> u8 list) list \<Rightarrow> store_error + (lane_key \<times> lane_slot) list" where
  "hydrate_lanes dec rows = hydrate_rows dec rows []"

definition ps_load_all :: "pstore \<Rightarrow> store_error + lane_state list" where
  "ps_load_all st = Inr (List.map_filter (\<lambda>(k, slot). slot_live slot) (ps_lanes st))"

definition ps_get :: "pstore lane_get" where
  "ps_get st key = Inr (Option.bind (map_of (ps_lanes st) key) slot_live)"

definition ps_record :: "pstore record_op" where
  "ps_record st s =
     (let key = lane_key_of s;
          next = (case map_of (ps_lanes st) key of
                    Some (Live existing) \<Rightarrow>
                      s\<lparr>registered_until := max (registered_until s) (registered_until existing),
                        owner_sig := (if owner_sig s = None then owner_sig existing else owner_sig s),
                        paid_cumulative := max (paid_cumulative s) (paid_cumulative existing)\<rparr>
                  | _ \<Rightarrow> s)
      in (Inr (), st\<lparr>ps_lanes := AList.update key (Live next) (ps_lanes st),
                     ps_dirty := ps_dirty st @ [key]\<rparr>))"

definition ps_set_registered_until :: "u64 \<Rightarrow> pstore lane_op" where
  "ps_set_registered_until r st key =
     (case map_of (ps_lanes st) key of
        Some (Live s) \<Rightarrow>
          if registered_until s < r
          then (Inr (), st\<lparr>ps_lanes := AList.update key (Live (s\<lparr>registered_until := r\<rparr>)) (ps_lanes st),
                           ps_dirty := ps_dirty st @ [key]\<rparr>)
          else (Inr (), st)
      | _ \<Rightarrow> (Inr (), st))"

definition ps_set_paid_cumulative :: "u256 \<Rightarrow> pstore lane_op" where
  "ps_set_paid_cumulative p st key =
     (case map_of (ps_lanes st) key of
        Some (Live s) \<Rightarrow>
          if paid_cumulative s < p
          then (Inr (), st\<lparr>ps_lanes := AList.update key (Live (s\<lparr>paid_cumulative := p\<rparr>)) (ps_lanes st),
                           ps_dirty := ps_dirty st @ [key]\<rparr>)
          else (Inr (), st)
      | _ \<Rightarrow> (Inr (), st))"

definition ps_forget :: "pstore lane_op" where
  "ps_forget st key =
     (Inr (), st\<lparr>ps_lanes := AList.update key Tombstoned (ps_lanes st),
                 ps_dirty := ps_dirty st @ [key]\<rparr>)"

subsection \<open>Flushing\<close>

record flush_snapshot =
  fs_writes :: "(lane_key \<times> u8 list) list"
  fs_tombstones :: "lane_key list"

definition sort_by_table_key :: "flush_snapshot \<Rightarrow> flush_snapshot" where
  "sort_by_table_key snap =
     \<lparr>fs_writes = sort_key (\<lambda>(k, _). lane_key_bytes k) (fs_writes snap),
      fs_tombstones = sort_key lane_key_bytes (fs_tombstones snap)\<rparr>"

fun flush_collect ::
  "lane_encoder \<Rightarrow> (lane_key \<times> lane_slot) list \<Rightarrow> lane_key list \<Rightarrow> string + flush_snapshot" where
  "flush_collect enc lanes [] = Inr \<lparr>fs_writes = [], fs_tombstones = []\<rparr>"
| "flush_collect enc lanes (key # keys) =
     (case map_of lanes key of
        Some (Live s) \<Rightarrow>
          (case enc (stored_from s) of
             Inl err \<Rightarrow> Inl err
           | Inr encoded \<Rightarrow>
               (case flush_collect enc lanes keys of
                  Inl err \<Rightarrow> Inl err
                | Inr snap \<Rightarrow> Inr (snap\<lparr>fs_writes := (key, encoded) # fs_writes snap\<rparr>)))
      | Some Tombstoned \<Rightarrow>
          (case flush_collect enc lanes keys of
             Inl err \<Rightarrow> Inl err
           | Inr snap \<Rightarrow> Inr (snap\<lparr>fs_tombstones := key # fs_tombstones snap\<rparr>))
      | None \<Rightarrow> flush_collect enc lanes keys)"

text \<open>
  The first half of a flush. \<open>Inr None\<close> is the early return on an empty work-list; \<open>Inr (Some snap)\<close>
  hands the snapshot to the commit.
\<close>

definition flush_begin ::
  "lane_encoder \<Rightarrow> pstore \<Rightarrow> (store_error + flush_snapshot option) \<times> pstore" where
  "flush_begin enc st =
     (let drained = remdups (ps_dirty st); st' = st\<lparr>ps_dirty := []\<rparr> in
      if drained = [] then (Inr None, st')
      else case flush_collect enc (ps_lanes st) drained of
             Inl err \<Rightarrow> (Inl (Codec (''postcard encode failed: '' @ err)), st'\<lparr>ps_dirty := drained\<rparr>)
           | Inr snap \<Rightarrow> (Inr (Some (sort_by_table_key snap)), st'))"

definition commit_snapshot ::
  "store_error option \<Rightarrow> flush_snapshot \<Rightarrow> (u8 list \<times> u8 list) list
     \<Rightarrow> (store_error + unit) \<times> (u8 list \<times> u8 list) list" where
  "commit_snapshot txn snap disk =
     (case txn of
        Some err \<Rightarrow> (Inl err, disk)
      | None \<Rightarrow>
          (Inr (), fold (\<lambda>key d. AList.delete (lane_key_bytes key) d) (fs_tombstones snap)
                     (fold (\<lambda>(key, encoded) d. AList.update (lane_key_bytes key) encoded d)
                        (fs_writes snap) disk)))"

definition reap_tombstone :: "lane_key \<Rightarrow> (lane_key \<times> lane_slot) list \<Rightarrow> (lane_key \<times> lane_slot) list" where
  "reap_tombstone key lanes =
     (if map_of lanes key = Some Tombstoned then AList.delete key lanes else lanes)"

definition flush_commit ::
  "store_error option \<Rightarrow> flush_snapshot \<Rightarrow> pstore \<Rightarrow> (store_error + unit) \<times> pstore" where
  "flush_commit txn snap st =
     (case commit_snapshot txn snap (ps_disk st) of
        (Inl err, disk) \<Rightarrow>
          (Inl err, st\<lparr>ps_dirty := ps_dirty st @ map fst (fs_writes snap) @ fs_tombstones snap\<rparr>)
      | (Inr _, disk) \<Rightarrow>
          (Inr (), st\<lparr>ps_disk := disk,
                      ps_lanes := fold reap_tombstone (fs_tombstones snap) (ps_lanes st)\<rparr>))"

definition flush ::
  "lane_encoder \<Rightarrow> store_error option \<Rightarrow> pstore \<Rightarrow> (store_error + unit) \<times> pstore" where
  "flush enc txn st =
     (case flush_begin enc st of
        (Inl err, st') \<Rightarrow> (Inl err, st')
      | (Inr None, st') \<Rightarrow> (Inr (), st')
      | (Inr (Some snap), st') \<Rightarrow> flush_commit txn snap st')"

text \<open>Opening a store reads the whole table into the working set, with nothing changed since.\<close>

definition ps_open :: "lane_decoder \<Rightarrow> (u8 list \<times> u8 list) list \<Rightarrow> store_error + pstore" where
  "ps_open dec disk =
     (case hydrate_lanes dec disk of
        Inl e \<Rightarrow> Inl e
      | Inr lanes \<Rightarrow> Inr \<lparr>ps_lanes = lanes, ps_dirty = [], ps_disk = disk\<rparr>)"

subsection \<open>The interface\<close>

definition same_frontier :: "lane_state \<Rightarrow> lane_state \<Rightarrow> bool" where
  "same_frontier t s \<longleftrightarrow>
     pool_id t = pool_id s \<and> signer t = signer s \<and> provider t = provider s \<and> cap t = cap s \<and>
     expiry t = expiry s \<and> last_amount t = last_amount s \<and>
     last_bytes_delivered t = last_bytes_delivered s \<and> last_signature t = last_signature s \<and>
     chain t = chain s"

locale lane_store =
  fixes rec :: "'st record_op"
    and get :: "'st lane_get"
    and forget :: "'st lane_op"
    and set_reg :: "u64 \<Rightarrow> 'st lane_op"
    and set_paid :: "u256 \<Rightarrow> 'st lane_op"
  assumes rec_get: "rec st s = (Inr (), st') \<Longrightarrow>
      \<exists>t. get st' (lane_key_of s) = Inr (Some t) \<and> same_frontier t s \<and>
        registered_until s \<le> registered_until t \<and> paid_cumulative s \<le> paid_cumulative t"
    and rec_keeps: "rec st s = (Inr (), st') \<Longrightarrow> get st (lane_key_of s) = Inr (Some u) \<Longrightarrow>
      get st' (lane_key_of s) = Inr (Some t) \<Longrightarrow>
        registered_until u \<le> registered_until t \<and> paid_cumulative u \<le> paid_cumulative t"
    and rec_other: "rec st s = (res, st') \<Longrightarrow> k \<noteq> lane_key_of s \<Longrightarrow> get st' k = get st k"
    and rec_error: "rec st s = (Inl e, st') \<Longrightarrow> st' = st"
    and forget_get: "forget st k = (Inr (), st') \<Longrightarrow> get st' k = Inr None"
    and set_reg_get: "set_reg r st k = (Inr (), st') \<Longrightarrow> get st k = Inr (Some t) \<Longrightarrow>
      get st' k = Inr (Some (t\<lparr>registered_until := max (registered_until t) r\<rparr>))"
    and set_paid_get: "set_paid p st k = (Inr (), st') \<Longrightarrow> get st k = Inr (Some t) \<Longrightarrow>
      get st' k = Inr (Some (t\<lparr>paid_cumulative := max (paid_cumulative t) p\<rparr>))"
begin

text \<open>What a lane relies on: an accepted voucher survives a reload and is not accepted again.\<close>

lemma accepted_frontier_reloads:
  assumes "apply_voucher A domain rec st s sv = (Inr applied, s', st')"
  shows "\<exists>t. get st' (lane_key_of s) = Inr (Some t) \<and> same_frontier t s'"
proof -
  note acc = apply_voucher_Inr [OF assms]
  have "lane_key_of s' = lane_key_of s"
    using stage_voucher_Inr(4) [OF acc(1)] by (simp add: advance_presigned_Inr_iff lane_key_of_def)
  with rec_get [OF acc(2)] show ?thesis by auto
qed

lemma replay_after_reload_rejected:
  assumes "apply_voucher A domain rec st s sv = (Inr applied, s', st')"
    and "get st' (lane_key_of s) = Inr (Some t)"
  shows "\<exists>e. stage_voucher A domain t sv = Inl e"
proof -
  have "last_amount t = v_amount (sv_voucher sv)"
    using accepted_frontier_reloads [OF assms(1)] assms(2)
      stage_voucher_Inr(4) [OF apply_voucher_Inr(1) [OF assms(1)]]
    by (auto simp: same_frontier_def advance_presigned_Inr_iff)
  then have "stage_voucher A domain t sv \<noteq> Inr (u, a)" for u a
    using stage_voucher_Inr(4) [of A domain t sv u a]
    by (auto simp: advance_presigned_Inr_iff presigned_ok_def)
  then show ?thesis by (cases "stage_voucher A domain t sv") (auto simp: prod_eq_iff)
qed

lemma failed_apply_changes_nothing:
  assumes "apply_voucher A domain rec st s sv = (Inl e, s', st')"
  shows "s' = s \<and> st' = st"
  using assms rec_error by (auto simp: apply_voucher_def split: sum.splits prod.splits)

end

lemma map_of_alist_update: "map_of (AList.update k v al) = (map_of al)(k \<mapsto> v)"
  by (simp add: update_conv')

lemma map_of_alist_delete: "map_of (AList.delete k al) = (map_of al)(k := None)"
  by (simp add: delete_conv')

lemmas alist_maps [simp] = map_of_alist_update map_of_alist_delete

lemma same_frontier_refl [simp]: "same_frontier s s"
  by (simp add: same_frontier_def)

lemma lane_key_of_cong [simp]:
  "lane_key_of (s\<lparr>registered_until := r\<rparr>) = lane_key_of s"
  "lane_key_of (s\<lparr>paid_cumulative := p\<rparr>) = lane_key_of s"
  "lane_key_of (s\<lparr>owner_sig := o'\<rparr>) = lane_key_of s"
  by (simp_all add: lane_key_of_def)

interpretation mem: lane_store mem_record mem_get mem_forget mem_set_registered_until mem_set_paid_cumulative
  by unfold_locales
     (auto simp: mem_record_def mem_get_def mem_forget_def mem_set_registered_until_def
        mem_set_paid_cumulative_def mem_update_existing_def same_frontier_def Let_def
        split: if_splits option.splits)

lemma ps_get_Some: "ps_get st k = Inr (Some t) \<longleftrightarrow> map_of (ps_lanes st) k = Some (Live t)"
  by (cases "map_of (ps_lanes st) k") (auto simp: ps_get_def slot_live_def split: lane_slot.splits)

interpretation ps: lane_store ps_record ps_get ps_forget ps_set_registered_until ps_set_paid_cumulative
proof unfold_locales
  fix st :: pstore and s t u :: lane_state and st' :: pstore and k :: lane_key and r :: u64 and p :: u256
    and e :: store_error and res :: "store_error + unit"
  show "ps_record st s = (Inr (), st') \<Longrightarrow>
      \<exists>t. ps_get st' (lane_key_of s) = Inr (Some t) \<and> same_frontier t s \<and>
        registered_until s \<le> registered_until t \<and> paid_cumulative s \<le> paid_cumulative t"
    by (auto simp: ps_record_def ps_get_Some same_frontier_def Let_def split: option.splits lane_slot.splits)
  show "ps_record st s = (Inr (), st') \<Longrightarrow> ps_get st (lane_key_of s) = Inr (Some u) \<Longrightarrow>
      ps_get st' (lane_key_of s) = Inr (Some t) \<Longrightarrow>
        registered_until u \<le> registered_until t \<and> paid_cumulative u \<le> paid_cumulative t"
    by (auto simp: ps_record_def ps_get_Some Let_def)
  show "ps_record st s = (res, st') \<Longrightarrow> k \<noteq> lane_key_of s \<Longrightarrow> ps_get st' k = ps_get st k"
    by (auto simp: ps_record_def ps_get_def Let_def)
  show "ps_record st s = (Inl e, st') \<Longrightarrow> st' = st"
    by (simp add: ps_record_def Let_def)
  show "ps_forget st k = (Inr (), st') \<Longrightarrow> ps_get st' k = Inr None"
    by (auto simp: ps_forget_def ps_get_def slot_live_def)
  show "ps_set_registered_until r st k = (Inr (), st') \<Longrightarrow> ps_get st k = Inr (Some t) \<Longrightarrow>
      ps_get st' k = Inr (Some (t\<lparr>registered_until := max (registered_until t) r\<rparr>))"
    by (auto simp: ps_set_registered_until_def ps_get_Some max_def split: if_splits)
  show "ps_set_paid_cumulative p st k = (Inr (), st') \<Longrightarrow> ps_get st k = Inr (Some t) \<Longrightarrow>
      ps_get st' k = Inr (Some (t\<lparr>paid_cumulative := max (paid_cumulative t) p\<rparr>))"
    by (auto simp: ps_set_paid_cumulative_def ps_get_Some max_def split: if_splits)
qed

subsection \<open>The codec\<close>

definition sigs_ok :: "lane_state \<Rightarrow> bool" where
  "sigs_ok s \<longleftrightarrow> (\<forall>b. last_signature s = Some b \<longrightarrow> length b = 65) \<and>
     (\<forall>b. owner_sig s = Some b \<longrightarrow> length b = 65)"

lemma be_roundtrip_32 [simp]: "from_be_bytes (to_be_bytes 32 (w :: u256)) = w"
  by (simp add: from_to_be_bytes)

lemma be_roundtrip_20 [simp]: "from_be_bytes (to_be_bytes 20 (w :: address)) = w"
  by (simp add: from_to_be_bytes)

lemma lane_key_parts_bytes:
  "lane_key_parts (lane_key_bytes k) = (lk_pool_id k, lk_signer k, lk_provider k)"
  by (simp add: lane_key_parts_def lane_key_bytes_def)

lemma lane_key_bytes_inj [simp]: "lane_key_bytes k = lane_key_bytes k' \<longleftrightarrow> k = k'"
proof
  assume "lane_key_bytes k = lane_key_bytes k'"
  then have "lane_key_parts (lane_key_bytes k) = lane_key_parts (lane_key_bytes k')" by simp
  then show "k = k'" by (simp add: lane_key_parts_bytes)
qed simp

lemma decode_signature_stored:
  assumes "\<And>b. sig = Some b \<Longrightarrow> length b = 65"
  shows "decode_signature (case sig of None \<Rightarrow> [] | Some b \<Rightarrow> b) pid what = Inr sig"
proof (cases sig)
  case (Some b)
  with assms have "length b = 65" by simp
  then show ?thesis using Some by (auto simp: decode_signature_def)
qed (simp add: decode_signature_def)

lemma stored_roundtrip:
  assumes "sigs_ok s"
  shows "stored_into_state (stored_from s) (pool_id s) (signer s) (provider s) = Inr s"
proof -
  have "decode_signature (sl_signature (stored_from s)) (pool_id s) w = Inr (last_signature s)"
    and "decode_signature (sl_owner_sig (stored_from s)) (pool_id s) w = Inr (owner_sig s)" for w
    using assms by (auto simp: stored_from_def sigs_ok_def intro!: decode_signature_stored)
  then show ?thesis
    by (simp add: stored_into_state_def hydrate_def) (simp add: stored_from_def)
qed

definition codec_ok :: "lane_encoder \<Rightarrow> lane_decoder \<Rightarrow> bool" where
  "codec_ok enc dec \<longleftrightarrow> (\<forall>r bs. enc r = Inr bs \<longrightarrow> dec bs = Inr (r, []))"

lemma decode_record_stored:
  assumes "codec_ok enc dec" and "sigs_ok s" and "enc (stored_from s) = Inr bs"
  shows "decode_record dec (lane_key_bytes (lane_key_of s)) bs = Inr s"
  using assms stored_roundtrip [OF assms(2)]
  by (simp add: decode_record_def lane_key_parts_bytes lane_key_of_def codec_ok_def)

subsection \<open>The working set and the disk\<close>

text \<open>
  What the table must hold for a slot of the working set, and the table as it will be once an
  in-flight snapshot commits.
\<close>

definition row_matches :: "lane_encoder \<Rightarrow> u8 list option \<Rightarrow> lane_slot option \<Rightarrow> bool" where
  "row_matches enc row slot \<longleftrightarrow>
     (case slot of
        Some (Live s) \<Rightarrow> (\<exists>bs. enc (stored_from s) = Inr bs \<and> row = Some bs)
      | _ \<Rightarrow> row = None)"

definition row_ok :: "lane_encoder \<Rightarrow> u8 list \<Rightarrow> u8 list \<Rightarrow> bool" where
  "row_ok enc b v \<longleftrightarrow> (\<exists>s. b = lane_key_bytes (lane_key_of s) \<and> sigs_ok s \<and> enc (stored_from s) = Inr v)"

definition lanes_ok :: "(lane_key \<times> lane_slot) list \<Rightarrow> bool" where
  "lanes_ok lanes \<longleftrightarrow> (\<forall>k s. map_of lanes k = Some (Live s) \<longrightarrow> lane_key_of s = k \<and> sigs_ok s)"

definition disk_after :: "flush_snapshot option \<Rightarrow> (u8 list \<times> u8 list) list \<Rightarrow> (u8 list \<times> u8 list) list" where
  "disk_after snap disk = (case snap of None \<Rightarrow> disk | Some sn \<Rightarrow> snd (commit_snapshot None sn disk))"

definition ps_inv :: "lane_encoder \<Rightarrow> pstore \<times> flush_snapshot option \<Rightarrow> bool" where
  "ps_inv enc = (\<lambda>(st, snap).
     lanes_ok (ps_lanes st) \<and>
     (\<forall>k. k \<notin> set (ps_dirty st) \<or> map_of (ps_lanes st) k = None \<longrightarrow>
        row_matches enc (map_of (disk_after snap (ps_disk st)) (lane_key_bytes k)) (map_of (ps_lanes st) k)) \<and>
     (\<forall>(b, v) \<in> set (ps_disk st). row_ok enc b v) \<and> distinct (map fst (ps_disk st)) \<and>
     (\<forall>sn. snap = Some sn \<longrightarrow> (\<forall>(k, v) \<in> set (fs_writes sn). row_ok enc (lane_key_bytes k) v) \<and>
        (\<forall>k. k \<in> fst ` set (fs_writes sn) \<union> set (fs_tombstones sn) \<longrightarrow> map_of (ps_lanes st) k \<noteq> None)))"

lemma fold_update_notin:
  assumes "k \<notin> fst ` set ws"
  shows "map_of (fold (\<lambda>(key, enc) d. AList.update (lane_key_bytes key) enc d) ws d) (lane_key_bytes k)
           = map_of d (lane_key_bytes k)"
  using assms by (induction ws arbitrary: d) auto

lemma fold_update_in:
  assumes "distinct (map fst ws)" and "(k, e) \<in> set ws"
  shows "map_of (fold (\<lambda>(key, enc) d. AList.update (lane_key_bytes key) enc d) ws d) (lane_key_bytes k) = Some e"
  using assms
proof (induction ws arbitrary: d)
  case (Cons w ws)
  show ?case
  proof (cases "w = (k, e)")
    case True
    with Cons.prems(1) have "k \<notin> fst ` set ws" by simp
    with True show ?thesis by (simp add: fold_update_notin)
  next
    case False
    with Cons show ?thesis by (cases w) auto
  qed
qed simp

lemma fold_delete:
  "map_of (fold (\<lambda>key d. AList.delete (lane_key_bytes key) d) ts d) (lane_key_bytes k)
     = (if k \<in> set ts then None else map_of d (lane_key_bytes k))"
  by (induction ts arbitrary: d) auto

lemma commit_row_other:
  assumes "k \<notin> fst ` set (fs_writes sn)" and "k \<notin> set (fs_tombstones sn)"
  shows "map_of (snd (commit_snapshot None sn d)) (lane_key_bytes k) = map_of d (lane_key_bytes k)"
  using assms by (simp add: commit_snapshot_def fold_delete fold_update_notin)

lemma commit_row_write:
  assumes "distinct (map fst (fs_writes sn))" and "(k, e) \<in> set (fs_writes sn)" and "k \<notin> set (fs_tombstones sn)"
  shows "map_of (snd (commit_snapshot None sn d)) (lane_key_bytes k) = Some e"
  using assms by (simp add: commit_snapshot_def fold_delete fold_update_in)

lemma commit_row_tombstone:
  "k \<in> set (fs_tombstones sn) \<Longrightarrow> map_of (snd (commit_snapshot None sn d)) (lane_key_bytes k) = None"
  by (simp add: commit_snapshot_def fold_delete)

lemma alist_update_rows:
  "(\<forall>(b, v) \<in> set d. P b v) \<Longrightarrow> P b' v' \<Longrightarrow> \<forall>(b, v) \<in> set (AList.update b' v' d). P b v"
  by (induction d) auto

lemma fold_update_rows:
  assumes "\<forall>(b, v) \<in> set d. P b v" and "\<forall>(k, v) \<in> set ws. P (lane_key_bytes k) v" and "distinct (map fst d)"
  shows "(\<forall>(b, v) \<in> set (fold (\<lambda>(key, enc) d. AList.update (lane_key_bytes key) enc d) ws d). P b v) \<and>
         distinct (map fst (fold (\<lambda>(key, enc) d. AList.update (lane_key_bytes key) enc d) ws d))"
  using assms
proof (induction ws arbitrary: d)
  case (Cons w ws)
  obtain k e where w: "w = (k, e)" by (cases w)
  from Cons.prems have "P (lane_key_bytes k) e" by (simp add: w)
  with Cons.prems have "\<forall>(b, v) \<in> set (AList.update (lane_key_bytes k) e d). P b v"
    by (intro alist_update_rows) auto
  moreover have "distinct (map fst (AList.update (lane_key_bytes k) e d))"
    using Cons.prems(3) by (rule distinct_update)
  ultimately show ?case using Cons.IH Cons.prems(2) by (simp add: w)
qed simp

lemma fold_delete_rows:
  assumes "\<forall>(b, v) \<in> set d. P b v" and "distinct (map fst d)"
  shows "(\<forall>(b, v) \<in> set (fold (\<lambda>key d. AList.delete (lane_key_bytes key) d) ts d). P b v) \<and>
         distinct (map fst (fold (\<lambda>key d. AList.delete (lane_key_bytes key) d) ts d))"
  using assms
proof (induction ts arbitrary: d)
  case (Cons t ts)
  have "\<forall>(b, v) \<in> set (AList.delete (lane_key_bytes t) d). P b v"
    using Cons.prems(1) by (auto simp: AList.delete_eq)
  moreover have "distinct (map fst (AList.delete (lane_key_bytes t) d))"
    using Cons.prems(2) by (rule distinct_delete)
  ultimately show ?case using Cons.IH by simp
qed simp

lemma commit_rows:
  assumes "\<forall>(b, v) \<in> set d. row_ok enc b v" and "\<forall>(k, v) \<in> set (fs_writes sn). row_ok enc (lane_key_bytes k) v"
    and "distinct (map fst d)"
  shows "(\<forall>(b, v) \<in> set (snd (commit_snapshot None sn d)). row_ok enc b v) \<and>
         distinct (map fst (snd (commit_snapshot None sn d)))"
proof -
  note upd = fold_update_rows [where P = "row_ok enc", OF assms]
  show ?thesis
    using fold_delete_rows [where P = "row_ok enc" and ts = "fs_tombstones sn", OF conjunct1 [OF upd] conjunct2 [OF upd]]
    by (simp add: commit_snapshot_def)
qed

subsection \<open>What a snapshot holds\<close>

definition slot_is_live :: "(lane_key \<times> lane_slot) list \<Rightarrow> lane_key \<Rightarrow> bool" where
  "slot_is_live lanes k \<longleftrightarrow> (\<exists>s. map_of lanes k = Some (Live s))"

lemma flush_collect_keys:
  "flush_collect enc lanes keys = Inr sn \<Longrightarrow>
     map fst (fs_writes sn) = filter (slot_is_live lanes) keys \<and>
     fs_tombstones sn = filter (\<lambda>k. map_of lanes k = Some Tombstoned) keys"
  by (induction keys arbitrary: sn)
     (auto simp: slot_is_live_def split: option.splits lane_slot.splits sum.splits)

lemma flush_collect_writes:
  "flush_collect enc lanes keys = Inr sn \<Longrightarrow> (k, e) \<in> set (fs_writes sn) \<Longrightarrow>
     \<exists>s. map_of lanes k = Some (Live s) \<and> enc (stored_from s) = Inr e"
  by (induction keys arbitrary: sn) (auto split: option.splits lane_slot.splits sum.splits)

lemma sort_by_table_key_sets [simp]:
  "set (fs_writes (sort_by_table_key sn)) = set (fs_writes sn)"
  "set (fs_tombstones (sort_by_table_key sn)) = set (fs_tombstones sn)"
  by (simp_all add: sort_by_table_key_def)

lemma sort_by_table_key_distinct:
  assumes "distinct (map fst (fs_writes sn))"
  shows "distinct (map fst (fs_writes (sort_by_table_key sn)))"
  using assms by (simp add: sort_by_table_key_def distinct_map)

text \<open>Once it commits, a snapshot leaves in the table exactly the slots it was taken from.\<close>

lemma flush_begin_Some:
  assumes "flush_begin enc st = (Inr (Some sn), st')" and "lanes_ok (ps_lanes st)"
  shows "st' = st\<lparr>ps_dirty := []\<rparr>"
    and "\<forall>(k, v) \<in> set (fs_writes sn). row_ok enc (lane_key_bytes k) v"
    and "\<forall>k. k \<in> fst ` set (fs_writes sn) \<union> set (fs_tombstones sn) \<longrightarrow>
           k \<in> set (ps_dirty st) \<and> map_of (ps_lanes st) k \<noteq> None"
    and "\<And>k slot d. k \<in> set (ps_dirty st) \<Longrightarrow> map_of (ps_lanes st) k = Some slot \<Longrightarrow>
           row_matches enc (map_of (snd (commit_snapshot None sn d)) (lane_key_bytes k)) (map_of (ps_lanes st) k)"
proof -
  from assms(1) obtain sn0 where c: "flush_collect enc (ps_lanes st) (remdups (ps_dirty st)) = Inr sn0"
    and sn: "sn = sort_by_table_key sn0" and st': "st' = st\<lparr>ps_dirty := []\<rparr>"
    by (auto simp: flush_begin_def Let_def split: if_splits sum.splits)
  have live: "fst ` set (fs_writes sn) = {k \<in> set (ps_dirty st). slot_is_live (ps_lanes st) k}"
    using flush_collect_keys [OF c] by (simp add: sn flip: set_map)
  have tomb: "set (fs_tombstones sn) = {k \<in> set (ps_dirty st). map_of (ps_lanes st) k = Some Tombstoned}"
    using flush_collect_keys [OF c] by (simp add: sn)
  have dist: "distinct (map fst (fs_writes sn))"
    using flush_collect_keys [OF c] by (simp add: sn sort_by_table_key_distinct)
  have entry: "\<exists>s. map_of (ps_lanes st) k = Some (Live s) \<and> enc (stored_from s) = Inr e"
    if "(k, e) \<in> set (fs_writes sn)" for k e
    using that flush_collect_writes [OF c] by (simp add: sn)
  show "st' = st\<lparr>ps_dirty := []\<rparr>" by (rule st')
  show "\<forall>(k, v) \<in> set (fs_writes sn). row_ok enc (lane_key_bytes k) v"
    using entry assms(2) by (fastforce simp: row_ok_def lanes_ok_def)
  show "\<forall>k. k \<in> fst ` set (fs_writes sn) \<union> set (fs_tombstones sn) \<longrightarrow>
      k \<in> set (ps_dirty st) \<and> map_of (ps_lanes st) k \<noteq> None"
    unfolding live tomb by (auto simp: slot_is_live_def)
  show "row_matches enc (map_of (snd (commit_snapshot None sn d)) (lane_key_bytes k)) (map_of (ps_lanes st) k)"
    if k: "k \<in> set (ps_dirty st)" "map_of (ps_lanes st) k = Some slot" for k slot d
  proof (cases slot)
    case (Live s)
    with k have "k \<in> fst ` set (fs_writes sn)" and notin: "k \<notin> set (fs_tombstones sn)"
      unfolding live tomb by (auto simp: slot_is_live_def)
    then obtain e where e: "(k, e) \<in> set (fs_writes sn)" by auto
    with entry k Live have "enc (stored_from s) = Inr e" by force
    with commit_row_write [OF dist e notin] k Live show ?thesis by (simp add: row_matches_def)
  next
    case Tombstoned
    with k have "k \<in> set (fs_tombstones sn)" unfolding tomb by simp
    with commit_row_tombstone [OF this] k Tombstoned show ?thesis by (simp add: row_matches_def)
  qed
qed

subsection \<open>Runs of the disk-backed store\<close>

text \<open>
  One store under a single flusher: any operation of the working set, the two halves of a
  flush with the operations in between, a failing or succeeding transaction, and a crash that
  keeps only the table and reopens from it.
\<close>

inductive ps_step ::
  "lane_encoder \<Rightarrow> lane_decoder \<Rightarrow> pstore \<times> flush_snapshot option \<Rightarrow> pstore \<times> flush_snapshot option \<Rightarrow> bool"
  for enc dec where
  step_record: "sigs_ok s \<Longrightarrow> ps_step enc dec (st, sn) (snd (ps_record st s), sn)"
| step_set_reg: "ps_step enc dec (st, sn) (snd (ps_set_registered_until r st k), sn)"
| step_set_paid: "ps_step enc dec (st, sn) (snd (ps_set_paid_cumulative p st k), sn)"
| step_forget: "ps_step enc dec (st, sn) (snd (ps_forget st k), sn)"
| step_begin: "flush_begin enc st = (Inr sn, st') \<Longrightarrow> ps_step enc dec (st, None) (st', sn)"
| step_begin_err: "flush_begin enc st = (Inl e, st') \<Longrightarrow> ps_step enc dec (st, None) (st', None)"
| step_commit: "ps_step enc dec (st, Some sn) (snd (flush_commit txn sn st), None)"
| step_crash: "ps_open dec (ps_disk st) = Inr st' \<Longrightarrow> ps_step enc dec (st, sn) (st', None)"

inductive ps_reachable :: "lane_encoder \<Rightarrow> lane_decoder \<Rightarrow> pstore \<times> flush_snapshot option \<Rightarrow> bool"
  for enc dec where
  ps_init: "ps_reachable enc dec (\<lparr>ps_lanes = [], ps_dirty = [], ps_disk = []\<rparr>, None)"
| ps_next: "ps_reachable enc dec x \<Longrightarrow> ps_step enc dec x y \<Longrightarrow> ps_reachable enc dec y"

definition rows_ok :: "lane_encoder \<Rightarrow> (u8 list \<times> u8 list) list \<Rightarrow> bool" where
  "rows_ok enc disk \<longleftrightarrow> (\<forall>(b, v) \<in> set disk. row_ok enc b v) \<and> distinct (map fst disk)"

lemma ps_invI:
  assumes "lanes_ok (ps_lanes st)"
    and "\<And>k. k \<notin> set (ps_dirty st) \<or> map_of (ps_lanes st) k = None \<Longrightarrow>
        row_matches enc (map_of (disk_after snap (ps_disk st)) (lane_key_bytes k)) (map_of (ps_lanes st) k)"
    and "rows_ok enc (ps_disk st)"
    and "\<And>sn. snap = Some sn \<Longrightarrow> \<forall>(k, v) \<in> set (fs_writes sn). row_ok enc (lane_key_bytes k) v"
    and "\<And>sn k. snap = Some sn \<Longrightarrow> k \<in> fst ` set (fs_writes sn) \<union> set (fs_tombstones sn) \<Longrightarrow>
        map_of (ps_lanes st) k \<noteq> None"
  shows "ps_inv enc (st, snap)"
  unfolding ps_inv_def rows_ok_def prod.case
  using assms by (auto simp: rows_ok_def)

lemma ps_invD:
  assumes "ps_inv enc (st, snap)"
  shows "lanes_ok (ps_lanes st)"
    and "\<And>k. k \<notin> set (ps_dirty st) \<or> map_of (ps_lanes st) k = None \<Longrightarrow>
        row_matches enc (map_of (disk_after snap (ps_disk st)) (lane_key_bytes k)) (map_of (ps_lanes st) k)"
    and "rows_ok enc (ps_disk st)"
    and "\<And>sn. snap = Some sn \<Longrightarrow> \<forall>(k, v) \<in> set (fs_writes sn). row_ok enc (lane_key_bytes k) v"
    and "\<And>sn k. snap = Some sn \<Longrightarrow> k \<in> fst ` set (fs_writes sn) \<union> set (fs_tombstones sn) \<Longrightarrow>
        map_of (ps_lanes st) k \<noteq> None"
  using assms unfolding ps_inv_def rows_ok_def prod.case by blast+

text \<open>Every write to the working set has one shape: one slot replaced, its key marked.\<close>

lemma ps_inv_put:
  assumes inv: "ps_inv enc (st, snap)"
    and slot: "\<And>s. slot = Live s \<Longrightarrow> lane_key_of s = k \<and> sigs_ok s"
  shows "ps_inv enc (st\<lparr>ps_lanes := AList.update k slot (ps_lanes st), ps_dirty := ps_dirty st @ [k]\<rparr>, snap)"
proof (rule ps_invI)
  show "lanes_ok (ps_lanes (st\<lparr>ps_lanes := AList.update k slot (ps_lanes st), ps_dirty := ps_dirty st @ [k]\<rparr>))"
    using ps_invD(1) [OF inv] slot by (auto simp: lanes_ok_def)
qed (use ps_invD [OF inv] in \<open>auto split: if_splits\<close>)

lemma live_slot_ok:
  "lanes_ok (ps_lanes st) \<Longrightarrow> map_of (ps_lanes st) k = Some (Live s) \<Longrightarrow> lane_key_of s = k \<and> sigs_ok s"
  by (simp add: lanes_ok_def)

lemma sigs_ok_update [simp]:
  "sigs_ok (s\<lparr>registered_until := r\<rparr>) = sigs_ok s" "sigs_ok (s\<lparr>paid_cumulative := p\<rparr>) = sigs_ok s"
  by (simp_all add: sigs_ok_def)

lemma ps_inv_record:
  assumes "ps_inv enc (st, snap)" and "sigs_ok s"
  shows "ps_inv enc (snd (ps_record st s), snap)"
  unfolding ps_record_def Let_def snd_conv
  by (rule ps_inv_put [OF assms(1)])
     (use live_slot_ok [OF ps_invD(1) [OF assms(1)]] assms(2) in
       \<open>auto simp: sigs_ok_def split: option.splits lane_slot.splits\<close>)

lemma ps_inv_set_reg:
  assumes "ps_inv enc (st, snap)"
  shows "ps_inv enc (snd (ps_set_registered_until r st k), snap)"
  using assms live_slot_ok [OF ps_invD(1) [OF assms]]
  by (auto simp: ps_set_registered_until_def intro!: ps_inv_put split: option.splits lane_slot.splits)

lemma ps_inv_set_paid:
  assumes "ps_inv enc (st, snap)"
  shows "ps_inv enc (snd (ps_set_paid_cumulative p st k), snap)"
  using assms live_slot_ok [OF ps_invD(1) [OF assms]]
  by (auto simp: ps_set_paid_cumulative_def intro!: ps_inv_put split: option.splits lane_slot.splits)

lemma ps_inv_dirty:
  "ps_inv enc (st, snap) \<Longrightarrow> set d = set (ps_dirty st) \<Longrightarrow> ps_inv enc (st\<lparr>ps_dirty := d\<rparr>, snap)"
  by (simp add: ps_inv_def)

lemma ps_inv_begin_none:
  assumes "ps_inv enc (st, None)"
  shows "flush_begin enc st = (Inr None, st') \<Longrightarrow> ps_inv enc (st', None)"
    and "flush_begin enc st = (Inl e, st') \<Longrightarrow> ps_inv enc (st', None)"
  using assms by (auto simp: flush_begin_def Let_def split: if_splits sum.splits intro!: ps_inv_dirty)

lemma ps_inv_begin_some:
  assumes inv: "ps_inv enc (st, None)" and b: "flush_begin enc st = (Inr (Some sn), st')"
  shows "ps_inv enc (st', Some sn)"
proof (rule ps_invI)
  note i = ps_invD [OF inv]
  note f = flush_begin_Some [OF b i(1)]
  show "lanes_ok (ps_lanes st')" using i(1) f(1) by simp
  show "rows_ok enc (ps_disk st')" using i(3) f(1) by simp
  show "\<forall>(k, v) \<in> set (fs_writes s). row_ok enc (lane_key_bytes k) v" if "Some sn = Some s" for s
    using f(2) that by simp
  show "map_of (ps_lanes st') k \<noteq> None"
    if "Some sn = Some s" "k \<in> fst ` set (fs_writes s) \<union> set (fs_tombstones s)" for s k
    using f(1,3) that by auto
  show "row_matches enc (map_of (disk_after (Some sn) (ps_disk st')) (lane_key_bytes k)) (map_of (ps_lanes st') k)" for k
  proof (cases "k \<in> set (ps_dirty st) \<and> map_of (ps_lanes st) k \<noteq> None")
    case True
    then obtain slot where "map_of (ps_lanes st) k = Some slot" by auto
    with True f(1) f(4) [of k slot "ps_disk st"] show ?thesis by (simp add: disk_after_def)
  next
    case False
    then have "k \<notin> fst ` set (fs_writes sn)" and "k \<notin> set (fs_tombstones sn)" using f(3) by auto
    from commit_row_other [OF this] i(2) [of k] False f(1) show ?thesis by (auto simp: disk_after_def)
  qed
qed

lemma fold_reap:
  "map_of (fold reap_tombstone ts lanes) k =
     (if k \<in> set ts \<and> map_of lanes k = Some Tombstoned then None else map_of lanes k)"
  by (induction ts arbitrary: lanes) (auto simp: reap_tombstone_def)

lemma flush_commit_ok:
  "flush_commit None sn st = (Inr (), st\<lparr>ps_disk := snd (commit_snapshot None sn (ps_disk st)),
     ps_lanes := fold reap_tombstone (fs_tombstones sn) (ps_lanes st)\<rparr>)"
  by (simp add: flush_commit_def commit_snapshot_def)

lemma flush_commit_err:
  "flush_commit (Some e) sn st =
     (Inl e, st\<lparr>ps_dirty := ps_dirty st @ map fst (fs_writes sn) @ fs_tombstones sn\<rparr>)"
  by (simp add: flush_commit_def commit_snapshot_def)

lemma ps_inv_commit:
  assumes inv: "ps_inv enc (st, Some sn)"
  shows "ps_inv enc (snd (flush_commit txn sn st), None)"
proof (cases txn)
  case None
  note i = ps_invD [OF inv]
  show ?thesis
    unfolding None flush_commit_ok snd_conv
  proof (rule ps_invI)
    let ?st = "st\<lparr>ps_disk := snd (commit_snapshot None sn (ps_disk st)),
      ps_lanes := fold reap_tombstone (fs_tombstones sn) (ps_lanes st)\<rparr>"
    show "lanes_ok (ps_lanes ?st)" using i(1) by (auto simp: lanes_ok_def fold_reap split: if_splits)
    show "rows_ok enc (ps_disk ?st)"
      using commit_rows [OF _ i(4) [OF refl], of "ps_disk st"] i(3) by (auto simp: rows_ok_def)
    show "row_matches enc (map_of (disk_after None (ps_disk ?st)) (lane_key_bytes k)) (map_of (ps_lanes ?st) k)"
      if "k \<notin> set (ps_dirty ?st) \<or> map_of (ps_lanes ?st) k = None" for k
      using that i(2) [of k] commit_row_tombstone [of k sn "ps_disk st"]
      by (auto simp: disk_after_def fold_reap row_matches_def split: if_splits option.splits)
  qed auto
next
  case (Some e)
  note i = ps_invD [OF inv]
  show ?thesis
    unfolding Some flush_commit_err snd_conv
  proof (rule ps_invI)
    let ?st = "st\<lparr>ps_dirty := ps_dirty st @ map fst (fs_writes sn) @ fs_tombstones sn\<rparr>"
    show "lanes_ok (ps_lanes ?st)" using i(1) by simp
    show "rows_ok enc (ps_disk ?st)" using i(3) by simp
    show "row_matches enc (map_of (disk_after None (ps_disk ?st)) (lane_key_bytes k)) (map_of (ps_lanes ?st) k)"
      if k: "k \<notin> set (ps_dirty ?st) \<or> map_of (ps_lanes ?st) k = None" for k
    proof -
      have "k \<notin> fst ` set (fs_writes sn)" and "k \<notin> set (fs_tombstones sn)"
        using k i(5) [OF refl, of k] by (force simp: image_iff)+
      from commit_row_other [OF this] i(2) [of k] k show ?thesis by (auto simp: disk_after_def)
    qed
  qed auto
qed

subsection \<open>Reopening\<close>

lemma hydrate_rows_ok:
  assumes "codec_ok enc dec" and "\<forall>(b, v) \<in> set rows. row_ok enc b v" and "distinct (map fst rows)"
  shows "\<exists>lanes. hydrate_rows dec rows out = Inr lanes \<and>
           (\<forall>k. map_of lanes k =
              (case map_of rows (lane_key_bytes k) of
                 None \<Rightarrow> map_of out k
               | Some v \<Rightarrow> (case decode_record dec (lane_key_bytes k) v of Inr s \<Rightarrow> Some (Live s) | Inl _ \<Rightarrow> None)))"
  using assms(2,3)
proof (induction rows arbitrary: out)
  case (Cons row rows)
  obtain b v where row: "row = (b, v)" by (cases row)
  with Cons.prems(1) have "row_ok enc b v" by simp
  then obtain s where b: "b = lane_key_bytes (lane_key_of s)" and d: "decode_record dec b v = Inr s"
    using decode_record_stored [OF assms(1)] by (auto simp: row_ok_def)
  have nin: "map_of rows b = None" using Cons.prems(2) by (simp add: row map_of_eq_None_iff)
  obtain lanes where l: "hydrate_rows dec rows (AList.update (lane_key_of s) (Live s) out) = Inr lanes"
    and m: "\<And>k. map_of lanes k =
              (case map_of rows (lane_key_bytes k) of
                 None \<Rightarrow> map_of (AList.update (lane_key_of s) (Live s) out) k
               | Some v \<Rightarrow> (case decode_record dec (lane_key_bytes k) v of Inr s \<Rightarrow> Some (Live s) | Inl _ \<Rightarrow> None))"
    using Cons.IH [of "AList.update (lane_key_of s) (Live s) out"] Cons.prems by (auto simp: row)
  have "map_of lanes k =
      (case map_of (row # rows) (lane_key_bytes k) of
         None \<Rightarrow> map_of out k
       | Some v \<Rightarrow> (case decode_record dec (lane_key_bytes k) v of Inr s \<Rightarrow> Some (Live s) | Inl _ \<Rightarrow> None))" for k
    using m [of k] nin d
    by (cases "k = lane_key_of s"; cases "map_of rows (lane_key_bytes k)") (simp_all add: row b)
  with l show ?case by (auto simp: row d)
qed simp

lemma ps_open_rows:
  assumes "codec_ok enc dec" and "rows_ok enc disk"
  obtains st where "ps_open dec disk = Inr st" and "ps_dirty st = []" and "ps_disk st = disk"
    and "\<And>k. map_of (ps_lanes st) k =
          (case map_of disk (lane_key_bytes k) of
             None \<Rightarrow> None
           | Some v \<Rightarrow> (case decode_record dec (lane_key_bytes k) v of Inr s \<Rightarrow> Some (Live s) | Inl _ \<Rightarrow> None))"
proof -
  from assms(2) have "\<forall>(b, v) \<in> set disk. row_ok enc b v" and "distinct (map fst disk)"
    by (simp_all add: rows_ok_def)
  from hydrate_rows_ok [OF assms(1) this, of "[]"] obtain lanes
    where l: "hydrate_lanes dec disk = Inr lanes"
      and m: "\<And>k. map_of lanes k = (case map_of disk (lane_key_bytes k) of None \<Rightarrow> None
           | Some v \<Rightarrow> (case decode_record dec (lane_key_bytes k) v of Inr s \<Rightarrow> Some (Live s) | Inl _ \<Rightarrow> None))"
    by (auto simp: hydrate_lanes_def cong: option.case_cong)
  show ?thesis
    using l m by (intro that [of "\<lparr>ps_lanes = lanes, ps_dirty = [], ps_disk = disk\<rparr>"]) (auto simp: ps_open_def)
qed

lemma row_ok_decode:
  assumes "codec_ok enc dec" and "row_ok enc (lane_key_bytes k) v"
  obtains s where "decode_record dec (lane_key_bytes k) v = Inr s" and "lane_key_of s = k"
    and "sigs_ok s" and "enc (stored_from s) = Inr v"
  using assms decode_record_stored [OF assms(1)] by (auto simp: row_ok_def)

lemma ps_inv_reopen:
  assumes codec: "codec_ok enc dec" and rows: "rows_ok enc disk" and op: "ps_open dec disk = Inr st"
  shows "ps_inv enc (st, None)"
proof -
  from ps_open_rows [OF codec rows] op
  have d: "ps_disk st = disk" and m: "map_of (ps_lanes st) k =
        (case map_of disk (lane_key_bytes k) of
           None \<Rightarrow> None
         | Some v \<Rightarrow> (case decode_record dec (lane_key_bytes k) v of Inr s \<Rightarrow> Some (Live s) | Inl _ \<Rightarrow> None))" for k
    by (metis Inr_inject)+
  have row: "row_ok enc (lane_key_bytes k) v" if "map_of disk (lane_key_bytes k) = Some v" for k v
    using rows map_of_SomeD [OF that] by (auto simp: rows_ok_def)
  show ?thesis
  proof (rule ps_invI)
    show "lanes_ok (ps_lanes st)"
      unfolding lanes_ok_def m by (auto split: option.splits elim: row_ok_decode [OF codec row])
    show "row_matches enc (map_of (disk_after None (ps_disk st)) (lane_key_bytes k)) (map_of (ps_lanes st) k)" for k
    proof (cases "map_of disk (lane_key_bytes k)")
      case (Some v)
      obtain s where "decode_record dec (lane_key_bytes k) v = Inr s" and "enc (stored_from s) = Inr v"
        by (rule row_ok_decode [OF codec row [OF Some]])
      with Some show ?thesis by (simp add: m disk_after_def d row_matches_def)
    qed (simp add: m disk_after_def d row_matches_def)
    show "rows_ok enc (ps_disk st)" using rows d by simp
  qed auto
qed

lemma ps_step_inv:
  assumes "codec_ok enc dec" and "ps_step enc dec x y" and "ps_inv enc x"
  shows "ps_inv enc y"
  using assms(2,3)
proof cases
  case (step_begin st sn st')
  with assms(3) show ?thesis
    by (cases sn) (auto intro: ps_inv_begin_none ps_inv_begin_some)
next
  case (step_forget st sn k)
  with ps_inv_put [of enc st sn Tombstoned k] assms(3) show ?thesis by (simp add: ps_forget_def)
next
  case (step_crash st st' sn)
  with assms show ?thesis by (auto intro: ps_inv_reopen ps_invD(3))
qed (auto intro: ps_inv_record ps_inv_set_reg ps_inv_set_paid ps_inv_begin_none ps_inv_commit)

lemma ps_reachable_inv:
  assumes "codec_ok enc dec" and "ps_reachable enc dec x"
  shows "ps_inv enc x"
  using assms(2)
proof induction
  case ps_init
  show ?case by (rule ps_invI) (auto simp: lanes_ok_def row_matches_def disk_after_def rows_ok_def)
next
  case (ps_next x y)
  with assms(1) show ?case by (auto intro: ps_step_inv)
qed

lemma row_matches_get:
  assumes codec: "codec_ok enc dec" and lanes: "lanes_ok (ps_lanes st)"
    and row: "row_matches enc (map_of disk (lane_key_bytes k)) (map_of (ps_lanes st) k)"
    and m: "map_of (ps_lanes st') k = (case map_of disk (lane_key_bytes k) of None \<Rightarrow> None
           | Some v \<Rightarrow> (case decode_record dec (lane_key_bytes k) v of Inr s \<Rightarrow> Some (Live s) | Inl _ \<Rightarrow> None))"
  shows "ps_get st' k = ps_get st k"
proof -
  consider (live) s where "map_of (ps_lanes st) k = Some (Live s)"
    | (dead) "map_of (ps_lanes st) k = None \<or> map_of (ps_lanes st) k = Some Tombstoned"
    by (metis lane_slot.exhaust option.exhaust)
  then show ?thesis
  proof cases
    case live
    with row obtain bs where e: "enc (stored_from s) = Inr bs" "map_of disk (lane_key_bytes k) = Some bs"
      by (auto simp: row_matches_def)
    from live_slot_ok [OF lanes live] decode_record_stored [OF codec _ e(1)]
    have "decode_record dec (lane_key_bytes k) bs = Inr s" by auto
    with live e m show ?thesis by (simp add: ps_get_def)
  next
    case dead
    with row m show ?thesis by (auto simp: ps_get_def row_matches_def slot_live_def)
  qed
qed

lemma clean_store_reopens:
  assumes codec: "codec_ok enc dec" and inv: "ps_inv enc (st, None)" and clean: "ps_dirty st = []"
  shows "\<exists>st'. ps_open dec (ps_disk st) = Inr st' \<and> (\<forall>k. ps_get st' k = ps_get st k)"
proof -
  note i = ps_invD [OF inv]
  obtain st' where o: "ps_open dec (ps_disk st) = Inr st'"
    and m: "\<And>k. map_of (ps_lanes st') k = (case map_of (ps_disk st) (lane_key_bytes k) of None \<Rightarrow> None
           | Some v \<Rightarrow> (case decode_record dec (lane_key_bytes k) v of Inr s \<Rightarrow> Some (Live s) | Inl _ \<Rightarrow> None))"
    using ps_open_rows [OF codec i(3)] by metis
  have "ps_get st' k = ps_get st k" for k
    using i(2) [of k] clean by (intro row_matches_get [OF codec i(1) _ m]) (simp add: disk_after_def)
  with o show ?thesis by blast
qed

lemma flush_Ok:
  assumes "ps_inv enc (st, None)" and "flush enc txn st = (Inr (), st')"
  shows "ps_inv enc (st', None)" and "ps_dirty st' = []" and "\<And>k. ps_get st' k = ps_get st k"
proof -
  consider (clean) "flush_begin enc st = (Inr None, st')"
    | (commit) sn st1 where "flush_begin enc st = (Inr (Some sn), st1)" "flush_commit txn sn st1 = (Inr (), st')"
    using assms(2) by (auto simp: flush_def split: prod.splits sum.splits option.splits)
  then have *: "ps_inv enc (st', None) \<and> ps_dirty st' = [] \<and> (\<forall>k. ps_get st' k = ps_get st k)"
  proof cases
    case clean
    with ps_inv_begin_none(1) [OF assms(1)] show ?thesis
      by (auto simp: flush_begin_def ps_get_def Let_def split: if_splits sum.splits)
  next
    case commit
    from flush_begin_Some(1) [OF commit(1) ps_invD(1) [OF assms(1)]] have st1: "st1 = st\<lparr>ps_dirty := []\<rparr>" .
    have "txn = None" using commit(2) by (cases txn) (simp_all add: flush_commit_err)
    with commit(2) have st': "st' = st1\<lparr>ps_disk := snd (commit_snapshot None sn (ps_disk st1)),
        ps_lanes := fold reap_tombstone (fs_tombstones sn) (ps_lanes st1)\<rparr>"
      by (simp add: flush_commit_ok)
    have "ps_inv enc (st', None)"
      using ps_inv_commit [OF ps_inv_begin_some [OF assms(1) commit(1)], of txn] commit(2) by simp
    then show ?thesis by (auto simp: st' st1 ps_get_def fold_reap slot_live_def)
  qed
  then show "ps_inv enc (st', None)" and "ps_dirty st' = []" and "\<And>k. ps_get st' k = ps_get st k" by auto
qed

lemma apply_voucher_ps_inv:
  assumes "ps_inv enc (st, snap)" and "sigs_ok s" and "\<And>g. length (as_bytes A g) = 65"
    and "apply_voucher A domain ps_record st s sv = (Inr applied, s', st')"
  shows "ps_inv enc (st', snap)"
proof -
  note acc = apply_voucher_Inr [OF assms(4)]
  have "sigs_ok s'"
    using stage_voucher_Inr(4) [OF acc(1)] assms(2,3)
    by (auto simp: advance_presigned_Inr_iff presigned_next_def sigs_ok_def Let_def)
  from ps_inv_record [OF assms(1) this] acc(2) show ?thesis by simp
qed

subsection \<open>A worked store\<close>

text \<open>
  A codec that stores the lanes \<open>demo_sold a\<close> by their amount and refuses every other record. It
  satisfies \<open>codec_ok\<close>, so the hypotheses of the properties below can hold.
\<close>

definition demo_sold :: "u256 \<Rightarrow> lane_state" where
  "demo_sold a = demo_lane\<lparr>last_amount := a, last_signature := Some (replicate 65 0)\<rparr>"

definition demo_enc :: lane_encoder where
  "demo_enc r =
     (if r = stored_from (demo_sold (from_be_bytes (sl_last_amount r))) then Inr (sl_last_amount r)
      else Inl ''unsupported'')"

definition demo_dec :: lane_decoder where
  "demo_dec bs = Inr (stored_from (demo_sold (from_be_bytes bs)), [])"

definition demo_alloy65 :: "address alloy" where
  "demo_alloy65 = demo_alloy\<lparr>as_bytes := (\<lambda>_. replicate 65 0)\<rparr>"

definition demo_empty :: pstore where
  "demo_empty = \<lparr>ps_lanes = [], ps_dirty = [], ps_disk = []\<rparr>"

definition demo_key :: lane_key where
  "demo_key = lane_key_of demo_lane"

lemma demo_codec: "codec_ok demo_enc demo_dec"
  by (auto simp: codec_ok_def demo_enc_def demo_dec_def split: if_splits)

lemma demo_enc_sold [simp]: "demo_enc (stored_from (demo_sold a)) = Inr (to_be_bytes 32 a)"
proof -
  have "sl_last_amount (stored_from (demo_sold a)) = to_be_bytes 32 a"
    by (simp add: stored_from_def demo_sold_def)
  then show ?thesis by (simp add: demo_enc_def)
qed

lemma demo_sigs_ok [simp]: "sigs_ok (demo_sold a)" "sigs_ok demo_lane"
  by (simp_all add: sigs_ok_def demo_sold_def demo_defs)

lemma demo_sold_key [simp]: "lane_key_of (demo_sold a) = demo_key"
  by (simp add: lane_key_of_def demo_sold_def demo_key_def)

lemma demo_empty_reachable: "ps_reachable demo_enc demo_dec (demo_empty, None)"
  unfolding demo_empty_def by (rule ps_reachable.ps_init)

definition demo_buffered :: "u256 \<Rightarrow> pstore" where
  "demo_buffered a = demo_empty\<lparr>ps_lanes := [(demo_key, Live (demo_sold a))], ps_dirty := [demo_key]\<rparr>"

definition demo_snapshot :: "u256 \<Rightarrow> flush_snapshot" where
  "demo_snapshot a = \<lparr>fs_writes = [(demo_key, to_be_bytes 32 a)], fs_tombstones = []\<rparr>"

lemma demo_record: "ps_record demo_empty (demo_sold a) = (Inr (), demo_buffered a)"
  by (simp add: ps_record_def demo_empty_def demo_buffered_def)

lemma demo_record_again:
  "ps_record (demo_buffered a\<lparr>ps_dirty := []\<rparr>) (demo_sold b) = (Inr (), demo_buffered b)"
  by (simp add: ps_record_def demo_buffered_def demo_empty_def demo_sold_def demo_defs demo_key_def lane_key_of_def Let_def)

lemma demo_begin: "flush_begin demo_enc (demo_buffered a) = (Inr (Some (demo_snapshot a)), demo_buffered a\<lparr>ps_dirty := []\<rparr>)"
  by (simp add: flush_begin_def demo_buffered_def demo_snapshot_def sort_by_table_key_def)

lemma demo_commit_disk:
  "snd (commit_snapshot None (demo_snapshot a) []) = [(lane_key_bytes demo_key, to_be_bytes 32 a)]"
  "snd (commit_snapshot None (demo_snapshot a) [(lane_key_bytes demo_key, v)]) = [(lane_key_bytes demo_key, to_be_bytes 32 a)]"
  by (simp_all add: commit_snapshot_def demo_snapshot_def)

lemma demo_buffered_reachable: "ps_reachable demo_enc demo_dec (demo_buffered a, None)"
  using ps_reachable.ps_next [OF demo_empty_reachable ps_step.step_record [OF demo_sigs_ok(1)]]
  by (simp add: demo_record)

lemma demo_flush:
  "flush demo_enc None (demo_buffered a) =
     (Inr (), demo_buffered a\<lparr>ps_dirty := [], ps_disk := [(lane_key_bytes demo_key, to_be_bytes 32 a)]\<rparr>)"
proof -
  have d: "ps_disk (demo_buffered a\<lparr>ps_dirty := []\<rparr>) = []" "fs_tombstones (demo_snapshot a) = []"
    by (simp_all add: demo_buffered_def demo_empty_def demo_snapshot_def)
  show ?thesis by (simp add: flush_def demo_begin flush_commit_ok d demo_commit_disk)
qed

subsection \<open>Properties\<close>

text \<open>
  C7. Durability of a flush. In a store driven by one flusher, through any interleaving of
  records, watermark updates, forgets, failed and successful commits and crashes: once a flush
  returns without an error, a process that reopens the table finds, for every lane key, exactly
  what a lookup returned when the flush was called.
\<close>

theorem flush_makes_durable:
  assumes "codec_ok enc dec" and "ps_reachable enc dec (st, None)" and "flush enc txn st = (Inr (), st')"
  shows "\<exists>st2. ps_open dec (ps_disk st') = Inr st2 \<and> (\<forall>k. ps_get st2 k = ps_get st k)"
proof -
  note f = flush_Ok [OF ps_reachable_inv [OF assms(1,2)] assms(3)]
  from clean_store_reopens [OF assms(1) f(1,2)] f(3) show ?thesis by auto
qed

theorem flush_makes_durable_witness:
  "\<exists>st2. ps_open demo_dec (ps_disk (snd (flush demo_enc None (demo_buffered 10)))) = Inr st2 \<and>
     ps_get st2 demo_key = Inr (Some (demo_sold 10))"
proof -
  from flush_makes_durable [OF demo_codec demo_buffered_reachable demo_flush, of 10]
  obtain st2 where "ps_open demo_dec (ps_disk (snd (flush demo_enc None (demo_buffered 10)))) = Inr st2"
    and "\<forall>k. ps_get st2 k = ps_get (demo_buffered 10) k"
    by (auto simp: demo_flush)
  moreover have "ps_get (demo_buffered 10) demo_key = Inr (Some (demo_sold 10))"
    by (simp add: ps_get_def demo_buffered_def slot_live_def)
  ultimately show ?thesis by auto
qed

text \<open>
  C8. Crash recovery with one flusher. While at most one flush is in flight at a time, a crash at
  any moment, between the two halves of that flush included, leaves a table that opens without
  an error, and every lane that had no change pending and is not part of the uncommitted snapshot
  comes back as it was. Two flushes at once may break this: \<open>overlapping_flushes_lose_update\<close>.
\<close>

theorem crash_recovers_settled_lanes:
  assumes "codec_ok enc dec" and "ps_reachable enc dec (st, snap)"
  shows "\<exists>st2. ps_open dec (ps_disk st) = Inr st2 \<and> ps_dirty st2 = [] \<and>
    (\<forall>k. k \<notin> set (ps_dirty st) \<and>
         (\<forall>sn. snap = Some sn \<longrightarrow> k \<notin> fst ` set (fs_writes sn) \<union> set (fs_tombstones sn)) \<longrightarrow>
       ps_get st2 k = ps_get st k)"
proof -
  note i = ps_invD [OF ps_reachable_inv [OF assms]]
  obtain st2 where o: "ps_open dec (ps_disk st) = Inr st2" and d: "ps_dirty st2 = []"
    and m: "\<And>k. map_of (ps_lanes st2) k = (case map_of (ps_disk st) (lane_key_bytes k) of None \<Rightarrow> None
           | Some v \<Rightarrow> (case decode_record dec (lane_key_bytes k) v of Inr s \<Rightarrow> Some (Live s) | Inl _ \<Rightarrow> None))"
    using ps_open_rows [OF assms(1) i(3)] by metis
  have "ps_get st2 k = ps_get st k"
    if k: "k \<notin> set (ps_dirty st)" "\<And>sn. snap = Some sn \<Longrightarrow> k \<notin> fst ` set (fs_writes sn) \<union> set (fs_tombstones sn)" for k
  proof (rule row_matches_get [OF assms(1) i(1) _ m])
    have "map_of (disk_after snap (ps_disk st)) (lane_key_bytes k) = map_of (ps_disk st) (lane_key_bytes k)"
      using k(2) by (cases snap) (simp_all add: disk_after_def commit_row_other)
    with i(2) [of k] k(1)
    show "row_matches enc (map_of (ps_disk st) (lane_key_bytes k)) (map_of (ps_lanes st) k)" by simp
  qed
  with o d show ?thesis by auto
qed

theorem crash_recovers_settled_lanes_witness:
  "\<exists>st2. ps_open demo_dec [(lane_key_bytes demo_key, to_be_bytes 32 (10 :: u256))] = Inr st2 \<and>
     ps_get st2 demo_key = Inr (Some (demo_sold 10))"
proof -
  let ?st = "demo_buffered 10\<lparr>ps_dirty := [], ps_disk := [(lane_key_bytes demo_key, to_be_bytes 32 (10 :: u256))]\<rparr>"
  have "ps_reachable demo_enc demo_dec (demo_buffered 10\<lparr>ps_dirty := []\<rparr>, Some (demo_snapshot 10))"
    by (rule ps_reachable.ps_next [OF demo_buffered_reachable ps_step.step_begin [OF demo_begin]])
  from ps_reachable.ps_next [OF this ps_step.step_commit [where txn = None]]
  have "ps_reachable demo_enc demo_dec (?st, None)"
    using demo_flush [of 10] by (simp add: flush_def demo_begin)
  from crash_recovers_settled_lanes [OF demo_codec this]
  obtain st2 where "ps_open demo_dec [(lane_key_bytes demo_key, to_be_bytes 32 (10 :: u256))] = Inr st2"
    "ps_get st2 demo_key = ps_get ?st demo_key" by auto
  moreover have "ps_get ?st demo_key = Inr (Some (demo_sold 10))"
    by (simp add: ps_get_def demo_buffered_def slot_live_def)
  ultimately show ?thesis by auto
qed

text \<open>
  C9. With one flusher, a voucher is not accepted again after a restart. When a lane accepted a
  voucher over the disk-backed store with no flush in flight, and a flush with no other beside it
  then returned without an error, the reopened store returns the lane with the accepted frontier,
  and staging the same voucher on it fails.
\<close>

theorem restart_rejects_replay:
  assumes "codec_ok enc dec" and "ps_reachable enc dec (st, None)" and "sigs_ok s"
    and "\<And>g. length (as_bytes A g) = 65"
    and "apply_voucher A domain ps_record st s sv = (Inr applied, s', st1)"
    and "flush enc txn st1 = (Inr (), st2)"
  shows "\<exists>st3 t. ps_open dec (ps_disk st2) = Inr st3 \<and> ps_get st3 (lane_key_of s) = Inr (Some t) \<and>
           same_frontier t s' \<and> (\<exists>e. stage_voucher A domain t sv = Inl e)"
proof -
  have "ps_inv enc (st1, None)"
    by (rule apply_voucher_ps_inv [OF ps_reachable_inv [OF assms(1,2)] assms(3-5)])
  note f = flush_Ok [OF this assms(6)]
  obtain st3 where o: "ps_open dec (ps_disk st2) = Inr st3" and g: "\<And>k. ps_get st3 k = ps_get st1 k"
    using clean_store_reopens [OF assms(1) f(1,2)] f(3) by auto
  obtain t where t: "ps_get st1 (lane_key_of s) = Inr (Some t)" "same_frontier t s'"
    using ps.accepted_frontier_reloads [OF assms(5)] by auto
  with ps.replay_after_reload_rejected [OF assms(5) t(1)] o g show ?thesis by auto
qed

text \<open>One accepted voucher over an empty store, and the flush after it.\<close>

lemma demo_apply:
  "apply_voucher demo_alloy65 demo_domain ps_record demo_empty demo_lane (demo_voucher 10 0 0)
     = (Inr \<lparr>va_amount_delta = 10, va_bytes_delta = 0\<rparr>, demo_sold 10, demo_buffered 10)"
proof -
  have "stage_voucher demo_alloy65 demo_domain demo_lane (demo_voucher 10 0 0)
      = Inr (demo_sold 10, \<lparr>va_amount_delta = 10, va_bytes_delta = 0\<rparr>)"
    by (simp add: stage_voucher_def verify_signer_def recover_signer_def is_high_s_def demo_sold_def
        advance_presigned_def live_claim_def Let_def demo_alloy65_def demo_defs sat_add_def accrued_def)
  then show ?thesis by (simp add: apply_voucher_def demo_record)
qed

theorem restart_rejects_replay_witness:
  "\<exists>st3 t. ps_open demo_dec (ps_disk (snd (flush demo_enc None (demo_buffered 10)))) = Inr st3 \<and>
     ps_get st3 demo_key = Inr (Some t) \<and> last_amount t = 10 \<and>
     (\<exists>e. stage_voucher demo_alloy65 demo_domain t (demo_voucher 10 0 0) = Inl e)"
proof -
  have "length (as_bytes demo_alloy65 g) = 65" for g by (simp add: demo_alloy65_def)
  from restart_rejects_replay [OF demo_codec demo_empty_reachable demo_sigs_ok(2) this demo_apply demo_flush]
  show ?thesis by (auto simp: demo_flush demo_key_def same_frontier_def demo_sold_def)
qed

text \<open>
  A voucher that the in-memory store cannot record is not accepted: when applying it fails,
  for whatever reason, neither the lane nor the store has changed.
\<close>

theorem failed_voucher_leaves_lane_and_store:
  assumes "apply_voucher A domain mem_record st s sv = (Inl e, s', st')"
  shows "s' = s \<and> st' = st"
  by (rule mem.failed_apply_changes_nothing [OF assms])

theorem failed_voucher_leaves_lane_and_store_witness:
  "apply_voucher demo_alloy demo_domain mem_record \<lparr>poisoned = True, inner = []\<rparr> demo_lane (demo_voucher 10 1048576 355)
     = (Inl (pool_error.Store mem_poison_error), demo_lane, \<lparr>poisoned = True, inner = []\<rparr>)"
proof -
  obtain r s' st' where run: "apply_voucher demo_alloy demo_domain mem_record \<lparr>poisoned = True, inner = []\<rparr>
      demo_lane (demo_voucher 10 1048576 355) = (r, s', st')" by (metis prod_cases3)
  have r: "r = Inl (pool_error.Store mem_poison_error)"
    using run by (simp add: apply_voucher_def demo_stage1 mem_record_def)
  with failed_voucher_leaves_lane_and_store [OF run [unfolded r]] run show ?thesis by simp
qed

text \<open>
  Overlapping flushes. Nothing excludes a second flush while a first one is between its
  drain and its commit. That second flush finds the work-list empty and returns without an
  error whatever the database does, although the table does not yet hold the drained lanes.
\<close>

theorem overlapping_flush_returns_early:
  assumes "flush_begin enc st = (Inr (Some sn), st1)"
  shows "flush enc txn st1 = (Inr (), st1) \<and> ps_disk st1 = ps_disk st"
proof -
  from assms have "st1 = st\<lparr>ps_dirty := []\<rparr>"
    by (auto simp: flush_begin_def Let_def split: if_splits sum.splits)
  then show ?thesis by (simp add: flush_def flush_begin_def)
qed

theorem overlapping_flush_returns_early_witness:
  "fst (flush demo_enc (Some (Backend ''down'')) (snd (flush_begin demo_enc (demo_buffered 10)))) = Inr () \<and>
   ps_get (demo_buffered 10) demo_key = Inr (Some (demo_sold 10)) \<and>
   ps_disk (snd (flush_begin demo_enc (demo_buffered 10))) = []"
  using overlapping_flush_returns_early [OF demo_begin [of 10], of "Some (Backend ''down'')"]
  unfolding demo_begin snd_conv fst_conv
  by (simp add: ps_get_def demo_buffered_def slot_live_def demo_empty_def)

lemma commit_rows_ok:
  assumes "rows_ok enc disk" and "\<forall>(k, v) \<in> set (fs_writes sn). row_ok enc (lane_key_bytes k) v"
  shows "rows_ok enc (snd (commit_snapshot None sn disk))"
  using commit_rows [OF _ assms(2), of disk] assms(1) unfolding rows_ok_def by blast

lemma flush_commit_get: "ps_get (snd (flush_commit None sn st)) k = ps_get st k"
  by (simp add: flush_commit_ok ps_get_def fold_reap slot_live_def)

text \<open>
  C11. Overlapping flushes can also leave the table behind for good. Let a flush drain a pending
  lane, let the lane then be recorded anew, and let a second flush drain that. When the second
  one commits first and the first one last, both return without an error, the working set
  holds the new frontier, nothing is pending and every further flush does nothing; but a
  process that reopens the table gets the lane as the first flush drained it.
\<close>

theorem overlapping_flushes_lose_update:
  assumes "codec_ok enc dec" and "ps_reachable enc dec (st, None)" and "sigs_ok s2"
    and "lane_key_of s2 \<in> set (ps_dirty st)" and "ps_get st (lane_key_of s2) = Inr (Some s1)"
    and "flush_begin enc st = (Inr (Some first), st2)" and "ps_record st2 s2 = (Inr (), st3)"
    and "flush_begin enc st3 = (Inr (Some second), st4)"
  shows "\<exists>st5 st6 t st8. flush_commit None second st4 = (Inr (), st5) \<and> flush_commit None first st5 = (Inr (), st6) \<and>
           flush enc txn st6 = (Inr (), st6) \<and>
           ps_get st6 (lane_key_of s2) = Inr (Some t) \<and> same_frontier t s2 \<and>
           ps_open dec (ps_disk st6) = Inr st8 \<and> ps_get st8 (lane_key_of s2) = Inr (Some s1)"
proof -
  let ?k = "lane_key_of s2"
  note inv = ps_reachable_inv [OF assms(1,2)]
  note i = ps_invD [OF inv]
  note f1 = flush_begin_Some [OF assms(6) i(1)]
  have "ps_inv enc (st3, Some first)"
    using ps_inv_record [OF ps_inv_begin_some [OF inv assms(6)] assms(3)] assms(7) by simp
  note i3 = ps_invD [OF this]
  note f2 = flush_begin_Some [OF assms(8) i3(1)]
  define st5 where "st5 = snd (flush_commit None second st4)"
  define st6 where "st6 = snd (flush_commit None first st5)"
  have runs: "flush_commit None second st4 = (Inr (), st5)" "flush_commit None first st5 = (Inr (), st6)"
    by (simp_all add: st5_def st6_def flush_commit_ok)
  have clean: "ps_dirty st6 = []" by (simp add: st6_def st5_def flush_commit_ok f2(1))
  have "ps_get st6 ?k = ps_get st3 ?k" by (simp add: st6_def st5_def flush_commit_get) (simp add: f2(1) ps_get_def)
  then obtain t where t: "ps_get st6 ?k = Inr (Some t)" "same_frontier t s2"
    using ps.rec_get [OF assms(7)] by auto
  have disk: "ps_disk st6 = snd (commit_snapshot None first (ps_disk st5))" by (simp add: st6_def flush_commit_ok)
  have "rows_ok enc (ps_disk st6)"
    unfolding disk st5_def flush_commit_ok
    by simp (intro commit_rows_ok f1(2) f2(2), simp add: f2(1) i3(3))
  then obtain st8 where o: "ps_open dec (ps_disk st6) = Inr st8"
    and m: "\<And>k. map_of (ps_lanes st8) k = (case map_of (ps_disk st6) (lane_key_bytes k) of None \<Rightarrow> None
           | Some v \<Rightarrow> (case decode_record dec (lane_key_bytes k) v of Inr s \<Rightarrow> Some (Live s) | Inl _ \<Rightarrow> None))"
    using ps_open_rows [OF assms(1)] by metis
  have "map_of (ps_lanes st) ?k = Some (Live s1)" using assms(5) by (simp add: ps_get_Some)
  from row_matches_get [OF assms(1) i(1) _ m, of ?k] f1(4) [OF assms(4) this, of "ps_disk st5"] assms(5)
  have "ps_get st8 ?k = Inr (Some s1)" by (simp add: disk)
  then show ?thesis using runs clean t o by (auto simp: flush_def flush_begin_def)
qed

theorem overlapping_flushes_lose_update_witness:
  "\<exists>st5 st6 t st8. flush_commit None (demo_snapshot 20) (demo_buffered 20\<lparr>ps_dirty := []\<rparr>) = (Inr (), st5) \<and>
     flush_commit None (demo_snapshot 10) st5 = (Inr (), st6) \<and> ps_dirty st6 = [] \<and>
     ps_get st6 demo_key = Inr (Some t) \<and> last_amount t = 20 \<and>
     ps_open demo_dec (ps_disk st6) = Inr st8 \<and> ps_get st8 demo_key = Inr (Some (demo_sold 10))"
proof -
  have "ps_get (demo_buffered 10) demo_key = Inr (Some (demo_sold 10))" "demo_key \<in> set (ps_dirty (demo_buffered 10))"
    by (simp_all add: ps_get_def demo_buffered_def slot_live_def)
  with overlapping_flushes_lose_update [OF demo_codec demo_buffered_reachable, of "demo_sold 20" 10 "demo_sold 10",
      OF _ _ _ demo_begin demo_record_again demo_begin, of None]
  obtain st5 st6 t st8 where *: "flush_commit None (demo_snapshot 20) (demo_buffered 20\<lparr>ps_dirty := []\<rparr>) = (Inr (), st5)"
    "flush_commit None (demo_snapshot 10) st5 = (Inr (), st6)"
    "ps_get st6 demo_key = Inr (Some t)" "same_frontier t (demo_sold 20)"
    "ps_open demo_dec (ps_disk st6) = Inr st8" "ps_get st8 demo_key = Inr (Some (demo_sold 10))" by auto
  moreover from *(1,2) have "ps_dirty st6 = []" by (auto simp: flush_commit_ok)
  moreover from *(4) have "last_amount t = 20" by (simp add: same_frontier_def demo_sold_def)
  ultimately show ?thesis by blast
qed

end
