(* ===== verification/Client_Handler.thy ===== *)
theory Client_Handler
  imports Wire Pool_Store
begin

text \<open>
  The node's payment path for one lane (\<open>src/crates/node/src/handlers/client/voucher.rs\<close>, the lane
  delivery state of \<open>handlers/client/mod.rs\<close> and the expiry margin of
  \<open>src/crates/common/src/config/mod.rs\<close>).

  A handler call is a function of the state it finds under the per-lane lock. The reveal path
  takes the lock twice: \<open>commit_one_preimage\<close> has the lane as it was at the first lock (the walk
  runs against that snapshot) and works on the lane at the second, so any interleaving of
  streams on the lane is a sequence of these calls. The frames it writes, the receipts and the
  redeem hints are fields of the world it returns.
\<close>

subsection \<open>The expiry margin\<close>

definition REDEEM_LANDING_SLACK_SECS :: u64 where
  "REDEEM_LANDING_SLACK_SECS = 120"

definition capability_expiry_margin_secs :: "u64 \<Rightarrow> u64" where
  "capability_expiry_margin_secs redeem_interval_secs = sat_add redeem_interval_secs REDEEM_LANDING_SLACK_SECS"

definition inside_capability_expiry_margin :: "u64 \<Rightarrow> u64 \<Rightarrow> u64 \<Rightarrow> bool" where
  "inside_capability_expiry_margin exp margin_secs now \<longleftrightarrow> exp = 0 \<or> exp \<le> sat_add now margin_secs"

subsection \<open>Owed chunks\<close>

definition CHUNK_GROUP_BYTES :: u64 where
  "CHUNK_GROUP_BYTES = 16384"

definition VERIFY_LAG_BYTES :: u64 where
  "VERIFY_LAG_BYTES = CHUNK_GROUP_BYTES"

record owed_chunk =
  oc_len :: u64
  oc_remaining :: u64

definition OwedChunk_new :: "u64 \<Rightarrow> owed_chunk" where
  "OwedChunk_new n = \<lparr>oc_len = n, oc_remaining = n\<rparr>"

datatype handler_error =
    CreditedExceedsU64
  | OverCredit (overcredit: u64) (overcredit_chunk: owed_chunk)
  | AccountingBroke u64 u64 u64 u64
  | ClientPaymentFault rate_error
  | RecordFailed store_error
  | UnexpectedRetrySignal

definition settle :: "owed_chunk \<Rightarrow> u64 \<Rightarrow> handler_error + (bool \<times> owed_chunk)" where
  "settle oc credited =
     (case checked_sub (oc_remaining oc) credited of
        None \<Rightarrow> Inl (OverCredit credited oc)
      | Some r \<Rightarrow> Inr (r = 0, oc\<lparr>oc_remaining := r\<rparr>))"

definition pop_payable ::
  "owed_chunk list \<Rightarrow> u64 \<Rightarrow> bool \<Rightarrow> owed_chunk option \<times> owed_chunk list" where
  "pop_payable pending unvouchered done_delivering =
     (if 1 < length pending \<or> VERIFY_LAG_BYTES \<le> unvouchered \<or> done_delivering
      then (case pending of [] \<Rightarrow> (None, []) | oc # rest \<Rightarrow> (Some oc, rest))
      else (None, pending))"

definition ensure_unpaid_bytes_tracked ::
  "u64 \<Rightarrow> u64 \<Rightarrow> u64 \<Rightarrow> owed_chunk list \<Rightarrow> handler_error + unit" where
  "ensure_unpaid_bytes_tracked delivered paid unvouchered pending =
     (let held = sum_list (map oc_remaining pending) in
      if checked_sub delivered paid = Some (sat_add unvouchered held) then Inr ()
      else Inl (AccountingBroke delivered paid held unvouchered))"

subsection \<open>Credit\<close>

definition chunk_price_matches_quote :: "client_voucher \<Rightarrow> u64 \<Rightarrow> bool" where
  "chunk_price_matches_quote wire rate_per_mb \<longleftrightarrow>
     cv_chunk_price wire = (if cv_chain_root wire = 0 then 0 else rate_per_mb)"

definition credit_advance :: "u256 \<Rightarrow> u64 \<Rightarrow> u256 \<Rightarrow> handler_error + (u256 \<times> u64)" where
  "credit_advance paid_credited delta_bytes watermark =
     (let new_credited = min (paid_credited + ucast delta_bytes) watermark;
          credited = sat_sub new_credited paid_credited
      in case u64_try_from credited of
           None \<Rightarrow> Inl CreditedExceedsU64
         | Some credited_bytes \<Rightarrow> Inr (new_credited, credited_bytes))"

definition credit_stale :: "u256 \<Rightarrow> u64 \<Rightarrow> u256 \<Rightarrow> handler_error + (u256 \<times> u64) option" where
  "credit_stale paid_credited due watermark =
     (case credit_advance paid_credited due watermark of
        Inl e \<Rightarrow> Inl e
      | Inr (new_credited, credited_bytes) \<Rightarrow>
          Inr (if credited_bytes = due then Some (new_credited, credited_bytes) else None))"

definition voucher_credit_delta :: "client_voucher \<Rightarrow> owed_chunk \<Rightarrow> u64" where
  "voucher_credit_delta wire oc =
     (if cv_chain_root wire \<noteq> 0 \<and> CHUNK_BYTES \<le> oc_len oc then 0 else oc_remaining oc)"

subsection \<open>State\<close>

type_synonym stream_anchor = "b256 option"

definition anchor_adopt :: "b256 \<Rightarrow> stream_anchor" where
  "anchor_adopt root = (if root \<noteq> 0 then Some root else None)"

record lane_delivery =
  ld_state :: lane_state
  ld_bytes_delivered_cumulative :: u256
  ld_paid_credited :: u256
  ld_last_voucher_at :: u64

definition hydrated :: "lane_state \<Rightarrow> lane_delivery" where
  "hydrated s = \<lparr>ld_state = s, ld_bytes_delivered_cumulative = owed_bytes s,
                 ld_paid_credited = owed_bytes s, ld_last_voucher_at = 0\<rparr>"

record receipt =
  rcp_hash :: b256
  rcp_delta_bytes :: u64
  rcp_client_node_id :: b256
  rcp_voucher_amount :: u256

record ('sig, 'st) handler =
  h_alloy :: "'sig alloy"
  h_from_raw :: "u8 list \<Rightarrow> 'sig option"
  h_keccak :: "b256 \<Rightarrow> b256"
  h_voucher_domain :: eip712_domain
  h_record :: "'st record_op"
  h_expiry_margin_secs :: u64
  h_unix_seconds :: u64
  h_unix_millis :: u64
  h_hint_accepted :: bool

record 'st serve_world =
  w_lane :: lane_delivery
  w_store :: 'st
  w_anchor :: stream_anchor
  w_frames :: "stream_error list"
  w_receipts :: "receipt list"
  w_hints :: "lane_key list"

datatype voucher_stop = Continue u64 | Rejected

datatype payment_proof = Voucher client_voucher | Preimage chunk_preimage

record request_ctx =
  rq_hash :: b256
  rq_lane_key :: lane_key
  rq_client_node_id :: b256
  rq_rate_per_mb :: u64

type_synonym 'st handled = "(handler_error + voucher_stop) \<times> 'st serve_world"

definition inside_expiry_margin :: "('sig, 'st) handler \<Rightarrow> u64 \<Rightarrow> bool" where
  "inside_expiry_margin H exp =
     inside_capability_expiry_margin exp (h_expiry_margin_secs H) (h_unix_seconds H)"

definition reject_proof ::
  "reject_reason \<Rightarrow> watermark_bundle option \<Rightarrow> 'st serve_world \<Rightarrow> 'st handled" where
  "reject_proof reason bundle w = (Inr Rejected, w\<lparr>w_frames := w_frames w @ [VoucherRejected reason bundle]\<rparr>)"

definition record_receipt :: "request_ctx \<Rightarrow> u64 \<Rightarrow> u64 \<Rightarrow> 'st serve_world \<Rightarrow> 'st serve_world" where
  "record_receipt rq delta_bytes wire_amount w =
     w\<lparr>w_receipts := w_receipts w @
         [\<lparr>rcp_hash = rq_hash rq, rcp_delta_bytes = delta_bytes,
           rcp_client_node_id = rq_client_node_id rq, rcp_voucher_amount = ucast wire_amount\<rparr>]\<rparr>"

definition send_hint :: "('sig, 'st) handler \<Rightarrow> lane_key \<Rightarrow> 'st serve_world \<Rightarrow> 'st serve_world" where
  "send_hint H key w = (if h_hint_accepted H then w\<lparr>w_hints := w_hints w @ [key]\<rparr> else w)"

definition watermark_bundle_for_reject :: "reject_reason \<Rightarrow> lane_state \<Rightarrow> watermark_bundle option" where
  "watermark_bundle_for_reject reason s =
     (if \<not> is_watermark_gated reason then None
      else case last_signature s of
             None \<Rightarrow> None
           | Some sig \<Rightarrow>
               (case u64_try_from (last_amount s) of
                  None \<Rightarrow> None
                | Some amount \<Rightarrow>
                    (case u64_try_from (last_bytes_delivered s) of
                       None \<Rightarrow> None
                     | Some bytes \<Rightarrow>
                         (case u64_try_from (chunk_price (chain s)) of
                            None \<Rightarrow> None
                          | Some price \<Rightarrow>
                              Some \<lparr>wb_amount = amount, wb_bytes_delivered = bytes,
                                    wb_chain_root = chain_root (chain s),
                                    wb_verified_index = verified_index (chain s),
                                    wb_tip = tip (chain s), wb_chunk_price = price,
                                    wb_last_signature = sig\<rparr>))))"

subsection \<open>Verifying one voucher\<close>

record verified_voucher =
  vv_next_state :: lane_state
  vv_new_bytes :: u256
  vv_amount :: u64

datatype verify_stop =
    Reject reject_reason "watermark_bundle option"
  | Bail handler_error

definition verify_voucher ::
  "'sig alloy \<Rightarrow> lane_state \<Rightarrow> u256 \<Rightarrow> 'sig signed_voucher \<Rightarrow> client_voucher \<Rightarrow> u64
     \<Rightarrow> verify_stop + verified_voucher" where
  "verify_voucher A s cumulative_bytes sv wire rate_per_mb =
     (let new_bytes = ucast (cv_bytes_delivered wire) in
      case advance_presigned A s sv of
        Inr (next_state, applied) \<Rightarrow>
          (case verify_rate (va_amount_delta applied) (va_bytes_delta applied) rate_per_mb DEFAULT_TOLERANCE_BPS of
             Inr _ \<Rightarrow> Inr \<lparr>vv_next_state = next_state, vv_new_bytes = max (owed_bytes next_state) new_bytes,
                           vv_amount = cv_amount wire\<rparr>
           | Inl (Underpayment _ _ _ _) \<Rightarrow>
               Inl (Reject reject_reason.Underpaid (watermark_bundle_for_reject reject_reason.Underpaid s))
           | Inl e \<Rightarrow> Inl (Bail (ClientPaymentFault e)))
      | Inl (pool_error.AmountRegression last_amt _) \<Rightarrow>
          if ucast (cv_amount wire) = last_amt \<and> new_bytes \<noteq> last_bytes_delivered s
          then Inl (Reject reject_reason.BytesRegression None)
          else Inr \<lparr>vv_next_state = (case adopt_chain A s sv of Some s' \<Rightarrow> s' | None \<Rightarrow> s),
                     vv_new_bytes = cumulative_bytes, vv_amount = cv_amount wire\<rparr>
      | Inl e \<Rightarrow>
          (case voucher_reject_reason e of
             Inl _ \<Rightarrow> Inl (Bail UnexpectedRetrySignal)
           | Inr reason \<Rightarrow> Inl (Reject reason (watermark_bundle_for_reject reason s))))"

subsection \<open>Committing one proof\<close>

definition voucher_credit :: "bool \<Rightarrow> u256 \<Rightarrow> u64 \<Rightarrow> u256 \<Rightarrow> handler_error + (u256 \<times> u64) option" where
  "voucher_credit stale paid_credited due watermark =
     (if stale \<and> 0 < due then credit_stale paid_credited due watermark
      else (case credit_advance paid_credited due watermark of Inl e \<Rightarrow> Inl e | Inr c \<Rightarrow> Inr (Some c)))"

definition settle_voucher ::
  "('sig, 'st) handler \<Rightarrow> request_ctx \<Rightarrow> client_voucher \<Rightarrow> owed_chunk \<Rightarrow> verified_voucher \<Rightarrow> 'st serve_world \<Rightarrow> 'st handled" where
  "settle_voucher H rq wire oc v w =
     (let d = w_lane w;
          due = voucher_credit_delta wire oc;
          stale = (ucast (cv_amount wire) \<le> last_amount (ld_state d))
      in case voucher_credit stale (ld_paid_credited d) due (vv_new_bytes v) of
           Inl e \<Rightarrow> (Inl e, w)
         | Inr None \<Rightarrow>
             reject_proof reject_reason.AmountRegression
               (watermark_bundle_for_reject reject_reason.AmountRegression (ld_state d)) w
         | Inr (Some (new_credited, credited_bytes)) \<Rightarrow>
             (let d1 = d\<lparr>ld_state := vv_next_state v, ld_bytes_delivered_cumulative := vv_new_bytes v,
                         ld_paid_credited := new_credited\<rparr>;
                  w1 = w\<lparr>w_anchor := anchor_adopt (cv_chain_root wire), w_lane := d1\<rparr>
              in case h_record H (w_store w) (ld_state d1) of
                   (Inl e, st') \<Rightarrow> (Inl (RecordFailed e), w1\<lparr>w_store := st'\<rparr>)
                 | (Inr _, st') \<Rightarrow>
                     (let w2 = w1\<lparr>w_store := st', w_lane := d1\<lparr>ld_last_voucher_at := h_unix_millis H\<rparr>\<rparr>
                      in (Inr (Continue credited_bytes),
                          send_hint H (rq_lane_key rq)
                            (if 0 < credited_bytes then record_receipt rq credited_bytes (vv_amount v) w2 else w2)))))"

definition commit_voucher ::
  "('sig, 'st) handler \<Rightarrow> request_ctx \<Rightarrow> client_voucher \<Rightarrow> owed_chunk \<Rightarrow> 'st serve_world \<Rightarrow> 'st handled" where
  "commit_voucher H rq wire oc w =
     (let key = rq_lane_key rq in
      if \<not> chunk_price_matches_quote wire (rq_rate_per_mb rq)
      then reject_proof reject_reason.ChunkPriceMismatch None w
      else case wire_voucher_to_signed (h_from_raw H) wire (lk_pool_id key) (lk_signer key) (lk_provider key) of
        Inl _ \<Rightarrow> reject_proof reject_reason.BadSignature None w
      | Inr sv \<Rightarrow>
        (case verify_signer (h_alloy H) sv (lk_signer key) (h_voucher_domain H) of
           Inl InvalidSignature \<Rightarrow> reject_proof reject_reason.BadSignature None w
         | Inl (voucher_error.WrongSigner _ _) \<Rightarrow> reject_proof reject_reason.WrongSigner None w
         | Inr _ \<Rightarrow>
           let d = w_lane w in
           if inside_expiry_margin H (expiry (ld_state d))
           then reject_proof reject_reason.CapabilityExpired None w
           else case verify_voucher (h_alloy H) (ld_state d) (ld_bytes_delivered_cumulative d) sv wire (rq_rate_per_mb rq) of
             Inl (Reject reason bundle) \<Rightarrow> reject_proof reason bundle w
           | Inl (Bail e) \<Rightarrow> (Inl e, w)
           | Inr v \<Rightarrow> settle_voucher H rq wire oc v w))"

definition u64_saturating_from :: "u256 \<Rightarrow> u64" where
  "u64_saturating_from x = (case u64_try_from x of Some v \<Rightarrow> v | None \<Rightarrow> - 1)"

definition commit_one_preimage ::
  "('sig, 'st) handler \<Rightarrow> request_ctx \<Rightarrow> lane_delivery \<Rightarrow> chunk_preimage \<Rightarrow> owed_chunk \<Rightarrow> 'st serve_world \<Rightarrow> 'st handled" where
  "commit_one_preimage H rq first_lock pre oc w =
     (if cp_index pre = 0 then reject_proof reject_reason.ChainIndexZero None w
      else case w_anchor w of
        None \<Rightarrow> reject_proof reject_reason.UnanchoredPreimage None w
      | Some root \<Rightarrow>
        (let index = cp_index pre; reveal = cp_preimage pre;
             walked = preimage_frontier (ld_state first_lock) root index;
             walked_ok = (case walked of
                            Some (verified, t) \<Rightarrow> verify_forward (h_keccak H) reveal (index - verified) t
                          | None \<Rightarrow> False);
             d = w_lane w
         in if inside_expiry_margin H (expiry (ld_state d))
            then reject_proof reject_reason.CapabilityExpired None w
            else case advance_preimage_verified (h_keccak H) (ld_state d) root index reveal walked walked_ok of
              Inl e \<Rightarrow>
                (case voucher_reject_reason e of
                   Inl _ \<Rightarrow> (Inl UnexpectedRetrySignal, w)
                 | Inr reason \<Rightarrow> reject_proof reason (watermark_bundle_for_reject reason (ld_state d)) w)
            | Inr (next_state, applied) \<Rightarrow>
                if \<not> pa_advanced applied then
                  (case credit_stale (ld_paid_credited d) (oc_remaining oc) (owed_bytes (ld_state d)) of
                     Inl e \<Rightarrow> (Inl e, w)
                   | Inr None \<Rightarrow>
                       reject_proof reject_reason.AmountRegression
                         (watermark_bundle_for_reject reject_reason.AmountRegression (ld_state d)) w
                   | Inr (Some (new_credited, credited_bytes)) \<Rightarrow>
                       (let w1 = w\<lparr>w_lane := d\<lparr>ld_paid_credited := new_credited, ld_last_voucher_at := h_unix_millis H\<rparr>\<rparr>
                        in (Inr (Continue credited_bytes),
                            if 0 < credited_bytes
                            then record_receipt rq credited_bytes (u64_saturating_from (owed (ld_state d))) w1 else w1)))
                else
                  (let d1 = d\<lparr>ld_state := next_state, ld_bytes_delivered_cumulative := owed_bytes next_state\<rparr>
                   in case credit_advance (ld_paid_credited d) (oc_remaining oc) (owed_bytes next_state) of
                        Inl e \<Rightarrow> (Inl e, w\<lparr>w_lane := d1\<rparr>)
                      | Inr (new_credited, credited_bytes) \<Rightarrow>
                          (let d2 = d1\<lparr>ld_paid_credited := new_credited\<rparr>; w1 = w\<lparr>w_lane := d2\<rparr>
                           in case h_record H (w_store w) (ld_state d2) of
                                (Inl e, st') \<Rightarrow> (Inl (RecordFailed e), w1\<lparr>w_store := st'\<rparr>)
                              | (Inr _, st') \<Rightarrow>
                                  (let w2 = w1\<lparr>w_store := st', w_lane := d2\<lparr>ld_last_voucher_at := h_unix_millis H\<rparr>\<rparr>
                                   in (Inr (Continue credited_bytes),
                                       send_hint H (rq_lane_key rq)
                                         (if 0 < credited_bytes
                                          then record_receipt rq credited_bytes (u64_saturating_from (owed next_state)) w2
                                          else w2)))))))"

definition commit_one_proof ::
  "('sig, 'st) handler \<Rightarrow> request_ctx \<Rightarrow> bool \<Rightarrow> lane_delivery \<Rightarrow> payment_proof \<Rightarrow> owed_chunk \<Rightarrow> 'st serve_world \<Rightarrow> 'st handled" where
  "commit_one_proof H rq lane_known first_lock p oc w =
     (if \<not> lane_known then reject_proof reject_reason.WrongPool None w
      else case p of
             Voucher wire \<Rightarrow> commit_voucher H rq wire oc w
           | Preimage pre \<Rightarrow> commit_one_preimage H rq first_lock pre oc w)"

subsection \<open>Credit arithmetic\<close>

text \<open>
  What a lane holds: the handler's byte counter is the lane's claim in bytes, and the credit
  handed to streams never exceeds it.
\<close>

definition delivery_inv ::
  "('sig, 'st) handler \<Rightarrow> u64 \<Rightarrow> lane_delivery \<Rightarrow> bool" where
  "delivery_inv H rate d \<longleftrightarrow>
     lane_inv (h_alloy H) (h_voucher_domain H) (h_keccak H) rate (ld_state d) \<and>
     ld_bytes_delivered_cumulative d = owed_bytes (ld_state d) \<and>
     ld_paid_credited d \<le> owed_bytes (ld_state d)"

abbreviation handler_steps :: "('sig, 'st) handler \<Rightarrow> u64 \<Rightarrow> lane_state \<Rightarrow> lane_state \<Rightarrow> bool" where
  "handler_steps H rate \<equiv> (lane_step (h_alloy H) (h_voucher_domain H) (h_keccak H) rate)\<^sup>*\<^sup>*"

lemma owed_bytes_small: "lane_wf s \<Longrightarrow> unat (owed_bytes s) < 2 ^ 65"
  using unat_below [of "verified_index (chain s)"]
  by (auto simp: owed_bytes_nat lane_wf_def)

lemma credit_advance_exact:
  assumes "pc \<le> wm" and "unat wm < 2 ^ 65"
  obtains new c where "credit_advance pc delta wm = Inr (new, c)"
    and "unat new = unat pc + unat c" and "c \<le> delta" and "new \<le> wm"
    and "new = wm \<or> c = delta"
proof -
  let ?new = "min (pc + ucast delta) wm"
  have sum: "unat (pc + ucast delta) = unat pc + unat delta"
    using assms unat_below [of delta]
    by (subst unat_add_exact) (auto simp: unat_widen_u64 word_le_nat_alt)
  have ge: "pc \<le> ?new" using assms(1) sum by (simp add: word_le_nat_alt min_def)
  have new: "unat ?new \<le> unat pc + unat delta" using sum by (auto simp: min_def word_le_nat_alt)
  have sub: "unat (sat_sub ?new pc) = unat ?new - unat pc" by (simp add: unat_sat_sub)
  then have "unat (sat_sub ?new pc) < 2 ^ 64" using new unat_below [of delta] by simp
  then obtain c where c: "u64_try_from (sat_sub ?new pc) = Some c" by (cases "u64_try_from (sat_sub ?new pc)") (auto simp: u64_try_from_None)
  from u64_try_from_Some [OF c] have uc: "unat c = unat ?new - unat pc" by (metis sub unat_widen_u64)
  show thesis
  proof (rule that)
    show "credit_advance pc delta wm = Inr (?new, c)" by (simp add: credit_advance_def Let_def c)
    show "unat ?new = unat pc + unat c" using uc ge by (simp add: word_le_nat_alt)
    show "c \<le> delta" using uc new by (simp add: word_le_nat_alt)
    show "?new \<le> wm" by simp
    show "?new = wm \<or> c = delta"
      using uc sum by (auto simp: min_def word_unat_eq_iff)
  qed
qed

lemma credit_stale_cases:
  assumes "pc \<le> wm" and "unat wm < 2 ^ 65"
  obtains (short) "credit_stale pc due wm = Inr None" "unat wm < unat pc + unat due"
  | (paid) new where "credit_stale pc due wm = Inr (Some (new, due))"
      "unat new = unat pc + unat due" "new \<le> wm"
proof -
  obtain new c where c: "credit_advance pc due wm = Inr (new, c)" "unat new = unat pc + unat c"
      "c \<le> due" "new \<le> wm" "new = wm \<or> c = due"
    using credit_advance_exact [OF assms] by metis
  show thesis
  proof (cases "c = due")
    case True
    with c show thesis by (intro paid [of new]) (simp_all add: credit_stale_def)
  next
    case False
    with c have "credit_stale pc due wm = Inr None" by (simp add: credit_stale_def)
    moreover have "unat wm < unat pc + unat due"
      using c False by (auto simp: word_le_nat_alt word_unat_eq_iff)
    ultimately show thesis by (rule short)
  qed
qed

subsection \<open>The lane a proof leaves behind\<close>

lemma adopt_chain_owed_bytes:
  assumes "adopt_chain A s sv = Some s'" and "lane_inv A domain keccak rate s"
    and "wire_voucher (sv_voucher sv)"
  shows "owed_bytes s' = owed_bytes s"
proof -
  have wf: "lane_wf s" using assms(2) by (simp add: lane_inv_def)
  have wf': "lane_wf s'"
    using assms(1,3) wf by (cases rule: adopt_chain_Some_cases) (simp_all add: lane_wf_def wire_voucher_def)
  have "unat (owed_bytes s') = unat (owed_bytes s)"
    unfolding owed_bytes_nat [OF wf] owed_bytes_nat [OF wf']
    using assms(1,2)
    by (cases rule: adopt_chain_Some_cases) (auto simp: lane_inv_def claim_backed_def NONE_chain_def)
  then show ?thesis by (simp add: word_unat_eq_iff)
qed

lemma verify_voucher_Inr:
  assumes ver: "verify_voucher A s (owed_bytes s) sv wire rate = Inr v"
    and inv: "lane_inv A domain keccak rate s" and lv: "lane_voucher rate s (sv_voucher sv)"
    and sig: "verify_signer A sv (signer s) domain = Inr ()"
    and bytes: "v_bytes_delivered (sv_voucher sv) = ucast (cv_bytes_delivered wire)"
  shows "(lane_step A domain keccak rate)\<^sup>*\<^sup>* s (vv_next_state v)"
    and "vv_new_bytes v = owed_bytes (vv_next_state v)"
proof -
  consider (accept) s' applied where "advance_presigned A s sv = Inr (s', applied)"
      "vv_next_state v = s'" "vv_new_bytes v = max (owed_bytes s') (ucast (cv_bytes_delivered wire))"
    | (stale) "vv_next_state v = (case adopt_chain A s sv of Some s' \<Rightarrow> s' | None \<Rightarrow> s)"
      "vv_new_bytes v = owed_bytes s"
    using ver
    by (auto simp: verify_voucher_def Let_def
        split: sum.splits pool_error.splits rate_error.splits if_splits prod.splits)
  then have "(lane_step A domain keccak rate)\<^sup>*\<^sup>* s (vv_next_state v) \<and> vv_new_bytes v = owed_bytes (vv_next_state v)"
  proof cases
    case accept
    have "stage_voucher A domain s sv = Inr (s', applied)"
      using accept(1) lv sig by (simp add: stage_voucher_def lane_voucher_def)
    with lv have step: "lane_step A domain keccak rate s s'" by (rule lane_step.accept)
    have nxt: "s' = presigned_next A s sv" using accept(1) by (simp add: advance_presigned_Inr_iff)
    have wf': "lane_wf s'" using lane_inv_step [OF step inv] by (simp add: lane_inv_def)
    have "ucast (cv_bytes_delivered wire) \<le> owed_bytes s'"
      unfolding word_le_nat_alt owed_bytes_nat [OF wf'] using bytes by (simp add: nxt)
    with accept step show ?thesis by (simp add: max_absorb1 r_into_rtranclp)
  next
    case stale
    show ?thesis
    proof (cases "adopt_chain A s sv")
      case None
      with stale show ?thesis by simp
    next
      case (Some s')
      then have "lane_step A domain keccak rate s s'" by (rule lane_step.adopt [OF lv sig])
      with Some stale adopt_chain_owed_bytes [OF Some inv] lv show ?thesis
        by (simp add: lane_voucher_def r_into_rtranclp)
    qed
  qed
  then show "(lane_step A domain keccak rate)\<^sup>*\<^sup>* s (vv_next_state v)"
    and "vv_new_bytes v = owed_bytes (vv_next_state v)" by simp_all
qed

subsection \<open>What one proof does\<close>

definition receipts_total :: "'st serve_world \<Rightarrow> nat" where
  "receipts_total w = sum_list (map (\<lambda>r. unat (rcp_delta_bytes r)) (w_receipts w))"

definition credited :: "handler_error + voucher_stop \<Rightarrow> nat" where
  "credited r = (case r of Inr (Continue c) \<Rightarrow> unat c | _ \<Rightarrow> 0)"

text \<open>
  The contract of one handler call on one lane. Either it leaves the lane, the store and the
  receipts alone and credits nothing, or it takes the lane along lane steps and raises the
  credit by at most the owed chunk, within the new claim.
\<close>

definition proof_idle :: "'st serve_world \<Rightarrow> 'st handled \<Rightarrow> bool" where
  "proof_idle w res \<longleftrightarrow>
     w_lane (snd res) = w_lane w \<and> w_store (snd res) = w_store w \<and> w_receipts (snd res) = w_receipts w \<and>
     w_anchor (snd res) = w_anchor w \<and> w_hints (snd res) = w_hints w \<and> (\<nexists>c. fst res = Inr (Continue c))"

definition proof_credits ::
  "('sig, 'st) handler \<Rightarrow> u64 \<Rightarrow> owed_chunk \<Rightarrow> 'st serve_world \<Rightarrow> 'st handled \<Rightarrow> bool" where
  "proof_credits H rate oc w res \<longleftrightarrow>
     handler_steps H rate (ld_state (w_lane w)) (ld_state (w_lane (snd res))) \<and>
     delivery_inv H rate (w_lane (snd res)) \<and>
     (\<exists>c \<le> oc_remaining oc.
        unat (ld_paid_credited (w_lane (snd res))) = unat (ld_paid_credited (w_lane w)) + unat c \<and>
        (fst res = Inr (Continue c) \<and> receipts_total (snd res) = receipts_total w + unat c \<or>
         (\<exists>e. fst res = Inl (RecordFailed e)) \<and> receipts_total (snd res) = receipts_total w))"

lemma proof_idle_reject: "proof_idle w (reject_proof reason bundle w)"
  by (simp add: proof_idle_def reject_proof_def)

lemma proof_idle_err: "proof_idle w (Inl e, w)"
  by (simp add: proof_idle_def)

lemma receipts_total_simps [simp]:
  "receipts_total (record_receipt rq c a w) = receipts_total w + unat c"
  "receipts_total (send_hint H key w) = receipts_total w"
  "receipts_total (w\<lparr>w_store := st\<rparr>) = receipts_total w"
  "receipts_total (w\<lparr>w_lane := d\<rparr>) = receipts_total w"
  "receipts_total (w\<lparr>w_anchor := an\<rparr>) = receipts_total w"
  by (simp_all add: receipts_total_def record_receipt_def send_hint_def)

lemma lane_of_effects [simp]:
  "w_lane (record_receipt rq c a w) = w_lane w" "w_lane (send_hint H key w) = w_lane w"
  by (simp_all add: record_receipt_def send_hint_def)

text \<open>The common tail of both proof paths: store the new lane, write the receipt, send the hint.\<close>

lemma proof_creditsI:
  assumes "handler_steps H rate (ld_state (w_lane w)) (ld_state (w_lane w'))"
    and "delivery_inv H rate (w_lane w')"
    and "c \<le> oc_remaining oc"
    and "unat (ld_paid_credited (w_lane w')) = unat (ld_paid_credited (w_lane w)) + unat c"
    and "r = Inr (Continue c) \<and> receipts_total w' = receipts_total w + unat c \<or>
         (\<exists>e. r = Inl (RecordFailed e)) \<and> receipts_total w' = receipts_total w"
  shows "proof_credits H rate oc w (r, w')"
  using assms unfolding proof_credits_def by auto

lemma delivery_invI:
  assumes "handler_steps H rate s (ld_state d')"
    and "lane_inv (h_alloy H) (h_voucher_domain H) (h_keccak H) rate s"
    and "ld_bytes_delivered_cumulative d' = owed_bytes (ld_state d')"
    and "ld_paid_credited d' \<le> owed_bytes (ld_state d')"
  shows "delivery_inv H rate d'"
  using assms lane_steps_inv [OF assms(1,2)] by (simp add: delivery_inv_def)

lemma delivery_invD:
  assumes "delivery_inv H rate d"
  shows "lane_inv (h_alloy H) (h_voucher_domain H) (h_keccak H) rate (ld_state d)"
    and "ld_bytes_delivered_cumulative d = owed_bytes (ld_state d)"
    and "ld_paid_credited d \<le> owed_bytes (ld_state d)"
    and "unat (owed_bytes (ld_state d)) < 2 ^ 65"
  using assms owed_bytes_small [of "ld_state d"] by (auto simp: delivery_inv_def lane_inv_def)

lemma commit_tail:
  assumes "handler_steps H rate (ld_state (w_lane w)) (ld_state d')" and "delivery_inv H rate d'"
    and "c \<le> oc_remaining oc"
    and "unat (ld_paid_credited d') = unat (ld_paid_credited (w_lane w)) + unat c"
    and "w_receipts w1 = w_receipts w" and "w_lane w1 = d'"
  shows "proof_credits H rate oc w
     (case h_record H st (ld_state d') of
        (Inl e, st') \<Rightarrow> (Inl (RecordFailed e), w1\<lparr>w_store := st'\<rparr>)
      | (Inr _, st') \<Rightarrow>
          (Inr (Continue c), send_hint H key
             (if 0 < c then record_receipt rq c a (w1\<lparr>w_store := st', w_lane := d'\<lparr>ld_last_voucher_at := t\<rparr>\<rparr>)
              else w1\<lparr>w_store := st', w_lane := d'\<lparr>ld_last_voucher_at := t\<rparr>\<rparr>)))"
proof -
  have total: "receipts_total w1 = receipts_total w" using assms(5) by (simp add: receipts_total_def)
  have inv: "delivery_inv H rate (d'\<lparr>ld_last_voucher_at := t\<rparr>)" using assms(2) by (simp add: delivery_inv_def)
  show ?thesis
    using assms total inv
    by (auto simp: word_gt_0 split: prod.split sum.split intro!: proof_creditsI [where c = c])
qed

lemma voucher_credit_cases:
  assumes "pc \<le> wm" and "unat wm < 2 ^ 65"
  obtains (short) "voucher_credit stale pc due wm = Inr None"
  | (paid) new c where "voucher_credit stale pc due wm = Inr (Some (new, c))"
      "unat new = unat pc + unat c" "c \<le> due" "new \<le> wm"
proof (cases "stale \<and> 0 < due")
  case True
  then have eq: "voucher_credit stale pc due wm = credit_stale pc due wm" by (simp add: voucher_credit_def)
  show thesis
    by (rule credit_stale_cases [OF assms, of due]) (auto simp: eq intro: short paid)
next
  case False
  obtain new c where "credit_advance pc due wm = Inr (new, c)" "unat new = unat pc + unat c" "c \<le> due" "new \<le> wm"
    using credit_advance_exact [OF assms] by metis
  moreover from this False have "voucher_credit stale pc due wm = Inr (Some (new, c))"
    by (simp only: voucher_credit_def if_False sum.case)
  ultimately show thesis by (intro paid)
qed

lemma settle_voucher_effect:
  assumes inv: "delivery_inv H rate (w_lane w)"
    and steps: "handler_steps H rate (ld_state (w_lane w)) (vv_next_state v)"
    and bytes: "vv_new_bytes v = owed_bytes (vv_next_state v)"
  shows "proof_idle w (settle_voucher H rq wire oc v w) \<or>
         proof_credits H rate oc w (settle_voucher H rq wire oc v w)"
proof -
  let ?d = "w_lane w" and ?due = "voucher_credit_delta wire oc"
  let ?stale = "ucast (cv_amount wire) \<le> last_amount (ld_state ?d)"
  note i = delivery_invD [OF inv]
  have wf: "lane_wf (vv_next_state v)" using lane_steps_inv [OF steps i(1)] by (simp add: lane_inv_def)
  have le: "ld_paid_credited ?d \<le> vv_new_bytes v"
    using i(3) owed_mono_steps [OF steps i(1)] by (auto simp: bytes)
  have small: "unat (vv_new_bytes v) < 2 ^ 65" using owed_bytes_small [OF wf] by (simp add: bytes)
  from le small show ?thesis
  proof (cases rule: voucher_credit_cases [where stale = ?stale and due = ?due])
    case short
    then have "proof_idle w (settle_voucher H rq wire oc v w)"
      by (simp add: settle_voucher_def Let_def proof_idle_reject)
    then show ?thesis ..
  next
    case (paid new c)
    let ?d' = "?d\<lparr>ld_state := vv_next_state v, ld_bytes_delivered_cumulative := vv_new_bytes v, ld_paid_credited := new\<rparr>"
    have "delivery_inv H rate ?d'"
      using steps i(1) paid(4) by (intro delivery_invI [of H rate "ld_state ?d"]) (simp_all add: bytes)
    moreover have "c \<le> oc_remaining oc"
      using paid(3) by (auto simp: voucher_credit_delta_def split: if_splits)
    ultimately have "proof_credits H rate oc w (settle_voucher H rq wire oc v w)"
      unfolding settle_voucher_def Let_def paid(1) sum.case option.case prod.case
      using steps paid(2) by (intro commit_tail) simp_all
    then show ?thesis ..
  qed
qed

definition voucher_checks ::
  "('sig, 'st) handler \<Rightarrow> request_ctx \<Rightarrow> client_voucher \<Rightarrow> 'st serve_world \<Rightarrow> 'sig signed_voucher \<Rightarrow> verified_voucher \<Rightarrow> bool" where
  "voucher_checks H rq wire w sv v \<longleftrightarrow>
     chunk_price_matches_quote wire (rq_rate_per_mb rq) \<and>
     wire_voucher_to_signed (h_from_raw H) wire (lk_pool_id (rq_lane_key rq)) (lk_signer (rq_lane_key rq))
       (lk_provider (rq_lane_key rq)) = Inr sv \<and>
     verify_signer (h_alloy H) sv (lk_signer (rq_lane_key rq)) (h_voucher_domain H) = Inr () \<and>
     \<not> inside_expiry_margin H (expiry (ld_state (w_lane w))) \<and>
     verify_voucher (h_alloy H) (ld_state (w_lane w)) (ld_bytes_delivered_cumulative (w_lane w)) sv wire
       (rq_rate_per_mb rq) = Inr v"

lemma commit_voucher_shape:
  "proof_idle w (commit_voucher H rq wire oc w) \<or>
   (\<exists>sv v. voucher_checks H rq wire w sv v \<and> commit_voucher H rq wire oc w = settle_voucher H rq wire oc v w)"
proof (cases "\<exists>sv v. voucher_checks H rq wire w sv v")
  case True
  then show ?thesis by (auto simp: voucher_checks_def commit_voucher_def)
next
  case False
  then have "proof_idle w (commit_voucher H rq wire oc w)"
    unfolding voucher_checks_def commit_voucher_def Let_def
    by (auto simp: proof_idle_reject proof_idle_err split: sum.split voucher_error.split verify_stop.split)
  then show ?thesis ..
qed

text \<open>The checks before the advance: a voucher that passes them all is a lane voucher of this lane.\<close>

lemma commit_voucher_cases:
  assumes inv: "delivery_inv H (rq_rate_per_mb rq) (w_lane w)"
    and key: "rq_lane_key rq = lane_key_of (ld_state (w_lane w))"
  obtains (idle) "proof_idle w (commit_voucher H rq wire oc w)"
  | (verified) v where "commit_voucher H rq wire oc w = settle_voucher H rq wire oc v w"
      "handler_steps H (rq_rate_per_mb rq) (ld_state (w_lane w)) (vv_next_state v)"
      "vv_new_bytes v = owed_bytes (vv_next_state v)"
proof -
  let ?d = "w_lane w" and ?rate = "rq_rate_per_mb rq" and ?key = "rq_lane_key rq"
  let ?s = "ld_state ?d"
  note i = delivery_invD [OF inv]
  consider (rej) "proof_idle w (commit_voucher H rq wire oc w)"
    | (ok) sv v where "voucher_checks H rq wire w sv v"
        "commit_voucher H rq wire oc w = settle_voucher H rq wire oc v w"
    using commit_voucher_shape by blast
  then show thesis
  proof cases
    case ok
    note chk = ok(1) [unfolded voucher_checks_def]
    note w3 = wire_voucher_to_signed_Inr(3) [OF conjunct1 [OF conjunct2 [OF chk]]]
    have lv: "lane_voucher ?rate ?s (sv_voucher sv)"
      using chk key wire_voucher_to_signed_wire [OF conjunct1 [OF conjunct2 [OF chk]]]
      by (auto simp: lane_voucher_def w3 lane_key_of_def chunk_price_matches_quote_def quoted_price_def)
    have "verify_signer (h_alloy H) sv (signer ?s) (h_voucher_domain H) = Inr ()"
      using chk key by (simp add: lane_key_of_def)
    moreover have "verify_voucher (h_alloy H) ?s (owed_bytes ?s) sv wire ?rate = Inr v"
      using chk i(2) by simp
    ultimately show thesis
      using verify_voucher_Inr [OF _ i(1) lv] w3 by (intro verified [OF ok(2)]) simp_all
  qed (rule idle)
qed

lemma commit_voucher_effect:
  assumes "delivery_inv H (rq_rate_per_mb rq) (w_lane w)"
    and "rq_lane_key rq = lane_key_of (ld_state (w_lane w))"
  shows "proof_idle w (commit_voucher H rq wire oc w) \<or>
         proof_credits H (rq_rate_per_mb rq) oc w (commit_voucher H rq wire oc w)"
  using commit_voucher_cases [OF assms, of wire oc]
  by cases (auto simp: settle_voucher_effect [OF assms(1)])

lemma commit_covered_reveal:
  assumes inv: "delivery_inv H rate (w_lane w)"
  shows "proof_idle w
      (case credit_stale (ld_paid_credited (w_lane w)) (oc_remaining oc) (owed_bytes (ld_state (w_lane w))) of
         Inl e \<Rightarrow> (Inl e, w)
       | Inr None \<Rightarrow> reject_proof reason bundle w
       | Inr (Some (n, c)) \<Rightarrow>
           (Inr (Continue c),
            if 0 < c then record_receipt rq c a (w\<lparr>w_lane := (w_lane w)\<lparr>ld_paid_credited := n, ld_last_voucher_at := t\<rparr>\<rparr>)
            else w\<lparr>w_lane := (w_lane w)\<lparr>ld_paid_credited := n, ld_last_voucher_at := t\<rparr>\<rparr>)) \<or>
    proof_credits H rate oc w
      (case credit_stale (ld_paid_credited (w_lane w)) (oc_remaining oc) (owed_bytes (ld_state (w_lane w))) of
         Inl e \<Rightarrow> (Inl e, w)
       | Inr None \<Rightarrow> reject_proof reason bundle w
       | Inr (Some (n, c)) \<Rightarrow>
           (Inr (Continue c),
            if 0 < c then record_receipt rq c a (w\<lparr>w_lane := (w_lane w)\<lparr>ld_paid_credited := n, ld_last_voucher_at := t\<rparr>\<rparr>)
            else w\<lparr>w_lane := (w_lane w)\<lparr>ld_paid_credited := n, ld_last_voucher_at := t\<rparr>\<rparr>))"
    (is "proof_idle w ?r \<or> proof_credits H rate oc w ?r")
proof -
  note i = delivery_invD [OF inv]
  from i(3,4) show ?thesis
  proof (cases rule: credit_stale_cases [where due = "oc_remaining oc"])
    case short
    then show ?thesis by (simp add: proof_idle_reject)
  next
    case (paid new)
    have "delivery_inv H rate ((w_lane w)\<lparr>ld_paid_credited := new, ld_last_voucher_at := t\<rparr>)"
      using paid(3) i by (simp add: delivery_inv_def)
    then have "proof_credits H rate oc w ?r"
      using paid by (auto simp: word_gt_0 intro!: proof_creditsI [where c = "oc_remaining oc"])
    then show ?thesis ..
  qed
qed

lemma commit_advanced_reveal:
  assumes inv: "delivery_inv H rate (w_lane w)"
    and steps: "handler_steps H rate (ld_state (w_lane w)) s'"
  obtains n c where
    "credit_advance (ld_paid_credited (w_lane w)) (oc_remaining oc) (owed_bytes s') = Inr (n, c)"
    "delivery_inv H rate ((w_lane w)\<lparr>ld_state := s', ld_bytes_delivered_cumulative := owed_bytes s', ld_paid_credited := n\<rparr>)"
    "c \<le> oc_remaining oc" "unat n = unat (ld_paid_credited (w_lane w)) + unat c"
proof -
  note i = delivery_invD [OF inv]
  have "lane_wf s'" using lane_steps_inv [OF steps i(1)] by (simp add: lane_inv_def)
  from owed_bytes_small [OF this] have "unat (owed_bytes s') < 2 ^ 65" .
  moreover have "ld_paid_credited (w_lane w) \<le> owed_bytes s'"
    using i(3) owed_mono_steps [OF steps i(1)] by auto
  ultimately obtain n c where
      "credit_advance (ld_paid_credited (w_lane w)) (oc_remaining oc) (owed_bytes s') = Inr (n, c)"
      "unat n = unat (ld_paid_credited (w_lane w)) + unat c" "c \<le> oc_remaining oc" "n \<le> owed_bytes s'"
    using credit_advance_exact by metis
  then show thesis
    using steps i(1) by (intro that delivery_invI [of H rate "ld_state (w_lane w)"]) simp_all
qed

lemma commit_one_preimage_effect:
  assumes inv: "delivery_inv H (rq_rate_per_mb rq) (w_lane w)"
  shows "proof_idle w (commit_one_preimage H rq fl pre oc w) \<or>
         proof_credits H (rq_rate_per_mb rq) oc w (commit_one_preimage H rq fl pre oc w)"
proof (cases "cp_index pre = 0 \<or> w_anchor w = None \<or> inside_expiry_margin H (expiry (ld_state (w_lane w)))")
  case True
  then have "proof_idle w (commit_one_preimage H rq fl pre oc w)"
    by (auto simp: commit_one_preimage_def Let_def proof_idle_reject split: option.split)
  then show ?thesis ..
next
  case False
  then obtain root where root: "w_anchor w = Some root" by auto
  define walked where "walked = preimage_frontier (ld_state fl) root (cp_index pre)"
  define ok where "ok = (case walked of
      Some (verified, t) \<Rightarrow> verify_forward (h_keccak H) (cp_preimage pre) (cp_index pre - verified) t | None \<Rightarrow> False)"
  define adv where "adv = advance_preimage_verified (h_keccak H) (ld_state (w_lane w)) root (cp_index pre)
      (cp_preimage pre) walked ok"
  note prems = False root
  show ?thesis
  proof (cases adv)
    case (Inl e)
    then have "proof_idle w (commit_one_preimage H rq fl pre oc w)"
      using prems
      by (auto simp: commit_one_preimage_def Let_def proof_idle_reject proof_idle_err adv_def ok_def walked_def
          split: sum.split)
    then show ?thesis ..
  next
    case (Inr a)
    obtain s' applied where a: "a = (s', applied)" by (cases a)
    have "truthful_walk (h_keccak H) (cp_index pre) (cp_preimage pre) walked ok"
      unfolding walked_def ok_def by (rule truthful_frontier)
    from lane_step.reveal [OF this, of "ld_state (w_lane w)" root s' applied]
    have steps: "handler_steps H (rq_rate_per_mb rq) (ld_state (w_lane w)) s'"
      using Inr by (auto simp: adv_def a)
    show ?thesis
    proof (cases "pa_advanced applied")
      case False
      then show ?thesis
        using commit_covered_reveal [OF inv] prems Inr
        by (simp add: commit_one_preimage_def Let_def adv_def ok_def walked_def a cong: sum.case_cong option.case_cong)
    next
      case True
      obtain n c where c:
          "credit_advance (ld_paid_credited (w_lane w)) (oc_remaining oc) (owed_bytes s') = Inr (n, c)"
          "delivery_inv H (rq_rate_per_mb rq) ((w_lane w)\<lparr>ld_state := s', ld_bytes_delivered_cumulative := owed_bytes s', ld_paid_credited := n\<rparr>)"
          "c \<le> oc_remaining oc" "unat n = unat (ld_paid_credited (w_lane w)) + unat c"
        using commit_advanced_reveal [OF inv steps] by metis
      let ?d' = "(w_lane w)\<lparr>ld_state := s', ld_bytes_delivered_cumulative := owed_bytes s', ld_paid_credited := n\<rparr>"
      have "proof_credits H (rq_rate_per_mb rq) oc w (commit_one_preimage H rq fl pre oc w)"
        unfolding commit_one_preimage_def Let_def
        using commit_tail [OF _ c(2,3), of w "w\<lparr>w_lane := ?d'\<rparr>"] c steps prems True Inr
        by (simp add: adv_def ok_def walked_def a)
      then show ?thesis ..
    qed
  qed
qed

lemma commit_one_proof_effect:
  assumes "delivery_inv H (rq_rate_per_mb rq) (w_lane w)"
    and "rq_lane_key rq = lane_key_of (ld_state (w_lane w))"
  shows "proof_idle w (commit_one_proof H rq known fl p oc w) \<or>
         proof_credits H (rq_rate_per_mb rq) oc w (commit_one_proof H rq known fl p oc w)"
  using commit_voucher_effect [OF assms] commit_one_preimage_effect [OF assms(1)]
  by (cases p) (auto simp: commit_one_proof_def proof_idle_reject)

subsection \<open>All streams of one lane\<close>

text \<open>
  A run of one lane: each step is a proof on some stream (its anchor and its owed chunk are its
  own, its walk may have started on any earlier lane), at some time, with any store outcome, or
  a clamp to the on-chain registration. The number is the credit the streams were told of.
\<close>

definition same_keys :: "('sig, 'st) handler \<Rightarrow> ('sig, 'st) handler \<Rightarrow> bool" where
  "same_keys H H' \<longleftrightarrow> h_alloy H' = h_alloy H \<and> h_voucher_domain H' = h_voucher_domain H \<and> h_keccak H' = h_keccak H"

inductive serve_run ::
  "('sig, 'st) handler \<Rightarrow> u64 \<Rightarrow> 'st serve_world \<Rightarrow> 'st serve_world \<Rightarrow> nat \<Rightarrow> bool"
  for H :: "('sig, 'st) handler" and rate :: u64 and w0 :: "'st serve_world" where
  run_start: "serve_run H rate w0 w0 0"
| run_proof: "serve_run H rate w0 w n \<Longrightarrow> same_keys H H' \<Longrightarrow> rq_rate_per_mb rq = rate \<Longrightarrow>
    rq_lane_key rq = lane_key_of (ld_state (w_lane w)) \<Longrightarrow>
    commit_one_proof H' rq known fl p oc (w\<lparr>w_anchor := an\<rparr>) = (r, w') \<Longrightarrow>
    serve_run H rate w0 w' (n + credited r)"
| run_clamp: "serve_run H rate w0 w n \<Longrightarrow> clamp_to_registration (ld_state (w_lane w)) c e = (ch, s') \<Longrightarrow>
    serve_run H rate w0 (w\<lparr>w_lane := (w_lane w)\<lparr>ld_state := s'\<rparr>\<rparr>) n"

lemma delivery_inv_same: "same_keys H H' \<Longrightarrow> delivery_inv H' rate d = delivery_inv H rate d"
  by (simp add: same_keys_def delivery_inv_def)

lemma proof_step_total:
  assumes "delivery_inv H (rq_rate_per_mb rq) (w_lane w)"
    and "rq_lane_key rq = lane_key_of (ld_state (w_lane w))"
    and "commit_one_proof H rq known fl p oc w = (r, w')"
  shows "delivery_inv H (rq_rate_per_mb rq) (w_lane w')"
    and "handler_steps H (rq_rate_per_mb rq) (ld_state (w_lane w)) (ld_state (w_lane w'))"
    and "unat (ld_paid_credited (w_lane w)) + credited r \<le> unat (ld_paid_credited (w_lane w'))"
    and "receipts_total w' = receipts_total w + credited r"
    and "credited r \<le> unat (oc_remaining oc)"
proof -
  have idle: "credited r' = 0" if "\<nexists>c. r' = Inr (Continue c)" for r'
    using that by (auto simp: credited_def split: sum.splits voucher_stop.splits)
  from commit_one_proof_effect [OF assms(1,2), of known fl p oc]
  have *: "delivery_inv H (rq_rate_per_mb rq) (w_lane w') \<and>
      handler_steps H (rq_rate_per_mb rq) (ld_state (w_lane w)) (ld_state (w_lane w')) \<and>
      unat (ld_paid_credited (w_lane w)) + credited r \<le> unat (ld_paid_credited (w_lane w')) \<and>
      receipts_total w' = receipts_total w + credited r \<and> credited r \<le> unat (oc_remaining oc)"
    unfolding assms(3)
  proof
    assume "proof_idle w (r, w')"
    with assms(1) show ?thesis by (simp add: proof_idle_def idle receipts_total_def)
  next
    assume "proof_credits H (rq_rate_per_mb rq) oc w (r, w')"
    then show ?thesis by (auto simp: proof_credits_def credited_def word_le_nat_alt)
  qed
  then show "delivery_inv H (rq_rate_per_mb rq) (w_lane w')"
    and "handler_steps H (rq_rate_per_mb rq) (ld_state (w_lane w)) (ld_state (w_lane w'))"
    and "unat (ld_paid_credited (w_lane w)) + credited r \<le> unat (ld_paid_credited (w_lane w'))"
    and "receipts_total w' = receipts_total w + credited r"
    and "credited r \<le> unat (oc_remaining oc)" by auto
qed

lemma serve_run_inv:
  assumes "serve_run H rate w0 w n" and "delivery_inv H rate (w_lane w0)"
  shows "delivery_inv H rate (w_lane w)"
    and "handler_steps H rate (ld_state (w_lane w0)) (ld_state (w_lane w))"
    and "unat (ld_paid_credited (w_lane w0)) + n \<le> unat (ld_paid_credited (w_lane w))"
    and "receipts_total w = receipts_total w0 + n"
proof -
  from assms have "delivery_inv H rate (w_lane w) \<and>
      handler_steps H rate (ld_state (w_lane w0)) (ld_state (w_lane w)) \<and>
      unat (ld_paid_credited (w_lane w0)) + n \<le> unat (ld_paid_credited (w_lane w)) \<and>
      receipts_total w = receipts_total w0 + n"
  proof induction
    case (run_proof w n H' rq known fl p oc an r w')
    have inv: "delivery_inv H' (rq_rate_per_mb rq) (w_lane (w\<lparr>w_anchor := an\<rparr>))"
      using run_proof by (simp add: delivery_inv_same)
    have key: "rq_lane_key rq = lane_key_of (ld_state (w_lane (w\<lparr>w_anchor := an\<rparr>)))"
      using run_proof(4) by simp
    note st = proof_step_total [OF inv key run_proof(5)]
    have keys: "h_alloy H' = h_alloy H" "h_voucher_domain H' = h_voucher_domain H" "h_keccak H' = h_keccak H"
      using run_proof(2) by (simp_all add: same_keys_def)
    from run_proof st(2) have "handler_steps H rate (ld_state (w_lane w0)) (ld_state (w_lane w'))"
      by (simp add: keys) (meson rtranclp_trans)
    moreover have "delivery_inv H rate (w_lane w')"
      using st(1) run_proof(2,3) by (simp add: delivery_inv_same)
    moreover have "unat (ld_paid_credited (w_lane w0)) + n \<le> unat (ld_paid_credited (w_lane w))"
        "receipts_total w = receipts_total w0 + n"
      using run_proof by simp_all
    ultimately show ?case using st(3,4) by simp
  next
    case (run_clamp w n c e ch s')
    from lane_step.clamp [OF run_clamp(2)]
    have step: "lane_step (h_alloy H) (h_voucher_domain H) (h_keccak H) rate (ld_state (w_lane w)) s'" .
    obtain c' e' r' where "s' = (ld_state (w_lane w))\<lparr>cap := c', expiry := e', registered_until := r'\<rparr>"
      using run_clamp(2) by (rule clampE)
    then have "owed_bytes s' = owed_bytes (ld_state (w_lane w))"
      using owed_congs [of s' "ld_state (w_lane w)"] by simp
    with run_clamp step lane_inv_step [OF step] show ?case
      by (auto simp: delivery_inv_def intro: rtranclp.rtrancl_into_rtrancl)
  qed simp
  then show "delivery_inv H rate (w_lane w)"
    and "handler_steps H rate (ld_state (w_lane w0)) (ld_state (w_lane w))"
    and "unat (ld_paid_credited (w_lane w0)) + n \<le> unat (ld_paid_credited (w_lane w))"
    and "receipts_total w = receipts_total w0 + n" by auto
qed

lemma hydrated_inv:
  "lane_inv (h_alloy H) (h_voucher_domain H) (h_keccak H) rate s \<Longrightarrow> delivery_inv H rate (hydrated s)"
  by (simp add: delivery_inv_def hydrated_def)

subsection \<open>A worked stream\<close>

definition demo_handler :: "(address, mem_store) handler" where
  "demo_handler =
     \<lparr>h_alloy = demo_alloy, h_from_raw = (\<lambda>_. Some 7), h_keccak = demo_keccak, h_voucher_domain = demo_domain,
      h_record = mem_record, h_expiry_margin_secs = 420, h_unix_seconds = 1000, h_unix_millis = 1000000,
      h_hint_accepted = True\<rparr>"

definition demo_rq :: request_ctx where
  "demo_rq = \<lparr>rq_hash = 77, rq_lane_key = lane_key_of demo_lane, rq_client_node_id = 5, rq_rate_per_mb = 10\<rparr>"

definition demo_wire :: client_voucher where
  "demo_wire = \<lparr>cv_signature = replicate 65 0, cv_amount = 10, cv_bytes_delivered = 1048576,
                cv_chain_root = 355, cv_chunk_price = 10\<rparr>"

definition demo_world :: "mem_store serve_world" where
  "demo_world = \<lparr>w_lane = hydrated demo_lane, w_store = MemoryPoolStateStore_new, w_anchor = None,
                 w_frames = [], w_receipts = [], w_hints = []\<rparr>"

definition demo_delivery1 :: lane_delivery where
  "demo_delivery1 = \<lparr>ld_state = demo_lane1, ld_bytes_delivered_cumulative = 1048576, ld_paid_credited = 0,
                     ld_last_voucher_at = 1000000\<rparr>"

definition demo_world1 :: "mem_store serve_world" where
  "demo_world1 = \<lparr>w_lane = demo_delivery1, w_store = snd (mem_record MemoryPoolStateStore_new demo_lane1),
                  w_anchor = Some 355, w_frames = [], w_receipts = [], w_hints = [rq_lane_key demo_rq]\<rparr>"

lemma demo_lane_owed: "owed_bytes demo_lane = 0"
  by (simp add: owed_bytes_def live_claim_def demo_defs)

lemma demo_lane1_owed: "owed_bytes demo_lane1 = 1048576"
  by (simp add: owed_bytes_def live_claim_def claim_bytes_value_def accrued_bytes_def presigned_next_def
      Let_def opened_def demo_defs)

lemma demo_signed:
  "wire_voucher_to_signed (h_from_raw demo_handler) demo_wire 1 7 8 = Inr (demo_voucher 10 1048576 355)"
  by (simp add: wire_voucher_to_signed_def voucher_validate_def VOUCHER_SIG_LEN_def demo_handler_def
      demo_wire_def demo_voucher_def)

lemma demo_verified:
  "verify_voucher demo_alloy demo_lane 0 (demo_voucher 10 1048576 355) demo_wire 10
     = Inr \<lparr>vv_next_state = demo_lane1, vv_new_bytes = 1048576, vv_amount = 10\<rparr>"
proof -
  have "advance_presigned demo_alloy demo_lane (demo_voucher 10 1048576 355)
      = Inr (demo_lane1, \<lparr>va_amount_delta = 10, va_bytes_delta = 1048576\<rparr>)"
    using stage_voucher_Inr(4) [OF demo_stage1] .
  moreover have "verify_rate 10 1048576 10 DEFAULT_TOLERANCE_BPS = Inr ()"
    by (simp add: verify_rate_Inr_iff DEFAULT_TOLERANCE_BPS_def)
  ultimately show ?thesis
    by (simp add: verify_voucher_def Let_def demo_lane1_owed) (simp add: demo_wire_def)
qed

lemma demo_commit1:
  "commit_one_proof demo_handler demo_rq True fl (Voucher demo_wire) (OwedChunk_new 1048576) demo_world
     = (Inr (Continue 0), demo_world1)"
proof -
  have key: "rq_lane_key demo_rq = \<lparr>lk_pool_id = 1, lk_signer = 7, lk_provider = 8\<rparr>"
    by (simp add: demo_rq_def lane_key_of_def demo_defs)
  have "verify_signer demo_alloy (demo_voucher 10 1048576 355) 7 demo_domain = Inr ()"
    using stage_voucher_Inr(3) [OF demo_stage1] by (simp add: demo_defs)
  moreover have "voucher_credit_delta demo_wire (OwedChunk_new 1048576) = 0"
    by (simp add: voucher_credit_delta_def demo_wire_def OwedChunk_new_def CHUNK_BYTES_def MB_BYTES_def)
  moreover have "voucher_credit b 0 0 1048576 = Inr (Some (0, 0))" for b
    using u64_try_from_ucast [of 0] by (simp add: voucher_credit_def credit_advance_def sat_sub_def)
  moreover have "\<not> inside_expiry_margin demo_handler (expiry demo_lane)"
    by (simp add: inside_expiry_margin_def inside_capability_expiry_margin_def demo_handler_def sat_add_def demo_defs)
  moreover have "chunk_price_matches_quote demo_wire 10"
    by (simp add: chunk_price_matches_quote_def demo_wire_def)
  moreover have "rq_rate_per_mb demo_rq = 10" "h_alloy demo_handler = demo_alloy" "h_voucher_domain demo_handler = demo_domain"
      "h_record demo_handler = mem_record" "h_unix_millis demo_handler = 1000000"
    by (simp_all add: demo_rq_def demo_handler_def)
  moreover have "w_lane demo_world = \<lparr>ld_state = demo_lane, ld_bytes_delivered_cumulative = 0, ld_paid_credited = 0, ld_last_voucher_at = 0\<rparr>"
      "w_store demo_world = MemoryPoolStateStore_new"
    by (simp_all add: demo_world_def hydrated_def demo_lane_owed)
  moreover define st1 where "st1 = snd (mem_record MemoryPoolStateStore_new demo_lane1)"
  moreover have "mem_record MemoryPoolStateStore_new demo_lane1 = (Inr (), st1)"
    by (simp add: st1_def mem_record_def MemoryPoolStateStore_new_def Let_def)
  moreover have "send_hint demo_handler k w = w\<lparr>w_hints := w_hints w @ [k]\<rparr>" for k w
    by (simp add: send_hint_def demo_handler_def)
  moreover have "anchor_adopt (cv_chain_root demo_wire) = Some 355"
    by (simp add: anchor_adopt_def demo_wire_def)
  ultimately show ?thesis
    using demo_signed demo_verified
    by (simp add: commit_one_proof_def commit_voucher_def settle_voucher_def Let_def key
        demo_world1_def demo_delivery1_def) (simp add: demo_world_def)
qed

lemma demo_commit2:
  "\<exists>w'. commit_one_proof demo_handler demo_rq True demo_delivery1 (Preimage \<lparr>cp_preimage = 353, cp_index = 2\<rparr>)
     (OwedChunk_new 1048576) demo_world1 = (Inr (Continue 1048576), w') \<and> ld_state (w_lane w') = demo_lane2"
proof -
  have front: "preimage_frontier demo_lane1 355 2 = Some (0, 355)"
    by (simp add: preimage_frontier_def chain_slot_def presigned_next_def Let_def opened_def demo_defs)
  have adv: "advance_preimage_verified demo_keccak demo_lane1 355 2 353 (Some (0, 355)) (verify_forward demo_keccak 353 2 355)
      = Inr (demo_lane2, \<lparr>pa_amount_delta = 20, pa_bytes_delta = 2097152\<rparr>)"
    using demo_reveal by (simp add: advance_preimage_def front)
  have owed: "owed_bytes demo_lane2 = 3145728"
    by (simp add: owed_bytes_def live_claim_def claim_bytes_value_def accrued_bytes_def presigned_next_def
        Let_def opened_def CHUNK_BYTES_def MB_BYTES_def demo_defs)
  have credit: "credit_advance 0 1048576 3145728 = Inr (1048576, 1048576)"
    using u64_try_from_ucast [of 1048576] by (simp add: credit_advance_def sat_sub_def)
  have margin: "\<not> inside_expiry_margin demo_handler (expiry demo_lane1)"
    by (simp add: inside_expiry_margin_def inside_capability_expiry_margin_def demo_handler_def sat_add_def
        presigned_next_def Let_def demo_defs)
  have rec: "mem_record st demo_lane2 = (Inr (), snd (mem_record st demo_lane2))" if "\<not> poisoned st" for st
    using that by (simp add: mem_record_def Let_def)
  have st: "\<not> poisoned (w_store demo_world1)"
    by (simp add: demo_world1_def mem_record_def MemoryPoolStateStore_new_def Let_def)
  have env: "h_record demo_handler = mem_record" "h_keccak demo_handler = demo_keccak"
    by (simp_all add: demo_handler_def)
  have lane: "w_lane demo_world1 = demo_delivery1" "w_anchor demo_world1 = Some 355"
      "ld_state demo_delivery1 = demo_lane1" "ld_paid_credited demo_delivery1 = 0"
    by (simp_all add: demo_world1_def demo_delivery1_def)
  obtain st2 where r2: "mem_record (w_store demo_world1) demo_lane2 = (Inr (), st2)" using rec [OF st] by metis
  show ?thesis
    unfolding commit_one_proof_def commit_one_preimage_def Let_def
    by (simp add: lane env front adv owed credit margin r2 OwedChunk_new_def pa_advanced_def)
qed

lemma demo_serve_run:
  obtains w where "serve_run demo_handler 10 demo_world w 1048576" and "ld_state (w_lane w) = demo_lane2"
proof -
  have anchor: "demo_world\<lparr>w_anchor := None\<rparr> = demo_world" "demo_world1\<lparr>w_anchor := Some 355\<rparr> = demo_world1"
    by (simp_all add: demo_world_def demo_world1_def)
  have keys: "same_keys demo_handler demo_handler" "rq_rate_per_mb demo_rq = 10"
      "rq_lane_key demo_rq = lane_key_of (ld_state (w_lane demo_world))"
      "rq_lane_key demo_rq = lane_key_of (ld_state (w_lane demo_world1))"
    by (simp_all add: same_keys_def demo_rq_def demo_world_def demo_world1_def hydrated_def demo_delivery1_def
        lane_key_of_def demo_lane1_def)
  have "serve_run demo_handler 10 demo_world demo_world1 (0 + credited (Inr (Continue 0)))"
    using serve_run.run_proof [OF serve_run.run_start keys(1,2,3), where an = None] demo_commit1 anchor(1) by metis
  then have "serve_run demo_handler 10 demo_world demo_world1 0" by (simp add: credited_def)
  from serve_run.run_proof [OF this keys(1,2,4), where an = "Some 355"] demo_commit2 anchor(2)
  obtain w where "serve_run demo_handler 10 demo_world w (0 + credited (Inr (Continue 1048576)))" "ld_state (w_lane w) = demo_lane2"
    by metis
  then show thesis by (intro that) (simp_all add: credited_def)
qed

lemma demo_world_inv: "delivery_inv demo_handler 10 (w_lane demo_world)"
  using hydrated_inv [OF lane_reachable_inv [OF lane_reachable.fresh [OF demo_lane_fresh]]]
  by (simp add: demo_world_def)

subsection \<open>Rejections\<close>

lemma bundle_Some:
  assumes "watermark_bundle_for_reject reason s = Some b"
  shows "is_watermark_gated reason" and "last_signature s = Some (wb_last_signature b)"
    and "last_amount s = ucast (wb_amount b)" and "last_bytes_delivered s = ucast (wb_bytes_delivered b)"
    and "chain s = \<lparr>chain_root = wb_chain_root b, chunk_price = ucast (wb_chunk_price b),
                    verified_index = wb_verified_index b, tip = wb_tip b\<rparr>"
  using assms
  by (auto simp: watermark_bundle_for_reject_def split: if_splits option.splits dest!: u64_try_from_Some)

lemma bundle_owed:
  assumes "watermark_bundle_for_reject reason s = Some b"
  shows "unat (owed s) = unat (wb_amount b) + unat (wb_chunk_price b) * unat (wb_verified_index b)"
    and "unat (owed_bytes s) = unat (wb_bytes_delivered b) + 1048576 * unat (wb_verified_index b)"
proof -
  note b = bundle_Some [OF assms]
  have "lane_wf s"
    using unat_below [of "wb_amount b"] unat_below [of "wb_bytes_delivered b"] unat_below [of "wb_chunk_price b"]
    by (simp add: lane_wf_def b unat_widen_u64)
  then show "unat (owed s) = unat (wb_amount b) + unat (wb_chunk_price b) * unat (wb_verified_index b)"
    and "unat (owed_bytes s) = unat (wb_bytes_delivered b) + 1048576 * unat (wb_verified_index b)"
    by (simp_all add: owed_nat owed_bytes_nat b unat_widen_u64)
qed

definition reject_frame ::
  "'st serve_world \<Rightarrow> reject_reason \<Rightarrow> watermark_bundle option \<Rightarrow> 'st serve_world" where
  "reject_frame w reason bundle = w\<lparr>w_frames := w_frames w @ [VoucherRejected reason bundle]\<rparr>"

definition honest_frame :: "'st serve_world \<Rightarrow> reject_reason \<Rightarrow> watermark_bundle option \<Rightarrow> bool" where
  "honest_frame w reason bundle \<longleftrightarrow> refuses_proof reason \<and>
     (bundle = None \<or> watermark_bundle_for_reject reason (ld_state (w_lane w)) = bundle)"

lemma voucher_reject_reason_refuses: "voucher_reject_reason e = Inr reason \<Longrightarrow> refuses_proof reason"
  by (cases e rule: voucher_reject_reason.cases) auto

lemma verify_voucher_Reject:
  assumes "verify_voucher A s cum sv wire rate = Inl (Reject reason bundle)"
  shows "refuses_proof reason \<and> (bundle = None \<or> watermark_bundle_for_reject reason s = bundle)"
  using assms
  by (auto simp: verify_voucher_def Let_def dest: voucher_reject_reason_refuses
      split: sum.splits pool_error.splits rate_error.splits if_splits prod.splits)

definition rejects ::
  "'st serve_world \<Rightarrow> (watermark_bundle option \<Rightarrow> bool) \<Rightarrow> 'st serve_world \<Rightarrow> bool" where
  "rejects w P w' \<longleftrightarrow> (\<exists>reason bundle. w' = reject_frame w reason bundle \<and> honest_frame w reason bundle \<and> P bundle)"

lemma rejectsI: "honest_frame w reason bundle \<Longrightarrow> P bundle \<Longrightarrow> rejects w P (reject_frame w reason bundle)"
  by (auto simp: rejects_def)

lemma rejects_mono: "rejects w P w' \<Longrightarrow> (\<And>b. P b \<Longrightarrow> Q b) \<Longrightarrow> rejects w Q w'"
  by (auto simp: rejects_def)

lemma reject_proof_eq: "reject_proof reason bundle w = (Inr Rejected, reject_frame w reason bundle)"
  by (simp add: reject_proof_def reject_frame_def)

lemma commit_voucher_Rejected:
  assumes "commit_voucher H rq wire oc w = (Inr Rejected, w')"
  shows "rejects w (\<lambda>bundle. bundle \<noteq> None \<longrightarrow> (\<exists>sv.
       wire_voucher_to_signed (h_from_raw H) wire (lk_pool_id (rq_lane_key rq))
         (lk_signer (rq_lane_key rq)) (lk_provider (rq_lane_key rq)) = Inr sv \<and>
       verify_signer (h_alloy H) sv (lk_signer (rq_lane_key rq)) (h_voucher_domain H) = Inr ())) w'"
  using assms unfolding commit_voucher_def settle_voucher_def Let_def reject_proof_eq
  by (auto simp: honest_frame_def intro!: rejectsI dest!: verify_voucher_Reject
      split: if_splits sum.splits voucher_error.splits verify_stop.splits option.splits prod.splits)

lemma commit_one_preimage_Rejected:
  assumes "commit_one_preimage H rq fl pre oc w = (Inr Rejected, w')"
  shows "rejects w (\<lambda>bundle. bundle \<noteq> None \<longrightarrow> w_anchor w \<noteq> None) w'"
  using assms unfolding commit_one_preimage_def Let_def reject_proof_eq
  by (auto simp: honest_frame_def intro!: rejectsI dest: voucher_reject_reason_refuses
      split: if_splits sum.splits option.splits prod.splits)

lemma commit_one_proof_Rejected:
  assumes "commit_one_proof H rq known fl p oc w = (Inr Rejected, w')"
  shows "rejects w (\<lambda>_. True) w'"
proof (cases known)
  case True
  with assms show ?thesis
    by (cases p) (auto simp: commit_one_proof_def
        dest!: commit_voucher_Rejected commit_one_preimage_Rejected elim: rejects_mono)
next
  case False
  with assms show ?thesis
    by (auto simp: commit_one_proof_def reject_proof_eq honest_frame_def intro!: rejectsI)
qed

subsection \<open>Properties\<close>

text \<open>
  C5. No credit without payment. From the moment a lane is loaded, whatever proofs its concurrent
  streams send in whatever order, the bytes the streams are credited with in total never exceed
  the bytes by which the lane's redeemable claim has grown, and the receipts written add up to
  exactly the credited bytes.
\<close>

theorem streams_never_overcredited:
  assumes "lane_reachable (h_alloy H) (h_voucher_domain H) (h_keccak H) rate s"
    and "w_lane w0 = hydrated s" and "serve_run H rate w0 w n"
  shows "unat (owed_bytes s) + n \<le> unat (owed_bytes (ld_state (w_lane w))) \<and>
         receipts_total w = receipts_total w0 + n"
proof -
  have inv: "delivery_inv H rate (w_lane w0)"
    using hydrated_inv [OF lane_reachable_inv [OF assms(1)]] assms(2) by simp
  note r = serve_run_inv [OF assms(3) inv]
  show ?thesis
    using r(3,4) delivery_invD(3) [OF r(1)] assms(2) by (simp add: hydrated_def word_le_nat_alt)
qed

theorem streams_never_overcredited_witness:
  "\<exists>w. serve_run demo_handler 10 demo_world w 1048576 \<and> receipts_total w = 1048576 \<and>
     1048576 \<le> unat (owed_bytes (ld_state (w_lane w)))"
proof -
  obtain w where run: "serve_run demo_handler 10 demo_world w 1048576" by (rule demo_serve_run)
  have "w_lane demo_world = hydrated demo_lane" by (simp add: demo_world_def)
  from streams_never_overcredited [OF lane_reachable.fresh [OF demo_lane_fresh] this run] run
  show ?thesis by (auto simp: demo_lane_owed receipts_total_def demo_world_def)
qed

text \<open>
  C6. What the handler accepts, the lane accepts: every state a lane reaches under the handler is
  reachable by lane steps alone, so what is proved of reachable lanes holds of the lane a node
  serves from.
\<close>

theorem served_lane_reachable:
  assumes "lane_reachable (h_alloy H) (h_voucher_domain H) (h_keccak H) rate s"
    and "w_lane w0 = hydrated s" and "serve_run H rate w0 w n"
  shows "lane_reachable (h_alloy H) (h_voucher_domain H) (h_keccak H) rate (ld_state (w_lane w))"
proof -
  have "delivery_inv H rate (w_lane w0)"
    using hydrated_inv [OF lane_reachable_inv [OF assms(1)]] assms(2) by simp
  from serve_run_inv(2) [OF assms(3) this] have "handler_steps H rate s (ld_state (w_lane w))"
    using assms(2) by (simp add: hydrated_def)
  then show ?thesis using assms(1) by (induction rule: rtranclp_induct) (auto intro: lane_reachable.step)
qed

theorem served_lane_reachable_witness:
  "lane_reachable demo_alloy demo_domain demo_keccak 10 demo_lane2"
proof -
  obtain w where run: "serve_run demo_handler 10 demo_world w 1048576" "ld_state (w_lane w) = demo_lane2"
    by (rule demo_serve_run)
  have "w_lane demo_world = hydrated demo_lane" by (simp add: demo_world_def)
  from served_lane_reachable [OF lane_reachable.fresh [OF demo_lane_fresh] this run(1)] run(2)
  show ?thesis by (simp add: demo_handler_def)
qed

text \<open>
  The credit of a proof settles its chunk: in every state of a run, a proof that continues
  the stream credits at most what the chunk it answers still owes, so settling the chunk with
  that credit succeeds and leaves exactly the rest.
\<close>

theorem proof_credit_settles:
  assumes "delivery_inv H rate (w_lane w0)" and "serve_run H rate w0 w n"
    and "rq_rate_per_mb rq = rate" and "rq_lane_key rq = lane_key_of (ld_state (w_lane w))"
    and "commit_one_proof H rq known fl p oc w = (Inr (Continue c), w')"
  shows "settle oc c = Inr (oc_remaining oc = c, oc\<lparr>oc_remaining := oc_remaining oc - c\<rparr>)"
proof -
  have inv: "delivery_inv H (rq_rate_per_mb rq) (w_lane w)"
    using serve_run_inv(1) [OF assms(2,1)] assms(3) by simp
  have "unat c \<le> unat (oc_remaining oc)"
    using proof_step_total(5) [OF inv assms(4,5)] by (simp add: credited_def)
  then show ?thesis by (auto simp: settle_def checked_sub_def word_le_nat_alt)
qed

theorem proof_credit_settles_witness:
  "settle (OwedChunk_new 1048576) 1048576 = Inr (True, \<lparr>oc_len = 1048576, oc_remaining = 0\<rparr>)"
proof -
  obtain w' where "commit_one_proof demo_handler demo_rq True demo_delivery1 (Preimage \<lparr>cp_preimage = 353, cp_index = 2\<rparr>)
     (OwedChunk_new 1048576) demo_world1 = (Inr (Continue 1048576), w')" using demo_commit2 by auto
  moreover have "delivery_inv demo_handler 10 (w_lane demo_world1)"
    using proof_step_total(1) [OF _ _ demo_commit1] demo_world_inv
    by (simp add: demo_rq_def demo_world_def hydrated_def)
  ultimately show ?thesis
    using proof_credit_settles [OF _ serve_run.run_start, of demo_handler 10 demo_world1 demo_rq]
    by (simp add: demo_rq_def OwedChunk_new_def demo_world1_def demo_delivery1_def lane_key_of_def demo_lane1_def)
qed

text \<open>
  A rejected proof changes nothing but the wire: the lane, the store, the anchor and the
  receipts stay as they were, exactly one frame is written, and a watermark bundle rides it only
  for a watermark-gated reason, when it states the lane's own claim: folding its chain into its
  amount and bytes gives exactly what the lane is owed.
\<close>

theorem rejected_proof_changes_nothing:
  assumes "commit_one_proof H rq known fl p oc w = (Inr Rejected, w')"
  shows "\<exists>reason bundle.
     w' = w\<lparr>w_frames := w_frames w @ [VoucherRejected reason bundle]\<rparr> \<and> refuses_proof reason \<and>
     (\<forall>b. bundle = Some b \<longrightarrow> is_watermark_gated reason \<and>
        unat (wb_amount b) + unat (wb_chunk_price b) * unat (wb_verified_index b) = unat (owed (ld_state (w_lane w))) \<and>
        unat (wb_bytes_delivered b) + unat CHUNK_BYTES * unat (wb_verified_index b)
          = unat (owed_bytes (ld_state (w_lane w))))"
proof -
  obtain reason bn where r: "w' = reject_frame w reason bn" "honest_frame w reason bn"
    using commit_one_proof_Rejected [OF assms] by (auto simp: rejects_def)
  show ?thesis
    using r bundle_owed [of reason "ld_state (w_lane w)"] bundle_Some(1) [of reason "ld_state (w_lane w)"]
    by (intro exI [of _ reason] exI [of _ bn]) (auto simp: reject_frame_def honest_frame_def)
qed

lemma demo_short_proof:
  "commit_one_proof demo_handler demo_rq True fl (Voucher (demo_wire\<lparr>cv_chunk_price := 9\<rparr>)) oc demo_world
     = (Inr Rejected, demo_world\<lparr>w_frames := [VoucherRejected reject_reason.ChunkPriceMismatch None]\<rparr>)"
  by (simp add: commit_one_proof_def commit_voucher_def chunk_price_matches_quote_def demo_wire_def demo_rq_def
      reject_proof_def demo_world_def)

theorem rejected_proof_changes_nothing_witness:
  "\<exists>reason bundle. snd (commit_one_proof demo_handler demo_rq True demo_delivery1
      (Voucher (demo_wire\<lparr>cv_chunk_price := 9\<rparr>)) (OwedChunk_new 5) demo_world)
    = demo_world\<lparr>w_frames := [VoucherRejected reason bundle]\<rparr>"
  using rejected_proof_changes_nothing [OF demo_short_proof] demo_short_proof [of demo_delivery1]
  by (auto simp: demo_world_def)

text \<open>
  The watermark is told only to its owner: when a voucher is answered with a watermark
  bundle, that voucher carries a signature that recovers to the lane's signer.
\<close>

theorem bundle_only_to_signer:
  assumes "commit_voucher H rq wire oc w = (Inr Rejected, w')"
    and "w' = w\<lparr>w_frames := w_frames w @ [VoucherRejected reason (Some b)]\<rparr>"
  shows "\<exists>sv. wire_voucher_to_signed (h_from_raw H) wire (lk_pool_id (rq_lane_key rq))
         (lk_signer (rq_lane_key rq)) (lk_provider (rq_lane_key rq)) = Inr sv \<and>
       verify_signer (h_alloy H) sv (lk_signer (rq_lane_key rq)) (h_voucher_domain H) = Inr ()"
proof -
  obtain reason' bn where r: "w' = reject_frame w reason' bn"
    and sv: "bn \<noteq> None \<Longrightarrow> \<exists>sv. wire_voucher_to_signed (h_from_raw H) wire (lk_pool_id (rq_lane_key rq))
         (lk_signer (rq_lane_key rq)) (lk_provider (rq_lane_key rq)) = Inr sv \<and>
       verify_signer (h_alloy H) sv (lk_signer (rq_lane_key rq)) (h_voucher_domain H) = Inr ()"
    using commit_voucher_Rejected [OF assms(1)] unfolding rejects_def by blast
  from r assms(2) have "w_frames w @ [VoucherRejected reason' bn] = w_frames w @ [VoucherRejected reason (Some b)]"
    by (metis reject_frame_def serve_world.select_convs(4) serve_world.surjective serve_world.update_convs(4))
  then show ?thesis using sv by simp
qed

text \<open>A sealed voucher below the lane's watermark, for a chunk the lane's headroom cannot pay.\<close>

definition demo_stale_wire :: client_voucher where
  "demo_stale_wire = \<lparr>cv_signature = replicate 65 0, cv_amount = 4, cv_bytes_delivered = 400000,
                      cv_chain_root = 0, cv_chunk_price = 0\<rparr>"

definition demo_bundle :: watermark_bundle where
  "demo_bundle = \<lparr>wb_amount = 10, wb_bytes_delivered = 1048576, wb_chain_root = 355, wb_verified_index = 0,
                  wb_tip = 355, wb_chunk_price = 10, wb_last_signature = []\<rparr>"

lemma demo_stale_commit:
  "commit_voucher demo_handler demo_rq demo_stale_wire (OwedChunk_new 2000000) demo_world1 =
     (Inr Rejected,
      demo_world1\<lparr>w_frames := w_frames demo_world1 @ [VoucherRejected reject_reason.AmountRegression (Some demo_bundle)]\<rparr>)"
proof -
  have key: "rq_lane_key demo_rq = \<lparr>lk_pool_id = 1, lk_signer = 7, lk_provider = 8\<rparr>" "rq_rate_per_mb demo_rq = 10"
    by (simp_all add: demo_rq_def lane_key_of_def demo_defs)
  have env: "h_alloy demo_handler = demo_alloy" "h_voucher_domain demo_handler = demo_domain"
    by (simp_all add: demo_handler_def)
  define sv where "sv = \<lparr>sv_voucher = \<lparr>v_pool_id = 1, v_signer = 7, v_provider = 8, v_amount = 4,
      v_bytes_delivered = 400000, v_chain_root = 0, v_chunk_price = 0\<rparr>, sv_signature = (7 :: address)\<rparr>"
  have "wire_voucher_to_signed (h_from_raw demo_handler) demo_stale_wire 1 7 8 = Inr sv"
    by (simp add: wire_voucher_to_signed_def voucher_validate_def VOUCHER_SIG_LEN_def demo_handler_def
        demo_stale_wire_def sv_def)
  moreover have "verify_signer demo_alloy sv 7 demo_domain = Inr ()"
    by (simp add: sv_def verify_signer_def recover_signer_def is_high_s_def demo_alloy_def)
  moreover have "\<not> inside_expiry_margin demo_handler (expiry demo_lane1)"
    by (simp add: inside_expiry_margin_def inside_capability_expiry_margin_def demo_handler_def sat_add_def
        presigned_next_def Let_def demo_defs)
  moreover have "chunk_price_matches_quote demo_stale_wire 10"
    by (simp add: chunk_price_matches_quote_def demo_stale_wire_def)
  moreover have lane1: "last_amount demo_lane1 = 10" "live_claim demo_lane1 \<noteq> None" "chain_root (chain demo_lane1) = 355"
    by (simp_all add: demo_lane1_def live_claim_def demo_voucher_def)
  have "advance_presigned demo_alloy demo_lane1 sv = Inl (pool_error.AmountRegression 10 4)"
    using lane1 by (auto simp: advance_presigned_def sv_def)
  then have "verify_voucher demo_alloy demo_lane1 1048576 sv demo_stale_wire 10
      = Inr \<lparr>vv_next_state = demo_lane1, vv_new_bytes = 1048576, vv_amount = 4\<rparr>"
    by (simp add: verify_voucher_def Let_def adopt_chain_def) (simp add: sv_def demo_stale_wire_def)
  moreover have "voucher_credit True 0 (voucher_credit_delta demo_stale_wire (OwedChunk_new 2000000)) 1048576 = Inr None"
    using u64_try_from_ucast [of 1048576]
    by (simp add: voucher_credit_def credit_stale_def credit_advance_def sat_sub_def voucher_credit_delta_def
        demo_stale_wire_def OwedChunk_new_def)
  moreover have "watermark_bundle_for_reject reject_reason.AmountRegression demo_lane1 = Some demo_bundle"
    using u64_try_from_ucast [of 10] u64_try_from_ucast [of 1048576]
    by (simp add: watermark_bundle_for_reject_def is_watermark_gated_def demo_bundle_def presigned_next_def
        Let_def opened_def demo_defs)
  moreover have "w_lane demo_world1 = demo_delivery1" by (simp add: demo_world1_def)
  moreover have "ucast (cv_amount demo_stale_wire) \<le> last_amount demo_lane1"
    by (simp add: lane1 demo_stale_wire_def)
  ultimately show ?thesis
    by (simp add: commit_voucher_def settle_voucher_def Let_def key env demo_delivery1_def reject_proof_def)
qed

theorem bundle_only_to_signer_witness:
  "\<exists>sv. wire_voucher_to_signed (h_from_raw demo_handler) demo_stale_wire 1 7 8 = Inr sv \<and>
     verify_signer demo_alloy sv 7 demo_domain = Inr ()"
  using bundle_only_to_signer [OF demo_stale_commit refl]
  by (simp add: demo_rq_def lane_key_of_def demo_lane_def hydrate_def) (simp add: demo_handler_def)

end
