(* ===== verification/Buyer_Ledger.thy ===== *)
theory Buyer_Ledger
  imports Client_Handler
begin

text \<open>
  The payer's side of a lane (\<open>src/crates/client/src/ledger.rs\<close>): the cumulative claim it has
  signed, the hash chain it meters on, and what a rejection or the node's watermark does to them.

  Issuing a voucher has two halves, because the send happens between them: \<open>issue_arm\<close> computes
  and arms the voucher, \<open>issue_commit\<close> commits it once the send succeeded. Releasing a preimage is
  split the same way. The send is a function on the caller's world that may fail (a write error or
  the send deadline); the seed of a fresh chain is drawn by the caller.
\<close>

subsection \<open>Cumulative totals\<close>

record cumulative =
  c_bytes :: u256
  c_amount :: u256

definition Cumulative_default :: cumulative where
  "Cumulative_default = \<lparr>c_bytes = 0, c_amount = 0\<rparr>"

definition cum_plus :: "cumulative \<Rightarrow> cumulative \<Rightarrow> cumulative" where
  "cum_plus a b = \<lparr>c_bytes = sat_add (c_bytes a) (c_bytes b), c_amount = sat_add (c_amount a) (c_amount b)\<rparr>"

definition cum_minus :: "cumulative \<Rightarrow> cumulative \<Rightarrow> cumulative" where
  "cum_minus a b = \<lparr>c_bytes = sat_sub (c_bytes a) (c_bytes b), c_amount = sat_sub (c_amount a) (c_amount b)\<rparr>"

definition cum_from_bundle :: "watermark_bundle \<Rightarrow> cumulative" where
  "cum_from_bundle b =
     (let proved = ucast (wb_verified_index b) in
      \<lparr>c_bytes = sat_add (ucast (wb_bytes_delivered b)) (sat_mul proved (ucast CHUNK_BYTES)),
       c_amount = sat_add (ucast (wb_amount b)) (sat_mul proved (ucast (wb_chunk_price b)))\<rparr>)"

definition next_voucher :: "cumulative \<Rightarrow> u64 \<Rightarrow> u64 \<Rightarrow> cumulative" where
  "next_voucher cur delta_bytes rate_per_mb =
     (let amount_delta = div_ceil (sat_mul (ucast delta_bytes) (ucast rate_per_mb)) (ucast MB_BYTES) in
      \<lparr>c_bytes = sat_add (c_bytes cur) (ucast delta_bytes), c_amount = sat_add (c_amount cur) amount_delta\<rparr>)"

subsection \<open>The payer's chain\<close>

record chain_epoch =
  ce_preimages :: "b256 list"
  ce_chunk_price :: u256
  ce_released :: u8

definition ChainEpoch_open :: "(b256 \<Rightarrow> b256) \<Rightarrow> b256 \<Rightarrow> u256 \<Rightarrow> chain_epoch" where
  "ChainEpoch_open keccak seed price =
     \<lparr>ce_preimages = fst (fold (\<lambda>index (ps, acc). (ps[index := acc], keccak acc))
                              (rev [0..<Suc (unat MAX_CHAIN_LENGTH)]) (replicate 256 0, seed)),
      ce_chunk_price = price, ce_released = 0\<rparr>"

definition epoch_root :: "chain_epoch \<Rightarrow> b256" where
  "epoch_root e = (case ce_preimages e of [] \<Rightarrow> 0 | p # _ \<Rightarrow> p)"

definition next_index :: "chain_epoch \<Rightarrow> u8 option" where
  "next_index e = (if ce_released e < MAX_CHAIN_LENGTH then Some (ce_released e + 1) else None)"

definition epoch_preimage :: "chain_epoch \<Rightarrow> u8 \<Rightarrow> b256 option" where
  "epoch_preimage e index =
     (if unat index < length (ce_preimages e) then Some (ce_preimages e ! unat index) else None)"

definition open_epoch :: "(b256 \<Rightarrow> b256) \<Rightarrow> b256 \<Rightarrow> u64 \<Rightarrow> chain_epoch" where
  "open_epoch keccak seed rate_per_mb = ChainEpoch_open keccak seed (ucast rate_per_mb)"

subsection \<open>The ledger\<close>

record armed =
  ar_voucher :: cumulative
  ar_folded :: cumulative

datatype last_proof =
    LastVoucher u256
  | LastReveal b256 u8 u256

datatype stream_proof =
    StreamVoucher u256 u64
  | StreamReveal b256 u8

datatype displaced = Nothing | Replaced "chain_epoch option"

datatype epoch_action = Keep | Open | Roll

record chain_commit =
  cc_chain_root :: b256
  cc_chunk_price :: u256

definition SEALED :: chain_commit where
  "SEALED = \<lparr>cc_chain_root = 0, cc_chunk_price = 0\<rparr>"

record released =
  rl_preimage :: b256
  rl_index :: u8
  rl_chain_root :: b256

datatype metered = Released released | Exhausted | Moved

datatype rebase_outcome = Rebased cumulative | Stale | Refused

record pipeline =
  pl_accrued :: cumulative
  pl_prev_accrued :: cumulative
  pl_last_proof :: "last_proof option"
  pl_committed :: cumulative
  pl_prev :: "cumulative option"
  pl_armed :: "armed option"
  pl_generation :: u64
  pl_unsaved_rebase :: "cumulative option"
  pl_healed_from :: "cumulative option"
  pl_baseline :: cumulative

record pool_ledger =
  lg_pipeline :: pipeline
  lg_epoch :: "chain_epoch option"
  lg_retired :: displaced
  lg_unpaid :: "(b256 \<times> u64 \<times> u64) list"
  lg_wire :: u64

definition pl_owed :: "pipeline \<Rightarrow> cumulative" where
  "pl_owed p = cum_plus (pl_committed p) (pl_accrued p)"

definition pl_overwrite :: "cumulative \<Rightarrow> pipeline \<Rightarrow> pipeline" where
  "pl_overwrite cum p =
     p\<lparr>pl_committed := cum, pl_accrued := Cumulative_default, pl_prev := None,
       pl_prev_accrued := Cumulative_default, pl_armed := None, pl_last_proof := None\<rparr>"

definition baseline_moved :: "u256 \<Rightarrow> u256 \<Rightarrow> u256 \<Rightarrow> u256" where
  "baseline_moved baseline from to =
     (if from \<le> to then sat_add baseline (sat_sub to from) else min baseline to)"

definition pl_heal :: "cumulative \<Rightarrow> pipeline \<Rightarrow> pipeline" where
  "pl_heal cum p =
     (let from = pl_owed p;
          p1 = p\<lparr>pl_baseline :=
                   \<lparr>c_bytes = baseline_moved (c_bytes (pl_baseline p)) (c_bytes from) (c_bytes cum),
                    c_amount = baseline_moved (c_amount (pl_baseline p)) (c_amount from) (c_amount cum)\<rparr>\<rparr>
      in (pl_overwrite cum p1)\<lparr>pl_healed_from := Some cum\<rparr>)"

definition pl_settlement :: "pipeline \<Rightarrow> cumulative" where
  "pl_settlement p =
     (let owed = pl_owed p in
      case pl_armed p of
        Some a \<Rightarrow> if c_amount owed < c_amount (ar_voucher a) then ar_voucher a else owed
      | None \<Rightarrow> owed)"

definition PoolLedger_new :: "cumulative \<Rightarrow> pool_ledger" where
  "PoolLedger_new seed =
     \<lparr>lg_pipeline =
        \<lparr>pl_accrued = Cumulative_default, pl_prev_accrued = Cumulative_default, pl_last_proof = None,
         pl_committed = seed, pl_prev = None, pl_armed = None, pl_generation = 0,
         pl_unsaved_rebase = None, pl_healed_from = None, pl_baseline = seed\<rparr>,
      lg_epoch = None, lg_retired = Nothing, lg_unpaid = [], lg_wire = 0\<rparr>"

definition committed :: "pool_ledger \<Rightarrow> cumulative" where
  "committed L = pl_owed (lg_pipeline L)"

definition settlement :: "pool_ledger \<Rightarrow> cumulative" where
  "settlement L = pl_settlement (lg_pipeline L)"

definition paid_bytes :: "pool_ledger \<Rightarrow> u256" where
  "paid_bytes L = sat_sub (c_bytes (committed L)) (c_bytes (pl_baseline (lg_pipeline L)))"

definition note_wire :: "u64 \<Rightarrow> pool_ledger \<Rightarrow> pool_ledger" where
  "note_wire n L = L\<lparr>lg_wire := sat_add (lg_wire L) n\<rparr>"

definition ledger_chain_root :: "pool_ledger \<Rightarrow> b256 option" where
  "ledger_chain_root L = map_option epoch_root (lg_epoch L)"

subsection \<open>Issuing vouchers\<close>

definition commit_epoch ::
  "(b256 \<Rightarrow> b256) \<Rightarrow> b256 \<Rightarrow> epoch_action \<Rightarrow> u64 \<Rightarrow> pool_ledger \<Rightarrow> chain_commit \<times> pool_ledger" where
  "commit_epoch keccak seed action rate_per_mb L =
     (let replacement =
            (case action of
               Keep \<Rightarrow> None
             | Open \<Rightarrow> if lg_epoch L \<noteq> None then None else Some (Some (open_epoch keccak seed rate_per_mb))
             | Roll \<Rightarrow> Some (Some (open_epoch keccak seed rate_per_mb)));
          L1 = (case replacement of
                  Some next \<Rightarrow> L\<lparr>lg_retired := Replaced (lg_epoch L), lg_epoch := next\<rparr>
                | None \<Rightarrow> L\<lparr>lg_retired := Nothing\<rparr>)
      in (case lg_epoch L1 of
            None \<Rightarrow> SEALED
          | Some live \<Rightarrow> \<lparr>cc_chain_root = epoch_root live, cc_chunk_price = ce_chunk_price live\<rparr>, L1))"

definition issue_arm ::
  "(b256 \<Rightarrow> b256) \<Rightarrow> b256 \<Rightarrow> u64 \<Rightarrow> u64 \<Rightarrow> epoch_action \<Rightarrow> pool_ledger
     \<Rightarrow> cumulative \<times> chain_commit \<times> pool_ledger" where
  "issue_arm keccak seed delta_bytes rate_per_mb action L =
     (let frontier = settlement L;
          accr = pl_accrued (lg_pipeline L);
          action' = (if c_amount accr = 0 \<and> c_bytes accr = 0 then action else Roll);
          next = next_voucher frontier delta_bytes rate_per_mb
      in case commit_epoch keccak seed action' rate_per_mb L of
           (commit, L1) \<Rightarrow>
             (next, commit,
              L1\<lparr>lg_pipeline := (lg_pipeline L1)\<lparr>pl_armed := Some \<lparr>ar_voucher = next, ar_folded = accr\<rparr>\<rparr>\<rparr>))"

definition issue_commit :: "cumulative \<Rightarrow> pool_ledger \<Rightarrow> pool_ledger" where
  "issue_commit next L =
     (let p = lg_pipeline L in
      L\<lparr>lg_pipeline :=
          p\<lparr>pl_prev := Some (pl_committed p), pl_prev_accrued := pl_accrued p, pl_committed := next,
            pl_accrued := Cumulative_default, pl_armed := None,
            pl_last_proof := Some (LastVoucher (c_amount next))\<rparr>\<rparr>)"

type_synonym ('e, 'w) exchange = "'w \<Rightarrow> ('e + unit) \<times> 'w"

definition issue_stamped ::
  "(b256 \<Rightarrow> b256) \<Rightarrow> b256 \<Rightarrow> u64 \<Rightarrow> u64 \<Rightarrow> epoch_action \<Rightarrow> (cumulative \<Rightarrow> chain_commit \<Rightarrow> ('e, 'w) exchange)
     \<Rightarrow> pool_ledger \<Rightarrow> 'w \<Rightarrow> ('e + cumulative \<times> u64) \<times> pool_ledger \<times> 'w" where
  "issue_stamped keccak seed delta_bytes rate_per_mb action exchange L w =
     (case issue_arm keccak seed delta_bytes rate_per_mb action L of
        (next, commit, L1) \<Rightarrow>
          (case exchange next commit w of
             (Inl e, w') \<Rightarrow> (Inl e, L1, w')
           | (Inr _, w') \<Rightarrow>
               (let L2 = issue_commit next L1 in (Inr (next, pl_generation (lg_pipeline L2)), L2, w'))))"

definition confirm_armed_stamped :: "u256 \<Rightarrow> pool_ledger \<Rightarrow> (cumulative \<times> u64) option \<times> pool_ledger" where
  "confirm_armed_stamped amount L =
     (let p = lg_pipeline L in
      case pl_armed p of
        None \<Rightarrow> (None, L)
      | Some a \<Rightarrow>
          if c_amount (ar_voucher a) \<noteq> amount then (None, L)
          else (Some (ar_voucher a, pl_generation p),
                L\<lparr>lg_pipeline :=
                    p\<lparr>pl_armed := None, pl_prev := Some (pl_committed p), pl_prev_accrued := ar_folded a,
                      pl_committed := ar_voucher a, pl_accrued := cum_minus (pl_accrued p) (ar_folded a),
                      pl_last_proof := Some (LastVoucher amount)\<rparr>\<rparr>))"

definition reanchor ::
  "(cumulative \<Rightarrow> chain_commit \<Rightarrow> ('e, 'w) exchange) \<Rightarrow> pool_ledger \<Rightarrow> 'w \<Rightarrow> ('e + b256 option) \<times> 'w" where
  "reanchor exchange L w =
     (case lg_epoch L of
        None \<Rightarrow> (Inr None, w)
      | Some live \<Rightarrow>
          (case exchange (pl_committed (lg_pipeline L))
                  \<lparr>cc_chain_root = epoch_root live, cc_chunk_price = ce_chunk_price live\<rparr> w of
             (Inl e, w') \<Rightarrow> (Inl e, w')
           | (Inr _, w') \<Rightarrow> (Inr (Some (epoch_root live)), w')))"

subsection \<open>Metering\<close>

definition meter_next :: "b256 option \<Rightarrow> pool_ledger \<Rightarrow> metered \<times> u256" where
  "meter_next anchored L =
     (case lg_epoch L of
        None \<Rightarrow> (Exhausted, 0)
      | Some live \<Rightarrow>
          if anchored \<noteq> Some (epoch_root live) then (Moved, 0)
          else (case next_index live of
                  None \<Rightarrow> (Exhausted, 0)
                | Some index \<Rightarrow>
                    (case epoch_preimage live index of
                       None \<Rightarrow> (Exhausted, 0)
                     | Some preimage \<Rightarrow>
                         (Released \<lparr>rl_preimage = preimage, rl_index = index, rl_chain_root = epoch_root live\<rparr>,
                          ce_chunk_price live))))"

definition meter_commit :: "released \<Rightarrow> u256 \<Rightarrow> pool_ledger \<Rightarrow> pool_ledger" where
  "meter_commit r price L =
     (let p = lg_pipeline L in
      L\<lparr>lg_epoch := map_option (\<lambda>live. live\<lparr>ce_released := rl_index r\<rparr>) (lg_epoch L),
        lg_pipeline :=
          p\<lparr>pl_accrued := \<lparr>c_bytes = sat_add (c_bytes (pl_accrued p)) (ucast CHUNK_BYTES),
                           c_amount = sat_add (c_amount (pl_accrued p)) price\<rparr>,
            pl_last_proof := Some (LastReveal (rl_chain_root r) (rl_index r) price)\<rparr>\<rparr>)"

definition meter ::
  "b256 option \<Rightarrow> (released \<Rightarrow> ('e, 'w) exchange) \<Rightarrow> pool_ledger \<Rightarrow> 'w \<Rightarrow> ('e + metered) \<times> pool_ledger \<times> 'w" where
  "meter anchored exchange L w =
     (case meter_next anchored L of
        (Released r, price) \<Rightarrow>
          (case exchange r w of
             (Inl e, w') \<Rightarrow> (Inl e, L, w')
           | (Inr _, w') \<Rightarrow> (Inr (Released r), meter_commit r price L, w'))
      | (m, _) \<Rightarrow> (Inr m, L, w))"

subsection \<open>Healing\<close>

definition retire_chain :: "pool_ledger \<Rightarrow> pool_ledger" where
  "retire_chain L = L\<lparr>lg_epoch := None, lg_retired := Nothing\<rparr>"

definition reseed :: "cumulative \<Rightarrow> pool_ledger \<Rightarrow> bool \<times> pool_ledger" where
  "reseed cum L =
     (if c_amount cum \<le> c_amount (committed L) then (False, L)
      else (True, retire_chain (L\<lparr>lg_pipeline := pl_heal cum (lg_pipeline L)\<rparr>)))"

definition rebase_if ::
  "cumulative \<Rightarrow> u64 option \<Rightarrow> (cumulative \<Rightarrow> bool) \<Rightarrow> pool_ledger \<Rightarrow> rebase_outcome \<times> pool_ledger" where
  "rebase_if cum proof_generation admits L =
     (let p = lg_pipeline L in
      if (case proof_generation of Some g \<Rightarrow> g < pl_generation p | None \<Rightarrow> False) then (Stale, L)
      else if \<not> admits (pl_owed p) then (Refused, L)
      else (let p1 = pl_heal cum p;
                p2 = p1\<lparr>pl_generation := sat_add (pl_generation p1) 1, pl_unsaved_rebase := Some cum\<rparr>
            in (Rebased (pl_owed p), retire_chain (L\<lparr>lg_pipeline := p2\<rparr>))))"

definition rebase :: "cumulative \<Rightarrow> u64 option \<Rightarrow> pool_ledger \<Rightarrow> rebase_outcome \<times> pool_ledger" where
  "rebase cum gen = rebase_if cum gen (\<lambda>from. c_amount cum \<le> c_amount from \<and> cum \<noteq> from)"

definition rebase_ahead_on_bytes :: "cumulative \<Rightarrow> u64 option \<Rightarrow> pool_ledger \<Rightarrow> rebase_outcome \<times> pool_ledger" where
  "rebase_ahead_on_bytes cum gen =
     rebase_if cum gen (\<lambda>from. c_amount cum \<le> c_amount from \<and> c_bytes from < c_bytes cum)"

definition take_unsaved_rebase :: "pool_ledger \<Rightarrow> cumulative option \<times> pool_ledger" where
  "take_unsaved_rebase L =
     (pl_unsaved_rebase (lg_pipeline L), L\<lparr>lg_pipeline := (lg_pipeline L)\<lparr>pl_unsaved_rebase := None\<rparr>\<rparr>)"

definition retire_unadopted_chain :: "cumulative \<Rightarrow> pool_ledger \<Rightarrow> b256 option \<times> pool_ledger" where
  "retire_unadopted_chain b L =
     (case ledger_chain_root L of
        None \<Rightarrow> (None, L)
      | Some root \<Rightarrow>
          (let p = lg_pipeline L in
           if (case pl_healed_from p of
                 Some h \<Rightarrow> c_amount b \<le> c_amount h \<and> c_bytes b \<le> c_bytes h | None \<Rightarrow> False)
           then (None, L)
           else (Some root,
                 retire_chain (L\<lparr>lg_pipeline := (pl_overwrite (pl_settlement p) p)\<lparr>pl_healed_from := Some b\<rparr>\<rparr>))))"

definition reject_reveal :: "b256 \<Rightarrow> u256 \<Rightarrow> pool_ledger \<Rightarrow> pool_ledger" where
  "reject_reveal root price L =
     (let p = lg_pipeline L in
      L\<lparr>lg_pipeline :=
          p\<lparr>pl_last_proof := None,
            pl_accrued := \<lparr>c_bytes = sat_sub (c_bytes (pl_accrued p)) (ucast CHUNK_BYTES),
                           c_amount = sat_sub (c_amount (pl_accrued p)) price\<rparr>\<rparr>,
        lg_epoch := map_option (\<lambda>live. if epoch_root live = root
                                        then live\<lparr>ce_released := sat_sub (ce_released live) 1\<rparr> else live)
                      (lg_epoch L)\<rparr>)"

definition reject_voucher :: "pool_ledger \<Rightarrow> bool \<times> pool_ledger" where
  "reject_voucher L =
     (let p = (lg_pipeline L)\<lparr>pl_last_proof := None\<rparr> in
      case pl_prev p of
        None \<Rightarrow> (False, L\<lparr>lg_pipeline := p\<rparr>)
      | Some prev \<Rightarrow>
          (True,
           L\<lparr>lg_pipeline :=
               p\<lparr>pl_prev := None, pl_committed := prev,
                 pl_accrued := cum_plus (pl_accrued p) (pl_prev_accrued p),
                 pl_prev_accrued := Cumulative_default\<rparr>,
             lg_epoch := (case lg_retired L of Replaced ch \<Rightarrow> ch | Nothing \<Rightarrow> lg_epoch L),
             lg_retired := Nothing\<rparr>))"

definition resolve_reject :: "stream_proof \<Rightarrow> pool_ledger \<Rightarrow> bool \<times> pool_ledger" where
  "resolve_reject rejected L =
     (let p = lg_pipeline L;
          disarm = (\<lambda>amount.
            if (case pl_armed p of Some a \<Rightarrow> c_amount (ar_voucher a) = amount | None \<Rightarrow> False)
            then (True, L\<lparr>lg_pipeline := p\<lparr>pl_armed := None\<rparr>\<rparr>) else (False, L))
      in case rejected of
           StreamReveal root index \<Rightarrow>
             (case pl_last_proof p of
                Some (LastReveal last_root last_index price) \<Rightarrow>
                  if root = last_root \<and> index = last_index then (True, reject_reveal root price L) else (False, L)
              | _ \<Rightarrow> (False, L))
         | StreamVoucher amount gen \<Rightarrow>
             (case pl_last_proof p of
                Some (LastVoucher last_amt) \<Rightarrow>
                  if amount = last_amt then reject_voucher L else disarm amount
              | _ \<Rightarrow> disarm amount))"

subsection \<open>The ladder\<close>

lemma unat_MAX_CHAIN_LENGTH: "unat MAX_CHAIN_LENGTH = 255"
  by (simp add: MAX_CHAIN_LENGTH_def)

lemma ladder_fold:
  "n \<le> length ps \<Longrightarrow>
     length (fst (fold (\<lambda>index (ps, acc). (ps[index := acc], keccak acc)) (rev [0..<n]) (ps, acc))) = length ps \<and>
     (\<forall>i. fst (fold (\<lambda>index (ps, acc). (ps[index := acc], keccak acc)) (rev [0..<n]) (ps, acc)) ! i
        = (if i < n then (keccak ^^ (n - Suc i)) acc else ps ! i))"
proof (induction n arbitrary: ps acc)
  case (Suc n)
  have "n \<le> length (ps[n := acc])" using Suc.prems by simp
  note IH = Suc.IH [OF this, of "keccak acc"]
  have shift: "(keccak ^^ (n - Suc i)) (keccak acc) = (keccak ^^ (n - i)) acc" if "i < n" for i
  proof -
    from that have "n - i = Suc (n - Suc i)" by simp
    then show ?thesis by (simp add: funpow_swap1)
  qed
  have "fold (\<lambda>index (ps, acc). (ps[index := acc], keccak acc)) (rev [0..<Suc n]) (ps, acc)
      = fold (\<lambda>index (ps, acc). (ps[index := acc], keccak acc)) (rev [0..<n]) (ps[n := acc], keccak acc)"
    by simp
  then show ?case
    using IH Suc.prems shift by (auto simp: nth_list_update less_Suc_eq)
qed simp

lemma open_epoch_ladder:
  "length (ce_preimages (open_epoch keccak seed rate)) = 256"
  "ce_preimages (open_epoch keccak seed rate) ! unat (i :: u8) = preimage_at keccak seed i"
proof -
  note f = ladder_fold [of 256 "replicate 256 0" keccak seed]
  have max: "Suc (unat MAX_CHAIN_LENGTH) = 256" by (simp add: MAX_CHAIN_LENGTH_def)
  show "length (ce_preimages (open_epoch keccak seed rate)) = 256"
    using f by (simp add: open_epoch_def ChainEpoch_open_def max)
  have "unat (MAX_CHAIN_LENGTH - i) = 255 - unat i"
    by (subst unat_sub_exact) (simp_all flip: MAX_CHAIN_LENGTH_def add: unat_MAX_CHAIN_LENGTH)
  then show "ce_preimages (open_epoch keccak seed rate) ! unat i = preimage_at keccak seed i"
    using f unat_below [of i]
    by (simp add: open_epoch_def ChainEpoch_open_def max preimage_at_def hash_forward_funpow)
qed

lemma open_epoch_simps [simp]:
  "ce_chunk_price (open_epoch keccak seed rate) = ucast rate" "ce_released (open_epoch keccak seed rate) = 0"
  by (simp_all add: open_epoch_def ChainEpoch_open_def)

lemma open_epoch_root [simp]: "epoch_root (open_epoch keccak seed rate) = root_from_seed keccak seed"
proof -
  have "ce_preimages (open_epoch keccak seed rate) ! 0 = root_from_seed keccak seed"
    using open_epoch_ladder(2) [of keccak seed rate 0] by (simp add: preimage_at_zero)
  then show ?thesis
    using open_epoch_ladder(1) [of keccak seed rate]
    by (cases "ce_preimages (open_epoch keccak seed rate)") (simp_all add: epoch_root_def)
qed

lemma epoch_root_released [simp]: "epoch_root (e\<lparr>ce_released := n\<rparr>) = epoch_root e"
  by (simp add: epoch_root_def)

lemma epoch_preimage_open [simp]:
  "epoch_preimage ((open_epoch keccak seed rate)\<lparr>ce_released := n\<rparr>) i = Some (preimage_at keccak seed i)"
  using unat_below [of i] by (simp add: epoch_preimage_def open_epoch_ladder)

subsection \<open>Payer and node in step\<close>

text \<open>
  The payer's ledger matches the node's lane: with no live chain the ledger's anchor is the
  lane's whole claim; with one, both sides hold the same anchor, the same chain at the same
  index, and the ledger's accrual is what the lane has metered on it.
\<close>

definition in_sync :: "(b256 \<Rightarrow> b256) \<Rightarrow> u64 \<Rightarrow> pool_ledger \<Rightarrow> lane_state \<Rightarrow> bool" where
  "in_sync keccak rate L s \<longleftrightarrow>
     pl_armed (lg_pipeline L) = None \<and> (chain_root (chain s) = 0 \<longrightarrow> verified_index (chain s) = 0) \<and>
     (case lg_epoch L of
        None \<Rightarrow>
          pl_accrued (lg_pipeline L) = Cumulative_default \<and>
          pl_committed (lg_pipeline L) = \<lparr>c_bytes = owed_bytes s, c_amount = owed s\<rparr>
      | Some e \<Rightarrow>
          (\<exists>seed. e = (open_epoch keccak seed rate)\<lparr>ce_released := verified_index (chain s)\<rparr> \<and> honest_tip keccak seed s) \<and>
          chain_root (chain s) \<noteq> 0 \<and> last_signature s \<noteq> None \<and>
          pl_committed (lg_pipeline L) = \<lparr>c_bytes = last_bytes_delivered s, c_amount = last_amount s\<rparr> \<and>
          pl_accrued (lg_pipeline L) = \<lparr>c_bytes = accrued_bytes (chain s), c_amount = accrued (chain s)\<rparr>)"

lemma unat_sat_add_small:
  "unat a + unat b < 2 ^ LENGTH('a) - 1 \<Longrightarrow> unat (sat_add a (b :: 'a::len word)) = unat a + unat b"
  by (simp add: unat_sat_add)

lemma lane_nat_bounds:
  assumes "lane_inv A domain keccak rate s"
  shows "unat (last_amount s) < 2 ^ 64" "unat (last_bytes_delivered s) < 2 ^ 64"
    "unat (accrued (chain s)) \<le> 2 ^ 64 * 255" "unat (accrued_bytes (chain s)) \<le> 1048576 * 255"
  using assms accrued_nat(2) [of "chain s"] accrued_bytes_bound [of "chain s"]
  by (auto simp: lane_inv_def lane_wf_def)

lemma owed_signed:
  assumes "last_signature s \<noteq> None"
  shows "owed s = last_amount s + accrued (chain s)" "owed_bytes s = last_bytes_delivered s + accrued_bytes (chain s)"
  using assms
  by (auto simp: owed_def owed_bytes_def live_claim_def claim_value_def claim_bytes_value_def)

lemma sat_add_eq_plus:
  assumes "unat a + unat b < 2 ^ 256 - 1"
  shows "sat_add a b = a + (b :: u256)"
proof -
  have "unat (sat_add a b) = unat (a + b)"
    using assms by (simp add: unat_sat_add unat_add_exact)
  then show ?thesis by (simp add: word_unat_eq_iff)
qed

lemma in_sync_committed:
  assumes "in_sync keccak rate L s" and "lane_inv A domain keccak rate s"
  shows "committed L = \<lparr>c_bytes = owed_bytes s, c_amount = owed s\<rparr>"
proof (cases "lg_epoch L")
  case None
  have "sat_add x 0 = x" for x :: u256 using unat_below [of x] by (simp add: sat_add_def)
  with None assms(1) show ?thesis
    by (simp add: in_sync_def committed_def pl_owed_def cum_plus_def Cumulative_default_def)
next
  case (Some e)
  note b = lane_nat_bounds [OF assms(2)]
  from Some assms(1) b show ?thesis
    by (simp add: in_sync_def committed_def pl_owed_def cum_plus_def owed_signed sat_add_eq_plus)
qed

lemma next_voucher_nat:
  assumes "unat (c_amount cur) < 2 ^ 80" and "unat (c_bytes cur) < 2 ^ 80"
  shows "unat (c_amount (next_voucher cur d r)) = unat (c_amount cur) + (unat d * unat r + 1048575) div 1048576"
    and "unat (c_bytes (next_voucher cur d r)) = unat (c_bytes cur) + unat d"
proof -
  have prod: "unat d * unat r < 2 ^ 64 * 2 ^ 64"
    using unat_below [of d] unat_below [of r] by (intro mult_strict_mono) auto
  then have ceil: "unat (div_ceil (sat_mul (ucast d) (ucast r)) (ucast MB_BYTES) :: u256)
      = (unat d * unat r + 1048575) div 1048576"
    by (simp add: word_nat MB_BYTES_def min_def)
  have "(unat d * unat r + 1048575) div 1048576 \<le> unat d * unat r + 1048575" by (rule div_le_dividend)
  with prod have "(unat d * unat r + 1048575) div 1048576 < 2 ^ 129" by simp
  with assms(1) ceil show "unat (c_amount (next_voucher cur d r)) = unat (c_amount cur) + (unat d * unat r + 1048575) div 1048576"
    by (simp add: next_voucher_def Let_def unat_sat_add_small)
  show "unat (c_bytes (next_voucher cur d r)) = unat (c_bytes cur) + unat d"
    using assms(2) unat_below [of d] by (simp add: next_voucher_def Let_def unat_sat_add_small)
qed

lemma sync_owed_nat:
  assumes "lane_inv A domain keccak rate s" and "chain_root (chain s) = 0 \<longrightarrow> verified_index (chain s) = 0"
  shows "unat (owed s) = unat (last_amount s) + unat rate * unat (verified_index (chain s))"
    and "unat (owed_bytes s) = unat (last_bytes_delivered s) + 1048576 * unat (verified_index (chain s))"
    and "unat (owed s) < 2 ^ 80" and "unat (owed_bytes s) < 2 ^ 80"
proof -
  have wf: "lane_wf s" using assms(1) by (simp add: lane_inv_def)
  have price: "unat (chunk_price (chain s)) * unat (verified_index (chain s)) = unat rate * unat (verified_index (chain s))"
    using assms by (auto simp: lane_inv_def quoted_price_def)
  have none: "last_amount s = 0 \<and> last_bytes_delivered s = 0 \<and> verified_index (chain s) = 0" if "last_signature s = None"
    using assms(1) that by (auto simp: lane_inv_def claim_backed_def NONE_chain_def)
  show a: "unat (owed s) = unat (last_amount s) + unat rate * unat (verified_index (chain s))"
    and b: "unat (owed_bytes s) = unat (last_bytes_delivered s) + 1048576 * unat (verified_index (chain s))"
    using none price by (auto simp: owed_nat [OF wf] owed_bytes_nat [OF wf])
  have k: "unat (verified_index (chain s)) < 2 ^ 8" using unat_below [of "verified_index (chain s)"] by simp
  have "unat rate * unat (verified_index (chain s)) < 2 ^ 64 * 2 ^ 8"
    using k unat_below [of rate] by (intro mult_strict_mono) auto
  then show "unat (owed s) < 2 ^ 80" using a wf by (simp add: lane_wf_def)
  show "unat (owed_bytes s) < 2 ^ 80" using b wf k by (simp add: lane_wf_def)
qed

text \<open>The span a voucher adds over the lane's anchor always pays the quoted rate.\<close>

lemma sync_rate_ok:
  fixes rate d :: u64 and am bm am0 bm0 :: u256
  assumes "unat am = unat am0 + (unat rate * k + (unat d * unat rate + 1048575) div 1048576)"
    and "unat bm = unat bm0 + (1048576 * k + unat d)"
    and "unat am < 2 ^ 64" and "unat bm < 2 ^ 64" and "bm \<noteq> bm0"
  shows "verify_rate (am - am0) (bm - bm0) rate DEFAULT_TOLERANCE_BPS = Inr ()"
proof -
  let ?D = "unat rate * k + (unat d * unat rate + 1048575) div 1048576" and ?B = "1048576 * k + unat d"
  have am: "unat (am - am0) = ?D" and bm: "unat (bm - bm0) = ?B"
    using assms(1,2) by (simp_all add: unat_sub_exact word_le_nat_alt)
  have B0: "?B \<noteq> 0" using assms(2,5) by (auto simp: word_unat_eq_iff)
  have "unat d * unat rate \<le> (unat d * unat rate + 1048575) div 1048576 * 1048576" by linarith
  then have pays: "?B * unat rate \<le> ?D * 1048576" by (simp add: algebra_simps)
  have small: "?B * unat rate < 2 ^ 128"
    using mult_strict_mono [of ?B "2 ^ 64" "unat rate" "2 ^ 64"] assms(2,4) unat_below [of rate] by simp
  have D: "?D < 2 ^ 64" using assms(1,3) by simp
  have le: "?B * unat rate * 9900 \<le> ?D * (1048576 * 10000)"
    using mult_le_mono [OF pays, of 9900 10000] by (simp add: algebra_simps)
  have tol: "10000 - min (unat DEFAULT_TOLERANCE_BPS) 10000 = 9900" by (simp add: DEFAULT_TOLERANCE_BPS_def)
  show ?thesis
    unfolding verify_rate_Inr_iff am bm tol
  proof (intro conjI)
    show "bm - bm0 \<noteq> 0" using B0 bm by (metis unat_0)
    show "?D * (1048576 * 10000) < 2 ^ 256" using D by simp
    show "?B * unat rate < 2 ^ 256" using small by simp
    show "?B * unat rate * 9900 < 2 ^ 256"
      by (rule order.strict_trans2 [OF mult_strict_right_mono [OF small]]) simp_all
    show "?B * unat rate * 9900 \<le> ?D * (1048576 * 10000)" by (rule le)
  qed
qed

subsection \<open>What an issue does\<close>

definition issued ::
  "(b256 \<Rightarrow> b256) \<Rightarrow> b256 \<Rightarrow> u64 \<Rightarrow> u64 \<Rightarrow> epoch_action \<Rightarrow> pool_ledger \<Rightarrow> pool_ledger" where
  "issued keccak seed delta rate action L =
     (case issue_arm keccak seed delta rate action L of (next, commit, L1) \<Rightarrow> issue_commit next L1)"

lemma settlement_unarmed: "pl_armed (lg_pipeline L) = None \<Longrightarrow> settlement L = committed L"
  by (simp add: settlement_def pl_settlement_def committed_def Let_def)

lemma issued_pipeline:
  assumes "issue_arm keccak seed delta rate action L = (next, commit, L1)"
  shows "next = next_voucher (settlement L) delta rate"
    and "pl_committed (lg_pipeline (issue_commit next L1)) = next"
    and "pl_accrued (lg_pipeline (issue_commit next L1)) = Cumulative_default"
    and "pl_armed (lg_pipeline (issue_commit next L1)) = None"
    and "lg_epoch (issue_commit next L1) = lg_epoch L1"
  using assms by (auto simp: issue_arm_def issue_commit_def Let_def split: prod.splits)

lemma issue_arm_epoch:
  assumes "issue_arm keccak seed delta rate action L = (next, commit, L1)"
  obtains
    (fresh) "lg_epoch L1 = Some (open_epoch keccak seed rate)"
      "commit = \<lparr>cc_chain_root = root_from_seed keccak seed, cc_chunk_price = ucast rate\<rparr>"
  | (same) e where "lg_epoch L = Some e" "lg_epoch L1 = Some e" "pl_accrued (lg_pipeline L) = Cumulative_default"
      "commit = \<lparr>cc_chain_root = epoch_root e, cc_chunk_price = ce_chunk_price e\<rparr>"
  | (sealed) "lg_epoch L = None" "lg_epoch L1 = None" "commit = SEALED"
proof (cases "pl_accrued (lg_pipeline L) = Cumulative_default")
  case True
  then show thesis
    using assms fresh same sealed
    by (cases action; cases "lg_epoch L")
       (auto simp: issue_arm_def commit_epoch_def Let_def Cumulative_default_def)
next
  case False
  then have "\<not> (c_amount (pl_accrued (lg_pipeline L)) = 0 \<and> c_bytes (pl_accrued (lg_pipeline L)) = 0)"
    by (cases "pl_accrued (lg_pipeline L)") (auto simp: Cumulative_default_def)
  then show thesis
    using assms fresh by (auto simp: issue_arm_def commit_epoch_def Let_def)
qed

lemma verify_voucher_moves:
  assumes "presigned_ok s (sv_voucher sv)"
    and "verify_rate (v_amount (sv_voucher sv) - last_amount s) (v_bytes_delivered (sv_voucher sv) - last_bytes_delivered s)
           rate DEFAULT_TOLERANCE_BPS = Inr ()"
  shows "\<exists>v. verify_voucher A s cum sv wire rate = Inr v \<and> vv_next_state v = presigned_next A s sv"
proof -
  have "advance_presigned A s sv = Inr (presigned_next A s sv,
      \<lparr>va_amount_delta = v_amount (sv_voucher sv) - last_amount s,
       va_bytes_delta = v_bytes_delivered (sv_voucher sv) - last_bytes_delivered s\<rparr>)"
    using assms(1) by (simp add: advance_presigned_Inr_iff)
  with assms(2) show ?thesis by (simp add: verify_voucher_def Let_def)
qed

lemma verify_voucher_stays:
  assumes "lane_inv A domain keccak rate s" and "verified_index (chain s) = 0"
    and "v_amount (sv_voucher sv) = last_amount s" and "ucast (cv_bytes_delivered wire) = last_bytes_delivered s"
  shows "\<exists>v. verify_voucher A s cum sv wire rate = Inr v \<and>
             vv_next_state v = (case adopt_chain A s sv of Some s' \<Rightarrow> s' | None \<Rightarrow> s)"
proof -
  have "claim_value c = last_amount s" if "live_claim s = Some c" for c
    using that assms(2) by (auto simp: live_claim_Some claim_value_def accrued_def)
  then have "advance_presigned A s sv = Inl (pool_error.AmountRegression (last_amount s) (v_amount (sv_voucher sv)))"
    using assms(3) by (auto simp: advance_presigned_def Let_def split: option.split)
  with assms(4) show ?thesis by (simp add: verify_voucher_def Let_def)
qed

lemma accrued_zero [simp]: "verified_index c = 0 \<Longrightarrow> accrued c = 0" "verified_index c = 0 \<Longrightarrow> accrued_bytes c = 0"
  by (simp_all add: accrued_def accrued_bytes_def)

lemma accrued_bytes_zero: "accrued_bytes c = 0 \<longleftrightarrow> verified_index c = 0"
  using accrued_bytes_nat [of c] by (metis accrued_zero(2) mult_is_0 unat_eq_zero zero_neq_numeral)

lemma sat_add_zero [simp]: "sat_add (x :: 'a::len word) 0 = x"
  using unat_below [of x] by (simp add: sat_add_def)

lemma sync_fresh:
  assumes "lg_epoch L = Some (open_epoch keccak seed rate)"
    and "chain s = opened (root_from_seed keccak seed) (ucast rate)"
    and "root_from_seed keccak seed \<noteq> 0" and "last_signature s \<noteq> None"
    and "pl_armed (lg_pipeline L) = None" and "pl_accrued (lg_pipeline L) = Cumulative_default"
    and "pl_committed (lg_pipeline L) = \<lparr>c_bytes = last_bytes_delivered s, c_amount = last_amount s\<rparr>"
  shows "in_sync keccak rate L s"
proof -
  have "open_epoch keccak seed rate = (open_epoch keccak seed rate)\<lparr>ce_released := verified_index (chain s)\<rparr>"
    by (simp add: assms(2) open_epoch_def ChainEpoch_open_def)
  then have "\<exists>sd. open_epoch keccak seed rate = (open_epoch keccak sd rate)\<lparr>ce_released := verified_index (chain s)\<rparr> \<and>
      honest_tip keccak sd s"
    by (intro exI [of _ seed]) (simp add: honest_tip_def assms(2) preimage_at_zero)
  then show ?thesis
    using assms by (simp add: in_sync_def Cumulative_default_def)
qed

text \<open>The chain of a lane that has just taken a voucher carrying the ledger's chain section.\<close>

lemma sync_after_accept:
  assumes sync: "in_sync keccak rate L s" and inv: "lane_inv A domain keccak rate s"
    and arm: "issue_arm keccak seed delta rate action L = (next, commit, L1)"
    and root: "root_from_seed keccak seed \<noteq> 0" "root_from_seed keccak seed \<noteq> chain_root (chain s)"
    and v: "v_amount (sv_voucher sv) = c_amount next" "v_bytes_delivered (sv_voucher sv) = c_bytes next"
       "v_chain_root (sv_voucher sv) = cc_chain_root commit" "v_chunk_price (sv_voucher sv) = cc_chunk_price commit"
  shows "in_sync keccak rate (issue_commit next L1) (presigned_next A s sv)"
    and "v_chain_root (sv_voucher sv) = chain_root (chain s) \<Longrightarrow> verified_index (chain s) = 0"
proof -
  note p = issued_pipeline [OF arm]
  have "in_sync keccak rate (issue_commit next L1) (presigned_next A s sv) \<and>
    (v_chain_root (sv_voucher sv) = chain_root (chain s) \<longrightarrow> verified_index (chain s) = 0)"
    using arm
  proof (cases rule: issue_arm_epoch)
    case fresh
    have "in_sync keccak rate (issue_commit next L1) (presigned_next A s sv)"
      by (rule sync_fresh [of _ keccak seed])
         (use fresh root p v in \<open>auto simp: presigned_next_def Let_def\<close>)
    with fresh root v show ?thesis by simp
  next
    case (same e)
    obtain sd where e: "e = (open_epoch keccak sd rate)\<lparr>ce_released := verified_index (chain s)\<rparr>"
        "honest_tip keccak sd s" and nz: "chain_root (chain s) \<noteq> 0"
        and acc: "pl_accrued (lg_pipeline L) = \<lparr>c_bytes = accrued_bytes (chain s), c_amount = accrued (chain s)\<rparr>"
      using sync same(1) by (auto simp: in_sync_def)
    have k: "verified_index (chain s) = 0"
      using acc same(3) by (simp add: Cumulative_default_def accrued_bytes_zero)
    have ch: "chain (presigned_next A s sv) = (chain s)\<lparr>chunk_price := ucast rate\<rparr>"
      using e v same(4) by (simp add: presigned_next_def Let_def honest_tip_def)
    have "\<exists>sd. e = (open_epoch keccak sd rate)\<lparr>ce_released := verified_index (chain (presigned_next A s sv))\<rparr> \<and>
        honest_tip keccak sd (presigned_next A s sv)"
      using e ch by (intro exI [of _ sd]) (simp add: honest_tip_def)
    with nz k ch p same(2) v show ?thesis
      by (simp add: in_sync_def Cumulative_default_def)
  next
    case sealed
    have k: "verified_index (chain s) = 0" if "chain_root (chain s) = 0"
      using sync that by (simp add: in_sync_def)
    have ch: "verified_index (chain (presigned_next A s sv)) = 0"
      using k v sealed(3) by (simp add: presigned_next_def Let_def SEALED_def)
    then show ?thesis
      using k p sealed v by (simp add: in_sync_def owed_signed SEALED_def)
  qed
  then show "in_sync keccak rate (issue_commit next L1) (presigned_next A s sv)"
    and "v_chain_root (sv_voucher sv) = chain_root (chain s) \<Longrightarrow> verified_index (chain s) = 0" by auto
qed

lemma sync_after_adopt:
  assumes sync: "in_sync keccak rate L s" and inv: "lane_inv A domain keccak rate s"
    and arm: "issue_arm keccak seed delta rate action L = (next, commit, L1)"
    and root: "root_from_seed keccak seed \<noteq> 0" "root_from_seed keccak seed \<noteq> chain_root (chain s)"
    and v: "v_amount (sv_voucher sv) = c_amount next" "v_bytes_delivered (sv_voucher sv) = c_bytes next"
       "v_chain_root (sv_voucher sv) = cc_chain_root commit" "v_chunk_price (sv_voucher sv) = cc_chunk_price commit"
    and stay: "verified_index (chain s) = 0" "c_amount next = last_amount s" "c_bytes next = last_bytes_delivered s"
  shows "in_sync keccak rate (issue_commit next L1) (case adopt_chain A s sv of Some s' \<Rightarrow> s' | None \<Rightarrow> s)"
  using arm
proof (cases rule: issue_arm_epoch)
  case fresh
  have "adopt_chain A s sv = Some (s\<lparr>chain := opened (root_from_seed keccak seed) (ucast rate),
      last_signature := Some (as_bytes A (sv_signature sv))\<rparr>)"
    using fresh root v stay by (simp add: adopt_chain_def Let_def)
  then show ?thesis
    using fresh root issued_pipeline [OF arm] stay by (auto intro!: sync_fresh [of _ keccak seed])
next
  case (same e)
  then have sig: "last_signature s \<noteq> None" and "chain_root (chain s) = epoch_root e"
    using sync by (auto simp: in_sync_def honest_tip_def)
  then have "adopt_chain A s sv = None" using v same(4) by (simp add: adopt_chain_def Let_def)
  then show ?thesis
    using sync same issued_pipeline [OF arm] stay by (simp add: in_sync_def Cumulative_default_def)
next
  case sealed
  then have "adopt_chain A s sv = None" using v by (simp add: adopt_chain_def SEALED_def Let_def)
  moreover have "owed s = last_amount s" "owed_bytes s = last_bytes_delivered s"
    using sync_owed_nat(1,2) [OF inv] sync stay(1) by (simp_all add: in_sync_def word_unat_eq_iff)
  ultimately show ?thesis
    using sync sealed issued_pipeline [OF arm] stay by (simp add: in_sync_def)
qed

lemma sync_voucher_accepted:
  assumes sync: "in_sync keccak rate L s" and inv: "lane_inv A domain keccak rate s" and rate: "rate \<noteq> 0"
    and arm: "issue_arm keccak seed delta rate action L = (next, commit, L1)"
    and root: "root_from_seed keccak seed \<noteq> 0" "root_from_seed keccak seed \<noteq> chain_root (chain s)"
    and v: "v_amount (sv_voucher sv) = c_amount next" "v_bytes_delivered (sv_voucher sv) = c_bytes next"
       "v_chain_root (sv_voucher sv) = cc_chain_root commit" "v_chunk_price (sv_voucher sv) = cc_chunk_price commit"
    and wire: "wire_voucher (sv_voucher sv)" "ucast (cv_bytes_delivered wire) = c_bytes next"
    and cap: "c_amount next \<le> cap s"
  shows "\<exists>vv. verify_voucher A s cum sv wire rate = Inr vv \<and> in_sync keccak rate (issue_commit next L1) (vv_next_state vv)"
proof -
  let ?k = "unat (verified_index (chain s))" and ?c = "(unat delta * unat rate + 1048575) div 1048576"
  have zero: "chain_root (chain s) = 0 \<longrightarrow> verified_index (chain s) = 0" using sync by (simp add: in_sync_def)
  note o = sync_owed_nat [OF inv zero]
  have frontier: "settlement L = \<lparr>c_bytes = owed_bytes s, c_amount = owed s\<rparr>"
    using sync in_sync_committed [OF sync inv] by (simp add: settlement_unarmed in_sync_def)
  have nx: "next = next_voucher (settlement L) delta rate" by (rule issued_pipeline(1) [OF arm])
  have a: "unat (c_amount next) = unat (last_amount s) + (unat rate * ?k + ?c)"
    and b: "unat (c_bytes next) = unat (last_bytes_delivered s) + (1048576 * ?k + unat delta)"
    using o next_voucher_nat [of "settlement L" delta rate] by (simp_all add: nx frontier)
  show ?thesis
  proof (cases "last_amount s < c_amount next")
    case True
    have "presigned_ok s (sv_voucher sv)"
      using True cap v o a b sync_after_accept(2) [OF sync inv arm root v]
      by (auto simp: presigned_ok_def word_le_nat_alt)
    moreover have "c_bytes next \<noteq> last_bytes_delivered s"
      using True a b by (auto simp: word_less_nat_alt)
    then have "verify_rate (c_amount next - last_amount s) (c_bytes next - last_bytes_delivered s) rate DEFAULT_TOLERANCE_BPS = Inr ()"
      using wire(1) v by (intro sync_rate_ok [OF a b]) (simp_all add: wire_voucher_def)
    ultimately show ?thesis
      using verify_voucher_moves [of s sv rate A cum wire] sync_after_accept(1) [OF sync inv arm root v] v by auto
  next
    case False
    then have "unat rate * ?k = 0" and "?c = 0" using a by (auto simp: word_less_nat_alt)
    then have k: "verified_index (chain s) = 0" and "unat delta = 0"
      using rate by (auto simp: unat_eq_zero div_eq_0_iff)
    then have stay: "c_amount next = last_amount s" "c_bytes next = last_bytes_delivered s"
      using a b \<open>?c = 0\<close> by (simp_all add: word_unat_eq_iff)
    obtain vv where "verify_voucher A s cum sv wire rate = Inr vv"
        "vv_next_state vv = (case adopt_chain A s sv of Some s' \<Rightarrow> s' | None \<Rightarrow> s)"
      using verify_voucher_stays [OF inv k, of sv wire cum] v(1) stay wire(2) by auto
    with sync_after_adopt [OF sync inv arm root v k stay] show ?thesis by auto
  qed
qed

end
