(* ===== verification/Payer_Stream.thy ===== *)
theory Payer_Stream
  imports Buyer_Ledger
begin

text \<open>
  One paying stream of the client (\<open>src/crates/client/src/lib.rs\<close>): signing and writing a voucher,
  the stream's view of the lane's chain (\<open>StreamMeter\<close>) and paying for delivered bytes.

  The transport is a parameter: \<open>write\<close> takes a message and the state of the network and says
  whether the write succeeded; a write that never returns is not modelled. The properties instantiate it with
  the node's own handler. Streams to the same node share the ledger. The state of a stream holds what its siblings will do to it, one
  move for each time this stream lets go of the ledger, and \<open>let_siblings\<close> stands where the code does.
\<close>

subsection \<open>Messages and state\<close>

datatype client_message = VoucherMsg client_voucher | PreimageMsg chunk_preimage

type_synonym 'net transport = "client_message \<Rightarrow> 'net \<Rightarrow> bool \<times> 'net"

record 'sig pool_context =
  pc_alloy :: "'sig alloy"
  pc_from_raw :: "u8 list \<Rightarrow> 'sig option"
  pc_sign_hash :: "b256 \<Rightarrow> string + 'sig"
  pc_voucher_domain :: eip712_domain
  pc_pool_id :: b256
  pc_address :: address
  pc_provider :: address
  pc_keccak :: "b256 \<Rightarrow> b256"
  pc_random_seed :: "nat \<Rightarrow> b256"

datatype pull_error =
    ProviderNotPinned
  | SigningFailed string
  | ExceedsWireWidth
  | WriteFailed
  | StillExhausted
  | UnconfirmedVoucher u256 pull_error

record stream_meter =
  sm_anchored_root :: "b256 option"
  sm_last_proof :: "stream_proof option"

record 'net payer =
  py_ledger :: pool_ledger
  py_meter :: stream_meter
  py_draws :: nat
  py_siblings :: "(pool_ledger \<Rightarrow> pool_ledger) list"
  py_net :: 'net

definition let_siblings :: "'net payer \<Rightarrow> 'net payer" where
  "let_siblings P =
     (case py_siblings P of
        [] \<Rightarrow> P
      | move # rest \<Rightarrow> P\<lparr>py_ledger := move (py_ledger P), py_siblings := rest\<rparr>)"

definition write_message :: "'net transport \<Rightarrow> client_message \<Rightarrow> (pull_error, 'net) exchange" where
  "write_message wr m n = (case wr m n of (ok, n') \<Rightarrow> (if ok then Inr () else Inl WriteFailed, n'))"

subsection \<open>Sending a voucher\<close>

definition sign_and_write_voucher ::
  "'sig pool_context \<Rightarrow> 'net transport \<Rightarrow> cumulative \<Rightarrow> chain_commit \<Rightarrow> (pull_error, 'net) exchange" where
  "sign_and_write_voucher C wr next ch n =
     (case voucher_sign (pc_alloy C) (pc_sign_hash C)
             \<lparr>v_pool_id = pc_pool_id C, v_signer = pc_address C, v_provider = pc_provider C,
              v_amount = c_amount next, v_bytes_delivered = c_bytes next,
              v_chain_root = cc_chain_root ch, v_chunk_price = cc_chunk_price ch\<rparr>
             (pc_voucher_domain C) of
        Inl e \<Rightarrow> (Inl (SigningFailed e), n)
      | Inr sv \<Rightarrow>
          (case signed_to_wire_voucher (pc_alloy C) sv of
             Inl _ \<Rightarrow> (Inl ExceedsWireWidth, n)
           | Inr wire \<Rightarrow> write_message wr (VoucherMsg wire) n))"

definition send_voucher ::
  "'sig pool_context \<Rightarrow> 'net transport \<Rightarrow> u64 \<Rightarrow> u64 \<Rightarrow> epoch_action \<Rightarrow> 'net payer
     \<Rightarrow> (pull_error + stream_proof \<times> b256 option) \<times> 'net payer" where
  "send_voucher C wr rate_per_mb delta_bytes action P =
     (if pc_provider C = 0 then (Inl ProviderNotPinned, P)
      else let seed = pc_random_seed C (py_draws P);
               armed = issue_arm (pc_keccak C) seed delta_bytes rate_per_mb action (py_ledger P);
               attempted = c_amount (fst armed);
               signed_root = cc_chain_root (fst (snd armed))
           in case issue_stamped (pc_keccak C) seed delta_bytes rate_per_mb action
                     (sign_and_write_voucher C wr) (py_ledger P) (py_net P) of
                (res, L, n) \<Rightarrow>
                  (let P' = P\<lparr>py_ledger := L, py_net := n, py_draws := Suc (py_draws P)\<rparr>
                   in case res of
                        Inl e \<Rightarrow> (Inl (UnconfirmedVoucher attempted e), P')
                      | Inr (next, generation) \<Rightarrow>
                          (Inr (StreamVoucher (c_amount next) generation,
                                if signed_root \<noteq> 0 then Some signed_root else None), P')))"

subsection \<open>The stream's meter\<close>

definition record_voucher :: "stream_proof \<times> b256 option \<Rightarrow> 'net payer \<Rightarrow> 'net payer" where
  "record_voucher pr P = P\<lparr>py_meter := \<lparr>sm_anchored_root = snd pr, sm_last_proof = Some (fst pr)\<rparr>\<rparr>"

definition meter_anchor ::
  "'sig pool_context \<Rightarrow> 'net transport \<Rightarrow> u64 \<Rightarrow> 'net payer \<Rightarrow> (pull_error + unit) \<times> 'net payer" where
  "meter_anchor C wr rate_per_mb P =
     (let P0 = let_siblings P in
      if ledger_chain_root (py_ledger P) = None then
        (case send_voucher C wr rate_per_mb 0 Open P0 of
           (Inl e, P1) \<Rightarrow> (Inl e, P1)
         | (Inr pr, P1) \<Rightarrow> (Inr (), record_voucher pr P1))
      else if ledger_chain_root (py_ledger P0) \<noteq> None \<and>
              sm_anchored_root (py_meter P0) \<noteq> ledger_chain_root (py_ledger P0) then
        (let P1 = let_siblings P0 in
         case reanchor (sign_and_write_voucher C wr) (py_ledger P1) (py_net P1) of
           (Inl e, n) \<Rightarrow> (Inl e, P1\<lparr>py_net := n\<rparr>)
         | (Inr root, n) \<Rightarrow>
             (Inr (), P1\<lparr>py_net := n, py_meter := (py_meter P1)\<lparr>sm_anchored_root := root\<rparr>\<rparr>))
      else (Inr (), P0))"

partial_function (option) release_loop ::
  "'sig pool_context \<Rightarrow> 'net transport \<Rightarrow> u64 \<Rightarrow> bool \<Rightarrow> 'net payer \<Rightarrow> ((pull_error + unit) \<times> 'net payer) option" where
  "release_loop C wr rate_per_mb rolled P =
     (case meter_anchor C wr rate_per_mb P of
        (Inl e, P0) \<Rightarrow> Some (Inl e, P0)
      | (Inr _, P0) \<Rightarrow>
          (let P1 = let_siblings P0 in
           case meter (sm_anchored_root (py_meter P1))
                  (\<lambda>r. write_message wr (PreimageMsg \<lparr>cp_preimage = rl_preimage r, cp_index = rl_index r\<rparr>))
                  (py_ledger P1) (py_net P1) of
             (res, L, n) \<Rightarrow>
               (let P2 = P1\<lparr>py_ledger := L, py_net := n\<rparr> in
                case res of
                  Inl e \<Rightarrow> Some (Inl e, P2)
                | Inr (Released r) \<Rightarrow>
                    Some (Inr (), P2\<lparr>py_meter := (py_meter P2)
                      \<lparr>sm_last_proof := Some (StreamReveal (rl_chain_root r) (rl_index r))\<rparr>\<rparr>)
                | Inr Moved \<Rightarrow> release_loop C wr rate_per_mb rolled P2
                | Inr Exhausted \<Rightarrow>
                    if rolled then Some (Inl StillExhausted, P2)
                    else (case send_voucher C wr rate_per_mb 0 Roll (let_siblings P2) of
                            (Inl e, P3) \<Rightarrow> Some (Inl e, P3)
                          | (Inr pr, P3) \<Rightarrow> release_loop C wr rate_per_mb True (record_voucher pr P3)))))"

definition release_chunk ::
  "'sig pool_context \<Rightarrow> 'net transport \<Rightarrow> u64 \<Rightarrow> 'net payer \<Rightarrow> ((pull_error + unit) \<times> 'net payer) option" where
  "release_chunk C wr rate_per_mb P = release_loop C wr rate_per_mb False P"

definition settle_residual ::
  "'sig pool_context \<Rightarrow> 'net transport \<Rightarrow> u64 \<Rightarrow> u64 \<Rightarrow> 'net payer \<Rightarrow> (pull_error + unit) \<times> 'net payer" where
  "settle_residual C wr rate_per_mb residual_bytes P =
     (case send_voucher C wr rate_per_mb residual_bytes Keep (let_siblings P) of
        (Inl e, P1) \<Rightarrow> (Inl e, P1)
      | (Inr pr, P1) \<Rightarrow> (Inr (), record_voucher pr P1))"

function pay ::
  "'sig pool_context \<Rightarrow> 'net transport \<Rightarrow> u64 \<Rightarrow> u64 \<Rightarrow> bool \<Rightarrow> 'net payer \<Rightarrow> ((pull_error + u64) \<times> 'net payer) option" where
  "pay C wr rate_per_mb unproved complete P =
     (if CHUNK_BYTES \<le> unproved then
        (case release_chunk C wr rate_per_mb P of
           None \<Rightarrow> None
         | Some (Inl e, P1) \<Rightarrow> Some (Inl e, P1)
         | Some (Inr _, P1) \<Rightarrow> pay C wr rate_per_mb (unproved - CHUNK_BYTES) complete P1)
      else if complete \<and> 0 < unproved then
        (case settle_residual C wr rate_per_mb unproved P of
           (Inl e, P1) \<Rightarrow> Some (Inl e, P1)
         | (Inr _, P1) \<Rightarrow> Some (Inr 0, P1))
      else Some (Inr unproved, P))"
  by pat_completeness auto
termination
  by (relation "measure (\<lambda>(C, wr, rate, unproved, complete, P). unat unproved)")
     (simp_all add: unat_sub_exact word_le_nat_alt)

declare pay.simps [simp del]

subsection \<open>The release loop ends\<close>

lemma meter_next_Moved:
  "meter_next anchored L = (Moved, price) \<Longrightarrow> lg_epoch L \<noteq> None \<and> anchored \<noteq> ledger_chain_root L"
  by (auto simp: meter_next_def ledger_chain_root_def split: option.splits if_splits)

lemma meter_moved:
  "meter anchored ex L n = (Inr Moved, L', n') \<Longrightarrow>
     L' = L \<and> n' = n \<and> lg_epoch L \<noteq> None \<and> anchored \<noteq> ledger_chain_root L"
  by (auto simp: meter_def dest: meter_next_Moved split: prod.splits metered.splits sum.splits)

lemma no_siblings [simp]: "py_siblings P = [] \<Longrightarrow> let_siblings P = P"
  by (simp add: let_siblings_def)

lemma length_siblings: "length (py_siblings (let_siblings P)) = length (py_siblings P) - 1"
  by (simp add: let_siblings_def split: list.split)

lemma send_voucher_siblings:
  "send_voucher C wr rate delta action P = (res, P') \<Longrightarrow> py_siblings P' = py_siblings P"
  by (auto simp: send_voucher_def Let_def split: if_splits prod.splits sum.splits)

lemma record_voucher_siblings [simp]: "py_siblings (record_voucher pr P) = py_siblings P"
  by (simp add: record_voucher_def)

lemma meter_anchor_siblings:
  assumes "meter_anchor C wr rate P = (res, P1)"
  shows "length (py_siblings P1) \<le> length (py_siblings P) - 1"
  using assms
  by (auto simp: meter_anchor_def length_siblings Let_def dest!: send_voucher_siblings
      split: if_splits prod.splits sum.splits)

lemma meter_anchor_live:
  assumes "meter_anchor C wr rate P = (Inr u, P1)" and "lg_epoch (py_ledger P) \<noteq> None" and "py_siblings P = []"
  shows "py_ledger P1 = py_ledger P \<and> sm_anchored_root (py_meter P1) = ledger_chain_root (py_ledger P) \<and> py_siblings P1 = []"
  using assms
  by (auto simp: meter_anchor_def reanchor_def ledger_chain_root_def Let_def
      split: if_splits prod.splits sum.splits option.splits)

text \<open>Alone: a stream whose siblings are still sees its chain moved at most once, and then it has just anchored to it.\<close>

lemma release_loop_live:
  assumes "\<not> rolled \<Longrightarrow> \<forall>P'. py_siblings P' = [] \<longrightarrow> release_loop C wr rate True P' \<noteq> None"
    and "lg_epoch (py_ledger P) \<noteq> None" and "py_siblings P = []"
  shows "release_loop C wr rate rolled P \<noteq> None"
proof -
  obtain r P1 where anc: "meter_anchor C wr rate P = (r, P1)" by fastforce
  show ?thesis
  proof (cases r)
    case (Inl e)
    then show ?thesis by (subst release_loop.simps) (simp add: anc)
  next
    case (Inr u)
    note live = meter_anchor_live [OF anc [unfolded Inr] assms(2,3)]
    obtain res L n where met: "meter (sm_anchored_root (py_meter P1))
        (\<lambda>r. write_message wr (PreimageMsg \<lparr>cp_preimage = rl_preimage r, cp_index = rl_index r\<rparr>))
        (py_ledger P1) (py_net P1) = (res, L, n)" by (metis prod.exhaust)
    have "res \<noteq> Inr Moved" using live met meter_moved by fastforce
    moreover have "py_siblings P1 = []" using live by simp
    ultimately show ?thesis
      using assms(1)
      by (subst release_loop.simps)
         (auto simp: anc Inr met Let_def dest: send_voucher_siblings split: sum.splits metered.splits prod.splits)
  qed
qed

lemma release_loop_alone:
  assumes "\<not> rolled \<Longrightarrow> \<forall>P'. py_siblings P' = [] \<longrightarrow> release_loop C wr rate True P' \<noteq> None" and "py_siblings P = []"
  shows "release_loop C wr rate rolled P \<noteq> None"
proof -
  note live = release_loop_live [of rolled C wr rate, OF assms(1)]
  obtain r P1 where anc: "meter_anchor C wr rate P = (r, P1)" by fastforce
  have sib: "py_siblings P1 = []" using meter_anchor_siblings [OF anc] assms(2) by simp
  obtain res L n where met: "meter (sm_anchored_root (py_meter P1))
      (\<lambda>r. write_message wr (PreimageMsg \<lparr>cp_preimage = rl_preimage r, cp_index = rl_index r\<rparr>))
      (py_ledger P1) (py_net P1) = (res, L, n)" by (metis prod.exhaust)
  have "release_loop C wr rate rolled (P1\<lparr>py_ledger := L, py_net := n\<rparr>) \<noteq> None" if "res = Inr Moved"
    using met that sib by (intro live) (auto dest: meter_moved)
  then show ?thesis
    using assms(1) sib
    by (subst release_loop.simps)
       (auto simp: anc met Let_def dest: send_voucher_siblings split: sum.splits metered.splits prod.splits)
qed

text \<open>With siblings: every iteration of the loop lets them move at least once, so that after finitely many moves
  the stream is alone.\<close>

lemma release_loop_step:
  assumes "\<And>P' rolled'. length (py_siblings P') < length (py_siblings P) \<Longrightarrow> release_loop C wr rate rolled' P' \<noteq> None"
    and "py_siblings P \<noteq> []"
  shows "release_loop C wr rate rolled P \<noteq> None"
proof -
  obtain r P0 where anc: "meter_anchor C wr rate P = (r, P0)" by fastforce
  have less: "length (py_siblings P0) < length (py_siblings P)"
    using meter_anchor_siblings [OF anc] assms(2) by (cases "py_siblings P") simp_all
  define P1 where "P1 = let_siblings P0"
  have P1: "length (py_siblings P1) < length (py_siblings P)" using less length_siblings [of P0] by (simp add: P1_def)
  obtain res L n where met: "meter (sm_anchored_root (py_meter P1))
      (\<lambda>r. write_message wr (PreimageMsg \<lparr>cp_preimage = rl_preimage r, cp_index = rl_index r\<rparr>))
      (py_ledger P1) (py_net P1) = (res, L, n)" by (metis prod.exhaust)
  let ?P2 = "P1\<lparr>py_ledger := L, py_net := n\<rparr>"
  have again: "release_loop C wr rate rolled ?P2 \<noteq> None" using P1 by (intro assms(1)) simp
  have roll: "release_loop C wr rate True (record_voucher pr P3) \<noteq> None"
    if "send_voucher C wr rate 0 Roll (let_siblings ?P2) = (Inr pr, P3)" for pr P3
    using P1 length_siblings [of ?P2] by (intro assms(1)) (simp add: send_voucher_siblings [OF that])
  show ?thesis
    unfolding release_loop.simps [of C wr rate rolled P] anc prod.case Let_def P1_def [symmetric] met
    using again roll by (auto split: sum.splits metered.splits prod.splits)
qed

lemma release_loop_returns: "release_loop C wr rate rolled P \<noteq> None"
proof (induction "length (py_siblings P)" arbitrary: rolled P rule: less_induct)
  case less
  show ?case
  proof (cases "py_siblings P = []")
    case True
    have "\<forall>P'. py_siblings P' = [] \<longrightarrow> release_loop C wr rate True P' \<noteq> None"
      using release_loop_alone [of True C wr rate] by blast
    then show ?thesis by (rule release_loop_alone) (rule True)
  next
    case False
    show ?thesis by (rule release_loop_step [OF less False])
  qed
qed

lemma pay_total: "pay C wr rate unproved complete P \<noteq> None"
proof (induction C wr rate unproved complete P rule: pay.induct)
  case (1 C wr rate unproved complete P)
  have "release_chunk C wr rate P \<noteq> None" unfolding release_chunk_def by (rule release_loop_returns)
  with 1 show ?case
    by (subst pay.simps) (auto split: prod.splits sum.splits option.splits)
qed


subsection \<open>A stream against the node\<close>

text \<open>
  The node's side of a stream is its handler: a message is one call of \<open>commit_one_proof\<close> on the world of
  the lane, against the owed chunk that the serving loop has at the head of its queue when the message
  arrives. The transport reports a proof as written when the handler continues with it, and as failed when
  the handler rejects it or stops with an error, so that a pull that succeeds is one in which the node took every proof.
\<close>

record ('sig, 'st) node_side =
  nd_handler :: "('sig, 'st) handler"
  nd_request :: request_ctx
  nd_owed :: "client_message \<Rightarrow> 'st serve_world \<Rightarrow> owed_chunk"

fun proof_of :: "client_message \<Rightarrow> payment_proof" where
  "proof_of (VoucherMsg wire) = Voucher wire"
| "proof_of (PreimageMsg pre) = Preimage pre"

definition node_transport :: "('sig, 'st) node_side \<Rightarrow> 'st serve_world transport" where
  "node_transport N m w =
     (case commit_one_proof (nd_handler N) (nd_request N) True (w_lane w) (proof_of m) (nd_owed N m w) w of
        (r, w') \<Rightarrow> (case r of Inr (Continue _) \<Rightarrow> (True, w') | _ \<Rightarrow> (False, w')))"

definition context_ok :: "'sig pool_context \<Rightarrow> bool" where
  "context_ok C \<longleftrightarrow>
     pc_provider C \<noteq> 0 \<and>
     (\<forall>g. length (as_bytes (pc_alloy C) g) = 65) \<and> (\<forall>g. pc_from_raw C (as_bytes (pc_alloy C) g) = Some g) \<and>
     (\<forall>h. \<exists>g. pc_sign_hash C h = Inr g \<and> \<not> is_high_s (pc_alloy C) g \<and>
        recover_address_from_prehash (pc_alloy C) g h = Some (pc_address C))"

text \<open>
  What the node is to the payer: it verifies under the same keys, quotes the same rate for the payer's lane, its
  store takes every write, and a voucher that raises nothing (one that opens the chain or names it again on another stream) meets a whole chunk.
\<close>

definition node_ok :: "'sig pool_context \<Rightarrow> u64 \<Rightarrow> ('sig, 'st) node_side \<Rightarrow> bool" where
  "node_ok C rate N \<longleftrightarrow>
     h_alloy (nd_handler N) = pc_alloy C \<and> h_from_raw (nd_handler N) = pc_from_raw C \<and>
     h_keccak (nd_handler N) = pc_keccak C \<and> h_voucher_domain (nd_handler N) = pc_voucher_domain C \<and>
     rq_rate_per_mb (nd_request N) = rate \<and>
     rq_lane_key (nd_request N) = \<lparr>lk_pool_id = pc_pool_id C, lk_signer = pc_address C, lk_provider = pc_provider C\<rparr> \<and>
     (\<forall>st s. fst (h_record (nd_handler N) st s) = Inr ()) \<and>
     (\<forall>wire w. ucast (cv_amount wire) \<le> last_amount (ld_state (w_lane w)) \<longrightarrow>
        CHUNK_BYTES \<le> oc_len (nd_owed N (VoucherMsg wire) w))"

definition peers_ok :: "'sig pool_context \<Rightarrow> u64 \<Rightarrow> ('sig, 'st) node_side \<Rightarrow> bool" where
  "peers_ok C rate N \<longleftrightarrow> context_ok C \<and> node_ok C rate N"

abbreviation net_lane :: "'st serve_world payer \<Rightarrow> lane_state" where
  "net_lane P \<equiv> ld_state (w_lane (py_net P))"

definition own_lane :: "'sig pool_context \<Rightarrow> lane_state \<Rightarrow> bool" where
  "own_lane C s \<longleftrightarrow> pool_id s = pc_pool_id C \<and> signer s = pc_address C \<and> provider s = pc_provider C"

text \<open>
  A world the node serves the payer's lane in: the lane and its credit are consistent, the lane is the payer's, and its
  capability is outside the expiry margin.
\<close>

definition serves :: "'sig pool_context \<Rightarrow> u64 \<Rightarrow> ('sig, 'st) node_side \<Rightarrow> 'st serve_world \<Rightarrow> bool" where
  "serves C rate N w \<longleftrightarrow> delivery_inv (nd_handler N) rate (w_lane w) \<and> own_lane C (ld_state (w_lane w)) \<and>
     \<not> inside_expiry_margin (nd_handler N) (expiry (ld_state (w_lane w)))"

definition stream_sync :: "'sig pool_context \<Rightarrow> u64 \<Rightarrow> ('sig, 'st) node_side \<Rightarrow> 'st serve_world payer \<Rightarrow> bool" where
  "stream_sync C rate N P \<longleftrightarrow>
     in_sync (pc_keccak C) rate (py_ledger P) (net_lane P) \<and> serves C rate N (py_net P) \<and>
     sm_anchored_root (py_meter P) = w_anchor (py_net P) \<and> py_siblings P = []"

text \<open>
  What the payer may still spend: the cap and the width of the wire cover \<open>n\<close> more bytes, and the
  next \<open>k\<close> seeds give roots that are distinct, non-zero and not the lane's current one.
\<close>

definition byte_cost :: "u64 \<Rightarrow> nat \<Rightarrow> nat" where
  "byte_cost rate n = (n * unat rate + 1048575) div 1048576"

definition funded :: "u64 \<Rightarrow> lane_state \<Rightarrow> nat \<Rightarrow> bool" where
  "funded rate s n \<longleftrightarrow> unat (owed s) + byte_cost rate n \<le> unat (cap s) \<and>
     unat (owed s) + byte_cost rate n < 2 ^ 64 \<and> unat (owed_bytes s) + n < 2 ^ 64"

definition seed_root :: "'sig pool_context \<Rightarrow> nat \<Rightarrow> b256" where
  "seed_root C i = root_from_seed (pc_keccak C) (pc_random_seed C i)"

definition fresh_seeds :: "'sig pool_context \<Rightarrow> lane_state \<Rightarrow> nat \<Rightarrow> nat \<Rightarrow> bool" where
  "fresh_seeds C s d k \<longleftrightarrow> distinct (chain_root (chain s) # map (seed_root C) [d..<d + k]) \<and>
     0 \<notin> set (map (seed_root C) [d..<d + k])"

definition paid_more :: "u64 \<Rightarrow> lane_state \<Rightarrow> nat \<Rightarrow> lane_state \<Rightarrow> bool" where
  "paid_more rate s n s' \<longleftrightarrow> unat (owed s') = unat (owed s) + byte_cost rate n \<and>
     unat (owed_bytes s') = unat (owed_bytes s) + n \<and> cap s' = cap s"

lemma verify_voucher_frame:
  assumes "verify_voucher A s b sv wire rate = Inr v"
  shows "cap (vv_next_state v) = cap s \<and> expiry (vv_next_state v) = expiry s \<and> own_lane C (vv_next_state v) = own_lane C s \<and>
     chain_root (chain (vv_next_state v)) \<in> {chain_root (chain s), v_chain_root (sv_voucher sv)}"
proof -
  consider (moved) "vv_next_state v = presigned_next A s sv"
    | (kept) "vv_next_state v = (case adopt_chain A s sv of Some s' \<Rightarrow> s' | None \<Rightarrow> s)"
    using assms
    by (auto simp: verify_voucher_def Let_def advance_presigned_Inr_iff
        split: sum.splits pool_error.splits rate_error.splits if_splits prod.splits)
  then show ?thesis
  proof cases
    case moved
    then show ?thesis by (simp add: presigned_next_def own_lane_def Let_def)
  next
    case kept
    then show ?thesis
      by (auto simp: own_lane_def adopt_chain_def opened_def Let_def split: option.splits if_splits)
  qed
qed

text \<open>A voucher that verifies is taken, unless it raises nothing and is to settle less than a chunk.\<close>

lemma settle_voucher_taken:
  assumes inv: "delivery_inv H rate (w_lane w)"
    and steps: "handler_steps H rate (ld_state (w_lane w)) (vv_next_state v)"
    and bytes: "vv_new_bytes v = owed_bytes (vv_next_state v)"
    and store: "\<forall>st s. fst (h_record H st s) = Inr ()"
    and due: "ucast (cv_amount wire) \<le> last_amount (ld_state (w_lane w)) \<Longrightarrow> voucher_credit_delta wire oc = 0"
  shows "\<exists>c w'. settle_voucher H rq wire oc v w = (Inr (Continue c), w') \<and> delivery_inv H rate (w_lane w') \<and>
     ld_state (w_lane w') = vv_next_state v \<and> w_anchor w' = anchor_adopt (cv_chain_root wire)"
proof -
  let ?d = "w_lane w" and ?due = "voucher_credit_delta wire oc"
  note i = delivery_invD [OF inv]
  have wf: "lane_wf (vv_next_state v)" using lane_steps_inv [OF steps i(1)] by (simp add: lane_inv_def)
  have le: "ld_paid_credited ?d \<le> vv_new_bytes v"
    using i(3) owed_mono_steps [OF steps i(1)] by (auto simp: bytes)
  have small: "unat (vv_new_bytes v) < 2 ^ 65" using owed_bytes_small [OF wf] by (simp add: bytes)
  obtain new c where adv: "credit_advance (ld_paid_credited ?d) ?due (vv_new_bytes v) = Inr (new, c)" "new \<le> vv_new_bytes v"
    using credit_advance_exact [OF le small, of ?due] by metis
  then have credit: "voucher_credit (ucast (cv_amount wire) \<le> last_amount (ld_state ?d)) (ld_paid_credited ?d) ?due (vv_new_bytes v)
      = Inr (Some (new, c))"
    using due by (auto simp: voucher_credit_def)
  obtain st' where st': "h_record H (w_store w) (vv_next_state v) = (Inr (), st')"
    using store by (metis prod.collapse)
  have "delivery_inv H rate (?d\<lparr>ld_state := vv_next_state v, ld_bytes_delivered_cumulative := vv_new_bytes v,
      ld_paid_credited := new, ld_last_voucher_at := t\<rparr>)" for t
    using steps i(1) adv(2) by (intro delivery_invI [of H rate "ld_state ?d"]) (simp_all add: bytes)
  then show ?thesis
    by (simp add: settle_voucher_def Let_def credit st' send_hint_def record_receipt_def)
qed

lemma reveal_taken:
  assumes inv: "delivery_inv H rate (w_lane w)"
    and steps: "handler_steps H rate (ld_state (w_lane w)) s'"
    and store: "\<forall>st s. fst (h_record H st s) = Inr ()"
    and margin: "\<not> inside_expiry_margin H (expiry (ld_state (w_lane w)))"
    and pre: "cp_index pre \<noteq> 0" "w_anchor w = Some root"
    and adv: "advance_preimage (h_keccak H) (ld_state (w_lane w)) root (cp_index pre) (cp_preimage pre) = Inr (s', applied)"
      "pa_advanced applied"
  shows "\<exists>c w'. commit_one_preimage H rq fl pre oc w = (Inr (Continue c), w') \<and> delivery_inv H rate (w_lane w') \<and>
     ld_state (w_lane w') = s' \<and> w_anchor w' = Some root"
proof -
  let ?d = "w_lane w"
  obtain n c where c: "credit_advance (ld_paid_credited ?d) (oc_remaining oc) (owed_bytes s') = Inr (n, c)"
      "delivery_inv H rate (?d\<lparr>ld_state := s', ld_bytes_delivered_cumulative := owed_bytes s', ld_paid_credited := n\<rparr>)"
    using commit_advanced_reveal [OF inv steps] by metis
  obtain st' where st': "h_record H (w_store w) s' = (Inr (), st')"
    using store by (metis prod.collapse)
  have walk: "advance_preimage_verified (h_keccak H) (ld_state ?d) root (cp_index pre) (cp_preimage pre)
      (preimage_frontier (ld_state fl) root (cp_index pre))
      (case preimage_frontier (ld_state fl) root (cp_index pre) of
         Some (verified, t) \<Rightarrow> verify_forward (h_keccak H) (cp_preimage pre) (cp_index pre - verified) t | None \<Rightarrow> False)
      = Inr (s', applied)"
    using adv(1) unfolding advance_preimage_eq [where ok = True]
    by (subst advance_preimage_verified_walk_irrelevant [OF truthful_frontier, where w' = None and ok' = True])
       (simp_all add: truthful_walk_def)
  have "delivery_inv H rate (?d\<lparr>ld_state := s', ld_bytes_delivered_cumulative := owed_bytes s', ld_paid_credited := n,
      ld_last_voucher_at := t\<rparr>)" for t
    using c(2) by (simp add: delivery_inv_def)
  then show ?thesis
    using pre margin adv(2)
    by (simp add: commit_one_preimage_def Let_def walk c(1) st' send_hint_def record_receipt_def)
qed

lemma voucher_written:
  assumes C: "peers_ok C rate N" and serves: "serves C rate N w"
    and wire: "unat (c_amount next) < 2 ^ 64" "unat (c_bytes next) < 2 ^ 64"
    and price: "cc_chunk_price ch = quoted_price rate (cc_chain_root ch)"
    and stale: "c_amount next \<le> last_amount (ld_state (w_lane w)) \<Longrightarrow> cc_chain_root ch \<noteq> 0"
    and ok: "\<And>sv wire. sv_voucher sv = \<lparr>v_pool_id = pc_pool_id C, v_signer = pc_address C, v_provider = pc_provider C,
              v_amount = c_amount next, v_bytes_delivered = c_bytes next,
              v_chain_root = cc_chain_root ch, v_chunk_price = cc_chunk_price ch\<rparr> \<Longrightarrow>
              wire_voucher (sv_voucher sv) \<Longrightarrow> ucast (cv_bytes_delivered wire) = c_bytes next \<Longrightarrow>
              \<exists>v. verify_voucher (pc_alloy C) (ld_state (w_lane w)) (owed_bytes (ld_state (w_lane w))) sv wire rate = Inr v \<and>
                Q (vv_next_state v)"
  shows "\<exists>w'. sign_and_write_voucher C (node_transport N) next ch w = (Inr (), w') \<and>
     w_anchor w' = anchor_adopt (cc_chain_root ch) \<and> serves C rate N w' \<and> Q (ld_state (w_lane w')) \<and>
     cap (ld_state (w_lane w')) = cap (ld_state (w_lane w)) \<and>
     chain_root (chain (ld_state (w_lane w'))) \<in> {chain_root (chain (ld_state (w_lane w))), cc_chain_root ch}"
proof -
  let ?v = "\<lparr>v_pool_id = pc_pool_id C, v_signer = pc_address C, v_provider = pc_provider C,
    v_amount = c_amount next, v_bytes_delivered = c_bytes next,
    v_chain_root = cc_chain_root ch, v_chunk_price = cc_chunk_price ch\<rparr>"
  let ?s = "ld_state (w_lane w)" and ?H = "nd_handler N" and ?rq = "nd_request N"
  have ctx: "context_ok C" and node: "node_ok C rate N" using C by (simp_all add: peers_ok_def)
  note N = node [unfolded node_ok_def]
  have keys: "h_alloy ?H = pc_alloy C" "h_from_raw ?H = pc_from_raw C" "h_keccak ?H = pc_keccak C"
      "h_voucher_domain ?H = pc_voucher_domain C" "rq_rate_per_mb ?rq = rate"
      "rq_lane_key ?rq = \<lparr>lk_pool_id = pc_pool_id C, lk_signer = pc_address C, lk_provider = pc_provider C\<rparr>"
    using N by simp_all
  have inv: "delivery_inv ?H rate (w_lane w)" and own: "own_lane C ?s" and margin: "\<not> inside_expiry_margin ?H (expiry ?s)"
    using serves by (simp_all add: serves_def)
  note i = delivery_invD [OF inv, unfolded keys]
  have len: "length (as_bytes (pc_alloy C) g) = 65" and raw: "pc_from_raw C (as_bytes (pc_alloy C) g) = Some g" for g
    using ctx by (simp_all add: context_ok_def)
  obtain g where g: "pc_sign_hash C (signing_hash (pc_alloy C) ?v (pc_voucher_domain C)) = Inr g" "\<not> is_high_s (pc_alloy C) g"
      "recover_address_from_prehash (pc_alloy C) g (signing_hash (pc_alloy C) ?v (pc_voucher_domain C)) = Some (pc_address C)"
    using ctx unfolding context_ok_def by blast
  define sv where "sv = \<lparr>sv_voucher = ?v, sv_signature = g\<rparr>"
  have sgn: "voucher_sign (pc_alloy C) (pc_sign_hash C) ?v (pc_voucher_domain C) = Inr sv"
    using g(1) by (simp add: voucher_sign_def sv_def)
  have wv: "wire_voucher (sv_voucher sv)" using wire price by (simp add: wire_voucher_def sv_def)
  then obtain wr where wr: "signed_to_wire_voucher (pc_alloy C) sv = Inr wr"
    using signed_to_wire_voucher_Inl by (cases "signed_to_wire_voucher (pc_alloy C) sv") auto
  note w = signed_to_wire_voucher_Inr [OF wr]
  have unwire: "wire_voucher_to_signed (pc_from_raw C) wr (pc_pool_id C) (pc_address C) (pc_provider C) = Inr sv"
    using signed_wire_roundtrip [OF len raw wr] by (simp add: sv_def)
  have root: "cv_chain_root wr = cc_chain_root ch" by (subst w(1)) (simp add: sv_def)
  have "unat (cv_chunk_price wr) = unat (cc_chunk_price ch)"
    using w(4) unat_widen_u64 [of "cv_chunk_price wr"] by (simp add: sv_def)
  then have quote: "chunk_price_matches_quote wr rate"
    by (simp add: chunk_price_matches_quote_def root price quoted_price_def word_unat_eq_iff split: if_splits)
  have sig: "verify_signer (pc_alloy C) sv (pc_address C) (pc_voucher_domain C) = Inr ()"
    using g by (simp add: verify_signer_Inr_iff recover_signer_Inr_iff sv_def)
  have lv: "lane_voucher rate ?s (sv_voucher sv)"
    using wv own price by (simp add: lane_voucher_def own_lane_def sv_def)
  have "sv_voucher sv = ?v" and "ucast (cv_bytes_delivered wr) = c_bytes next" and amount: "ucast (cv_amount wr) = c_amount next"
    using w(2,3) by (simp_all add: sv_def)
  then obtain v where v: "verify_voucher (pc_alloy C) ?s (owed_bytes ?s) sv wr rate = Inr v" "Q (vv_next_state v)"
    using ok [OF _ wv] by blast
  have signer: "verify_signer (pc_alloy C) sv (signer ?s) (pc_voucher_domain C) = Inr ()"
    using sig own by (simp add: own_lane_def)
  note vv = verify_voucher_Inr [OF v(1) i(1) lv signer w(3)]
  let ?oc = "nd_owed N (VoucherMsg wr) w"
  have due: "voucher_credit_delta wr ?oc = 0" if "ucast (cv_amount wr) \<le> last_amount ?s"
    using that N stale by (simp add: voucher_credit_delta_def root amount)
  have steps: "handler_steps ?H rate ?s (vv_next_state v)" using vv(1) by (simp add: keys)
  have store: "\<forall>st s. fst (h_record ?H st s) = Inr ()" using N by simp
  obtain c w' where w': "settle_voucher ?H ?rq wr ?oc v w = (Inr (Continue c), w')" "delivery_inv ?H rate (w_lane w')"
      "ld_state (w_lane w') = vv_next_state v" "w_anchor w' = anchor_adopt (cv_chain_root wr)"
    using settle_voucher_taken [OF inv steps vv(2) store due] by blast
  have "commit_voucher ?H ?rq wr ?oc w = (Inr (Continue c), w')"
    using quote unwire sig margin v(1) i(2) w'(1) by (simp add: commit_voucher_def keys Let_def)
  then have "sign_and_write_voucher C (node_transport N) next ch w = (Inr (), w')"
    using sgn wr by (simp add: sign_and_write_voucher_def write_message_def node_transport_def commit_one_proof_def)
  then show ?thesis
    using w' v(2) root verify_voucher_frame [OF v(1), of C] own margin \<open>sv_voucher sv = ?v\<close>
    by (auto simp: serves_def)
qed


text \<open>A voucher the ledger issues is taken, and moves the lane by exactly its cost.\<close>

lemma byte_cost_add_chunk: "byte_cost rate (1048576 + n) = unat rate + byte_cost rate n"
proof -
  have "(1048576 + n) * unat rate + 1048575 = (n * unat rate + 1048575) + 1048576 * unat rate"
    by (simp add: algebra_simps)
  then show ?thesis unfolding byte_cost_def by simp
qed

lemma byte_cost_zero [simp]: "byte_cost rate 0 = 0"
  by (simp add: byte_cost_def)

lemma fresh_seedsD:
  assumes "fresh_seeds C s d (Suc k)"
  shows "seed_root C d \<noteq> 0" "seed_root C d \<noteq> chain_root (chain s)"
    and "chain_root (chain s') \<in> {chain_root (chain s), 0, seed_root C d} \<Longrightarrow> fresh_seeds C s' (Suc d) k"
proof -
  have cons: "map (seed_root C) [d..<d + Suc k] = seed_root C d # map (seed_root C) [Suc d..<Suc d + k]"
    by (simp add: upt_conv_Cons del: upt_Suc)
  show "seed_root C d \<noteq> 0" "seed_root C d \<noteq> chain_root (chain s)"
    and "chain_root (chain s') \<in> {chain_root (chain s), 0, seed_root C d} \<Longrightarrow> fresh_seeds C s' (Suc d) k"
    using assms unfolding fresh_seeds_def cons by auto
qed

lemma issue_arm_commit_price:
  assumes "issue_arm keccak seed delta rate action L = (next, commit, L1)" and "in_sync keccak rate L s"
    and "root_from_seed keccak seed \<noteq> 0"
  shows "cc_chunk_price commit = quoted_price rate (cc_chain_root commit)"
    and "cc_chain_root commit \<in> {chain_root (chain s), 0, root_from_seed keccak seed}"
proof -
  have "cc_chunk_price commit = quoted_price rate (cc_chain_root commit) \<and>
      cc_chain_root commit \<in> {chain_root (chain s), 0, root_from_seed keccak seed}"
    using assms(1)
  proof (cases rule: issue_arm_epoch)
    case fresh
    then show ?thesis using assms(3) by (simp add: quoted_price_def)
  next
    case (same e)
    with assms(2) show ?thesis by (auto simp: in_sync_def quoted_price_def honest_tip_def)
  next
    case sealed
    then show ?thesis by (simp add: SEALED_def quoted_price_def)
  qed
  then show "cc_chunk_price commit = quoted_price rate (cc_chain_root commit)"
    and "cc_chain_root commit \<in> {chain_root (chain s), 0, root_from_seed keccak seed}" by simp_all
qed

lemma in_sync_root:
  assumes "in_sync keccak rate L s" and "lg_epoch L = Some e"
  shows "chain_root (chain s) = epoch_root e"
  using assms by (auto simp: in_sync_def honest_tip_def)


lemma issue_paid:
  assumes sync: "in_sync keccak rate L s" and inv: "lane_inv A domain keccak rate s"
    and arm: "issue_arm keccak seed delta rate action L = (next, commit, L1)"
  shows "unat (c_amount next) = unat (owed s) + byte_cost rate (unat delta)"
    and "unat (c_bytes next) = unat (owed_bytes s) + unat delta"
    and "in_sync keccak rate (issue_commit next L1) s' \<Longrightarrow> lane_inv A domain keccak rate s' \<Longrightarrow> cap s' = cap s \<Longrightarrow>
       paid_more rate s (unat delta) s'"
proof -
  have zero: "chain_root (chain s) = 0 \<longrightarrow> verified_index (chain s) = 0" using sync by (simp add: in_sync_def)
  have "settlement L = \<lparr>c_bytes = owed_bytes s, c_amount = owed s\<rparr>"
    using sync in_sync_committed [OF sync inv] by (simp add: settlement_unarmed in_sync_def)
  then show am: "unat (c_amount next) = unat (owed s) + byte_cost rate (unat delta)"
    and bt: "unat (c_bytes next) = unat (owed_bytes s) + unat delta"
    using next_voucher_nat [of "settlement L" delta rate] sync_owed_nat(3,4) [OF inv zero]
    by (simp_all add: issued_pipeline(1) [OF arm] byte_cost_def)
  assume sync': "in_sync keccak rate (issue_commit next L1) s'" and inv': "lane_inv A domain keccak rate s'"
    and "cap s' = cap s"
  moreover have "committed (issue_commit next L1) = next"
    by (simp add: committed_def pl_owed_def cum_plus_def issued_pipeline(2,3) [OF arm] Cumulative_default_def)
  ultimately show "paid_more rate s (unat delta) s'"
    using in_sync_committed [OF sync' inv'] am bt by (auto simp: paid_more_def)
qed

lemma stream_syncD:
  assumes "stream_sync C rate N P" and "peers_ok C rate N"
  shows "in_sync (pc_keccak C) rate (py_ledger P) (net_lane P)"
    and "lane_inv (pc_alloy C) (pc_voucher_domain C) (pc_keccak C) rate (net_lane P)"
    and "serves C rate N (py_net P)" and "sm_anchored_root (py_meter P) = w_anchor (py_net P)" and "py_siblings P = []"
  using assms by (simp_all add: stream_sync_def serves_def delivery_inv_def peers_ok_def node_ok_def)

definition sent ::
  "'sig pool_context \<Rightarrow> u64 \<Rightarrow> ('sig, 'st) node_side \<Rightarrow> u64 \<Rightarrow> epoch_action \<Rightarrow> 'st serve_world payer
     \<Rightarrow> 'st serve_world payer \<Rightarrow> bool" where
  "sent C rate N delta action P P' \<longleftrightarrow>
     stream_sync C rate N P' \<and> paid_more rate (net_lane P) (unat delta) (net_lane P') \<and>
     py_draws P' = Suc (py_draws P) \<and>
     (\<forall>k. fresh_seeds C (net_lane P) (py_draws P) (Suc k) \<longrightarrow> fresh_seeds C (net_lane P') (py_draws P') k) \<and>
     (action = Roll \<or> action = Open \<and> lg_epoch (py_ledger P) = None \<longrightarrow>
        lg_epoch (py_ledger P') = Some (open_epoch (pc_keccak C) (pc_random_seed C (py_draws P)) rate) \<and>
        sm_anchored_root (py_meter P') = ledger_chain_root (py_ledger P'))"

lemma in_sync_lane_root:
  assumes "in_sync keccak rate L s" and "lg_epoch L = None \<Longrightarrow> r = chain_root (chain s)"
    and "\<And>e. lg_epoch L = Some e \<Longrightarrow> r = epoch_root e"
  shows "chain_root (chain s) = r"
  using assms in_sync_root by (cases "lg_epoch L") auto

text \<open>A voucher that raises nothing names a chain: only one that seals the lane does not, and it settles bytes.\<close>

lemma issue_raises_or_names:
  assumes sync: "in_sync keccak rate L s" and inv: "lane_inv A domain keccak rate s" and rate: "rate \<noteq> 0"
    and arm: "issue_arm keccak seed delta rate action L = (next, commit, L1)" and seed: "root_from_seed keccak seed \<noteq> 0"
    and act: "action = Keep \<Longrightarrow> 0 < delta" and stale: "c_amount next \<le> last_amount s"
  shows "cc_chain_root commit \<noteq> 0"
proof -
  have zero: "chain_root (chain s) = 0 \<longrightarrow> verified_index (chain s) = 0" using sync by (simp add: in_sync_def)
  have "unat (owed s) + byte_cost rate (unat delta) \<le> unat (last_amount s)"
    using stale issue_paid(1) [OF sync inv arm] by (simp add: word_le_nat_alt)
  then have "byte_cost rate (unat delta) = 0" using sync_owed_nat(1) [OF inv zero] by simp
  moreover have "byte_cost rate (unat delta) \<noteq> 0" if "0 < delta"
  proof -
    have "0 < unat delta * unat rate" using that rate by (simp add: word_less_nat_alt unat_gt_0)
    then have "1048576 \<le> unat delta * unat rate + 1048575" by linarith
    then show ?thesis unfolding byte_cost_def by (simp only: div_greater_zero_iff flip: neq0_conv)
  qed
  ultimately have keep: "action \<noteq> Keep" using act by blast
  from arm show ?thesis
  proof (cases rule: issue_arm_epoch)
    case fresh
    then show ?thesis using seed by simp
  next
    case (same e)
    then show ?thesis using sync by (auto simp: in_sync_def honest_tip_def)
  next
    case sealed
    with keep arm show ?thesis
      by (cases action) (auto simp: issue_arm_def commit_epoch_def Let_def split: if_splits)
  qed
qed

lemma send_accepted:
  fixes C :: "'a pool_context" and P :: "'st serve_world payer"
  assumes C: "peers_ok C rate N" and rate: "rate \<noteq> 0" and sync: "stream_sync C rate N P"
    and fund: "funded rate (net_lane P) (unat delta)" and fresh: "fresh_seeds C (net_lane P) (py_draws P) (Suc k)"
    and act: "action = Keep \<Longrightarrow> 0 < delta"
  shows "\<exists>pr P'. send_voucher C (node_transport N) rate delta action P = (Inr pr, P') \<and>
     sent C rate N delta action P (record_voucher pr P')"
proof -
  let ?seed = "pc_random_seed C (py_draws P)" and ?s = "net_lane P" and ?L = "py_ledger P"
  note S = stream_syncD [OF sync C]
  obtain nxt commit L1 where arm: "issue_arm (pc_keccak C) ?seed delta rate action ?L = (nxt, commit, L1)"
    by (metis prod.exhaust)
  let ?L' = "issue_commit nxt L1"
  note root = fresh_seedsD(1,2) [OF fresh, unfolded seed_root_def]
  note price = issue_arm_commit_price [OF arm S(1) root(1)]
  note paid = issue_paid [OF S(1,2) arm]
  have bounds: "unat (c_amount nxt) < 2 ^ 64" "unat (c_bytes nxt) < 2 ^ 64" "c_amount nxt \<le> cap ?s"
    using fund paid(1,2) by (simp_all add: funded_def word_le_nat_alt)
  note stale = issue_raises_or_names [OF S(1,2) rate arm root(1) act]
  have "\<exists>w'. sign_and_write_voucher C (node_transport N) nxt commit (py_net P) = (Inr (), w') \<and>
      w_anchor w' = anchor_adopt (cc_chain_root commit) \<and> serves C rate N w' \<and>
      in_sync (pc_keccak C) rate ?L' (ld_state (w_lane w')) \<and> cap (ld_state (w_lane w')) = cap ?s \<and>
      chain_root (chain (ld_state (w_lane w'))) \<in> {chain_root (chain ?s), cc_chain_root commit}"
  proof (rule voucher_written [OF C S(3) bounds(1,2) price(1) stale])
    fix sv :: "'a signed_voucher" and wire :: client_voucher
    assume "sv_voucher sv = \<lparr>v_pool_id = pc_pool_id C, v_signer = pc_address C, v_provider = pc_provider C,
        v_amount = c_amount nxt, v_bytes_delivered = c_bytes nxt,
        v_chain_root = cc_chain_root commit, v_chunk_price = cc_chunk_price commit\<rparr>"
      and wv: "wire_voucher (sv_voucher sv)" "ucast (cv_bytes_delivered wire) = c_bytes nxt"
    then show "\<exists>v. verify_voucher (pc_alloy C) ?s (owed_bytes ?s) sv wire rate = Inr v \<and>
        in_sync (pc_keccak C) rate ?L' (vv_next_state v)"
      by (intro sync_voucher_accepted [OF S(1,2) rate arm root _ _ _ _ wv bounds(3)]) simp_all
  qed simp_all
  then obtain w' where w': "sign_and_write_voucher C (node_transport N) nxt commit (py_net P) = (Inr (), w')"
      "w_anchor w' = anchor_adopt (cc_chain_root commit)" "serves C rate N w'"
      "in_sync (pc_keccak C) rate ?L' (ld_state (w_lane w'))" "cap (ld_state (w_lane w')) = cap ?s"
      "chain_root (chain (ld_state (w_lane w'))) \<in> {chain_root (chain ?s), cc_chain_root commit}"
    by auto
  define pr where "pr = (StreamVoucher (c_amount nxt) (pl_generation (lg_pipeline ?L')), anchor_adopt (cc_chain_root commit))"
  define P' where "P' = P\<lparr>py_ledger := ?L', py_net := w', py_draws := Suc (py_draws P)\<rparr>"
  have eq: "send_voucher C (node_transport N) rate delta action P = (Inr pr, P')"
    using C w'(1) by (simp add: send_voucher_def issue_stamped_def arm Let_def P'_def pr_def anchor_adopt_def context_ok_def peers_ok_def)
  have sync': "stream_sync C rate N (record_voucher pr P')"
    using w' S(5) by (simp add: stream_sync_def record_voucher_def P'_def pr_def)
  have seeds: "fresh_seeds C (ld_state (w_lane w')) (Suc (py_draws P)) k'" if "fresh_seeds C ?s (py_draws P) (Suc k')" for k'
    by (rule fresh_seedsD(3) [OF that]) (use w'(6) price(2) in \<open>auto simp: seed_root_def\<close>)
  have opened: "lg_epoch ?L' = Some (open_epoch (pc_keccak C) ?seed rate) \<and>
      cc_chain_root commit = root_from_seed (pc_keccak C) ?seed"
    if "action = Roll \<or> action = Open \<and> lg_epoch ?L = None"
    using that arm by (auto simp: issue_arm_def commit_epoch_def issue_commit_def Let_def split: if_splits)
  have "paid_more rate ?s (unat delta) (ld_state (w_lane w'))"
    using paid(3) [OF w'(4) _ w'(5)] stream_syncD(2) [OF sync' C] by (simp add: record_voucher_def P'_def)
  then have "sent C rate N delta action P (record_voucher pr P')"
    using sync' seeds opened root
    by (auto simp: sent_def record_voucher_def P'_def pr_def ledger_chain_root_def anchor_adopt_def)
  with eq show ?thesis by blast
qed


lemma verify_voucher_restates:
  assumes "v_amount (sv_voucher sv) = last_amount s" and "ucast (cv_bytes_delivered wire) = last_bytes_delivered s"
    and "v_chain_root (sv_voucher sv) = chain_root (chain s)" and "last_signature s \<noteq> None"
  shows "\<exists>v. verify_voucher A s b sv wire rate = Inr v \<and> vv_next_state v = s"
proof -
  have "adopt_chain A s sv = None" using assms(3,4) by (simp add: adopt_chain_def Let_def)
  moreover have "advance_presigned A s sv = Inl (pool_error.AmountRegression (last_amount s) (last_amount s))"
    using assms(1,3) by (simp add: advance_presigned_def Let_def split: option.split)
  ultimately show ?thesis using assms(2) by (simp add: verify_voucher_def Let_def)
qed

lemma in_sync_live:
  assumes "in_sync keccak rate L s" and "lg_epoch L = Some e"
  obtains seed where "e = (open_epoch keccak seed rate)\<lparr>ce_released := verified_index (chain s)\<rparr>" "honest_tip keccak seed s"
    "chain_root (chain s) \<noteq> 0" "last_signature s \<noteq> None" "epoch_root e = chain_root (chain s)" "ce_chunk_price e = ucast rate"
    "pl_committed (lg_pipeline L) = \<lparr>c_bytes = last_bytes_delivered s, c_amount = last_amount s\<rparr>"
    "pl_accrued (lg_pipeline L) = \<lparr>c_bytes = accrued_bytes (chain s), c_amount = accrued (chain s)\<rparr>"
  using assms by (auto simp: in_sync_def honest_tip_def)

lemma reanchor_accepted:
  fixes C :: "'a pool_context" and P :: "'st serve_world payer"
  assumes C: "peers_ok C rate N" and sync: "stream_sync C rate N P" and live: "lg_epoch (py_ledger P) = Some e"
  shows "\<exists>P1. meter_anchor C (node_transport N) rate P = (Inr (), P1) \<and> stream_sync C rate N P1 \<and>
     py_ledger P1 = py_ledger P \<and> net_lane P1 = net_lane P \<and> py_draws P1 = py_draws P \<and>
     sm_anchored_root (py_meter P1) = Some (epoch_root e)"
proof (cases "sm_anchored_root (py_meter P) = Some (epoch_root e)")
  case True
  with sync live stream_syncD(5) [OF sync C] show ?thesis by (simp add: meter_anchor_def ledger_chain_root_def Let_def)
next
  case False
  let ?s = "net_lane P" and ?ch = "\<lparr>cc_chain_root = epoch_root e, cc_chunk_price = ce_chunk_price e\<rparr>"
  note S = stream_syncD [OF sync C]
  obtain seed where e: "chain_root (chain ?s) \<noteq> 0" "last_signature ?s \<noteq> None"
      "epoch_root e = chain_root (chain ?s)" "ce_chunk_price e = ucast rate"
      "pl_committed (lg_pipeline (py_ledger P)) = \<lparr>c_bytes = last_bytes_delivered ?s, c_amount = last_amount ?s\<rparr>"
    using in_sync_live [OF S(1) live] by metis
  have "\<exists>w'. sign_and_write_voucher C (node_transport N) (pl_committed (lg_pipeline (py_ledger P))) ?ch (py_net P) = (Inr (), w') \<and>
      w_anchor w' = anchor_adopt (cc_chain_root ?ch) \<and> serves C rate N w' \<and> ld_state (w_lane w') = ?s \<and>
      cap (ld_state (w_lane w')) = cap ?s \<and> chain_root (chain (ld_state (w_lane w'))) \<in> {chain_root (chain ?s), cc_chain_root ?ch}"
  proof (rule voucher_written [OF C S(3)])
    fix sv :: "'a signed_voucher" and wire :: client_voucher
    assume "sv_voucher sv = \<lparr>v_pool_id = pc_pool_id C, v_signer = pc_address C, v_provider = pc_provider C,
        v_amount = c_amount (pl_committed (lg_pipeline (py_ledger P))),
        v_bytes_delivered = c_bytes (pl_committed (lg_pipeline (py_ledger P))),
        v_chain_root = cc_chain_root ?ch, v_chunk_price = cc_chunk_price ?ch\<rparr>"
      and "ucast (cv_bytes_delivered wire) = c_bytes (pl_committed (lg_pipeline (py_ledger P)))"
    then show "\<exists>v. verify_voucher (pc_alloy C) ?s (owed_bytes ?s) sv wire rate = Inr v \<and> vv_next_state v = ?s"
      by (intro verify_voucher_restates) (simp_all add: e)
  qed (use lane_nat_bounds [OF S(2)] e in \<open>simp_all add: quoted_price_def\<close>)
  then obtain w' where w': "sign_and_write_voucher C (node_transport N) (pl_committed (lg_pipeline (py_ledger P))) ?ch (py_net P) = (Inr (), w')"
      "w_anchor w' = Some (epoch_root e)" "serves C rate N w'" "ld_state (w_lane w') = ?s"
    using e by (auto simp: anchor_adopt_def)
  let ?P1 = "P\<lparr>py_net := w', py_meter := (py_meter P)\<lparr>sm_anchored_root := Some (epoch_root e)\<rparr>\<rparr>"
  have "meter_anchor C (node_transport N) rate P = (Inr (), ?P1)"
    using False live S(5) w'(1) by (simp add: meter_anchor_def reanchor_def ledger_chain_root_def Let_def)
  moreover have "stream_sync C rate N ?P1" using S w'(2-4) by (simp add: stream_sync_def)
  ultimately show ?thesis using w'(4) by (intro exI [of _ ?P1]) simp
qed

lemma accrued_step:
  assumes "chunk_price c = ucast (rate :: u64)" and "chunk_price c' = ucast rate"
    and "unat (verified_index c') = unat (verified_index c) + 1"
  shows "sat_add (accrued c) (ucast rate) = accrued c'"
    and "sat_add (accrued_bytes c) (ucast CHUNK_BYTES) = accrued_bytes c'"
proof -
  have r: "unat rate < 2 ^ 64" using unat_below [of rate] by simp
  have "unat (accrued c) = unat rate * unat (verified_index c)" "unat (accrued c') = unat rate * unat (verified_index c')"
      "unat (accrued c) \<le> 2 ^ 64 * 255"
    using assms r accrued_nat [of c] accrued_nat [of c'] by simp_all
  then have "unat (sat_add (accrued c) (ucast rate)) = unat (accrued c')"
    using assms(3) r by (simp add: unat_sat_add)
  then show "sat_add (accrued c) (ucast rate) = accrued c'" by (simp add: word_unat_eq_iff)
  have "unat (sat_add (accrued_bytes c) (ucast CHUNK_BYTES)) = unat (accrued_bytes c')"
    using assms(3) accrued_bytes_bound [of c] by (simp add: unat_sat_add accrued_bytes_nat)
  then show "sat_add (accrued_bytes c) (ucast CHUNK_BYTES) = accrued_bytes c'" by (simp add: word_unat_eq_iff)
qed

lemma meter_accepted:
  assumes C: "peers_ok C rate N" and sync: "stream_sync C rate N P" and live: "lg_epoch (py_ledger P) = Some e"
    and anchored: "sm_anchored_root (py_meter P) = Some (epoch_root e)"
    and room: "ce_released e < MAX_CHAIN_LENGTH" and fund: "funded rate (net_lane P) 1048576"
  shows "\<exists>r L' n'. meter (sm_anchored_root (py_meter P))
       (\<lambda>r. write_message (node_transport N) (PreimageMsg \<lparr>cp_preimage = rl_preimage r, cp_index = rl_index r\<rparr>))
       (py_ledger P) (py_net P) = (Inr (Released r), L', n') \<and>
     (\<forall>lp. stream_sync C rate N (P\<lparr>py_ledger := L', py_net := n', py_meter := (py_meter P)\<lparr>sm_last_proof := lp\<rparr>\<rparr>)) \<and>
     paid_more rate (net_lane P) 1048576 (ld_state (w_lane n')) \<and>
     chain_root (chain (ld_state (w_lane n'))) = chain_root (chain (net_lane P)) \<and>
     lg_epoch L' \<noteq> None"
proof -
  let ?s = "net_lane P"
  define i where "i = ce_released e + 1"
  note S = stream_syncD [OF sync C]
  obtain seed where e: "e = (open_epoch (pc_keccak C) seed rate)\<lparr>ce_released := verified_index (chain ?s)\<rparr>"
      "honest_tip (pc_keccak C) seed ?s" "chain_root (chain ?s) \<noteq> 0" "last_signature ?s \<noteq> None"
      "epoch_root e = chain_root (chain ?s)" "ce_chunk_price e = ucast rate"
      "pl_committed (lg_pipeline (py_ledger P)) = \<lparr>c_bytes = last_bytes_delivered ?s, c_amount = last_amount ?s\<rparr>"
      "pl_accrued (lg_pipeline (py_ledger P)) = \<lparr>c_bytes = accrued_bytes (chain ?s), c_amount = accrued (chain ?s)\<rparr>"
    using in_sync_live [OF S(1) live] by metis
  have k: "ce_released e = verified_index (chain ?s)" using e(1) by simp
  have i: "unat i = unat (verified_index (chain ?s)) + 1"
    using room by (simp add: i_def k unat_add_exact word_less_nat_alt unat_MAX_CHAIN_LENGTH)
  have wf: "lane_wf ?s" using S(2) by (simp add: lane_inv_def)
  have price: "chunk_price (chain ?s) = ucast rate" using S(2) e(3) by (simp add: lane_inv_def quoted_price_def)
  have cost: "byte_cost rate 1048576 = unat rate" using byte_cost_add_chunk [of rate 0] by simp
  have zero: "chain_root (chain ?s) = 0 \<longrightarrow> verified_index (chain ?s) = 0" using e(3) by simp
  note o = sync_owed_nat [OF S(2) zero]
  have "unat (last_amount ?s) + unat (chunk_price (chain ?s)) * unat i \<le> unat (cap ?s)"
    using fund o(1) by (simp add: funded_def cost i price algebra_simps)
  from honest_reveal [OF wf e(4,2,3) _ this] i
  obtain s' applied where s': "advance_preimage (pc_keccak C) ?s (chain_root (chain ?s)) i (preimage_at (pc_keccak C) seed i) = Inr (s', applied)"
      "s' = ?s\<lparr>chain := (chain ?s)\<lparr>verified_index := i, tip := preimage_at (pc_keccak C) seed i\<rparr>\<rparr>"
      "honest_tip (pc_keccak C) seed s'" "unat (owed s') = unat (owed ?s) + unat rate" "pa_advanced applied"
    by (auto simp: price word_less_nat_alt)
  have step: "lane_step (pc_alloy C) (pc_voucher_domain C) (pc_keccak C) rate ?s s'"
    by (rule lane_step.reveal [where walked = None and ok = True, OF _ s'(1) [unfolded advance_preimage_eq [where ok = True]]])
       (simp add: truthful_walk_def)
  note inv' = lane_inv_step [OF step S(2)]
  define r where "r = \<lparr>rl_preimage = preimage_at (pc_keccak C) seed i, rl_index = i, rl_chain_root = epoch_root e\<rparr>"
  let ?L' = "meter_commit r (ucast rate) (py_ledger P)"
  have "epoch_preimage e i = Some (preimage_at (pc_keccak C) seed i)" by (subst e(1)) simp
  then have nxt: "meter_next (Some (epoch_root e)) (py_ledger P) = (Released r, ucast rate)"
    using room by (simp add: meter_next_def live next_index_def r_def e(6) i_def)
  have "i \<noteq> 0" using i by (auto simp: unat_eq_0)
  have serves: "delivery_inv (nd_handler N) rate (w_lane (py_net P))" "own_lane C ?s"
      "\<not> inside_expiry_margin (nd_handler N) (expiry ?s)"
    using S(3) by (simp_all add: serves_def)
  have keys: "h_alloy (nd_handler N) = pc_alloy C" "h_keccak (nd_handler N) = pc_keccak C"
      "h_voucher_domain (nd_handler N) = pc_voucher_domain C" and store: "\<forall>st s. fst (h_record (nd_handler N) st s) = Inr ()"
    using C by (simp_all add: peers_ok_def node_ok_def)
  let ?pre = "\<lparr>cp_preimage = preimage_at (pc_keccak C) seed i, cp_index = i\<rparr>"
  have "handler_steps (nd_handler N) rate ?s s'" using step by (simp add: keys r_into_rtranclp)
  moreover have "w_anchor (py_net P) = Some (chain_root (chain ?s))" using S(4) anchored e(5) by simp
  moreover have "advance_preimage (h_keccak (nd_handler N)) ?s (chain_root (chain ?s)) (cp_index ?pre) (cp_preimage ?pre) = Inr (s', applied)"
    "cp_index ?pre \<noteq> 0"
    using s'(1) \<open>i \<noteq> 0\<close> by (simp_all add: keys)
  ultimately obtain c n where n: "commit_one_preimage (nd_handler N) (nd_request N) (w_lane (py_net P)) ?pre
        (nd_owed N (PreimageMsg ?pre) (py_net P)) (py_net P) = (Inr (Continue c), n)"
      "delivery_inv (nd_handler N) rate (w_lane n)" "ld_state (w_lane n) = s'" "w_anchor n = Some (chain_root (chain ?s))"
    using reveal_taken [OF serves(1) _ store serves(3)] s'(5) by blast
  then have "node_transport N (PreimageMsg ?pre) (py_net P) = (True, n)"
    by (simp add: node_transport_def commit_one_proof_def)
  then have met: "meter (sm_anchored_root (py_meter P))
       (\<lambda>r. write_message (node_transport N) (PreimageMsg \<lparr>cp_preimage = rl_preimage r, cp_index = rl_index r\<rparr>))
       (py_ledger P) (py_net P) = (Inr (Released r), ?L', n)"
    using nxt anchored by (simp add: meter_def write_message_def r_def)
  have acc: "sat_add (accrued (chain ?s)) (ucast rate) = accrued (chain s')"
    and accb: "sat_add (accrued_bytes (chain ?s)) (ucast CHUNK_BYTES) = accrued_bytes (chain s')"
    using accrued_step [of "chain ?s" rate "chain s'"] s'(2) price i by simp_all
  have sync': "in_sync (pc_keccak C) rate ?L' s'"
    using S(1) s'(2,3) e live acc accb
    by (auto simp: in_sync_def meter_commit_def Let_def r_def)
  have zero': "chain_root (chain s') = 0 \<longrightarrow> verified_index (chain s') = 0" using s'(2) e(3) by simp
  have "paid_more rate ?s 1048576 s'"
    using s'(2,4) o(2) sync_owed_nat(2) [OF inv' zero'] i by (simp add: paid_more_def cost)
  moreover have "serves C rate N n" using n(2,3) s'(2) serves(2,3) by (simp add: serves_def own_lane_def)
  ultimately show ?thesis
    using met sync' S(4,5) s'(2) live anchored e(5) n(3,4)
    by (intro exI [of _ r] exI [of _ ?L'] exI [of _ n])
       (simp add: stream_sync_def meter_commit_def Let_def)
qed


lemma paid_more_trans: "paid_more rate s m s1 \<Longrightarrow> paid_more rate s1 1048576 s2 \<Longrightarrow> m = 0 \<Longrightarrow> paid_more rate s 1048576 s2"
  by (simp add: paid_more_def)

text \<open>One chunk: the loop releases a preimage that the node takes, rolling the chain when it is spent.\<close>

lemma release_rolled:
  assumes C: "peers_ok C rate N" and sync: "stream_sync C rate N P" and live: "lg_epoch (py_ledger P) = Some e"
    and room: "ce_released e < MAX_CHAIN_LENGTH" and fund: "funded rate (net_lane P) 1048576"
  shows "\<exists>P'. release_loop C (node_transport N) rate rolled P = Some (Inr (), P') \<and> stream_sync C rate N P' \<and>
     paid_more rate (net_lane P) 1048576 (net_lane P') \<and> py_draws P' = py_draws P \<and>
     chain_root (chain (net_lane P')) = chain_root (chain (net_lane P)) \<and> lg_epoch (py_ledger P') \<noteq> None"
proof -
  obtain P1 where P1: "meter_anchor C (node_transport N) rate P = (Inr (), P1)" "stream_sync C rate N P1"
      "py_ledger P1 = py_ledger P" "net_lane P1 = net_lane P" "py_draws P1 = py_draws P"
      "sm_anchored_root (py_meter P1) = Some (epoch_root e)"
    using reanchor_accepted [OF C sync live] by blast
  have live1: "lg_epoch (py_ledger P1) = Some e" and fund1: "funded rate (net_lane P1) 1048576"
    using live fund P1(3,4) by simp_all
  from meter_accepted [OF C P1(2) live1 P1(6) room fund1] obtain r L n where
    m: "meter (sm_anchored_root (py_meter P1))
        (\<lambda>r. write_message (node_transport N) (PreimageMsg \<lparr>cp_preimage = rl_preimage r, cp_index = rl_index r\<rparr>))
        (py_ledger P1) (py_net P1) = (Inr (Released r), L, n)"
      "\<And>lp. stream_sync C rate N (P1\<lparr>py_ledger := L, py_net := n, py_meter := (py_meter P1)\<lparr>sm_last_proof := lp\<rparr>\<rparr>)"
      "paid_more rate (net_lane P1) 1048576 (ld_state (w_lane n))"
      "chain_root (chain (ld_state (w_lane n))) = chain_root (chain (net_lane P1))"
      "lg_epoch L \<noteq> None"
    by blast
  let ?P' = "P1\<lparr>py_ledger := L, py_net := n,
    py_meter := (py_meter P1)\<lparr>sm_last_proof := Some (StreamReveal (rl_chain_root r) (rl_index r))\<rparr>\<rparr>"
  have "release_loop C (node_transport N) rate rolled P = Some (Inr (), ?P')"
    using stream_syncD(5) [OF P1(2) C] by (subst release_loop.simps) (simp add: P1(1) m(1) Let_def)
  with m P1 show ?thesis by (intro exI [of _ ?P']) simp
qed

lemma in_sync_released:
  "in_sync keccak rate L s \<Longrightarrow> lg_epoch L = Some e \<Longrightarrow> ce_released e = verified_index (chain s)"
  by (auto elim!: in_sync_live)

definition released_one ::
  "'sig pool_context \<Rightarrow> u64 \<Rightarrow> ('sig, 'st) node_side \<Rightarrow> 'st serve_world payer \<Rightarrow> 'st serve_world payer \<Rightarrow> bool" where
  "released_one C rate N P P' \<longleftrightarrow> stream_sync C rate N P' \<and> paid_more rate (net_lane P) 1048576 (net_lane P') \<and>
     (\<forall>k. fresh_seeds C (net_lane P) (py_draws P) (Suc k) \<longrightarrow> fresh_seeds C (net_lane P') (py_draws P') k)"

lemma fresh_seeds_drop: "fresh_seeds C s d (Suc k) \<Longrightarrow> chain_root (chain s') = chain_root (chain s) \<Longrightarrow> fresh_seeds C s' d k"
  by (auto simp: fresh_seeds_def)

lemma released_oneI:
  assumes "sent C rate N 0 action P P1" and "stream_sync C rate N P'"
    and "paid_more rate (net_lane P1) 1048576 (net_lane P')" and "py_draws P' = py_draws P1"
    and "chain_root (chain (net_lane P')) = chain_root (chain (net_lane P1))"
  shows "released_one C rate N P P'"
  using assms by (auto simp: released_one_def sent_def paid_more_def fresh_seeds_def)

lemma meter_anchor_idle:
  "py_siblings P = [] \<Longrightarrow> lg_epoch (py_ledger P) \<noteq> None \<Longrightarrow> sm_anchored_root (py_meter P) = ledger_chain_root (py_ledger P) \<Longrightarrow>
     meter_anchor C wr rate P = (Inr (), P)"
  by (auto simp: meter_anchor_def ledger_chain_root_def Let_def)

lemma release_loop_anchored:
  assumes "meter_anchor C wr rate P = (Inr u, Q)" and "meter_anchor C wr rate Q = (Inr u', Q)"
  shows "release_loop C wr rate rolled P = release_loop C wr rate rolled Q"
  by (subst (1 2) release_loop.simps) (simp add: assms)

lemma funded_paid: "funded rate s n \<Longrightarrow> paid_more rate s 0 s' \<Longrightarrow> funded rate s' n"
  by (simp add: funded_def paid_more_def)

lemma funded_zero: "funded rate s n \<Longrightarrow> funded rate s (unat (0 :: u64))"
  by (simp add: funded_def)

text \<open>A voucher that opens or rolls the chain is taken, and the next reveal is taken after it.\<close>

lemma release_after_send:
  assumes C: "peers_ok C rate N" and rate: "rate \<noteq> 0" and sync: "stream_sync C rate N P"
    and fund: "funded rate (net_lane P) 1048576" and fresh: "fresh_seeds C (net_lane P) (py_draws P) (Suc k)"
    and act: "action = Roll \<or> action = Open \<and> lg_epoch (py_ledger P) = None"
  shows "\<exists>pr P1 P'. send_voucher C (node_transport N) rate 0 action P = (Inr pr, P1) \<and>
     meter_anchor C (node_transport N) rate (record_voucher pr P1) = (Inr (), record_voucher pr P1) \<and>
     release_loop C (node_transport N) rate rolled (record_voucher pr P1) = Some (Inr (), P') \<and>
     released_one C rate N P P'"
proof -
  from send_accepted [OF C rate sync funded_zero [OF fund] fresh, of action] act obtain pr P1 where
    snd: "send_voucher C (node_transport N) rate 0 action P = (Inr pr, P1)"
      and sent: "sent C rate N 0 action P (record_voucher pr P1)" by blast
  let ?Q = "record_voucher pr P1"
  from sent act have Q: "stream_sync C rate N ?Q" "paid_more rate (net_lane P) 0 (net_lane ?Q)"
      "lg_epoch (py_ledger ?Q) = Some (open_epoch (pc_keccak C) (pc_random_seed C (py_draws P)) rate)"
      "sm_anchored_root (py_meter ?Q) = ledger_chain_root (py_ledger ?Q)"
    by (auto simp: sent_def)
  have room: "ce_released (open_epoch (pc_keccak C) (pc_random_seed C (py_draws P)) rate) < MAX_CHAIN_LENGTH"
    by (simp add: MAX_CHAIN_LENGTH_def)
  obtain P' where P': "release_loop C (node_transport N) rate rolled ?Q = Some (Inr (), P')" "stream_sync C rate N P'"
      "paid_more rate (net_lane ?Q) 1048576 (net_lane P')" "py_draws P' = py_draws ?Q"
      "chain_root (chain (net_lane P')) = chain_root (chain (net_lane ?Q))"
    using release_rolled [OF C Q(1,3) room funded_paid [OF fund Q(2)]] by blast
  moreover have "meter_anchor C (node_transport N) rate ?Q = (Inr (), ?Q)"
    using Q stream_syncD(5) [OF Q(1) C] by (intro meter_anchor_idle) simp_all
  ultimately show ?thesis using snd released_oneI [OF sent P'(2-5)] by blast
qed

lemma release_accepted:
  fixes P :: "'st serve_world payer"
  assumes C: "peers_ok C rate N" and rate: "rate \<noteq> 0" and sync: "stream_sync C rate N P"
    and fund: "funded rate (net_lane P) 1048576" and fresh: "fresh_seeds C (net_lane P) (py_draws P) (Suc k)"
  shows "\<exists>P'. release_chunk C (node_transport N) rate P = Some (Inr (), P') \<and> released_one C rate N P P'"
proof (cases "\<exists>e. lg_epoch (py_ledger P) = Some e \<and> ce_released e < MAX_CHAIN_LENGTH")
  case True
  then obtain e where "lg_epoch (py_ledger P) = Some e" "ce_released e < MAX_CHAIN_LENGTH" by blast
  from release_rolled [OF C sync this fund, of False] show ?thesis
    by (auto simp: release_chunk_def released_one_def dest: fresh_seeds_drop)
next
  case False
  show ?thesis
  proof (cases "lg_epoch (py_ledger P)")
    case None
    then obtain pr P1 P' where snd: "send_voucher C (node_transport N) rate 0 Open P = (Inr pr, P1)"
        "meter_anchor C (node_transport N) rate (record_voucher pr P1) = (Inr (), record_voucher pr P1)"
        "release_loop C (node_transport N) rate False (record_voucher pr P1) = Some (Inr (), P')"
        "released_one C rate N P P'"
      using release_after_send [OF C rate sync fund fresh, of Open False] by blast
    have "meter_anchor C (node_transport N) rate P = (Inr (), record_voucher pr P1)"
      using None snd(1) stream_syncD(5) [OF sync C] by (simp add: meter_anchor_def ledger_chain_root_def Let_def)
    from release_loop_anchored [OF this snd(2)] snd(3,4) show ?thesis by (simp add: release_chunk_def)
  next
    case (Some e)
    obtain P1 where P1: "meter_anchor C (node_transport N) rate P = (Inr (), P1)" "stream_sync C rate N P1"
        "py_ledger P1 = py_ledger P" "net_lane P1 = net_lane P" "py_draws P1 = py_draws P"
        "sm_anchored_root (py_meter P1) = Some (epoch_root e)"
      using reanchor_accepted [OF C sync Some] by blast
    have "meter_next (Some (epoch_root e)) (py_ledger P1) = (Exhausted, 0)"
      using False Some P1(3) by (simp add: meter_next_def next_index_def)
    then have spent: "meter (sm_anchored_root (py_meter P1)) ex (py_ledger P1) (py_net P1)
        = (Inr Exhausted, py_ledger P1, py_net P1)" for ex :: "released \<Rightarrow> (pull_error, 'st serve_world) exchange"
      using P1(6) by (simp add: meter_def)
    have fund1: "funded rate (net_lane P1) 1048576" and fresh1: "fresh_seeds C (net_lane P1) (py_draws P1) (Suc k)"
      using fund fresh P1(4,5) by simp_all
    obtain pr P2 P' where snd: "send_voucher C (node_transport N) rate 0 Roll P1 = (Inr pr, P2)"
        "release_loop C (node_transport N) rate True (record_voucher pr P2) = Some (Inr (), P')"
        "released_one C rate N P1 P'"
      using release_after_send [OF C rate P1(2) fund1 fresh1, of Roll True] by blast
    have "release_loop C (node_transport N) rate False P = Some (Inr (), P')"
      using stream_syncD(5) [OF P1(2) C]
      by (subst release_loop.simps) (simp add: P1(1) spent snd(1,2) Let_def)
    moreover have "released_one C rate N P P'" using snd(3) P1(4,5) by (simp add: released_one_def)
    ultimately show ?thesis by (simp add: release_chunk_def)
  qed
qed


lemma funded_split:
  assumes "funded rate s (1048576 + n)"
  shows "funded rate s 1048576" and "paid_more rate s 1048576 s' \<Longrightarrow> funded rate s' n"
proof -
  have c: "byte_cost rate 1048576 = unat rate" using byte_cost_add_chunk [of rate 0] by simp
  show "funded rate s 1048576" using assms by (simp add: funded_def byte_cost_add_chunk c)
  show "paid_more rate s 1048576 s' \<Longrightarrow> funded rate s' n"
    using assms by (simp add: funded_def paid_more_def byte_cost_add_chunk c)
qed

lemma paid_more_chunk:
  "paid_more rate s 1048576 s1 \<Longrightarrow> paid_more rate s1 n s2 \<Longrightarrow> paid_more rate s (1048576 + n) s2"
  using byte_cost_add_chunk [of rate 0] by (simp add: paid_more_def byte_cost_add_chunk)

lemma pay_accepted:
  assumes C: "peers_ok C rate N" and rate: "rate \<noteq> 0" and sync: "stream_sync C rate N P"
    and fund: "funded rate (net_lane P) (unat unproved)"
    and fresh: "fresh_seeds C (net_lane P) (py_draws P) (Suc (unat unproved div 1048576))"
  shows "\<exists>rest P'. pay C (node_transport N) rate unproved complete P = Some (Inr rest, P') \<and>
     rest = (if complete then 0 else unproved mod CHUNK_BYTES) \<and> stream_sync C rate N P' \<and>
     paid_more rate (net_lane P) (unat unproved - unat rest) (net_lane P')"
  using sync fund fresh
proof (induction "unat unproved" arbitrary: unproved P rule: less_induct)
  case less
  show ?case
  proof (cases "CHUNK_BYTES \<le> unproved")
    case True
    then have le: "1048576 \<le> unat unproved" by (simp add: word_le_nat_alt)
    define u where "u = unproved - CHUNK_BYTES"
    have u: "unat unproved = 1048576 + unat u" using True le by (simp add: u_def unat_sub_exact)
    obtain P1 where P1: "release_chunk C (node_transport N) rate P = Some (Inr (), P1)" "released_one C rate N P P1"
      using release_accepted [OF C rate less.prems(1) funded_split(1) less.prems(3)] less.prems(2) u by auto
    have q: "unat unproved div 1048576 = Suc (unat u div 1048576)" by (simp add: u)
    have "stream_sync C rate N P1" "funded rate (net_lane P1) (unat u)"
        "fresh_seeds C (net_lane P1) (py_draws P1) (Suc (unat u div 1048576))"
      using P1(2) less.prems(2,3) funded_split(2) u q by (auto simp: released_one_def)
    from less.hyps [OF _ this] u obtain rest P' where
      r: "pay C (node_transport N) rate u complete P1 = Some (Inr rest, P')"
        "rest = (if complete then 0 else u mod CHUNK_BYTES)" "stream_sync C rate N P'"
        "paid_more rate (net_lane P1) (unat u - unat rest) (net_lane P')"
      by auto
    have m: "u mod CHUNK_BYTES = unproved mod CHUNK_BYTES"
      by (simp add: word_unat_eq_iff unat_mod u)
    have "unat rest \<le> unat u" using r(2) by (simp add: unat_mod)
    then have "unat unproved - unat rest = 1048576 + (unat u - unat rest)" by (simp add: u)
    moreover have "pay C (node_transport N) rate unproved complete P = Some (Inr rest, P')"
      using True P1(1) r(1) by (subst pay.simps) (simp add: u_def)
    ultimately show ?thesis
      using r P1(2) m paid_more_chunk [of rate "net_lane P" "net_lane P1"]
      by (auto simp: released_one_def)
  next
    case False
    then have lt: "unat unproved < 1048576" by (simp add: word_le_nat_alt)
    show ?thesis
    proof (cases "complete \<and> 0 < unproved")
      case True
      from send_accepted [OF C rate less.prems, of Keep] True obtain pr P1 where
        "send_voucher C (node_transport N) rate unproved Keep P = (Inr pr, P1)"
        "sent C rate N unproved Keep P (record_voucher pr P1)" by blast
      with True False show ?thesis
        by (subst pay.simps) (simp add: settle_residual_def sent_def stream_syncD(5) [OF less.prems(1) C])
    next
      case none: False
      then have "paid_more rate (net_lane P) (unat unproved - unat (if complete then 0 else unproved mod CHUNK_BYTES)) (net_lane P)"
        using lt by (auto simp: paid_more_def unat_mod word_gt_0)
      with none False less.prems(1) lt show ?thesis
        by (subst pay.simps) (auto simp: word_gt_0 word_unat_eq_iff unat_mod)
    qed
  qed
qed


subsection \<open>A concrete stream\<close>

definition demo_context :: "address pool_context" where
  "demo_context =
     \<lparr>pc_alloy = demo_alloy\<lparr>as_bytes := (\<lambda>a. replicate 45 0 @ to_be_bytes 20 a)\<rparr>,
      pc_from_raw = (\<lambda>bs. Some (from_be_bytes (drop 45 bs))), pc_sign_hash = (\<lambda>_. Inr 7),
      pc_voucher_domain = demo_domain, pc_pool_id = 1, pc_address = 7, pc_provider = 8,
      pc_keccak = demo_keccak, pc_random_seed = (\<lambda>n. 100 + 1000 * of_nat n)\<rparr>"

definition demo_node :: "(address, nat) node_side" where
  "demo_node =
     \<lparr>nd_handler = \<lparr>h_alloy = pc_alloy demo_context, h_from_raw = pc_from_raw demo_context, h_keccak = demo_keccak,
        h_voucher_domain = demo_domain, h_record = (\<lambda>n _. (Inr (), Suc n)), h_expiry_margin_secs = 420, h_unix_seconds = 1000,
        h_unix_millis = 1000000, h_hint_accepted = True\<rparr>,
      nd_request = \<lparr>rq_hash = 5, rq_lane_key = \<lparr>lk_pool_id = 1, lk_signer = 7, lk_provider = 8\<rparr>, rq_client_node_id = 6, rq_rate_per_mb = 10\<rparr>,
      nd_owed = (\<lambda>m w. OwedChunk_new CHUNK_BYTES)\<rparr>"

definition demo_payer :: "nat serve_world payer" where
  "demo_payer =
     \<lparr>py_ledger = PoolLedger_new Cumulative_default,
      py_meter = \<lparr>sm_anchored_root = None, sm_last_proof = None\<rparr>, py_draws = 0, py_siblings = [],
      py_net = \<lparr>w_lane = hydrated demo_lane, w_store = 0, w_anchor = None, w_frames = [], w_receipts = [], w_hints = []\<rparr>\<rparr>"

lemma demo_context_ok: "context_ok demo_context"
  by (simp add: context_ok_def demo_context_def demo_alloy_def is_high_s_def from_to_be_bytes)

lemma demo_peers_ok: "peers_ok demo_context 10 demo_node"
  using demo_context_ok by (simp add: peers_ok_def node_ok_def demo_node_def OwedChunk_new_def demo_context_def)

lemma demo_seed_root: "seed_root demo_context n = 355 + 1000 * of_nat n"
proof -
  have "(demo_keccak ^^ k) v = v + of_nat k" for k v
    by (induction k) (simp_all add: demo_keccak_def)
  then show ?thesis
    by (simp add: seed_root_def demo_context_def root_from_seed_def hash_forward_funpow MAX_CHAIN_LENGTH_def)
qed

lemma demo_fresh_seeds: "fresh_seeds demo_context demo_lane 0 3"
  by (simp add: fresh_seeds_def demo_seed_root upt_rec demo_lane_def hydrate_def NONE_chain_def)

lemma demo_stream_sync: "stream_sync demo_context 10 demo_node demo_payer"
proof -
  have "lane_inv (h_alloy (nd_handler demo_node)) (h_voucher_domain (nd_handler demo_node)) (h_keccak (nd_handler demo_node)) 10 demo_lane"
    by (rule fresh_lane_inv [OF demo_lane_fresh])
  moreover have "\<not> inside_expiry_margin (nd_handler demo_node) (expiry demo_lane)"
    by (simp add: inside_expiry_margin_def inside_capability_expiry_margin_def demo_node_def demo_lane_def hydrate_def sat_add_def)
  ultimately show ?thesis
    by (simp add: stream_sync_def serves_def delivery_inv_def hydrated_def demo_payer_def)
      (simp add: in_sync_def PoolLedger_new_def Cumulative_default_def own_lane_def
       demo_context_def owed_def owed_bytes_def live_claim_def demo_lane_def hydrate_def NONE_chain_def)
qed

lemma demo_funded: "funded 10 demo_lane 2097157"
  by (simp add: funded_def byte_cost_def owed_def owed_bytes_def live_claim_def demo_lane_def hydrate_def)

subsection \<open>Properties\<close>

text \<open>
  C14. Paying always returns. Whatever the transport answers, and whatever a finite number of moves of sibling
  streams do to the shared ledger, each at any point where the stream does not hold it, \<open>pay\<close>
  returns: a chunk is metered again after each time a sibling rolled the chain away, but
  rolls the chain itself at most once. It is assumed that every write returns and that the siblings' moves come to an end.
\<close>

theorem pay_returns: "\<exists>res P'. pay C wr rate_per_mb unproved complete P = Some (res, P')"
  using pay_total [of C wr rate_per_mb unproved complete P] by auto

text \<open>
  C12. An honest stream is paid in full and never refused by the handler. Let the payer's ledger match the
  node's lane, with no sibling stream at work; let the payer have a canonical signer and seeds whose roots are new and not zero; let the rate be
  positive, and the cap and the wire's width cover the bytes; let the node verify under the same keys at the same rate,
  hold the lane consistently, outside the expiry margin, over a store that takes every write, and let a voucher
  that raises nothing meet a whole owed chunk. Then \<open>commit_one_proof\<close> continues with every voucher and
  preimage that \<open>pay\<close> sends. A complete transfer leaves no byte unproved, an incomplete one less than a chunk.
  The lane is owed exactly the ceiling of the proved bytes at the quoted rate on top of what it was
  owed, and payer and node match again.
\<close>

theorem honest_stream_paid_in_full:
  assumes "peers_ok C rate N" and "rate \<noteq> 0" and "stream_sync C rate N P"
    and "funded rate (net_lane P) (unat unproved)"
    and "fresh_seeds C (net_lane P) (py_draws P) (Suc (unat unproved div 1048576))"
  shows "\<exists>rest P'. pay C (node_transport N) rate unproved complete P = Some (Inr rest, P') \<and>
     rest = (if complete then 0 else unproved mod CHUNK_BYTES) \<and> stream_sync C rate N P' \<and>
     unat (owed_bytes (net_lane P')) = unat (owed_bytes (net_lane P)) + (unat unproved - unat rest) \<and>
     unat (owed (net_lane P')) = unat (owed (net_lane P)) + ((unat unproved - unat rest) * unat rate + 1048575) div 1048576"
  using pay_accepted [OF assms, of complete] by (auto simp: paid_more_def byte_cost_def)

theorem honest_stream_paid_in_full_witness:
  "\<exists>P'. pay demo_context (node_transport demo_node) 10 2097157 True demo_payer = Some (Inr 0, P') \<and>
     unat (owed_bytes (net_lane P')) = 2097157 \<and> unat (owed (net_lane P')) = 21"
proof -
  have s: "net_lane demo_payer = demo_lane" "py_draws demo_payer = 0" by (simp_all add: demo_payer_def hydrated_def)
  have o: "owed demo_lane = 0" "owed_bytes demo_lane = 0"
    by (simp_all add: owed_def owed_bytes_def live_claim_def demo_lane_def hydrate_def)
  have "peers_ok demo_context 10 demo_node" "(10 :: u64) \<noteq> 0" "stream_sync demo_context 10 demo_node demo_payer"
      "funded 10 (net_lane demo_payer) (unat (2097157 :: u64))"
      "fresh_seeds demo_context (net_lane demo_payer) (py_draws demo_payer) (Suc (unat (2097157 :: u64) div 1048576))"
    using demo_peers_ok demo_stream_sync demo_funded demo_fresh_seeds by (simp_all add: s numeral_3_eq_3)
  from honest_stream_paid_in_full [OF this, of True] show ?thesis
    by (auto simp: s o)
qed

end
