(* ===== verification/Payer_Heal.thy ===== *)
theory Payer_Heal
  imports Payer_Stream
begin

text \<open>
  What a rejection does to the payer (\<open>src/crates/client/src/lib.rs\<close>): the refused proof is rewound,
  the watermark bundle is authenticated against the payer's own key and chain, and the ledger
  moves to it. The properties connect the bundle the node's handler builds with the ledger the
  client heals: after a heal both sides agree again.
\<close>

subsection \<open>Reading a rejection\<close>

record upstream_voucher_rejected =
  uvr_reason :: reject_reason
  uvr_bundle :: "watermark_bundle option"
  uvr_proof_generation :: "u64 option"

datatype pull_refusal = UpstreamVoucherRejected upstream_voucher_rejected | UpstreamRefused stream_error

definition voucher_rejection :: "stream_meter \<Rightarrow> stream_error \<Rightarrow> pool_ledger \<Rightarrow> pull_refusal \<times> pool_ledger" where
  "voucher_rejection m err L =
     (case err of
        VoucherRejected reason bundle \<Rightarrow>
          (UpstreamVoucherRejected
             \<lparr>uvr_reason = reason, uvr_bundle = bundle,
              uvr_proof_generation =
                (case sm_last_proof m of Some (StreamVoucher _ generation) \<Rightarrow> Some generation | _ \<Rightarrow> None)\<rparr>,
           if refuses_proof reason
           then (case sm_last_proof m of Some p \<Rightarrow> snd (resolve_reject p L) | None \<Rightarrow> L)
           else L)
      | other \<Rightarrow> (UpstreamRefused other, L))"

definition voucher_signed_by :: "'sig pool_context \<Rightarrow> voucher \<Rightarrow> u8 list \<Rightarrow> address \<Rightarrow> bool" where
  "voucher_signed_by C v sig expected =
     (case pc_from_raw C sig of
        None \<Rightarrow> False
      | Some g \<Rightarrow> recover_signer (pc_alloy C) \<lparr>sv_voucher = v, sv_signature = g\<rparr> (pc_voucher_domain C) = Inr expected)"

definition frontier_is_proved :: "(b256 \<Rightarrow> b256) \<Rightarrow> watermark_bundle \<Rightarrow> bool" where
  "frontier_is_proved keccak b \<longleftrightarrow>
     wb_verified_index b = 0 \<or> verify_forward keccak (wb_tip b) (wb_verified_index b) (wb_chain_root b)"

definition bundle_voucher :: "'sig pool_context \<Rightarrow> watermark_bundle \<Rightarrow> voucher" where
  "bundle_voucher C b =
     \<lparr>v_pool_id = pc_pool_id C, v_signer = pc_address C, v_provider = pc_provider C,
      v_amount = ucast (wb_amount b), v_bytes_delivered = ucast (wb_bytes_delivered b),
      v_chain_root = wb_chain_root b, v_chunk_price = ucast (wb_chunk_price b)\<rparr>"

definition resumable_watermark :: "'sig pool_context \<Rightarrow> pull_refusal \<Rightarrow> watermark_bundle option" where
  "resumable_watermark C err =
     (case err of
        UpstreamRefused _ \<Rightarrow> None
      | UpstreamVoucherRejected rejected \<Rightarrow>
          if \<not> is_watermark_gated (uvr_reason rejected) then None
          else (case uvr_bundle rejected of
                  None \<Rightarrow> None
                | Some b \<Rightarrow>
                    (case bundle_validate b of
                       Inl _ \<Rightarrow> None
                     | Inr _ \<Rightarrow>
                         if \<not> voucher_signed_by C (bundle_voucher C b) (wb_last_signature b) (pc_address C) then None
                         else if frontier_is_proved (pc_keccak C) b then Some b else None)))"

datatype healed = Reseeded | HealRebased | HealStale

definition rejection_watermark :: "'sig pool_context \<Rightarrow> pull_refusal \<Rightarrow> cumulative option" where
  "rejection_watermark C err = map_option cum_from_bundle (resumable_watermark C err)"

definition heal_rebase_outcome :: "rebase_outcome \<Rightarrow> healed option" where
  "heal_rebase_outcome r =
     (case r of Rebased _ \<Rightarrow> Some HealRebased | Stale \<Rightarrow> Some HealStale | Refused \<Rightarrow> None)"

definition heal_bytes_regression ::
  "cumulative \<Rightarrow> u64 option \<Rightarrow> pool_ledger \<Rightarrow> healed option \<times> pool_ledger" where
  "heal_bytes_regression watermark generation L =
     (case rebase_ahead_on_bytes watermark generation L of
        (outcome, L1) \<Rightarrow>
          if outcome \<noteq> Refused then (heal_rebase_outcome outcome, L1) else (Some HealStale, L1))"

definition already_covered :: "reject_reason \<Rightarrow> cumulative \<Rightarrow> pool_ledger \<Rightarrow> healed option \<times> pool_ledger" where
  "already_covered reason watermark L =
     (if c_bytes (committed L) < c_bytes watermark then (None, L)
      else (Some HealStale,
            if reason = reject_reason.UnderFold then snd (retire_unadopted_chain watermark L) else L))"

definition heal_watermark_desync ::
  "pull_refusal \<Rightarrow> cumulative \<Rightarrow> pool_ledger \<Rightarrow> healed option \<times> pool_ledger" where
  "heal_watermark_desync err watermark L =
     (case reseed watermark L of
        (True, L1) \<Rightarrow> (Some Reseeded, L1)
      | (False, L1) \<Rightarrow>
          (case err of
             UpstreamRefused _ \<Rightarrow> (None, L1)
           | UpstreamVoucherRejected rejected \<Rightarrow>
               if uvr_reason rejected = reject_reason.UnderFold \<or> uvr_reason rejected = reject_reason.AmountRegression
               then already_covered (uvr_reason rejected) watermark L1
               else if uvr_reason rejected = reject_reason.Underpaid
               then (case rebase watermark (uvr_proof_generation rejected) L1 of
                       (outcome, L2) \<Rightarrow> (heal_rebase_outcome outcome, L2))
               else if uvr_reason rejected = reject_reason.BytesRegression
               then heal_bytes_regression watermark (uvr_proof_generation rejected) L1
               else (None, L1)))"




subsection \<open>The bundle a node attaches\<close>

lemma lane_step_root_zero:
  assumes "lane_step A domain keccak rate s s'" and "chain_root (chain s) = 0 \<longrightarrow> verified_index (chain s) = 0"
  shows "chain_root (chain s') = 0 \<longrightarrow> verified_index (chain s') = 0"
  using assms(1)
proof (cases rule: lane_step.cases)
  case (accept sv applied)
  then have "s' = presigned_next A s sv"
    by (auto dest!: stage_voucher_Inr(4) simp: advance_presigned_Inr_iff)
  then show ?thesis using assms(2) by (auto simp: presigned_next_def Let_def)
next
  case (adopt sv)
  from adopt(3) show ?thesis using assms(2) by (cases rule: adopt_chain_Some_cases) auto
next
  case (reveal index preimage walked ok root applied)
  from reveal(2,1) show ?thesis
    using assms(2) by (cases rule: advance_preimage_verified_Inr_cases) auto
next
  case (clamp c e changed)
  then obtain c' e' r' where "s' = s\<lparr>cap := c', expiry := e', registered_until := r'\<rparr>" by (rule clampE)
  then show ?thesis using assms(2) by simp
next
  case (redeemed p)
  then show ?thesis using assms(2) by simp
qed

lemma lane_reachable_root_zero:
  "lane_reachable A domain keccak rate s \<Longrightarrow> chain_root (chain s) = 0 \<longrightarrow> verified_index (chain s) = 0"
  by (induction rule: lane_reachable.induct)
     (auto simp: fresh_lane_def NONE_chain_def dest: lane_step_root_zero)

lemma bundle_cumulative:
  assumes "watermark_bundle_for_reject reason s = Some b"
  shows "cum_from_bundle b = \<lparr>c_bytes = owed_bytes s, c_amount = owed s\<rparr>"
proof -
  let ?k = "unat (wb_verified_index b)"
  have k: "?k < 2 ^ 8" using unat_below [of "wb_verified_index b"] by simp
  have p: "unat (wb_chunk_price b) < 2 ^ 64" "unat (wb_amount b) < 2 ^ 64" "unat (wb_bytes_delivered b) < 2 ^ 64"
    using unat_below [of "wb_chunk_price b"] unat_below [of "wb_amount b"] unat_below [of "wb_bytes_delivered b"] by simp_all
  have "?k * unat (wb_chunk_price b) < 2 ^ 8 * 2 ^ 64"
    using k p(1) by (intro mult_strict_mono) auto
  then have "unat (c_amount (cum_from_bundle b)) = unat (owed s)" "unat (c_bytes (cum_from_bundle b)) = unat (owed_bytes s)"
    using p k bundle_owed [OF assms]
    by (simp_all add: cum_from_bundle_def Let_def unat_sat_add unat_sat_mul mult.commute)
  then show ?thesis
    by (cases "cum_from_bundle b") (simp add: word_unat_eq_iff)
qed

lemma bundle_authenticates:
  assumes C: "context_ok C" and own: "own_lane C s"
    and inv: "lane_inv (pc_alloy C) (pc_voucher_domain C) (pc_keccak C) rate s"
    and b: "watermark_bundle_for_reject reason s = Some b"
  shows "resumable_watermark C (UpstreamVoucherRejected \<lparr>uvr_reason = reason, uvr_bundle = Some b, uvr_proof_generation = g\<rparr>) = Some b"
proof -
  note B = bundle_Some [OF b]
  obtain sv where sv: "verify_signer (pc_alloy C) sv (signer s) (pc_voucher_domain C) = Inr ()"
      "as_bytes (pc_alloy C) (sv_signature sv) = wb_last_signature b" "sv_voucher sv = anchor_voucher s"
    using inv B(2) by (auto simp: lane_inv_def claim_backed_def)
  have len: "length (wb_last_signature b) = 65" and raw: "pc_from_raw C (wb_last_signature b) = Some (sv_signature sv)"
    using C unfolding context_ok_def sv(2) [symmetric] by blast+
  have "anchor_voucher s = bundle_voucher C b"
    using own B(3-5) by (simp add: anchor_voucher_def bundle_voucher_def own_lane_def)
  then have "sv = \<lparr>sv_voucher = bundle_voucher C b, sv_signature = sv_signature sv\<rparr>"
    using sv(3) by (cases sv) simp
  then have "voucher_signed_by C (bundle_voucher C b) (wb_last_signature b) (pc_address C)"
    using sv(1) raw own by (simp add: voucher_signed_by_def verify_signer_Inr_iff own_lane_def)
  moreover have "frontier_is_proved (pc_keccak C) b"
    using inv by (simp add: frontier_is_proved_def lane_inv_def claim_backed_def B(5))
  ultimately show ?thesis
    using B(1) len by (simp add: resumable_watermark_def bundle_validate_def VOUCHER_SIG_LEN_def)
qed

subsection \<open>Healing meets the node's lane\<close>

lemma healed_in_sync:
  assumes "lg_epoch L = None" and "pl_committed (lg_pipeline L) = \<lparr>c_bytes = owed_bytes s, c_amount = owed s\<rparr>"
    and "pl_accrued (lg_pipeline L) = Cumulative_default" and "pl_armed (lg_pipeline L) = None"
    and "chain_root (chain s) = 0 \<longrightarrow> verified_index (chain s) = 0"
  shows "in_sync keccak rate L s"
  using assms by (simp add: in_sync_def)

lemma pl_heal_fields [simp]:
  "pl_committed (pl_heal cum p) = cum" "pl_accrued (pl_heal cum p) = Cumulative_default" "pl_armed (pl_heal cum p) = None"
  by (simp_all add: pl_heal_def pl_overwrite_def Let_def)

lemma reseed_healed:
  assumes "reseed cum L = (True, L')"
  shows "lg_epoch L' = None \<and> pl_committed (lg_pipeline L') = cum \<and> pl_accrued (lg_pipeline L') = Cumulative_default \<and>
     pl_armed (lg_pipeline L') = None \<and> c_amount (committed L) < c_amount cum"
  using assms by (auto simp: reseed_def retire_chain_def split: if_splits)

lemma rebase_if_healed:
  assumes "rebase_if cum g admits L = (Rebased from, L')"
  shows "lg_epoch L' = None \<and> pl_committed (lg_pipeline L') = cum \<and> pl_accrued (lg_pipeline L') = Cumulative_default \<and>
     pl_armed (lg_pipeline L') = None"
  using assms by (auto simp: rebase_if_def retire_chain_def Let_def split: if_splits)

lemma heal_moves:
  assumes "heal_watermark_desync err cum L = (Some h, L')" and "h \<noteq> HealStale"
  shows "lg_epoch L' = None \<and> pl_committed (lg_pipeline L') = cum \<and> pl_accrued (lg_pipeline L') = Cumulative_default \<and>
     pl_armed (lg_pipeline L') = None"
proof (cases "reseed cum L")
  case (Pair ok L1)
  show ?thesis
  proof (cases ok)
    case True
    with assms(1) Pair show ?thesis using reseed_healed [of cum L L'] by (simp add: heal_watermark_desync_def)
  next
    case False
    with assms Pair show ?thesis
      using rebase_if_healed
      by (auto simp: heal_watermark_desync_def already_covered_def heal_bytes_regression_def heal_rebase_outcome_def
          rebase_def rebase_ahead_on_bytes_def
          split: pull_refusal.splits if_splits prod.splits rebase_outcome.splits)
  qed
qed

subsection \<open>Rewinding a refused proof\<close>

lemma cum_plus_default [simp]: "cum_plus Cumulative_default c = c"
proof -
  have "sat_add 0 x = x" for x :: u256 using unat_below [of x] by (simp add: sat_add_def)
  then show ?thesis by (simp add: cum_plus_def Cumulative_default_def)
qed

lemma sat_sub_add_cancel:
  assumes "unat a + unat p < 2 ^ LENGTH('a)"
  shows "sat_sub (sat_add a p) p = (a :: 'a::len word)"
proof -
  have "unat (sat_sub (sat_add a p) p) = unat a" using assms by (simp add: unat_sat_sub unat_sat_add)
  then show ?thesis by (simp add: word_unat_eq_iff)
qed

lemma issue_stamped_Inr:
  assumes "issue_stamped keccak seed delta rate action ex L w = (Inr (nxt, g), L', w')"
  obtains commit L1 where "issue_arm keccak seed delta rate action L = (nxt, commit, L1)" "L' = issue_commit nxt L1"
  using assms by (auto simp: issue_stamped_def Let_def split: prod.splits sum.splits)

lemma issue_arm_displaces:
  assumes "issue_arm keccak seed delta rate action L = (nxt, commit, L1)"
  shows "pl_committed (lg_pipeline L1) = pl_committed (lg_pipeline L) \<and> pl_accrued (lg_pipeline L1) = pl_accrued (lg_pipeline L) \<and>
     (case lg_retired L1 of Replaced ch \<Rightarrow> ch | Nothing \<Rightarrow> lg_epoch L1) = lg_epoch L"
  using assms
  by (auto simp: issue_arm_def commit_epoch_def Let_def split: epoch_action.splits if_splits)

lemma reject_voucher_undoes:
  assumes "issue_arm keccak seed delta rate action L = (nxt, commit, L1)"
    and "resolve_reject (StreamVoucher (c_amount nxt) g) (issue_commit nxt L1) = (ok, L')"
  shows "ok \<and> lg_epoch L' = lg_epoch L \<and> pl_committed (lg_pipeline L') = pl_committed (lg_pipeline L) \<and>
     pl_accrued (lg_pipeline L') = pl_accrued (lg_pipeline L)"
  using assms(2) issue_arm_displaces [OF assms(1)]
  by (auto simp: resolve_reject_def issue_commit_def reject_voucher_def Let_def split: displaced.splits)

lemma meter_Released:
  assumes "meter anchored ex L w = (Inr (Released r), L', w')"
  obtains e where "lg_epoch L = Some e" "rl_chain_root r = epoch_root e" "rl_index r = ce_released e + 1"
    "ce_released e < MAX_CHAIN_LENGTH" "L' = meter_commit r (ce_chunk_price e) L"
  using assms
  by (auto simp: meter_def meter_next_def next_index_def split: prod.splits sum.splits option.splits if_splits metered.splits)

lemma reject_reveal_undoes:
  assumes "lg_epoch L = Some e" and "rl_chain_root r = epoch_root e" and "rl_index r = ce_released e + 1"
    and "ce_released e < MAX_CHAIN_LENGTH"
    and "unat (c_amount (pl_accrued (lg_pipeline L))) + unat (ce_chunk_price e) < 2 ^ 256"
    and "unat (c_bytes (pl_accrued (lg_pipeline L))) + 1048576 < 2 ^ 256"
    and "resolve_reject (StreamReveal (rl_chain_root r) (rl_index r)) (meter_commit r (ce_chunk_price e) L) = (ok, L')"
  shows "ok \<and> lg_epoch L' = lg_epoch L \<and> pl_committed (lg_pipeline L') = pl_committed (lg_pipeline L) \<and>
     pl_accrued (lg_pipeline L') = pl_accrued (lg_pipeline L)"
proof -
  have "unat (ce_released e + 1) = unat (ce_released e) + 1"
    using assms(4) by (simp add: unat_add_exact word_less_nat_alt unat_MAX_CHAIN_LENGTH)
  then have "unat (sat_sub (ce_released e + 1) 1) = unat (ce_released e)" by (simp add: unat_sat_sub)
  then have idx: "sat_sub (ce_released e + 1) 1 = ce_released e" by (simp add: word_unat_eq_iff)
  have acc: "sat_sub (sat_add (c_amount (pl_accrued (lg_pipeline L))) (ce_chunk_price e)) (ce_chunk_price e) = c_amount (pl_accrued (lg_pipeline L))"
      "sat_sub (sat_add (c_bytes (pl_accrued (lg_pipeline L))) (ucast CHUNK_BYTES)) (ucast CHUNK_BYTES) = c_bytes (pl_accrued (lg_pipeline L))"
    using assms(5,6) by (auto intro!: sat_sub_add_cancel)
  show ?thesis
    using assms(1-3,7) idx acc
    by (auto simp: resolve_reject_def meter_commit_def reject_reveal_def Let_def)
qed

subsection \<open>A concrete rejection\<close>

abbreviation demo_A :: "address alloy" where
  "demo_A \<equiv> pc_alloy demo_context"

definition demo_held :: lane_state where
  "demo_held = presigned_next demo_A demo_lane (demo_voucher 10 1048576 355)"

lemma demo_held_eq:
  "demo_held = demo_lane\<lparr>chain := opened 355 10, last_amount := 10, last_bytes_delivered := 1048576,
     last_signature := Some (replicate 45 0 @ to_be_bytes 20 (7 :: address))\<rparr>"
  by (simp add: demo_held_def presigned_next_def Let_def demo_context_def demo_lane_def hydrate_def NONE_chain_def demo_voucher_def)

lemma demo_held_reachable:
  "lane_reachable demo_A (pc_voucher_domain demo_context) (pc_keccak demo_context) 10 demo_held"
proof -
  have "stage_voucher demo_A (pc_voucher_domain demo_context) demo_lane (demo_voucher 10 1048576 355)
      = Inr (demo_held, \<lparr>va_amount_delta = 10, va_bytes_delta = 1048576\<rparr>)"
    by (simp add: stage_voucher_def verify_signer_def recover_signer_def is_high_s_def demo_context_def demo_held_def
        advance_presigned_def live_claim_def presigned_next_def Let_def demo_defs)
  moreover have "lane_voucher 10 demo_lane (sv_voucher (demo_voucher 10 1048576 355))"
    by (simp add: lane_voucher_def wire_voucher_def quoted_price_def demo_defs)
  ultimately show ?thesis
    by (intro lane_reachable.step [OF lane_reachable.fresh [OF demo_lane_fresh]] lane_step.accept)
qed

definition demo_watermark :: watermark_bundle where
  "demo_watermark =
     \<lparr>wb_amount = 10, wb_bytes_delivered = 1048576, wb_chain_root = 355, wb_verified_index = 0, wb_tip = 355,
      wb_chunk_price = 10, wb_last_signature = replicate 45 0 @ to_be_bytes 20 (7 :: address)\<rparr>"

lemma demo_watermark_attached: "watermark_bundle_for_reject reject_reason.Underpaid demo_held = Some demo_watermark"
proof -
  have "u64_try_from 10 = Some 10" "u64_try_from 1048576 = Some 1048576"
    by (simp_all add: u64_try_from_def)
  then show ?thesis
    by (simp add: watermark_bundle_for_reject_def is_watermark_gated_def demo_held_eq demo_watermark_def opened_def)
qed

definition demo_metering :: pool_ledger where
  "demo_metering = (PoolLedger_new Cumulative_default)\<lparr>lg_epoch := Some ((open_epoch demo_keccak 100 10)\<lparr>ce_released := 0\<rparr>)\<rparr>"

subsection \<open>Properties\<close>

text \<open>
  C13. A heal brings payer and node back in step. The bundle a node's handler attaches to a
  watermark-gated rejection of a lane passes the client's own authentication, whatever the ledger
  holds; it reads as exactly the lane's claim; and if the client heals by moving its ledger (a
  reseed or a rebase), the healed ledger matches the node's lane, so the next proofs are taken.
\<close>

theorem heal_restores_sync:
  assumes "context_ok C" and "own_lane C s"
    and "lane_reachable (pc_alloy C) (pc_voucher_domain C) (pc_keccak C) rate s"
    and "watermark_bundle_for_reject reason s = Some b"
    and "err = UpstreamVoucherRejected \<lparr>uvr_reason = reason, uvr_bundle = Some b, uvr_proof_generation = g\<rparr>"
  shows "rejection_watermark C err = Some \<lparr>c_bytes = owed_bytes s, c_amount = owed s\<rparr> \<and>
     (c_amount (committed L) < owed s \<longrightarrow>
        fst (heal_watermark_desync err \<lparr>c_bytes = owed_bytes s, c_amount = owed s\<rparr> L) = Some Reseeded) \<and>
     (\<forall>h L'. heal_watermark_desync err \<lparr>c_bytes = owed_bytes s, c_amount = owed s\<rparr> L = (Some h, L') \<and> h \<noteq> HealStale \<longrightarrow>
        in_sync (pc_keccak C) rate L' s)"
proof (intro conjI impI allI)
  note inv = lane_reachable_inv [OF assms(3)]
  show "rejection_watermark C err = Some \<lparr>c_bytes = owed_bytes s, c_amount = owed s\<rparr>"
    using bundle_authenticates [OF assms(1,2) inv assms(4), of g] bundle_cumulative [OF assms(4)]
    by (simp add: rejection_watermark_def assms(5))
next
  assume "c_amount (committed L) < owed s"
  then show "fst (heal_watermark_desync err \<lparr>c_bytes = owed_bytes s, c_amount = owed s\<rparr> L) = Some Reseeded"
    by (auto simp: heal_watermark_desync_def reseed_def dest: leD)
next
  fix h L'
  assume "heal_watermark_desync err \<lparr>c_bytes = owed_bytes s, c_amount = owed s\<rparr> L = (Some h, L') \<and> h \<noteq> HealStale"
  with heal_moves show "in_sync (pc_keccak C) rate L' s"
    by (intro healed_in_sync lane_reachable_root_zero [OF assms(3)]) blast+
qed


theorem heal_restores_sync_witness:
  "\<exists>L'. heal_watermark_desync
       (UpstreamVoucherRejected \<lparr>uvr_reason = reject_reason.Underpaid, uvr_bundle = Some demo_watermark, uvr_proof_generation = None\<rparr>)
       \<lparr>c_bytes = 1048576, c_amount = 10\<rparr> (PoolLedger_new Cumulative_default) = (Some Reseeded, L') \<and>
     in_sync demo_keccak 10 L' demo_held"
proof -
  let ?L = "PoolLedger_new Cumulative_default"
  have own: "own_lane demo_context demo_held"
    by (simp add: own_lane_def demo_held_eq demo_context_def demo_lane_def hydrate_def)
  have o: "owed_bytes demo_held = 1048576" "owed demo_held = 10"
    by (simp_all add: owed_def owed_bytes_def live_claim_def claim_value_def claim_bytes_value_def accrued_def
        accrued_bytes_def opened_def demo_held_eq)
  have "c_amount (committed ?L) < owed demo_held"
    by (simp add: o PoolLedger_new_def committed_def pl_owed_def cum_plus_def Cumulative_default_def)
  with heal_restores_sync [OF demo_context_ok own demo_held_reachable demo_watermark_attached refl, of None ?L]
  show ?thesis
    by (cases "heal_watermark_desync
        (UpstreamVoucherRejected \<lparr>uvr_reason = reject_reason.Underpaid, uvr_bundle = Some demo_watermark, uvr_proof_generation = None\<rparr>)
        \<lparr>c_bytes = 1048576, c_amount = 10\<rparr> ?L") (auto simp: o demo_context_def)
qed

text \<open>
  A refused voucher is taken back whole. When the last thing a lane did was to issue a voucher
  and the node refuses it, reading the rejection restores the anchor, the accrual the voucher had
  folded and the chain it had displaced, so the ledger states the same claim as before.
\<close>

theorem rejected_voucher_rewinds:
  assumes "issue_stamped keccak seed delta rate action ex L w = (Inr (nxt, g), L', w')"
    and "sm_last_proof m = Some (StreamVoucher (c_amount nxt) g)" and "refuses_proof reason"
    and "voucher_rejection m (VoucherRejected reason bundle) L' = (err, L'')"
  shows "lg_epoch L'' = lg_epoch L \<and> pl_committed (lg_pipeline L'') = pl_committed (lg_pipeline L) \<and>
     pl_accrued (lg_pipeline L'') = pl_accrued (lg_pipeline L) \<and> committed L'' = committed L"
proof -
  obtain commit L1 where arm: "issue_arm keccak seed delta rate action L = (nxt, commit, L1)" "L' = issue_commit nxt L1"
    using assms(1) by (rule issue_stamped_Inr)
  obtain ok where "resolve_reject (StreamVoucher (c_amount nxt) g) L' = (ok, L'')"
    using assms(2-4) by (cases "resolve_reject (StreamVoucher (c_amount nxt) g) L'") (auto simp: voucher_rejection_def)
  from reject_voucher_undoes [OF arm(1) this [unfolded arm(2)]] show ?thesis
    by (simp add: committed_def pl_owed_def)
qed

theorem rejected_voucher_rewinds_witness:
  "\<exists>nxt g L' err L''. issue_stamped demo_keccak 100 1048576 10 Open (\<lambda>_ _ w. (Inr () :: pull_error + unit, w)) (PoolLedger_new Cumulative_default) ()
       = (Inr (nxt, g), L', ()) \<and>
     voucher_rejection \<lparr>sm_anchored_root = None, sm_last_proof = Some (StreamVoucher (c_amount nxt) g)\<rparr>
       (VoucherRejected reject_reason.Underpaid None) L' = (err, L'') \<and>
     c_amount (committed L') = 10 \<and> committed L'' = Cumulative_default"
proof -
  let ?L = "PoolLedger_new Cumulative_default"
  obtain nxt g L' where i: "issue_stamped demo_keccak 100 1048576 10 Open (\<lambda>_ _ w. (Inr () :: pull_error + unit, w)) ?L () = (Inr (nxt, g), L', ())"
    by (cases "issue_arm demo_keccak 100 1048576 10 Open ?L") (simp add: issue_stamped_def Let_def)
  obtain commit L1 where arm: "issue_arm demo_keccak 100 1048576 10 Open ?L = (nxt, commit, L1)" "L' = issue_commit nxt L1"
    using i by (rule issue_stamped_Inr)
  have c0: "settlement ?L = Cumulative_default" "committed ?L = Cumulative_default"
    by (simp_all add: settlement_def pl_settlement_def committed_def pl_owed_def PoolLedger_new_def Let_def)
  have "unat (c_amount (next_voucher Cumulative_default 1048576 10)) = 10"
    using next_voucher_nat(1) [of Cumulative_default 1048576 10] by (simp add: Cumulative_default_def)
  then have "c_amount nxt = 10"
    using issued_pipeline(1) [OF arm(1)] c0 by (simp add: word_unat_eq_iff)
  then have ten: "c_amount (committed L') = 10"
    using issued_pipeline(2,3) [OF arm(1)] by (simp add: arm(2) committed_def pl_owed_def cum_plus_def Cumulative_default_def)
  let ?m = "\<lparr>sm_anchored_root = None, sm_last_proof = Some (StreamVoucher (c_amount nxt) g)\<rparr>"
  obtain err L'' where r: "voucher_rejection ?m (VoucherRejected reject_reason.Underpaid None) L' = (err, L'')" by fastforce
  from rejected_voucher_rewinds [OF i, of ?m reject_reason.Underpaid, OF _ _ r]
  have "committed L'' = Cumulative_default" by (simp add: c0)
  with i ten r show ?thesis by blast
qed

text \<open>
  A refused preimage is taken back whole: when the last thing a lane did was to release a
  preimage and the node refuses it, reading the rejection takes back one chunk on both axes and
  frees the index, so the next release reveals the same preimage again.
\<close>

theorem rejected_reveal_rewinds:
  assumes "meter anchored ex L w = (Inr (Released r), L', w')" and "lg_epoch L = Some e"
    and "sm_last_proof m = Some (StreamReveal (rl_chain_root r) (rl_index r))" and "refuses_proof reason"
    and "voucher_rejection m (VoucherRejected reason bundle) L' = (err, L'')"
    and "unat (c_amount (pl_accrued (lg_pipeline L))) + unat (ce_chunk_price e) < 2 ^ 256"
    and "unat (c_bytes (pl_accrued (lg_pipeline L))) + 1048576 < 2 ^ 256"
  shows "lg_epoch L'' = lg_epoch L \<and> committed L'' = committed L \<and> meter_next anchored L'' = meter_next anchored L"
proof -
  obtain e' where e: "lg_epoch L = Some e'" "rl_chain_root r = epoch_root e'" "rl_index r = ce_released e' + 1"
      "ce_released e' < MAX_CHAIN_LENGTH" "L' = meter_commit r (ce_chunk_price e') L"
    using assms(1) by (rule meter_Released)
  obtain ok where "resolve_reject (StreamReveal (rl_chain_root r) (rl_index r)) L' = (ok, L'')"
    using assms(3-5) by (cases "resolve_reject (StreamReveal (rl_chain_root r) (rl_index r)) L'") (auto simp: voucher_rejection_def)
  then have "lg_epoch L'' = lg_epoch L \<and> pl_committed (lg_pipeline L'') = pl_committed (lg_pipeline L) \<and>
      pl_accrued (lg_pipeline L'') = pl_accrued (lg_pipeline L)"
    using reject_reveal_undoes [OF e(1-4), of ok L''] assms(2,6,7) e(1,5) by simp
  then show ?thesis by (simp add: committed_def pl_owed_def meter_next_def)
qed

theorem rejected_reveal_rewinds_witness:
  "\<exists>r L' err L''. meter (Some 355) (\<lambda>_ w. (Inr () :: pull_error + unit, w)) demo_metering () = (Inr (Released r), L', ()) \<and>
     voucher_rejection \<lparr>sm_anchored_root = Some 355, sm_last_proof = Some (StreamReveal (rl_chain_root r) (rl_index r))\<rparr>
       (VoucherRejected reject_reason.BadPreimage None) L' = (err, L'') \<and>
     rl_index r = 1 \<and> committed L'' = Cumulative_default \<and> lg_epoch L'' = lg_epoch demo_metering"
proof -
  let ?e = "(open_epoch demo_keccak 100 10)\<lparr>ce_released := 0\<rparr>"
  have root: "epoch_root ?e = 355"
    using demo_seed_root [of 0] by (simp add: seed_root_def demo_context_def)
  have "meter_next (Some 355) demo_metering
      = (Released \<lparr>rl_preimage = preimage_at demo_keccak 100 1, rl_index = 1, rl_chain_root = 355\<rparr>, 10)"
    using root by (simp add: meter_next_def demo_metering_def next_index_def MAX_CHAIN_LENGTH_def)
  then obtain r L' where m: "meter (Some 355) (\<lambda>_ w. (Inr () :: pull_error + unit, w)) demo_metering () = (Inr (Released r), L', ())" "rl_index r = 1"
    by (auto simp: meter_def)
  let ?m = "\<lparr>sm_anchored_root = Some 355, sm_last_proof = Some (StreamReveal (rl_chain_root r) (rl_index r))\<rparr>"
  obtain err L'' where v: "voucher_rejection ?m (VoucherRejected reject_reason.BadPreimage None) L' = (err, L'')" by fastforce
  have "lg_epoch demo_metering = Some ?e" "committed demo_metering = Cumulative_default"
      "unat (c_amount (pl_accrued (lg_pipeline demo_metering))) + unat (ce_chunk_price ?e) < 2 ^ 256"
      "unat (c_bytes (pl_accrued (lg_pipeline demo_metering))) + 1048576 < 2 ^ 256"
    by (simp_all add: demo_metering_def PoolLedger_new_def committed_def pl_owed_def Cumulative_default_def cum_plus_def)
  with rejected_reveal_rewinds [OF m(1) this(1), of ?m reject_reason.BadPreimage, OF _ _ v]
  have "lg_epoch L'' = lg_epoch demo_metering \<and> committed L'' = Cumulative_default" by simp
  with m v show ?thesis by blast
qed

text \<open>
  C15. A reseed does not survive a voucher that is being sent. \<open>reseed\<close> takes no issuance lock, so
  it can run between the two halves of an issue on another stream; the issue then commits the older
  voucher over it, and the ledger falls back below the watermark the node proved.
\<close>

theorem reseed_during_issue_lost:
  assumes "issue_arm keccak seed delta rate action L = (nxt, commit, L1)" and "reseed cum L1 = (True, L2)"
    and "c_amount nxt < c_amount cum"
  shows "c_amount (committed L2) = c_amount cum \<and> c_amount (committed (issue_commit nxt L2)) = c_amount nxt \<and>
     c_amount (committed (issue_commit nxt L2)) < c_amount (committed L2)"
proof -
  have "c_amount (committed L2) = c_amount cum"
    using reseed_healed [OF assms(2)] by (simp add: committed_def pl_owed_def cum_plus_def Cumulative_default_def)
  moreover have "committed (issue_commit nxt L2) = nxt"
    by (simp add: committed_def pl_owed_def cum_plus_def issue_commit_def Let_def Cumulative_default_def)
  ultimately show ?thesis using assms(3) by simp
qed


theorem reseed_during_issue_lost_witness:
  "\<exists>nxt commit L1 L2. issue_arm demo_keccak 100 1048576 10 Open (PoolLedger_new Cumulative_default) = (nxt, commit, L1) \<and>
     reseed \<lparr>c_bytes = 5242880, c_amount = 50\<rparr> L1 = (True, L2) \<and> c_amount (committed L2) = 50 \<and>
     c_amount (committed (issue_commit nxt L2)) = 10"
proof -
  let ?L = "PoolLedger_new Cumulative_default" and ?w = "\<lparr>c_bytes = 5242880, c_amount = 50\<rparr> :: cumulative"
  obtain nxt commit L1 where arm: "issue_arm demo_keccak 100 1048576 10 Open ?L = (nxt, commit, L1)" by (metis prod.exhaust)
  have "settlement ?L = Cumulative_default"
    by (simp add: settlement_def pl_settlement_def pl_owed_def PoolLedger_new_def Let_def)
  then have "unat (c_amount nxt) = 10"
    using next_voucher_nat(1) [of Cumulative_default 1048576 10] issued_pipeline(1) [OF arm]
    by (simp add: Cumulative_default_def)
  then have n: "c_amount nxt = 10" by (simp add: word_unat_eq_iff)
  have "committed L1 = Cumulative_default"
    using issue_arm_displaces [OF arm] by (simp add: committed_def pl_owed_def PoolLedger_new_def)
  then obtain L2 where r: "reseed ?w L1 = (True, L2)"
    by (auto simp: reseed_def Cumulative_default_def)
  from reseed_during_issue_lost [OF arm r] n arm r show ?thesis by auto
qed

end
