(* ===== verification/Unpaid_Spans.thy ===== *)
theory Unpaid_Spans
  imports Buyer_Ledger "HOL-Library.Product_Lexorder"
begin

text \<open>
  The spans of a blob that a lane delivered and did not pay for (\<open>src/crates/client/src/ledger.rs\<close>):
  noting a span, merging spans into disjoint ranges, and taking back the spans of one blob. A list
  of ranges is read as the set of byte positions it covers; merging and taking keep that set.
\<close>

subsection \<open>Merging\<close>

type_synonym span = "u64 \<times> u64"

fun merge_push :: "span \<Rightarrow> span list \<Rightarrow> span list" where
  "merge_push (start, stop) ((s0, e0) # merged) =
     (if start \<le> e0 then (s0, max e0 stop) # merged else (start, stop) # (s0, e0) # merged)"
| "merge_push (start, stop) [] = [(start, stop)]"

definition merge_spans :: "span list \<Rightarrow> span list" where
  "merge_spans spans =
     map (\<lambda>(start, stop). (start, stop - start))
       (rev (fold merge_push (sort (filter (\<lambda>(start, stop). start < stop) spans)) []))"

subsection \<open>The ledger's unpaid spans\<close>

definition note_unpaid :: "b256 \<Rightarrow> u64 \<Rightarrow> u64 \<Rightarrow> pool_ledger \<Rightarrow> pool_ledger" where
  "note_unpaid hash start stop L =
     (if stop \<le> start then L else L\<lparr>lg_unpaid := lg_unpaid L @ [(hash, start, stop)]\<rparr>)"

definition take_unpaid :: "b256 \<Rightarrow> pool_ledger \<Rightarrow> span list \<times> pool_ledger" where
  "take_unpaid hash L =
     (merge_spans (map snd (filter (\<lambda>(h, _). h = hash) (lg_unpaid L))),
      L\<lparr>lg_unpaid := filter (\<lambda>(h, _). h \<noteq> hash) (lg_unpaid L)\<rparr>)"

definition take_unpaid_within :: "b256 \<Rightarrow> u64 \<Rightarrow> u64 \<Rightarrow> pool_ledger \<Rightarrow> span list \<times> pool_ledger" where
  "take_unpaid_within hash start stop L =
     (let inside = (\<lambda>(h, s, e). h = hash \<and> start \<le> s \<and> e \<le> stop) in
      (merge_spans (map snd (filter inside (lg_unpaid L))),
       L\<lparr>lg_unpaid := filter (\<lambda>x. \<not> inside x) (lg_unpaid L)\<rparr>))"

subsection \<open>What a lane can prove\<close>

record proved_frontier =
  pf_anchor :: cumulative
  pf_baseline :: cumulative
  pf_reveal :: "released option"

definition ledger_proved_frontier :: "pool_ledger \<Rightarrow> proved_frontier" where
  "ledger_proved_frontier L =
     \<lparr>pf_anchor = pl_committed (lg_pipeline L), pf_baseline = pl_baseline (lg_pipeline L),
      pf_reveal =
        (case lg_epoch L of
           None \<Rightarrow> None
         | Some live \<Rightarrow>
             if ce_released live = 0 then None
             else map_option (\<lambda>p. \<lparr>rl_preimage = p, rl_index = ce_released live, rl_chain_root = epoch_root live\<rparr>)
                    (epoch_preimage live (ce_released live)))\<rparr>"

subsection \<open>Spans as sets of bytes\<close>

definition span_bytes :: "span list \<Rightarrow> nat set" where
  "span_bytes spans = (\<Union>(s, e) \<in> set spans. {unat s..<unat e})"

definition range_bytes :: "span list \<Rightarrow> nat set" where
  "range_bytes ranges = (\<Union>(s, n) \<in> set ranges. {unat s..<unat s + unat n})"

definition unpaid_bytes :: "pool_ledger \<Rightarrow> b256 \<Rightarrow> nat set" where
  "unpaid_bytes L hash = span_bytes (map snd (filter (\<lambda>(h, _). h = hash) (lg_unpaid L)))"

text \<open>
  The merged list, newest first, as the loop keeps it: non-empty spans, each a gap below the one
  pushed after it.
\<close>

definition gapped :: "span list \<Rightarrow> bool" where
  "gapped ms \<longleftrightarrow> (\<forall>(s, e) \<in> set ms. s < e) \<and> sorted_wrt (\<lambda>(s, e) (s', e'). e' < s) ms"

lemma span_bytes_simps [simp]:
  "span_bytes [] = {}" "span_bytes ((s, e) # ms) = {unat s..<unat e} \<union> span_bytes ms"
  "span_bytes (xs @ ys) = span_bytes xs \<union> span_bytes ys" "span_bytes (rev xs) = span_bytes xs"
  by (auto simp: span_bytes_def)

lemma span_bytes_set: "set xs = set ys \<Longrightarrow> span_bytes xs = span_bytes ys"
  by (simp add: span_bytes_def)

lemma span_bytes_filter: "span_bytes (filter (\<lambda>(s, e). s < e) spans) = span_bytes spans"
proof (induction spans)
  case (Cons sp spans)
  obtain s e where sp: "sp = (s, e)" by fastforce
  have "{unat s..<unat e} = {}" if "\<not> s < e" using that by (simp add: word_less_nat_alt)
  with Cons sp show ?case by (cases "s < e") simp_all
qed simp

lemma gapped_Cons: "gapped ((s, e) # ms) \<longleftrightarrow> s < e \<and> (\<forall>(s', e') \<in> set ms. e' < s) \<and> gapped ms"
  by (auto simp: gapped_def)

lemma merge_push_ok:
  assumes "gapped ms" and "fst sp < snd sp" and "\<And>m. m \<in> set ms \<Longrightarrow> fst m \<le> fst sp"
  shows "gapped (merge_push sp ms) \<and> span_bytes (merge_push sp ms) = span_bytes (sp # ms) \<and>
     (\<forall>m \<in> set (merge_push sp ms). fst m \<le> fst sp)"
proof (cases ms)
  case Nil
  with assms(2) show ?thesis by (cases sp) (simp add: gapped_def)
next
  case (Cons m0 ms')
  obtain start stop s0 e0 where sp: "sp = (start, stop)" and m0: "m0 = (s0, e0)" by fastforce
  have g: "s0 < e0" "\<forall>(s', e') \<in> set ms'. e' < s0" "gapped ms'" "s0 \<le> start" "start < stop"
    using assms(1,2) assms(3) [of m0] Cons sp m0 by (auto simp: gapped_Cons)
  have low: "fst m \<le> start" if "m \<in> set ms'" for m using assms(3) [of m] that Cons sp by simp
  show ?thesis
  proof (cases "start \<le> e0")
    case True
    have "{unat s0..<unat (max e0 stop)} = {unat start..<unat stop} \<union> {unat s0..<unat e0}"
      using True g(1,4,5) by (auto simp: max_def word_order_nat)
    moreover have "s0 < max e0 stop" using g(1) by (simp add: less_max_iff_disj)
    ultimately show ?thesis using True g low by (simp add: sp m0 Cons gapped_Cons Un_assoc)
  next
    case False
    have "e' < start" if "(s', e') \<in> set ms'" for s' e'
      using g(2,4) that by (fastforce intro: less_le_trans)
    with False g low show ?thesis by (auto simp: sp m0 Cons gapped_Cons)
  qed
qed

lemma fold_merge_push:
  assumes "sorted sps" and "\<forall>(s, e) \<in> set sps. s < e" and "gapped ms"
    and "\<And>m sp. m \<in> set ms \<Longrightarrow> sp \<in> set sps \<Longrightarrow> fst m \<le> fst sp"
  shows "gapped (fold merge_push sps ms) \<and> span_bytes (fold merge_push sps ms) = span_bytes sps \<union> span_bytes ms"
  using assms
proof (induction sps arbitrary: ms)
  case (Cons sp sps)
  have sp: "fst sp < snd sp" and low: "m \<in> set ms \<Longrightarrow> fst m \<le> fst sp" for m
    using Cons.prems(2,4) by auto
  note step = merge_push_ok [OF Cons.prems(3) sp low]
  have below: "fst m \<le> fst sp" if "m \<in> set (merge_push sp ms)" for m using step that by blast
  have up: "fst sp \<le> fst sp'" if "sp' \<in> set sps" for sp'
    using Cons.prems(1) that by (auto simp: less_eq_prod_def)
  have "gapped (fold merge_push sps (merge_push sp ms)) \<and>
      span_bytes (fold merge_push sps (merge_push sp ms)) = span_bytes sps \<union> span_bytes (merge_push sp ms)"
    using Cons.prems(1,2) step order_trans [OF below up] by (intro Cons.IH) auto
  then show ?case using step by (cases sp) auto
qed simp

lemma merge_spans_gapped:
  obtains ms where "gapped ms" "merge_spans spans = map (\<lambda>(s, e). (s, e - s)) (rev ms)" "span_bytes ms = span_bytes spans"
proof -
  let ?sps = "sort (filter (\<lambda>(s, e). s < e) spans)"
  have "gapped (fold merge_push ?sps []) \<and> span_bytes (fold merge_push ?sps []) = span_bytes ?sps \<union> span_bytes []"
    by (rule fold_merge_push) (auto simp: gapped_def)
  moreover have "span_bytes ?sps = span_bytes spans"
    using span_bytes_set [of ?sps "filter (\<lambda>(s, e). s < e) spans"] by (simp add: span_bytes_filter)
  ultimately show ?thesis using that [of "fold merge_push ?sps []"] by (simp add: merge_spans_def)
qed


subsection \<open>Ranges\<close>

lemma range_bytes_gapped: "gapped ms \<Longrightarrow> range_bytes (map (\<lambda>(s, e). (s, e - s)) (rev ms)) = span_bytes ms"
proof (induction ms)
  case (Cons m ms)
  obtain s e where m: "m = (s, e)" by fastforce
  have "unat s + unat (e - s) = unat e"
    using Cons.prems m by (simp add: gapped_Cons unat_sub_exact word_order_nat)
  with Cons m show ?case by (auto simp: range_bytes_def gapped_Cons)
qed (simp add: range_bytes_def)

lemma merge_spans_bytes: "range_bytes (merge_spans spans) = span_bytes spans"
  by (rule merge_spans_gapped [of spans]) (simp add: range_bytes_gapped)

lemma gapped_ranges:
  assumes "gapped ms"
  shows "sorted_wrt (\<lambda>(s, n) (s', n'). unat s + unat n < unat s') (map (\<lambda>(s, e). (s, e - s)) (rev ms))"
  using assms
proof (induction ms)
  case (Cons m ms)
  obtain s e where m: "m = (s, e)" by fastforce
  have "unat s' + unat (e' - s') < unat s" if "(s', e') \<in> set ms" for s' e'
  proof -
    have "s' < e'" "e' < s" using Cons.prems m that by (auto simp: gapped_def)
    then show ?thesis by (simp add: unat_sub_exact word_order_nat)
  qed
  with Cons m show ?case by (auto simp: gapped_Cons sorted_wrt_append)
qed simp

lemma range_bytes_Cons: "range_bytes ((s, n) # rs) = {unat s..<unat s + unat n} \<union> range_bytes rs"
  by (auto simp: range_bytes_def)

lemma ranges_total:
  assumes "sorted_wrt (\<lambda>(s, n) (s', n'). unat s + unat n < unat s') rs"
  shows "(\<Sum>(s, n) \<leftarrow> rs. unat n) = card (range_bytes rs) \<and> finite (range_bytes rs)"
  using assms
proof (induction rs)
  case (Cons r rs)
  obtain s n where r: "r = (s, n)" by fastforce
  have "{unat s..<unat s + unat n} \<inter> range_bytes rs = {}"
    using Cons.prems r by (fastforce simp: range_bytes_def)
  with Cons r show ?case by (simp add: range_bytes_Cons card_Un_disjoint)
qed (simp add: range_bytes_def)

lemma mem_taken:
  "x \<in> span_bytes (map snd (filter p us)) \<longleftrightarrow> (\<exists>h s e. (h, s, e) \<in> set us \<and> p (h, s, e) \<and> unat s \<le> x \<and> x < unat e)"
  by (fastforce simp: span_bytes_def)

lemma mem_unpaid:
  "x \<in> unpaid_bytes L hash \<longleftrightarrow> (\<exists>s e. (hash, s, e) \<in> set (lg_unpaid L) \<and> unat s \<le> x \<and> x < unat e)"
  by (simp add: unpaid_bytes_def mem_taken)

lemma unpaid_split:
  assumes "\<And>h s e. p (h, s, e) \<Longrightarrow> h = hash"
  shows "unpaid_bytes L hash = span_bytes (map snd (filter p (lg_unpaid L))) \<union>
      unpaid_bytes (L\<lparr>lg_unpaid := filter (\<lambda>u. \<not> p u) (lg_unpaid L)\<rparr>) hash" (is "?A = ?B \<union> ?C")
    and "h' \<noteq> hash \<Longrightarrow> unpaid_bytes (L\<lparr>lg_unpaid := filter (\<lambda>u. \<not> p u) (lg_unpaid L)\<rparr>) h' = unpaid_bytes L h'"
proof -
  have "x \<in> ?A \<longleftrightarrow> x \<in> ?B \<or> x \<in> ?C" for x
    by (simp add: mem_taken mem_unpaid) (use assms in blast)
  then show "?A = ?B \<union> ?C" by blast
  assume "h' \<noteq> hash"
  then have "x \<in> unpaid_bytes (L\<lparr>lg_unpaid := filter (\<lambda>u. \<not> p u) (lg_unpaid L)\<rparr>) h' \<longleftrightarrow> x \<in> unpaid_bytes L h'" for x
    by (simp add: mem_unpaid) (use assms in blast)
  then show "unpaid_bytes (L\<lparr>lg_unpaid := filter (\<lambda>u. \<not> p u) (lg_unpaid L)\<rparr>) h' = unpaid_bytes L h'" by blast
qed

subsection \<open>Properties\<close>

text \<open>
  Merging bills each byte once: the ranges \<open>merge_spans\<close> returns cover exactly the bytes of the
  spans it was given, in ascending order with a gap between any two, so that their lengths add up
  to the number of distinct bytes, however the spans overlapped.
\<close>

theorem merge_spans_bills_once:
  "range_bytes (merge_spans spans) = span_bytes spans \<and>
   sorted_wrt (\<lambda>(s, n) (s', n'). unat s + unat n < unat s') (merge_spans spans) \<and>
   (\<Sum>(s, n) \<leftarrow> merge_spans spans. unat n) = card (span_bytes spans)"
proof -
  have sorted: "sorted_wrt (\<lambda>(s, n) (s', n'). unat s + unat n < unat s') (merge_spans spans)"
    by (rule merge_spans_gapped [of spans]) (simp add: gapped_ranges)
  from ranges_total [OF this] sorted show ?thesis by (simp add: merge_spans_bytes)
qed

text \<open>
  Taking unpaid spans loses and invents nothing. The bytes owed for a blob before
  \<open>take_unpaid_within\<close> are those it returns, all inside the range, together with those still owed
  after it; no span inside the range stays behind, and other blobs are untouched.
\<close>

theorem take_unpaid_conserves:
  assumes "take_unpaid_within hash start stop L = (ranges, L')"
  shows "unpaid_bytes L hash = range_bytes ranges \<union> unpaid_bytes L' hash \<and>
     range_bytes ranges \<subseteq> {unat start..<unat stop} \<and>
     (\<forall>(h, s, e) \<in> set (lg_unpaid L'). h = hash \<longrightarrow> \<not> (start \<le> s \<and> e \<le> stop)) \<and>
     (\<forall>h'. h' \<noteq> hash \<longrightarrow> unpaid_bytes L' h' = unpaid_bytes L h')"
proof -
  let ?p = "\<lambda>(h, s, e). h = hash \<and> start \<le> s \<and> e \<le> stop"
  have r: "ranges = merge_spans (map snd (filter ?p (lg_unpaid L)))"
    and L': "L' = L\<lparr>lg_unpaid := filter (\<lambda>x. \<not> ?p x) (lg_unpaid L)\<rparr>"
    using assms by (simp_all add: take_unpaid_within_def Let_def)
  have split: "unpaid_bytes L hash = span_bytes (map snd (filter ?p (lg_unpaid L))) \<union> unpaid_bytes L' hash"
      "h' \<noteq> hash \<Longrightarrow> unpaid_bytes L' h' = unpaid_bytes L h'" for h'
    unfolding L' by (rule unpaid_split; simp)+
  have "range_bytes ranges \<subseteq> {unat start..<unat stop}"
    by (auto simp: r merge_spans_bytes span_bytes_def word_le_nat_alt)
  moreover have "\<forall>(h, s, e) \<in> set (lg_unpaid L'). h = hash \<longrightarrow> \<not> (start \<le> s \<and> e \<le> stop)"
    by (auto simp: L')
  ultimately show ?thesis using split by (simp add: r merge_spans_bytes)
qed

theorem take_unpaid_conserves_witness:
  "\<exists>ranges L'. take_unpaid_within 9 0 100 (note_unpaid 9 30 60 (note_unpaid 9 10 40 (PoolLedger_new Cumulative_default))) = (ranges, L') \<and>
     range_bytes ranges = {10..<60} \<and> unpaid_bytes L' 9 = {}"
proof -
  let ?L = "note_unpaid 9 30 60 (note_unpaid 9 10 40 (PoolLedger_new Cumulative_default))"
  obtain ranges L' where t: "take_unpaid_within 9 0 100 ?L = (ranges, L')" by fastforce
  have "lg_unpaid ?L = [(9, 10, 40), (9, 30, 60)]" by (simp add: note_unpaid_def PoolLedger_new_def)
  then have before: "unpaid_bytes ?L 9 = {10..<60}" and after: "unpaid_bytes L' 9 = {}"
    using t by (auto simp: unpaid_bytes_def take_unpaid_within_def Let_def)
  from take_unpaid_conserves [OF t] before after t show ?thesis by auto
qed

end
