(* ===== verification/Bao_Range.thy ===== *)
theory Bao_Range
  imports Client_Handler
begin

text \<open>
  The range arithmetic that node and client share (\<open>src/crates/bao-range/src/lib.rs\<close>): widening a
  byte range to whole chunk groups and counting the bytes its verified encoding puts on the wire.

  A \<open>ChunkRanges\<close> of \<open>bao-tree\<close> is its sorted list of boundaries. The walk over the encoder's node
  set, which that library does, is a parameter of \<open>bao_encoded_size\<close>; the closed form that the code
  computes itself is compared with a count over the shape of the tree.
\<close>

subsection \<open>Aligned ranges\<close>

type_synonym chunk_ranges = "u64 list"

datatype range_verify_error =
    RangeOutOfBounds u64 u64 u64
  | OutboardSize nat nat u64
  | RangeDataSize u64 nat u64
  | Verification

record aligned_range =
  ar_fetch_start :: u64
  ar_fetch_end :: u64
  ar_chunk_ranges :: chunk_ranges
  ar_blob_size :: u64

definition full_chunks :: "u64 \<Rightarrow> u64" where
  "full_chunks bytes = bytes div 1024"

definition chunks_of :: "u64 \<Rightarrow> u64" where
  "chunks_of bytes = div_ceil bytes 1024"

definition chunk_span :: "u64 \<Rightarrow> u64 \<Rightarrow> chunk_ranges" where
  "chunk_span lo hi = (if lo < hi then [lo, hi] else [])"

definition build_aligned_range :: "u64 \<Rightarrow> u64 \<Rightarrow> u64 \<Rightarrow> aligned_range" where
  "build_aligned_range byte_offset stop blob_size =
     (let fetch_start = (byte_offset div CHUNK_GROUP_BYTES) * CHUNK_GROUP_BYTES;
          fetch_end = min (sat_mul (div_ceil stop CHUNK_GROUP_BYTES) CHUNK_GROUP_BYTES) blob_size
      in \<lparr>ar_fetch_start = fetch_start, ar_fetch_end = fetch_end,
          ar_chunk_ranges = chunk_span (full_chunks fetch_start) (chunks_of fetch_end),
          ar_blob_size = blob_size\<rparr>)"

definition range_addressable :: "u64 \<Rightarrow> u64 \<Rightarrow> u64 \<Rightarrow> bool" where
  "range_addressable byte_offset byte_len blob_size \<longleftrightarrow>
     (if blob_size = 0 then byte_offset = 0 \<and> byte_len = 0 else byte_offset < blob_size)"

definition align_range :: "u64 \<Rightarrow> u64 \<Rightarrow> u64 \<Rightarrow> range_verify_error + aligned_range" where
  "align_range byte_offset byte_len blob_size =
     (let oob = RangeOutOfBounds byte_offset byte_len blob_size in
      if \<not> range_addressable byte_offset byte_len blob_size then Inl oob
      else if byte_len = 0 then Inr (build_aligned_range byte_offset blob_size blob_size)
      else case checked_add byte_offset byte_len of
             None \<Rightarrow> Inl oob
           | Some e \<Rightarrow> if blob_size < e then Inl oob else Inr (build_aligned_range byte_offset e blob_size))"

definition align_range_clamped :: "u64 \<Rightarrow> u64 \<Rightarrow> u64 \<Rightarrow> range_verify_error + aligned_range" where
  "align_range_clamped byte_offset byte_len blob_size =
     (if \<not> range_addressable byte_offset byte_len blob_size
      then Inl (RangeOutOfBounds byte_offset byte_len blob_size)
      else let stop = (if byte_len = 0 then blob_size
                       else case checked_add byte_offset byte_len of None \<Rightarrow> blob_size | Some e \<Rightarrow> min e blob_size)
           in Inr (build_aligned_range byte_offset stop blob_size))"

definition fetch_len :: "aligned_range \<Rightarrow> u64" where
  "fetch_len r = ar_fetch_end r - ar_fetch_start r"

subsection \<open>Wire size\<close>

definition PARENT_WIRE_BYTES :: u64 where
  "PARENT_WIRE_BYTES = 64"

fun isolate_highest_one_nat :: "nat \<Rightarrow> nat" where
  "isolate_highest_one_nat n = (if n \<le> 1 then n else 2 * isolate_highest_one_nat (n div 2))"

declare isolate_highest_one_nat.simps [simp del]

definition isolate_highest_one :: "u64 \<Rightarrow> u64" where
  "isolate_highest_one w = of_nat (isolate_highest_one_nat (unat w))"

lemma isolate_highest_one_nat_bounds: "0 < n \<Longrightarrow> isolate_highest_one_nat n \<le> n \<and> n < 2 * isolate_highest_one_nat n"
  by (induction n rule: isolate_highest_one_nat.induct) (subst (1 2) isolate_highest_one_nat.simps, auto)

lemma unat_isolate_highest_one: "unat (isolate_highest_one w) = isolate_highest_one_nat (unat w)"
proof (cases "w = 0")
  case True
  then show ?thesis by (simp add: isolate_highest_one_def isolate_highest_one_nat.simps)
next
  case False
  then have "isolate_highest_one_nat (unat w) \<le> unat w"
    using isolate_highest_one_nat_bounds by (simp add: unat_gt_0)
  then show ?thesis
    using unat_below [of w] by (simp add: isolate_highest_one_def unat_of_nat)
qed

lemma left_child_bounds:
  assumes "1 < unat n"
  shows "0 < unat (isolate_highest_one (n - 1))" "unat (isolate_highest_one (n - 1)) < unat n"
    and "unat (n - isolate_highest_one (n - 1)) = unat n - unat (isolate_highest_one (n - 1))"
proof -
  have m: "unat (n - 1) = unat n - 1" using assms by (simp add: unat_sub_exact word_le_nat_alt)
  then have "0 < unat (n - 1)" using assms by simp
  from isolate_highest_one_nat_bounds [OF this] m assms
  show "0 < unat (isolate_highest_one (n - 1))" and lt: "unat (isolate_highest_one (n - 1)) < unat n"
    unfolding unat_isolate_highest_one by linarith+
  then show "unat (n - isolate_highest_one (n - 1)) = unat n - unat (isolate_highest_one (n - 1))"
    by (simp add: unat_sub_exact word_le_nat_alt)
qed

function intersecting_parents :: "u64 \<Rightarrow> u64 \<Rightarrow> u64 \<Rightarrow> u64 \<Rightarrow> u64" where
  "intersecting_parents n base a b =
     (let span_end = sat_add base n in
      if n \<le> 1 \<or> b \<le> base \<or> span_end \<le> a then 0
      else if a \<le> base \<and> span_end \<le> b then n - 1
      else let left = isolate_highest_one (n - 1) in
           sat_add (sat_add 1 (intersecting_parents left base a b))
             (intersecting_parents (n - left) (sat_add base left) a b))"
  by pat_completeness auto
termination
  by (relation "measure (\<lambda>(n, _). unat n)")
     (use left_child_bounds in \<open>auto simp: word_le_nat_alt not_le\<close>)

declare intersecting_parents.simps [simp del]

definition aligned_wire_size :: "u64 \<Rightarrow> chunk_ranges \<Rightarrow> u64 option" where
  "aligned_wire_size total_bytes chunk_ranges =
     (case chunk_ranges of
        [start, stop] \<Rightarrow>
          (let group_chunks = 16;
               total_chunks = div_ceil total_bytes 1024;
               start_on_group = (start mod group_chunks = 0);
               end_on_group = (stop mod group_chunks = 0 \<or> stop = total_chunks)
           in if \<not> start_on_group \<or> \<not> end_on_group \<or> stop \<le> start \<or> total_chunks < stop then None
              else let groups = div_ceil total_chunks group_chunks;
                       first_group = start div group_chunks;
                       end_group = div_ceil stop group_chunks;
                       data_start = sat_mul start 1024;
                       data_end = min (sat_mul stop 1024) total_bytes;
                       data = sat_sub data_end data_start;
                       parents = intersecting_parents groups 0 first_group end_group
                   in Some (sat_add data (sat_mul parents PARENT_WIRE_BYTES)))
      | _ \<Rightarrow> None)"

definition bao_encoded_size :: "(u64 \<Rightarrow> chunk_ranges \<Rightarrow> u64) \<Rightarrow> u64 \<Rightarrow> chunk_ranges \<Rightarrow> u64" where
  "bao_encoded_size walked_wire_size total_bytes chunk_ranges =
     (if total_bytes = 0 \<or> chunk_ranges = [] then 0
      else case aligned_wire_size total_bytes chunk_ranges of
             Some sz \<Rightarrow> sz
           | None \<Rightarrow> walked_wire_size total_bytes chunk_ranges)"

definition wire_len :: "(u64 \<Rightarrow> chunk_ranges \<Rightarrow> u64) \<Rightarrow> aligned_range \<Rightarrow> u64" where
  "wire_len walked r = bao_encoded_size walked (ar_blob_size r) (ar_chunk_ranges r)"


subsection \<open>The tree over chunk groups\<close>

text \<open>
  The shape the closed form counts over: bao's left-full tree of the groups \<open>base ..< base + n\<close>, and
  the parents of it that have a group of the range below them.
\<close>

datatype group_tree = Group nat | Parent group_tree group_tree

function left_full :: "nat \<Rightarrow> nat \<Rightarrow> group_tree" where
  "left_full n base =
     (if n \<le> 1 then Group base
      else let left = isolate_highest_one_nat (n - 1)
           in Parent (left_full left base) (left_full (n - left) (base + left)))"
  by pat_completeness auto
termination
proof (relation "measure fst", goal_cases)
  case (2 n base left)
  then have "0 < n - 1" by simp
  from isolate_highest_one_nat_bounds [OF this] 2 show ?case by (simp del: One_nat_def) linarith
next
  case (3 n base left)
  then have "0 < n - 1" by simp
  from isolate_highest_one_nat_bounds [OF this] 3 show ?case by simp
qed simp

declare left_full.simps [simp del]

fun tree_groups :: "group_tree \<Rightarrow> nat set" where
  "tree_groups (Group g) = {g}"
| "tree_groups (Parent l r) = tree_groups l \<union> tree_groups r"

fun parents_over :: "nat set \<Rightarrow> group_tree \<Rightarrow> nat" where
  "parents_over R (Group g) = 0"
| "parents_over R (Parent l r) =
     (if tree_groups (Parent l r) \<inter> R = {} then 0 else 1) + parents_over R l + parents_over R r"

lemma left_full_groups: "0 < n \<Longrightarrow> tree_groups (left_full n base) = {base..<base + n}"
proof (induction n base rule: left_full.induct)
  case (1 n base)
  show ?case
  proof (cases "n \<le> 1")
    case True
    with 1(3) have "n = 1" by simp
    then show ?thesis by (subst left_full.simps) simp
  next
    case False
    let ?l = "isolate_highest_one_nat (n - 1)"
    have l: "0 < ?l" "?l < n" using isolate_highest_one_nat_bounds [of "n - 1"] False by linarith+
    have "tree_groups (left_full n base) = {base..<base + ?l} \<union> {base + ?l..<base + ?l + (n - ?l)}"
      using False 1(1) [OF False refl] 1(2) [OF False refl] l
      by (subst left_full.simps) (simp add: Let_def)
    then show ?thesis using l by auto
  qed
qed

lemma parents_over_none: "tree_groups t \<inter> R = {} \<Longrightarrow> parents_over R t = 0"
  by (induction t) (auto simp: Int_Un_distrib2)

text \<open>Both counts below split the tree at its left child.\<close>

lemma left_full_split:
  assumes "1 < n"
  obtains l where "0 < l" "l < n" "l = isolate_highest_one_nat (n - 1)"
    "left_full n base = Parent (left_full l base) (left_full (n - l) (base + l))"
proof
  let ?l = "isolate_highest_one_nat (n - 1)"
  show "0 < ?l" "?l < n" using isolate_highest_one_nat_bounds [of "n - 1"] assms by linarith+
  show "left_full n base = Parent (left_full ?l base) (left_full (n - ?l) (base + ?l))"
    using assms by (subst left_full.simps) (simp add: Let_def)
qed simp

lemma left_full_one [simp]: "left_full (Suc 0) base = Group base"
  by (subst left_full.simps) simp

lemma parents_over_le: "0 < n \<Longrightarrow> parents_over R (left_full n base) \<le> n - 1"
proof (induction n arbitrary: base rule: less_induct)
  case (less n)
  show ?case
  proof (cases "n = 1")
    case False
    then have "1 < n" using less.prems by simp
    then obtain l where l: "0 < l" "l < n" "left_full n base = Parent (left_full l base) (left_full (n - l) (base + l))"
      by (rule left_full_split)
    have "parents_over R (left_full l base) \<le> l - 1" "parents_over R (left_full (n - l) (base + l)) \<le> n - l - 1"
      using l less.IH [of l base] less.IH [of "n - l" "base + l"] by simp_all
    with l show ?thesis by auto
  qed simp
qed

lemma parents_over_all:
  "0 < n \<Longrightarrow> {base..<base + n} \<subseteq> R \<Longrightarrow> parents_over R (left_full n base) = n - 1"
proof (induction n arbitrary: base rule: less_induct)
  case (less n)
  show ?case
  proof (cases "n = 1")
    case False
    then have "1 < n" using less.prems by simp
    then obtain l where l: "0 < l" "l < n" "left_full n base = Parent (left_full l base) (left_full (n - l) (base + l))"
      by (rule left_full_split)
    have sub: "{base..<base + l} \<subseteq> R" "{base + l..<base + l + (n - l)} \<subseteq> R" using less.prems(2) l by auto
    have "parents_over R (left_full l base) = l - 1" "parents_over R (left_full (n - l) (base + l)) = n - l - 1"
      using l sub less.IH [of l base] less.IH [of "n - l" "base + l"] by simp_all
    moreover have "base \<in> tree_groups (left_full n base) \<inter> R" using less.prems by (auto simp: left_full_groups)
    ultimately show ?thesis using l by auto
  qed simp
qed

lemma intersecting_parents_tree:
  assumes "0 < unat n" and "unat base + unat n < 2 ^ 64" and "a < b"
  shows "unat (intersecting_parents n base a b) = parents_over {unat a..<unat b} (left_full (unat n) (unat base))"
  using assms(1,2)
proof (induction "unat n" arbitrary: n base rule: less_induct)
  case less
  let ?R = "{unat a..<unat b}"
  have ab: "unat a < unat b" using assms(3) by (simp add: word_less_nat_alt)
  have span: "unat (sat_add base n) = unat base + unat n" using less.prems by (simp add: unat_sat_add)
  note groups = left_full_groups [OF less.prems(1), of "unat base"]
  consider (leaf) "unat n = 1" | (out) "1 < unat n" "b \<le> base \<or> sat_add base n \<le> a"
    | (inside) "1 < unat n" "\<not> (b \<le> base \<or> sat_add base n \<le> a)" "a \<le> base \<and> sat_add base n \<le> b"
    | (straddle) "1 < unat n" "\<not> (b \<le> base \<or> sat_add base n \<le> a)" "\<not> (a \<le> base \<and> sat_add base n \<le> b)"
    using less.prems(1) by linarith
  then show ?case
  proof cases
    case leaf
    then show ?thesis by (subst intersecting_parents.simps) (simp add: word_le_nat_alt Let_def)
  next
    case out
    then have "tree_groups (left_full (unat n) (unat base)) \<inter> ?R = {}"
      using span by (auto simp: groups word_le_nat_alt)
    with out show ?thesis by (subst intersecting_parents.simps) (simp add: parents_over_none Let_def)
  next
    case inside
    then have "{unat base..<unat base + unat n} \<subseteq> ?R" using span by (auto simp: word_le_nat_alt)
    with inside show ?thesis
      by (subst intersecting_parents.simps)
         (auto simp: parents_over_all Let_def unat_sub_exact word_le_nat_alt)
  next
    case straddle
    let ?l = "isolate_highest_one (n - 1)"
    note lc = left_child_bounds [OF straddle(1)]
    obtain l where l: "0 < l" "l < unat n" "l = isolate_highest_one_nat (unat n - 1)"
        "left_full (unat n) (unat base) = Parent (left_full l (unat base)) (left_full (unat n - l) (unat base + l))"
      using straddle(1) by (rule left_full_split)
    have ul: "unat ?l = l"
      using straddle(1) l(3) by (simp add: unat_isolate_highest_one unat_sub_exact word_le_nat_alt)
    have ub: "unat (sat_add base ?l) = unat base + l" using less.prems(2) l(2) ul by (simp add: unat_sat_add)
    have L: "unat (intersecting_parents ?l base a b) = parents_over ?R (left_full l (unat base))"
      using less.hyps [of ?l base] lc less.prems(2) ul l by simp
    have Rt: "unat (intersecting_parents (n - ?l) (sat_add base ?l) a b) = parents_over ?R (left_full (unat n - l) (unat base + l))"
      using less.hyps [of "n - ?l" "sat_add base ?l"] lc less.prems(2) ul ub l by simp
    have hit: "tree_groups (left_full (unat n) (unat base)) \<inter> ?R \<noteq> {}"
    proof -
      have "max (unat a) (unat base) \<in> {unat base..<unat base + unat n} \<inter> ?R"
        using straddle(2) span ab less.prems(1) by (auto simp: word_le_nat_alt)
      then show ?thesis unfolding groups by blast
    qed
    have "parents_over ?R (left_full l (unat base)) \<le> l - 1" "parents_over ?R (left_full (unat n - l) (unat base + l)) \<le> unat n - l - 1"
      using l(1,2) parents_over_le [of l] parents_over_le [of "unat n - l"] by simp_all
    then have small: "1 + parents_over ?R (left_full l (unat base)) + parents_over ?R (left_full (unat n - l) (unat base + l)) < 2 ^ 64"
      using less.prems(2) l(1,2) by linarith
    have "\<not> n \<le> 1" using straddle(1) by (simp add: word_le_nat_alt)
    then have "intersecting_parents n base a b =
        sat_add (sat_add 1 (intersecting_parents ?l base a b)) (intersecting_parents (n - ?l) (sat_add base ?l) a b)"
      using straddle(2,3) by (subst intersecting_parents.simps) (auto simp: Let_def)
    then have "unat (intersecting_parents n base a b) =
        1 + parents_over ?R (left_full l (unat base)) + parents_over ?R (left_full (unat n - l) (unat base + l))"
      using small by (simp add: unat_sat_add L Rt)
    then show ?thesis using hit l(4) by simp
  qed
qed


subsection \<open>Alignment in natural numbers\<close>

definition group_floor :: "nat \<Rightarrow> nat" where
  "group_floor x = x div 16384 * 16384"

definition group_ceil :: "nat \<Rightarrow> nat" where
  "group_ceil x = (x + 16383) div 16384 * 16384"

lemma group_floor_bounds: "group_floor x \<le> x" "x < group_floor x + 16384" "group_floor x mod 16384 = 0"
proof -
  have "x div 16384 * 16384 + x mod 16384 = x" by (rule div_mult_mod_eq)
  then show "group_floor x \<le> x" "x < group_floor x + 16384" "group_floor x mod 16384 = 0"
    using mod_less_divisor [of 16384 x] unfolding group_floor_def by (linarith, linarith, simp)
qed

lemma group_ceil_bounds: "x \<le> group_ceil x" "group_ceil x < x + 16384" "group_ceil x mod 16384 = 0"
  using group_floor_bounds [of "x + 16383"] by (simp_all add: group_ceil_def group_floor_def)

lemma unat_u64_le: "unat (w :: u64) \<le> 18446744073709551615"
  using unat_below [of w] by simp

lemma build_aligned_nat:
  shows "unat (ar_fetch_start (build_aligned_range off stop blob)) = group_floor (unat off)"
    and "unat (ar_fetch_end (build_aligned_range off stop blob)) = min (group_ceil (unat stop)) (unat blob)"
    and "ar_blob_size (build_aligned_range off stop blob) = blob"
    and "ar_chunk_ranges (build_aligned_range off stop blob)
       = chunk_span (full_chunks (ar_fetch_start (build_aligned_range off stop blob))) (chunks_of (ar_fetch_end (build_aligned_range off stop blob)))"
proof -
  have "unat (off div CHUNK_GROUP_BYTES) * unat CHUNK_GROUP_BYTES = group_floor (unat off)"
    by (simp add: unat_div_distrib CHUNK_GROUP_BYTES_def group_floor_def)
  moreover have "group_floor (unat off) < 2 ^ 64"
    using group_floor_bounds(1) [of "unat off"] unat_below [of off] by simp
  ultimately show "unat (ar_fetch_start (build_aligned_range off stop blob)) = group_floor (unat off)"
    by (simp add: build_aligned_range_def Let_def unat_mult_exact)
  have "unat (sat_mul (div_ceil stop CHUNK_GROUP_BYTES) CHUNK_GROUP_BYTES) = min (group_ceil (unat stop)) 18446744073709551615"
    by (simp add: unat_sat_mul unat_div_ceil CHUNK_GROUP_BYTES_def group_ceil_def add.commute [of 16383])
  then show "unat (ar_fetch_end (build_aligned_range off stop blob)) = min (group_ceil (unat stop)) (unat blob)"
    using unat_u64_le [of blob] by (auto simp: build_aligned_range_def Let_def min_def word_le_nat_alt)
qed (simp_all add: build_aligned_range_def Let_def)

lemma align_range_Inr:
  assumes "align_range off len blob = Inr r"
  obtains stop where "r = build_aligned_range off stop blob" "unat stop \<le> unat blob" "unat off \<le> unat stop"
    "unat stop = (if len = 0 then unat blob else unat off + unat len)" "blob \<noteq> 0 \<Longrightarrow> unat off < unat stop"
proof (cases "len = 0")
  case True
  with assms show ?thesis
    by (intro that [of blob])
       (auto simp: align_range_def range_addressable_def Let_def word_order_nat split: if_splits)
next
  case False
  with assms obtain e where e: "checked_add off len = Some e" "\<not> blob < e" "r = build_aligned_range off e blob"
    by (auto simp: align_range_def Let_def split: if_splits option.splits)
  then have "unat e = unat off + unat len" by (simp add: checked_add_Some_iff)
  moreover have "0 < unat len" using False by (simp add: unat_gt_0)
  ultimately show ?thesis using that [of e] e False by (simp add: word_less_nat_alt)
qed

lemma align_clamped_eq:
  assumes "align_range off len blob = Inr r"
  shows "align_range_clamped off len blob = Inr r"
  using assms
  by (auto simp: align_range_def align_range_clamped_def Let_def min_def split: if_splits option.splits)

subsection \<open>The closed form applies to every aligned range\<close>

lemma chunk_nat:
  "unat (full_chunks b) = unat b div 1024" "unat (chunks_of b) = (unat b + 1023) div 1024"
  by (simp_all add: full_chunks_def chunks_of_def unat_div_distrib unat_div_ceil)


lemma ceil_chunks_groups: "((b + 1023) div 1024 + 15) div 16 = (b + 16383) div (16384 :: nat)"
proof -
  have "(b + 16383) div 16384 = (b + 16383) div 1024 div 16"
    using div_mult2_eq [of "b + 16383" 1024 16] by simp
  moreover have "b + 16383 = (b + 1023) + 15 * 1024" by simp
  then have "(b + 16383) div 1024 = (b + 1023) div 1024 + 15" by (metis add.commute div_mult_self1 zero_neq_numeral)
  ultimately show ?thesis by simp
qed

lemma div_less_ceil:
  assumes "f < (e :: nat)" and "0 < d"
  shows "f div d < (e + (d - 1)) div d"
proof -
  have "(f + d) div d \<le> (e + (d - 1)) div d" using assms by (intro div_le_mono) linarith
  moreover have "(f + d) div d = f div d + 1" using assms(2) div_add_self2 [of d f] by simp
  ultimately show ?thesis by linarith
qed

lemma chunks_cover:
  fixes e b :: nat
  assumes "e \<le> b" and "e mod 16384 = 0 \<or> e = b"
  shows "((e + 1023) div 1024) mod 16 = 0 \<or> (e + 1023) div 1024 = (b + 1023) div 1024"
    and "(e + 1023) div 1024 \<le> (b + 1023) div 1024" and "min ((e + 1023) div 1024 * 1024) b = e"
proof -
  show "(e + 1023) div 1024 \<le> (b + 1023) div 1024" using assms(1) by (intro div_le_mono) simp
  have "((e + 1023) div 1024) mod 16 = 0 \<and> (e + 1023) div 1024 * 1024 = e" if "e mod 16384 = 0"
  proof -
    from that obtain q where q: "e = 16384 * q" by auto
    have "(e + 1023) div 1024 = 16 * q" unfolding q by (rule div_nat_eqI) simp_all
    then show ?thesis using q by simp
  qed
  moreover have "b \<le> (b + 1023) div 1024 * 1024"
  proof -
    have "(b + 1023) div 1024 * 1024 + (b + 1023) mod 1024 = b + 1023" by (rule div_mult_mod_eq)
    moreover have "(b + 1023) mod 1024 < 1024" by simp
    ultimately show ?thesis by linarith
  qed
  ultimately show "((e + 1023) div 1024) mod 16 = 0 \<or> (e + 1023) div 1024 = (b + 1023) div 1024"
    and "min ((e + 1023) div 1024 * 1024) b = e"
    using assms by auto
qed

lemma aligned_wire_size_closed:
  assumes F: "unat fs mod 16384 = 0" "fs < fe" and E: "fe \<le> blob" "unat fe mod 16384 = 0 \<or> fe = blob"
  shows "aligned_wire_size blob [full_chunks fs, chunks_of fe] = Some (sat_add (fe - fs)
     (sat_mul (intersecting_parents (div_ceil blob CHUNK_GROUP_BYTES) 0 (fs div CHUNK_GROUP_BYTES) (div_ceil fe CHUNK_GROUP_BYTES))
        PARENT_WIRE_BYTES))"
proof -
  let ?S = "chunks_of fe" and ?s = "full_chunks fs" and ?T = "div_ceil blob 1024"
  have E': "unat fe \<le> unat blob" "unat fe mod 16384 = 0 \<or> unat fe = unat blob"
    using E by (auto simp: word_le_nat_alt)
  note cc = chunks_cover [OF E']
  have T: "unat ?T = (unat blob + 1023) div 1024" by (simp add: unat_div_ceil)
  from F obtain q where q: "unat fs = 16384 * q" by auto
  have s: "unat ?s = 16 * q" unfolding chunk_nat q by simp
  have G: "unat CHUNK_GROUP_BYTES = 16384" by (simp add: CHUNK_GROUP_BYTES_def)
  have start: "?s mod 16 = 0" by (simp add: word_unat_eq_iff unat_mod_distrib s)
  have stop: "?S mod 16 = 0 \<or> ?S = ?T"
    using cc(1) by (auto simp: word_unat_eq_iff unat_mod_distrib chunk_nat T)
  have le: "?S \<le> ?T" using cc(2) by (simp add: word_le_nat_alt chunk_nat T)
  have lt: "?s < ?S"
    using div_less_ceil [of "unat fs" "unat fe" 1024] F(2) by (simp add: word_less_nat_alt chunk_nat)
  have groups: "div_ceil ?T 16 = div_ceil blob CHUNK_GROUP_BYTES" "div_ceil ?S 16 = div_ceil fe CHUNK_GROUP_BYTES"
    using ceil_chunks_groups [of "unat blob"] ceil_chunks_groups [of "unat fe"]
    by (simp_all add: word_unat_eq_iff unat_div_ceil T chunk_nat G add.commute [of 16383] add.commute [of 15])
  have first: "?s div 16 = fs div CHUNK_GROUP_BYTES"
    by (simp add: word_unat_eq_iff unat_div_distrib s G q)
  have ds: "sat_mul ?s 1024 = fs"
    using unat_below [of fs] by (simp add: word_unat_eq_iff unat_sat_mul s q)
  have "min (unat (sat_mul ?S 1024)) (unat blob) = unat fe"
    using cc(3) unat_u64_le [of blob] by (simp add: unat_sat_mul chunk_nat min_def split: if_splits)
  then have de: "min (sat_mul ?S 1024) blob = fe"
    by (simp add: min_def word_le_nat_alt word_unat_eq_iff split: if_splits)
  have data: "sat_sub fe fs = fe - fs"
    using F(2) by (simp add: word_unat_eq_iff unat_sat_sub unat_sub_exact word_order_nat)
  show ?thesis
    using start stop le lt by (auto simp: aligned_wire_size_def Let_def groups first ds de data not_le not_less)
qed


subsection \<open>Properties\<close>

text \<open>
  A request is widened to whole chunk groups and no further. When \<open>align_range\<close> accepts a
  request, the fetched span starts at the last group boundary at or below the offset and ends at the
  first one at or above the requested end, or at the end of the blob; the clamping variant that
  the node serves with agrees with it on every such request.
\<close>

theorem aligned_range_encloses:
  assumes "align_range off len blob = Inr r"
    and "e = (if len = 0 then unat blob else unat off + unat len)"
  shows "align_range_clamped off len blob = Inr r \<and> unat (ar_fetch_start r) mod 16384 = 0 \<and>
     unat (ar_fetch_start r) \<le> unat off \<and> unat off < unat (ar_fetch_start r) + 16384 \<and>
     e \<le> unat (ar_fetch_end r) \<and> unat (ar_fetch_end r) < e + 16384 \<and> ar_fetch_end r \<le> blob \<and>
     (unat (ar_fetch_end r) mod 16384 = 0 \<or> ar_fetch_end r = blob)"
proof -
  obtain stop where r: "r = build_aligned_range off stop blob" and le: "unat stop \<le> unat blob" and e: "unat stop = e"
    using align_range_Inr [OF assms(1)] assms(2) by metis
  note b = build_aligned_nat(1,2) [of off stop blob]
  have fe: "unat (ar_fetch_end r) = min (group_ceil e) (unat blob)" using b(2) by (simp add: r e)
  have "ar_fetch_end r = blob" if "unat (ar_fetch_end r) = unat blob" using that by (simp add: word_unat_eq_iff)
  then have "unat (ar_fetch_end r) mod 16384 = 0 \<or> ar_fetch_end r = blob"
    using fe group_ceil_bounds(3) [of e] by (auto simp: min_def split: if_splits)
  then show ?thesis
    using align_clamped_eq [OF assms(1)] b(1) fe le group_floor_bounds [of "unat off"] group_ceil_bounds [of e]
    by (simp add: r e word_le_nat_alt)
qed

theorem aligned_range_encloses_witness:
  "\<exists>r. align_range 20000 5000 100000 = Inr r \<and> unat (ar_fetch_start r) \<le> 20000 \<and> 25000 \<le> unat (ar_fetch_end r)"
proof -
  obtain r where r: "align_range 20000 5000 100000 = Inr r"
    by (simp add: align_range_def range_addressable_def checked_add_def)
  from aligned_range_encloses [OF r refl] r show ?thesis by simp
qed

text \<open>
  C16. The wire length of an aligned range is exact. For every range \<open>align_range\<close> accepts of a
  non-empty blob the closed form applies, whatever the fallback walk would return, and it counts the
  fetched bytes plus 64 bytes for each parent of bao's left-full tree that has a fetched group
  below it (saturating at the width of the counter).
\<close>

theorem wire_len_counts_tree:
  assumes "align_range off len blob = Inr r" and "blob \<noteq> 0"
  shows "unat (wire_len walked r) = min (unat (fetch_len r) + 64 *
       parents_over {unat (ar_fetch_start r) div 16384..<(unat (ar_fetch_end r) + 16383) div 16384}
         (left_full ((unat blob + 16383) div 16384) 0)) (2 ^ 64 - 1)"
proof -
  obtain stop where r: "r = build_aligned_range off stop blob" and le: "unat stop \<le> unat blob" and lt: "unat off < unat stop"
    using align_range_Inr [OF assms(1)] assms(2) by metis
  let ?fs = "ar_fetch_start r" and ?fe = "ar_fetch_end r" and ?G = CHUNK_GROUP_BYTES
  note b = build_aligned_nat(1,2) [of off stop blob, folded r]
  have G: "unat ?G = 16384" by (simp add: CHUNK_GROUP_BYTES_def)
  have F: "unat ?fs mod 16384 = 0" and "unat ?fs \<le> unat off" using group_floor_bounds [of "unat off"] b(1) by simp_all
  moreover have "unat stop \<le> unat ?fe" using b(2) le group_ceil_bounds(1) [of "unat stop"] by simp
  ultimately have fs_fe: "unat ?fs < unat ?fe" using lt by linarith
  have E: "?fe \<le> blob" "unat ?fe mod 16384 = 0 \<or> ?fe = blob"
    using b(2) group_ceil_bounds(3) [of "unat stop"]
    by (auto simp: word_le_nat_alt word_unat_eq_iff min_def split: if_splits)
  have ne: "full_chunks ?fs < chunks_of ?fe"
    using div_less_ceil [OF fs_fe, of 1024] by (simp add: word_less_nat_alt chunk_nat)
  let ?n = "div_ceil blob ?G" and ?a = "?fs div ?G" and ?z = "div_ceil ?fe ?G"
  have n: "unat ?n = (unat blob + 16383) div 16384" and a: "unat ?a = unat ?fs div 16384"
    and z: "unat ?z = (unat ?fe + 16383) div 16384"
    by (simp_all add: unat_div_ceil unat_div_distrib G add.commute [of 16383])
  have "0 < unat blob" using assms(2) by (simp add: unat_gt_0)
  then have "0 < unat ?n" unfolding n by (simp add: div_greater_zero_iff)
  moreover have "unat ?a < unat ?z" unfolding a z using div_less_ceil [OF fs_fe, of 16384] by simp
  ultimately have parents: "unat (intersecting_parents ?n 0 ?a ?z) = parents_over {unat ?a..<unat ?z} (left_full (unat ?n) 0)"
    using intersecting_parents_tree [of ?n 0 ?a ?z] unat_below [of ?n] by (simp add: word_less_nat_alt)
  have "wire_len walked r = sat_add (?fe - ?fs) (sat_mul (intersecting_parents ?n 0 ?a ?z) PARENT_WIRE_BYTES)"
    using aligned_wire_size_closed [OF F _ E] fs_fe ne assms(2) build_aligned_nat(3,4) [of off stop blob, folded r]
    by (simp add: wire_len_def bao_encoded_size_def chunk_span_def word_less_nat_alt)
  moreover have "unat PARENT_WIRE_BYTES = 64" by (simp add: PARENT_WIRE_BYTES_def)
  ultimately show ?thesis
    by (simp add: fetch_len_def unat_sat_add unat_sat_mul parents n a z min_def mult.commute)
qed

theorem wire_len_counts_tree_witness:
  "\<exists>r. align_range 20000 5000 100000 = Inr r \<and> unat (wire_len (\<lambda>_ _. 0) r) = 16384 + 64 * 3"
proof -
  obtain r where r: "align_range 20000 5000 100000 = Inr r"
    by (simp add: align_range_def range_addressable_def checked_add_def)
  then have rr: "r = build_aligned_range 20000 25000 100000"
    by (simp add: align_range_def range_addressable_def checked_add_def)
  have fs: "unat (ar_fetch_start r) = 16384" and fe: "unat (ar_fetch_end r) = 32768"
    using build_aligned_nat(1,2) [of 20000 25000 100000] by (simp_all add: rr group_floor_def group_ceil_def)
  have "unat (fetch_len r) = 16384" unfolding fetch_len_def by (simp add: unat_sub_exact word_le_nat_alt fs fe)
  moreover have "parents_over {1..<2} (left_full 7 0) = 3"
    by (simp add: left_full.simps isolate_highest_one_nat.simps Let_def)
  ultimately show ?thesis
    using wire_len_counts_tree [OF r, of "\<lambda>_ _. 0"] r by (simp add: fs fe)
qed

end
