(* ===== verification/Circuit_Breaker.thy ===== *)
theory Circuit_Breaker
  imports Decdn_Prelude
begin

text \<open>
  The per-origin circuit breaker (\<open>src/crates/cache/src/circuit_breaker.rs\<close>) and the retry loop it
  fronts (\<open>src/crates/cache/src/retry.rs\<close>). Times are nanoseconds since the clock's epoch; the
  breaker's mutex makes each call one atomic step. A guard that an admission hands out is either
  recorded or dropped; the step relation keeps the guards that are still alive, so that
  cancellations and stragglers of an earlier cycle may come at any moment.

  The jitter that \<open>delay_for\<close> applies to its base is floating-point and not modelled.
\<close>

subsection \<open>Policy and state\<close>

record breaker_policy =
  bp_enabled :: bool
  bp_failure_threshold :: u32
  bp_cooldown_ms :: u64
  bp_half_open_max_calls :: u32

definition is_active :: "breaker_policy \<Rightarrow> bool" where
  "is_active p \<longleftrightarrow> bp_enabled p \<and> 0 < bp_failure_threshold p"

definition default_policy :: breaker_policy where
  "default_policy =
     \<lparr>bp_enabled = True, bp_failure_threshold = 5, bp_cooldown_ms = 30000, bp_half_open_max_calls = 1\<rparr>"

definition resolve_circuit_breaker :: "breaker_policy option \<Rightarrow> string + breaker_policy" where
  "resolve_circuit_breaker file =
     (let p = (case file of Some p \<Rightarrow> p | None \<Rightarrow> default_policy)
      in if is_active p \<and> bp_half_open_max_calls p < 1
      then Inl ''half_open_max_calls must be >= 1 when the breaker is active'' else Inr p)"

datatype origin_outcome = Available | Unavailable

datatype breaker_phase = Closed | Open | HalfOpen

record breaker_state =
  bs_phase :: breaker_phase
  bs_consecutive_failures :: u32
  bs_opened_at :: nat
  bs_half_open_in_flight :: u32
  bs_trips :: nat
  bs_recoveries :: nat
  bs_short_circuits :: nat

record trial_guard =
  tg_attached :: bool
  tg_owns_slot :: bool

datatype admission = Proceed breaker_phase trial_guard | ShortCircuit

definition OriginBreaker_new :: breaker_state where
  "OriginBreaker_new =
     \<lparr>bs_phase = Closed, bs_consecutive_failures = 0, bs_opened_at = 0, bs_half_open_in_flight = 0,
      bs_trips = 0, bs_recoveries = 0, bs_short_circuits = 0\<rparr>"

definition inert_guard :: trial_guard where
  "inert_guard = \<lparr>tg_attached = False, tg_owns_slot = False\<rparr>"

definition closed_guard :: trial_guard where
  "closed_guard = \<lparr>tg_attached = True, tg_owns_slot = False\<rparr>"

definition slot_guard :: trial_guard where
  "slot_guard = \<lparr>tg_attached = True, tg_owns_slot = True\<rparr>"

subsection \<open>Operations\<close>

definition cooldown_elapsed :: "breaker_policy \<Rightarrow> breaker_state \<Rightarrow> nat \<Rightarrow> bool" where
  "cooldown_elapsed p st now \<longleftrightarrow> unat (bp_cooldown_ms p) * 1000000 \<le> now - bs_opened_at st"

definition breaker_open :: "nat \<Rightarrow> breaker_state \<Rightarrow> breaker_state" where
  "breaker_open now st =
     st\<lparr>bs_phase := Open, bs_opened_at := now, bs_consecutive_failures := 0, bs_half_open_in_flight := 0,
        bs_trips := Suc (bs_trips st)\<rparr>"

definition breaker_close :: "breaker_state \<Rightarrow> breaker_state" where
  "breaker_close st =
     st\<lparr>bs_phase := Closed, bs_consecutive_failures := 0, bs_half_open_in_flight := 0,
        bs_recoveries := Suc (bs_recoveries st)\<rparr>"

definition short_circuit :: "breaker_state \<Rightarrow> breaker_state" where
  "short_circuit st = st\<lparr>bs_short_circuits := Suc (bs_short_circuits st)\<rparr>"

definition acquire :: "breaker_policy \<Rightarrow> nat \<Rightarrow> breaker_state \<Rightarrow> admission \<times> breaker_state" where
  "acquire p now st =
     (if \<not> is_active p then (Proceed Closed inert_guard, st)
      else case bs_phase st of
             Closed \<Rightarrow> (Proceed Closed closed_guard, st)
           | Open \<Rightarrow>
               if cooldown_elapsed p st now
               then (Proceed HalfOpen slot_guard, st\<lparr>bs_phase := HalfOpen, bs_half_open_in_flight := 1\<rparr>)
               else (ShortCircuit, short_circuit st)
           | HalfOpen \<Rightarrow>
               if bs_half_open_in_flight st < bp_half_open_max_calls p
               then (Proceed HalfOpen slot_guard, st\<lparr>bs_half_open_in_flight := sat_add (bs_half_open_in_flight st) 1\<rparr>)
               else (ShortCircuit, short_circuit st))"

definition release_cancelled_trial :: "breaker_state \<Rightarrow> breaker_state" where
  "release_cancelled_trial st = st\<lparr>bs_half_open_in_flight := sat_sub (bs_half_open_in_flight st) 1\<rparr>"

definition record_committed :: "breaker_policy \<Rightarrow> nat \<Rightarrow> origin_outcome \<Rightarrow> breaker_state \<Rightarrow> breaker_state" where
  "record_committed p now outcome st =
     (case bs_phase st of
        Closed \<Rightarrow>
          (case outcome of
             Available \<Rightarrow> st\<lparr>bs_consecutive_failures := 0\<rparr>
           | Unavailable \<Rightarrow>
               (let st1 = st\<lparr>bs_consecutive_failures := sat_add (bs_consecutive_failures st) 1\<rparr>
                in if bp_failure_threshold p \<le> bs_consecutive_failures st1 then breaker_open now st1 else st1))
      | HalfOpen \<Rightarrow>
          (let st1 = st\<lparr>bs_half_open_in_flight := sat_sub (bs_half_open_in_flight st) 1\<rparr>
           in case outcome of Available \<Rightarrow> breaker_close st1 | Unavailable \<Rightarrow> breaker_open now st1)
      | Open \<Rightarrow> (case outcome of Unavailable \<Rightarrow> st\<lparr>bs_opened_at := now\<rparr> | Available \<Rightarrow> st))"

definition guard_record :: "breaker_policy \<Rightarrow> nat \<Rightarrow> trial_guard \<Rightarrow> origin_outcome \<Rightarrow> breaker_state \<Rightarrow> breaker_state" where
  "guard_record p now g outcome st = (if tg_attached g then record_committed p now outcome st else st)"

definition guard_drop :: "trial_guard \<Rightarrow> breaker_state \<Rightarrow> breaker_state" where
  "guard_drop g st = (if tg_owns_slot g \<and> tg_attached g then release_cancelled_trial st else st)"

subsection \<open>The retry loop\<close>

record retry_policy =
  rp_max_retries :: u32
  rp_initial_backoff_ms :: u64
  rp_max_backoff_ms :: u64

definition delay_base :: "retry_policy \<Rightarrow> u32 \<Rightarrow> u64" where
  "delay_base p attempt =
     (let multiplier = (if unat attempt < 64 then push_bit (unat attempt) 1 else - 1);
          exp = sat_mul (rp_initial_backoff_ms p) multiplier
      in min exp (rp_max_backoff_ms p))"

datatype 'e origin_pull_error = Transient 'e | Permanent 'e

datatype terminal_failure = TransientExhausted | TerminalPermanent

lemma unat_sat_inc: "a < (b :: 'a::len word) \<Longrightarrow> unat (sat_add a 1) = Suc (unat a)"
proof -
  assume "a < b"
  then have "Suc (unat a) \<le> unat b" by (simp add: word_less_nat_alt)
  then have "Suc (unat a) < 2 ^ LENGTH('a)" using unat_below by (rule le_less_trans)
  moreover have "unat (1 :: 'a word) = 1" by simp
  ultimately show ?thesis by (simp add: unat_sat_add)
qed

text \<open>
  The attempt closure is given by the answers of its successive calls. The result carries the number
  of calls made.
\<close>

function retry_loop ::
  "retry_policy \<Rightarrow> (nat \<Rightarrow> 'e origin_pull_error + 'a) \<Rightarrow> nat \<Rightarrow> u32
     \<Rightarrow> ('e origin_pull_error + 'a) \<times> terminal_failure option \<times> nat" where
  "retry_loop p answer calls attempt =
     (case answer calls of
        Inr value \<Rightarrow> (Inr value, None, Suc calls)
      | Inl (Permanent e) \<Rightarrow> (Inl (Permanent e), Some TerminalPermanent, Suc calls)
      | Inl (Transient e) \<Rightarrow>
          if rp_max_retries p \<le> attempt then (Inl (Permanent e), Some TransientExhausted, Suc calls)
          else retry_loop p answer (Suc calls) (sat_add attempt 1))"
  by pat_completeness auto
termination
  by (relation "measure (\<lambda>(p, answer, calls, attempt). unat (rp_max_retries p) - unat attempt)")
     (auto simp: not_le unat_sat_inc word_less_nat_alt)

declare retry_loop.simps [simp del]

definition run_with_retry_classified ::
  "retry_policy \<Rightarrow> (nat \<Rightarrow> 'e origin_pull_error + 'a) \<Rightarrow> ('e origin_pull_error + 'a) \<times> terminal_failure option \<times> nat" where
  "run_with_retry_classified p answer = retry_loop p answer 0 0"

definition record_breaker_outcome ::
  "breaker_policy \<Rightarrow> nat \<Rightarrow> trial_guard option \<Rightarrow> terminal_failure option \<Rightarrow> breaker_state \<Rightarrow> breaker_state" where
  "record_breaker_outcome p now guard terminal st =
     (case guard of
        None \<Rightarrow> st
      | Some g \<Rightarrow>
          guard_record p now g (case terminal of Some TransientExhausted \<Rightarrow> Unavailable | _ \<Rightarrow> Available) st)"

text \<open>One miss against one origin: admission at \<open>now\<close>, the attempts, the recorded outcome at \<open>later\<close>.\<close>

definition origin_miss ::
  "breaker_policy \<Rightarrow> retry_policy \<Rightarrow> (nat \<Rightarrow> 'e origin_pull_error + 'a) \<Rightarrow> nat \<Rightarrow> nat \<Rightarrow> breaker_state
     \<Rightarrow> ('e origin_pull_error + 'a) option \<times> nat \<times> breaker_state" where
  "origin_miss p r answer now later st =
     (case acquire p now st of
        (ShortCircuit, st1) \<Rightarrow> (None, 0, st1)
      | (Proceed ph g, st1) \<Rightarrow>
          (case run_with_retry_classified r answer of
             (res, terminal, calls) \<Rightarrow> (Some res, calls, record_breaker_outcome p later (Some g) terminal st1)))"


subsection \<open>Calls in any order\<close>

text \<open>
  The breaker's state, the guards alive and the time of the last call. Any guard may be recorded or
  dropped next, also one of an earlier half-open cycle.
\<close>

inductive breaker_step ::
  "breaker_policy \<Rightarrow> breaker_state \<times> trial_guard list \<times> nat \<Rightarrow> breaker_state \<times> trial_guard list \<times> nat \<Rightarrow> bool"
  for p :: breaker_policy where
  admit: "t \<le> now \<Longrightarrow> acquire p now st = (Proceed ph g, st') \<Longrightarrow> breaker_step p (st, gs, t) (st', g # gs, now)"
| shed: "t \<le> now \<Longrightarrow> acquire p now st = (ShortCircuit, st') \<Longrightarrow> breaker_step p (st, gs, t) (st', gs, now)"
| resolve: "t \<le> now \<Longrightarrow> g \<in> set gs \<Longrightarrow> st' = guard_record p now g outcome st \<Longrightarrow>
     breaker_step p (st, gs, t) (st', remove1 g gs, now)"
| cancel: "t \<le> now \<Longrightarrow> g \<in> set gs \<Longrightarrow> st' = guard_drop g st \<Longrightarrow>
     breaker_step p (st, gs, t) (st', remove1 g gs, now)"

inductive breaker_reachable :: "breaker_policy \<Rightarrow> breaker_state \<times> trial_guard list \<times> nat \<Rightarrow> bool" for p :: breaker_policy where
  start: "breaker_reachable p (OriginBreaker_new, [], 0)"
| step: "breaker_reachable p c \<Longrightarrow> breaker_step p c c' \<Longrightarrow> breaker_reachable p c'"

definition slots :: "trial_guard list \<Rightarrow> nat" where
  "slots gs = length (filter tg_owns_slot gs)"

definition breaker_inv :: "breaker_policy \<Rightarrow> breaker_state \<times> trial_guard list \<times> nat \<Rightarrow> bool" where
  "breaker_inv p = (\<lambda>(st, gs, t).
     unat (bs_half_open_in_flight st) \<le> slots gs \<and> bs_half_open_in_flight st \<le> bp_half_open_max_calls p \<and>
     (bs_phase st \<noteq> HalfOpen \<longrightarrow> bs_half_open_in_flight st = 0) \<and>
     bs_consecutive_failures st < bp_failure_threshold p \<and> bs_opened_at st \<le> t \<and>
     (\<forall>g \<in> set gs. tg_attached g))"

lemma slots_simps [simp]:
  "slots [] = 0" "slots (g # gs) = (if tg_owns_slot g then Suc (slots gs) else slots gs)"
  by (simp_all add: slots_def)

lemma slots_remove1: "g \<in> set gs \<Longrightarrow> slots gs = slots (remove1 g gs) + (if tg_owns_slot g then 1 else 0)"
  by (induction gs) auto

lemmas breaker_defs = breaker_open_def breaker_close_def short_circuit_def inert_guard_def closed_guard_def slot_guard_def

lemma acquire_inv:
  assumes "breaker_inv p (st, gs, t)" and "is_active p" and "1 \<le> bp_half_open_max_calls p" and "t \<le> now"
    and "acquire p now st = (a, st')"
  shows "case a of Proceed ph g \<Rightarrow> breaker_inv p (st', g # gs, now) | ShortCircuit \<Rightarrow> breaker_inv p (st', gs, now)"
proof (cases "bs_phase st")
  case Closed
  with assms show ?thesis by (auto simp: acquire_def breaker_inv_def breaker_defs)
next
  case Open
  with assms show ?thesis
    by (auto simp: acquire_def breaker_inv_def breaker_defs split: if_splits)
next
  case HalfOpen
  show ?thesis
  proof (cases "bs_half_open_in_flight st < bp_half_open_max_calls p")
    case True
    with HalfOpen assms unat_sat_inc [OF True] show ?thesis
      by (auto simp: acquire_def breaker_inv_def breaker_defs word_order_nat)
  next
    case False
    with HalfOpen assms show ?thesis by (auto simp: acquire_def breaker_inv_def breaker_defs)
  qed
qed

lemma sat_sub_le: "sat_sub a b \<le> (a :: 'a::len word)"
  by (simp add: word_le_nat_alt unat_sat_sub)

lemma record_inv:
  assumes "breaker_inv p (st, gs, t)" and "0 < bp_failure_threshold p" and "t \<le> now" and "g \<in> set gs"
  shows "breaker_inv p (guard_record p now g outcome st, remove1 g gs, now)"
proof -
  have att: "tg_attached g" and rest: "\<forall>h \<in> set (remove1 g gs). tg_attached h"
    using assms(1,4) set_remove1_subset [of g gs] by (auto simp: breaker_inv_def)
  show ?thesis
    using assms(1-3) att rest slots_remove1 [OF assms(4)]
    by (cases "bs_phase st"; cases outcome)
       (auto simp: guard_record_def record_committed_def breaker_inv_def breaker_defs Let_def not_le)
qed

lemma drop_inv:
  assumes "breaker_inv p (st, gs, t)" and "t \<le> now" and "g \<in> set gs"
  shows "breaker_inv p (guard_drop g st, remove1 g gs, now)"
proof -
  have "\<forall>h \<in> set (remove1 g gs). tg_attached h"
    using assms(1) set_remove1_subset [of g gs] by (auto simp: breaker_inv_def)
  moreover have "sat_sub 0 1 = (0 :: u32)" by (simp add: sat_sub_def)
  ultimately show ?thesis
    using assms slots_remove1 [OF assms(3)] order_trans [OF sat_sub_le, of "bs_half_open_in_flight st" "bp_half_open_max_calls p" 1]
    by (auto simp: guard_drop_def release_cancelled_trial_def breaker_inv_def unat_sat_sub)
qed

lemma breaker_reachable_inv:
  assumes "breaker_reachable p c" and "is_active p" and "1 \<le> bp_half_open_max_calls p"
  shows "breaker_inv p c"
  using assms(1)
proof (induction rule: breaker_reachable.induct)
  case start
  with assms(2) show ?case by (simp add: breaker_inv_def OriginBreaker_new_def is_active_def)
next
  case (step c c')
  have thr: "0 < bp_failure_threshold p" using assms(2) by (simp add: is_active_def)
  from step(2,3) show ?case
  proof (cases rule: breaker_step.cases)
    case (admit t now st ph g st' gs)
    with step(3) acquire_inv [OF _ assms(2,3)] show ?thesis by fastforce
  next
    case (shed t now st st' gs)
    with step(3) acquire_inv [OF _ assms(2,3)] show ?thesis by fastforce
  next
    case (resolve t now g gs st' outcome st)
    with step(3) record_inv [OF _ thr] show ?thesis by simp
  next
    case (cancel t now g gs st' st)
    with step(3) drop_inv show ?thesis by simp
  qed
qed


subsection \<open>Misses against a dead origin\<close>

fun misses ::
  "breaker_policy \<Rightarrow> retry_policy \<Rightarrow> (nat \<Rightarrow> 'e origin_pull_error + 'a) \<Rightarrow> (nat \<times> nat) list \<Rightarrow> breaker_state \<Rightarrow> nat" where
  "misses p r answer [] st = 0"
| "misses p r answer ((now, later) # ts) st =
     (case origin_miss p r answer now later st of (res, calls, st') \<Rightarrow> calls + misses p r answer ts st')"

lemma retry_loop_dead:
  assumes "\<And>k. \<exists>e. answer k = Inl (Transient e)" and "unat attempt \<le> unat (rp_max_retries p)"
  shows "\<exists>e. retry_loop p answer calls attempt = (Inl (Permanent e), Some TransientExhausted,
     calls + (unat (rp_max_retries p) - unat attempt) + 1)"
  using assms(2)
proof (induction "unat (rp_max_retries p) - unat attempt" arbitrary: calls attempt)
  case 0
  obtain e where "answer calls = Inl (Transient e)" using assms(1) by blast
  with 0 show ?case by (subst retry_loop.simps) (simp add: word_le_nat_alt)
next
  case (Suc k)
  obtain e where e: "answer calls = Inl (Transient e)" using assms(1) by blast
  have lt: "attempt < rp_max_retries p" using Suc.hyps(2) by (simp add: word_less_nat_alt)
  note inc = unat_sat_inc [OF lt]
  have "k = unat (rp_max_retries p) - unat (sat_add attempt 1)" "unat (sat_add attempt 1) \<le> unat (rp_max_retries p)"
    using Suc.hyps(2) inc lt by (simp_all add: word_less_nat_alt)
  from Suc.hyps(1) [OF this, of "Suc calls"] obtain e' where
    "retry_loop p answer (Suc calls) (sat_add attempt 1) = (Inl (Permanent e'), Some TransientExhausted,
      Suc calls + (unat (rp_max_retries p) - unat (sat_add attempt 1)) + 1)"
    by blast
  with e lt inc Suc.hyps(2) show ?case by (subst retry_loop.simps) (simp add: not_le [symmetric])
qed

lemma origin_miss_dead:
  assumes "\<And>k. \<exists>e. answer k = Inl (Transient e)"
  shows "\<exists>res. origin_miss p r answer now later st =
     (case acquire p now st of
        (ShortCircuit, st1) \<Rightarrow> (None, 0, st1)
      | (Proceed ph g, st1) \<Rightarrow> (Some res, unat (rp_max_retries r) + 1, guard_record p later g Unavailable st1))"
proof -
  obtain e where "retry_loop r answer 0 0 = (Inl (Permanent e), Some TransientExhausted, unat (rp_max_retries r) + 1)"
    using retry_loop_dead [of answer 0 r 0, OF assms] by auto
  then show ?thesis
    by (intro exI [of _ "Inl (Permanent e)"])
       (simp add: origin_miss_def run_with_retry_classified_def record_breaker_outcome_def split: prod.split admission.split)
qed

lemma misses_open:
  assumes "\<And>k. \<exists>e. answer k = Inl (Transient e)" and "is_active p"
    and "bs_phase st = Open" and "\<And>now later. (now, later) \<in> set ts \<Longrightarrow> \<not> cooldown_elapsed p st now"
  shows "misses p r answer ts st = 0"
  using assms(3,4)
proof (induction ts arbitrary: st)
  case (Cons tt ts)
  obtain now later where tt: "tt = (now, later)" by fastforce
  have nc: "\<not> cooldown_elapsed p st now" using Cons.prems(2) [of now later] tt by simp
  obtain res where "origin_miss p r answer now later st = (None, 0, short_circuit st)"
    using origin_miss_dead [where answer = answer, OF assms(1), where p = p and r = r and now = now and later = later and st = st] nc Cons.prems(1) assms(2) by (auto simp: acquire_def)
  moreover have "misses p r answer ts (short_circuit st) = 0"
    by (rule Cons.IH) (use Cons.prems in \<open>auto simp: short_circuit_def cooldown_elapsed_def\<close>)
  ultimately show ?case by (simp add: tt)
qed simp

lemma misses_closed:
  assumes dead: "\<And>k. \<exists>e. answer k = Inl (Transient e)" and act: "is_active p" "0 < bp_cooldown_ms p"
    and "bs_phase st = Closed" and "bs_consecutive_failures st < bp_failure_threshold p"
    and "\<And>now later now' later'. (now, later) \<in> set ts \<Longrightarrow> (now', later') \<in> set ts \<Longrightarrow> now < later' + unat (bp_cooldown_ms p) * 1000000"
  shows "misses p r answer ts st \<le> (unat (bp_failure_threshold p) - unat (bs_consecutive_failures st)) * (unat (rp_max_retries r) + 1)"
  using assms(4-6)
proof (induction ts arbitrary: st)
  case (Cons tt ts)
  obtain now later where tt: "tt = (now, later)" by fastforce
  let ?f = "bs_consecutive_failures st" and ?T = "bp_failure_threshold p" and ?b = "unat (rp_max_retries r) + 1"
  define st1 where "st1 = st\<lparr>bs_consecutive_failures := sat_add ?f 1\<rparr>"
  note inc = unat_sat_inc [OF Cons.prems(2)]
  define st' where "st' = (if ?T \<le> sat_add ?f 1 then breaker_open later st1 else st1)"
  have acq: "acquire p now st = (Proceed Closed closed_guard, st)"
    using Cons.prems(1) act(1) by (simp add: acquire_def)
  have rec: "guard_record p later closed_guard Unavailable st = st'"
    using Cons.prems(1) by (simp add: guard_record_def closed_guard_def record_committed_def st'_def st1_def Let_def)
  obtain res where miss: "origin_miss p r answer now later st = (Some res, ?b, st')"
    using origin_miss_dead [where answer = answer, OF dead, where p = p and r = r and now = now and later = later and st = st]
    unfolding acq admission.case prod.case rec by blast
  have f: "unat ?f < unat ?T" using Cons.prems(2) by (simp add: word_less_nat_alt)
  have "misses p r answer ts st' \<le> (unat ?T - Suc (unat ?f)) * ?b"
  proof (cases "?T \<le> sat_add ?f 1")
    case True
    then have st': "bs_phase st' = Open" "bs_opened_at st' = later" by (simp_all add: st'_def breaker_open_def)
    have soon: "\<not> cooldown_elapsed p st' n" if "(n, l) \<in> set ts" for n l
      using Cons.prems(3) [of n l now later] that st'(2) act(2)
      by (auto simp: tt cooldown_elapsed_def word_less_nat_alt)
    have "misses p r answer ts st' = 0"
      using misses_open [where answer = answer, OF dead act(1) st'(1) soon] by simp
    then show ?thesis by simp
  next
    case False
    then have "misses p r answer ts st1 \<le> (unat ?T - unat (sat_add ?f 1)) * ?b"
      using Cons.IH [of st1] Cons.prems(1,3) by (force simp: st1_def not_le)
    with False show ?thesis by (simp add: st'_def inc)
  qed
  then have "?b + misses p r answer ts st' \<le> Suc (unat ?T - Suc (unat ?f)) * ?b" by simp
  also have "Suc (unat ?T - Suc (unat ?f)) = unat ?T - unat ?f" using f by simp
  finally show ?case using miss by (simp add: tt)
qed simp

subsection \<open>Properties\<close>

text \<open>
  C17. The breaker never wedges. Under every resolved policy and after any sequence of admissions,
  recorded outcomes and cancellations, a moment at which no half-open trial is outstanding and the
  cooldown since the last trip has passed is one at which the next pull is admitted: no trial slot
  is ever leaked.
\<close>

theorem breaker_never_wedges:
  assumes "breaker_reachable p (st, gs, t)" and "resolve_circuit_breaker file = Inr p" and "slots gs = 0"
    and "bs_opened_at st + unat (bp_cooldown_ms p) * 1000000 \<le> now"
  shows "\<exists>ph g st'. acquire p now st = (Proceed ph g, st')"
proof (cases "is_active p")
  case False
  then show ?thesis by (simp add: acquire_def)
next
  case True
  with assms(2) have max: "1 \<le> bp_half_open_max_calls p"
    by (auto simp: resolve_circuit_breaker_def word_le_nat_alt Suc_le_eq unat_gt_0 Let_def split: if_splits)
  from breaker_reachable_inv [OF assms(1) True max] assms(3) have "bs_half_open_in_flight st = 0"
    by (simp add: breaker_inv_def unat_eq_zero)
  with max assms(4) show ?thesis
    by (cases "bs_phase st") (auto simp: acquire_def cooldown_elapsed_def word_order_nat)
qed

definition demo_policy :: breaker_policy where
  "demo_policy = \<lparr>bp_enabled = True, bp_failure_threshold = 1, bp_cooldown_ms = 1, bp_half_open_max_calls = 1\<rparr>"

definition demo_tripped :: "nat \<Rightarrow> nat \<Rightarrow> breaker_state" where
  "demo_tripped now n = OriginBreaker_new\<lparr>bs_phase := Open, bs_opened_at := now, bs_trips := n\<rparr>"

lemma demo_active: "is_active demo_policy" "resolve_circuit_breaker (Some demo_policy) = Inr demo_policy"
  by (simp_all add: is_active_def resolve_circuit_breaker_def demo_policy_def)

lemma demo_policy_simps [simp]:
  "bp_cooldown_ms demo_policy = 1" "bp_half_open_max_calls demo_policy = 1" "bp_failure_threshold demo_policy = 1"
  by (simp_all add: demo_policy_def)

lemma demo_admit_closed: "acquire demo_policy now OriginBreaker_new = (Proceed Closed closed_guard, OriginBreaker_new)"
  by (simp add: acquire_def demo_active OriginBreaker_new_def)

lemma demo_trip: "guard_record demo_policy 0 closed_guard Unavailable OriginBreaker_new = demo_tripped 0 1"
  by (simp add: guard_record_def closed_guard_def record_committed_def OriginBreaker_new_def demo_tripped_def
      breaker_open_def demo_policy_def sat_add_def Let_def)

lemma demo_tripped_reachable: "breaker_reachable demo_policy (demo_tripped 0 1, [closed_guard], 0)"
proof -
  note s0 = breaker_reachable.start [of demo_policy]
  have s1: "breaker_reachable demo_policy (OriginBreaker_new, [closed_guard], 0)"
    by (rule breaker_reachable.step [OF s0 breaker_step.admit]) (simp_all add: demo_admit_closed)
  have s2: "breaker_reachable demo_policy (OriginBreaker_new, [closed_guard, closed_guard], 0)"
    by (rule breaker_reachable.step [OF s1 breaker_step.admit]) (simp_all add: demo_admit_closed)
  show ?thesis
    using breaker_reachable.step [OF s2 breaker_step.resolve [of 0 0 closed_guard _ "demo_tripped 0 1" demo_policy Unavailable OriginBreaker_new]]
    by (simp add: demo_trip)
qed

theorem breaker_never_wedges_witness:
  "\<exists>ph g st'. acquire demo_policy 1000000 (demo_tripped 0 1) = (Proceed ph g, st')"
  by (rule breaker_never_wedges [OF demo_tripped_reachable demo_active(2)])
     (simp_all add: closed_guard_def demo_tripped_def demo_policy_def)

text \<open>
  A dead origin costs a constant number of fetches per (non-zero) cooldown window. Against an origin whose
  every attempt fails transiently, any number of misses, one after another and within one cooldown
  of each other's outcomes, makes at most \<open>failure_threshold\<close> times \<open>max_retries + 1\<close> attempts.
\<close>

theorem retry_amplification_bounded:
  assumes "\<And>k. \<exists>e. answer k = Inl (Transient e)" and "is_active p"
    and "0 < bp_cooldown_ms p"
    and "\<And>now later now' later'. (now, later) \<in> set ts \<Longrightarrow> (now', later') \<in> set ts \<Longrightarrow>
           now < later' + unat (bp_cooldown_ms p) * 1000000"
  shows "misses p r answer ts OriginBreaker_new \<le> unat (bp_failure_threshold p) * (unat (rp_max_retries r) + 1)"
  using misses_closed [of answer p OriginBreaker_new ts r, OF assms(1-3)] assms(2,4)
  by (simp add: OriginBreaker_new_def is_active_def)

theorem retry_amplification_bounded_witness:
  "misses demo_policy \<lparr>rp_max_retries = 3, rp_initial_backoff_ms = 100, rp_max_backoff_ms = 10000\<rparr>
     (\<lambda>k. Inl (Transient k) :: nat origin_pull_error + unit) [(0, 5), (6, 10), (11, 12)] OriginBreaker_new \<le> 4"
  using retry_amplification_bounded [of "\<lambda>k. Inl (Transient k) :: nat origin_pull_error + unit" demo_policy
      "[(0, 5), (6, 10), (11, 12)]" "\<lparr>rp_max_retries = 3, rp_initial_backoff_ms = 100, rp_max_backoff_ms = 10000\<rparr>"]
    demo_active by (fastforce simp: demo_policy_def)

text \<open>
  The trial budget counts slots, not trials. A guard of an earlier half-open cycle that is
  cancelled during a later one gives back a slot it does not hold, so that with a budget of one
  trial the breaker admits a second trial while the first is still running.
\<close>

theorem trial_budget_exceeded:
  "bp_half_open_max_calls demo_policy = 1 \<and>
   (\<exists>st t. breaker_reachable demo_policy (st, [slot_guard, slot_guard], t) \<and> bs_phase st = HalfOpen \<and>
      bs_half_open_in_flight st = 1)"
proof -
  let ?half = "\<lambda>now n. (demo_tripped now n)\<lparr>bs_phase := HalfOpen, bs_half_open_in_flight := 1\<rparr>"
  let ?idle = "(demo_tripped 1000000 2)\<lparr>bs_phase := HalfOpen\<rparr>"
  have s1: "breaker_reachable demo_policy (?half 0 1, [slot_guard, closed_guard], 1000000)"
    by (rule breaker_reachable.step [OF demo_tripped_reachable breaker_step.admit [where ph = HalfOpen]])
       (simp_all add: acquire_def demo_active cooldown_elapsed_def demo_tripped_def)
  have "guard_record demo_policy 1000000 closed_guard Unavailable (?half 0 1) = demo_tripped 1000000 2"
    by (simp add: guard_record_def closed_guard_def record_committed_def demo_tripped_def OriginBreaker_new_def
        breaker_open_def Let_def)
  moreover have "remove1 closed_guard [slot_guard, closed_guard] = [slot_guard]"
    by (simp add: slot_guard_def closed_guard_def)
  ultimately have s2: "breaker_reachable demo_policy (demo_tripped 1000000 2, [slot_guard], 1000000)"
    using breaker_reachable.step [OF s1 breaker_step.resolve [of 1000000 1000000 closed_guard _ "demo_tripped 1000000 2" demo_policy Unavailable]]
    by simp
  have s3: "breaker_reachable demo_policy (?half 1000000 2, [slot_guard, slot_guard], 2000000)"
    by (rule breaker_reachable.step [OF s2 breaker_step.admit [where ph = HalfOpen]])
       (simp_all add: acquire_def demo_active cooldown_elapsed_def demo_tripped_def)
  have "guard_drop slot_guard (?half 1000000 2) = ?idle"
    by (simp add: guard_drop_def slot_guard_def release_cancelled_trial_def demo_tripped_def OriginBreaker_new_def sat_sub_def)
  then have s4: "breaker_reachable demo_policy (?idle, [slot_guard], 2000000)"
    using breaker_reachable.step [OF s3 breaker_step.cancel [of 2000000 2000000 slot_guard _ ?idle]] by simp
  have "breaker_reachable demo_policy (?half 1000000 2, [slot_guard, slot_guard], 2000000)"
    by (rule breaker_reachable.step [OF s4 breaker_step.admit [where ph = HalfOpen]])
       (simp_all add: acquire_def demo_active demo_tripped_def OriginBreaker_new_def sat_add_def)
  then show ?thesis
    by (intro conjI exI) auto
qed

end
