(* ===== verification/Coverage.thy ===== *)
theory Coverage
  imports Decdn_Prelude
begin

text \<open>
  The discovery-block bitmap (\<open>src/crates/protocol/src/coverage.rs\<close>) and the questions asked of it
  about a byte range (\<open>src/crates/client/src/coverage_plan.rs\<close>): whether a source holds all of it, and
  from where on it holds its tail.
\<close>

subsection \<open>The bitmap\<close>

definition DISCOVERY_BLOCK_BYTES :: u64 where
  "DISCOVERY_BLOCK_BYTES = 67108864"

definition MAX_DISCOVERABLE_BLOB_BYTES :: u64 where
  "MAX_DISCOVERABLE_BLOB_BYTES = 107374182400"

definition MAX_COVERAGE_BYTES :: nat where
  "MAX_COVERAGE_BYTES = unat (div_ceil (div_ceil MAX_DISCOVERABLE_BLOB_BYTES DISCOVERY_BLOCK_BYTES) 8)"

definition num_blocks :: "u64 \<Rightarrow> u32" where
  "num_blocks total_bytes = ucast (div_ceil total_bytes DISCOVERY_BLOCK_BYTES)"

type_synonym coverage = "u8 list"

definition deserialize_bounded_blocks :: "u8 list \<Rightarrow> string + coverage" where
  "deserialize_bounded_blocks blocks =
     (if MAX_COVERAGE_BYTES < length blocks then Inl ''Coverage bitmap length exceeds MAX_COVERAGE_BYTES''
      else Inr blocks)"

definition Coverage_empty :: coverage where
  "Coverage_empty = []"

definition set_block :: "u32 \<Rightarrow> u32 \<Rightarrow> u8 list \<Rightarrow> u8 list" where
  "set_block n i blocks =
     (if n \<le> i then blocks
      else let byte_idx = unat (i div 8) in
           if byte_idx < length blocks
           then blocks[byte_idx := blocks ! byte_idx OR push_bit (unat (i mod 8)) 1] else blocks)"

definition from_block_indices :: "u32 \<Rightarrow> u32 list \<Rightarrow> coverage" where
  "from_block_indices n idxs = fold (set_block n) idxs (replicate ((unat n + 7) div 8) 0)"

definition block_list :: "u32 \<Rightarrow> u32 list" where
  "block_list n = map of_nat [0..<unat n]"

definition Coverage_full :: "u32 \<Rightarrow> coverage" where
  "Coverage_full n = from_block_indices n (block_list n)"

definition covers :: "coverage \<Rightarrow> u32 \<Rightarrow> bool" where
  "covers c block =
     (let byte_idx = unat (block div 8) in
      byte_idx < length c \<and> drop_bit (unat (block mod 8)) (c ! byte_idx) AND 1 = 1)"

definition Coverage_is_empty :: "coverage \<Rightarrow> bool" where
  "Coverage_is_empty c = list_all (\<lambda>b. b = 0) c"

definition covered_blocks :: "coverage \<Rightarrow> u32 list" where
  "covered_blocks c =
     concat (map (\<lambda>(byte_idx, b).
       map (\<lambda>bit. of_nat byte_idx * 8 + of_nat bit) (filter (\<lambda>bit. drop_bit bit b AND 1 = 1) [0..<8]))
       (zip [0..<length c] c))"

subsection \<open>Coverage of a byte range\<close>

definition BAO_CHUNK_BYTES :: u64 where
  "BAO_CHUNK_BYTES = 1024"

definition chunks_per_block :: u64 where
  "chunks_per_block = DISCOVERY_BLOCK_BYTES div BAO_CHUNK_BYTES"

definition block_index :: "u64 \<Rightarrow> u32" where
  "block_index b = (if unat b < 2 ^ 32 then ucast b else - 1)"

definition covers_byte_range :: "coverage \<Rightarrow> u64 \<Rightarrow> u64 \<Rightarrow> u64 \<Rightarrow> bool" where
  "covers_byte_range c start len total_bytes =
     (if len = 0 then True
      else let stop = min (sat_add start len) total_bytes in
           if stop \<le> start then True
           else let first_block = block_index (start div DISCOVERY_BLOCK_BYTES);
                    last_block = block_index ((stop - 1) div DISCOVERY_BLOCK_BYTES)
                in list_all (\<lambda>b. covers c (of_nat b)) [unat first_block..<Suc (unat last_block)])"

fun suffix_block :: "coverage \<Rightarrow> nat \<Rightarrow> nat \<Rightarrow> nat" where
  "suffix_block c first_block block =
     (if first_block < block \<and> covers c (of_nat (block - 1)) then suffix_block c first_block (block - 1) else block)"

declare suffix_block.simps [simp del]

definition covered_suffix_start :: "coverage \<Rightarrow> u64 \<Rightarrow> u64 \<Rightarrow> u64 \<Rightarrow> u64 option" where
  "covered_suffix_start c start len total_bytes =
     (let stop = min (sat_add start len) total_bytes in
      if stop \<le> start then Some start
      else let first_block = block_index (start div DISCOVERY_BLOCK_BYTES);
               block = block_index ((stop - 1) div DISCOVERY_BLOCK_BYTES)
           in if \<not> covers c block then None
              else Some (max (sat_mul (of_nat (suffix_block c (unat first_block) (unat block))) DISCOVERY_BLOCK_BYTES) start))"

subsection \<open>Lemmas\<close>

lemma unat_block_constants [simp]:
  "unat DISCOVERY_BLOCK_BYTES = 67108864" "unat BAO_CHUNK_BYTES = 1024" "unat chunks_per_block = 65536"
  by (simp_all add: DISCOVERY_BLOCK_BYTES_def BAO_CHUNK_BYTES_def chunks_per_block_def)

lemma unat_u32_below: "unat (b :: u32) < 4294967296"
  using unat_below [of b] by simp

lemma unat_widen_u32 [simp]: "unat (ucast (b :: u32) :: u64) = unat b"
  by (simp add: unsigned_ucast_eq take_bit_nat_eq_self less_trans [OF unat_u32_below])

lemma unat_num_blocks:
  assumes "unat total_bytes \<le> 2 ^ 58 - 2 ^ 26"
  shows "unat (num_blocks total_bytes) = (unat total_bytes + 67108863) div 67108864"
proof -
  have "unat (div_ceil total_bytes DISCOVERY_BLOCK_BYTES) = (unat total_bytes + 67108863) div 67108864"
    by (simp add: unat_div_ceil)
  moreover have "(unat total_bytes + 67108863) div 67108864 < 4294967296"
    using assms by (simp add: div_less_iff_less_mult)
  ultimately show ?thesis by (simp add: num_blocks_def unsigned_ucast_eq take_bit_nat_eq_self)
qed

lemma unat_of_nat_small: "k < 4294967296 \<Longrightarrow> unat (of_nat k :: u32) = k"
  by (simp add: unat_of_nat take_bit_nat_eq_self)

text \<open>A non-empty byte range of a blob: the clamp of its end does nothing and its block indices fit.\<close>

lemma byte_range_blocks:
  assumes "unat start + unat len \<le> unat total_bytes" and "unat total_bytes \<le> 2 ^ 58" and "len \<noteq> 0"
    and stop: "stop = min (sat_add start len) total_bytes"
  shows "unat stop = unat start + unat len" "\<not> stop \<le> start"
    "unat (block_index (start div DISCOVERY_BLOCK_BYTES)) = unat start div 67108864"
    "unat (block_index ((stop - 1) div DISCOVERY_BLOCK_BYTES)) = (unat start + unat len - 1) div 67108864"
    "(unat start + unat len - 1) div 67108864 < 4294967296"
proof -
  have "unat (sat_add start len) = unat start + unat len"
    using le_less_trans [OF assms(1) unat_below] by (simp add: unat_sat_add)
  with assms(1) show eq: "unat stop = unat start + unat len" by (simp add: stop min_def word_le_nat_alt)
  have len: "0 < unat len" using assms(3) by (simp add: unat_gt_0)
  with eq show "\<not> stop \<le> start" by (simp add: word_le_nat_alt)
  have "unat (stop - 1) = unat stop - unat (1 :: u64)"
    by (rule unat_sub_exact) (use len eq in \<open>simp add: word_le_nat_alt\<close>)
  then have last: "unat ((stop - 1) div DISCOVERY_BLOCK_BYTES) = (unat start + unat len - 1) div 67108864"
    by (simp add: unat_div_distrib eq)
  show small: "(unat start + unat len - 1) div 67108864 < 4294967296"
    using assms(1,2) len by (simp add: div_less_iff_less_mult)
  have "unat start div 67108864 < 4294967296" using assms(1,2) len by (simp add: div_less_iff_less_mult)
  with small last show "unat (block_index (start div DISCOVERY_BLOCK_BYTES)) = unat start div 67108864"
    "unat (block_index ((stop - 1) div DISCOVERY_BLOCK_BYTES)) = (unat start + unat len - 1) div 67108864"
    by (simp_all add: block_index_def unat_div_distrib unsigned_ucast_eq take_bit_nat_eq_self)
qed

lemma covers_byte_range_iff:
  assumes "unat start + unat len \<le> unat total_bytes" and "unat total_bytes \<le> 2 ^ 58"
  shows "covers_byte_range c start len total_bytes \<longleftrightarrow>
    len = 0 \<or> (\<forall>k. unat start div 67108864 \<le> k \<and> k \<le> (unat start + unat len - 1) div 67108864 \<longrightarrow> covers c (of_nat k))"
proof (cases "len = 0")
  case False
  note r = byte_range_blocks [OF assms False refl]
  show ?thesis using False r(2) by (auto simp: covers_byte_range_def Let_def list_all_iff r(3,4))
qed (simp add: covers_byte_range_def)

lemma covers_byte_range_blocks:
  assumes "unat start + unat len \<le> unat total_bytes" and "unat total_bytes \<le> 2 ^ 58"
    and "\<And>b :: u32. unat start div 67108864 \<le> unat b \<Longrightarrow> unat b \<le> (unat start + unat len - 1) div 67108864 \<Longrightarrow> covers c b"
  shows "covers_byte_range c start len total_bytes"
proof (cases "len = 0")
  case False
  have "covers c (of_nat k)" if "unat start div 67108864 \<le> k" "k \<le> (unat start + unat len - 1) div 67108864" for k
    using assms(3) [of "of_nat k"] that byte_range_blocks(5) [OF assms(1,2) False refl]
    by (simp add: unat_of_nat_small)
  then show ?thesis by (simp add: covers_byte_range_iff [OF assms(1,2)])
qed (simp add: covers_byte_range_def)

lemma unat_of_nat_u32: "k < unat (n :: u32) \<Longrightarrow> unat (of_nat k :: u32) = k"
  using unat_below [of n] by (simp add: unat_of_nat take_bit_nat_eq_self)

lemma length_set_block [simp]: "length (set_block n i c) = length c"
  by (simp add: set_block_def Let_def)

lemma length_from_block_indices [simp]: "length (from_block_indices n idxs) = (unat n + 7) div 8"
proof -
  have "length (fold (set_block n) idxs c) = length c" for c by (induction idxs arbitrary: c) simp_all
  then show ?thesis by (simp add: from_block_indices_def)
qed

lemma covers_bit: "covers c b \<longleftrightarrow> unat b div 8 < length c \<and> bit (c ! (unat b div 8)) (unat b mod 8)"
proof -
  have "x AND 1 = 1 \<longleftrightarrow> bit x 0" for x :: u8 by (simp add: and_one_eq odd_iff_mod_2_eq_one [symmetric] bit_0)
  then show ?thesis
    by (simp add: covers_def Let_def unat_div_distrib unat_mod_distrib bit_drop_bit_eq)
qed

lemma covers_set_block:
  assumes "unat n \<le> 8 * length c"
  shows "covers (set_block n i c) b \<longleftrightarrow> covers c b \<or> b = i \<and> i < n"
proof (cases "n \<le> i")
  case False
  then have i: "unat i < unat n" by (simp add: word_less_nat_alt not_le)
  with assms have ib: "unat i div 8 < length c" by linarith
  let ?c = "c[unat i div 8 := c ! (unat i div 8) OR push_bit (unat i mod 8) 1]"
  have c: "set_block n i c = ?c" using False ib by (simp add: set_block_def Let_def unat_div_distrib unat_mod_distrib)
  have "unat b = unat i \<longleftrightarrow> unat b div 8 = unat i div 8 \<and> unat b mod 8 = unat i mod 8"
    by (metis mult_div_mod_eq)
  then have bi: "b = i \<longleftrightarrow> unat b div 8 = unat i div 8 \<and> unat b mod 8 = unat i mod 8" by (simp add: word_unat_eq_iff)
  show ?thesis
  proof (cases "unat b div 8 = unat i div 8")
    case True
    have "bit (push_bit (unat i mod 8) (1 :: u8)) (unat b mod 8) \<longleftrightarrow> unat b mod 8 = unat i mod 8"
      unfolding bit_push_bit_iff bit_1_iff by (auto simp: less_le_trans [of _ 8])
    with True ib False bi show ?thesis by (auto simp: covers_bit c bit_or_iff)
  next
    case neq: False
    with bi show ?thesis by (auto simp: covers_bit c)
  qed
qed (auto simp: set_block_def)

lemma covers_from_block_indices: "covers (from_block_indices n idxs) b \<longleftrightarrow> b \<in> set idxs \<and> b < n"
proof -
  have len: "unat n \<le> 8 * ((unat n + 7) div 8)" by linarith
  have "covers (fold (set_block n) idxs c) b \<longleftrightarrow> covers c b \<or> b \<in> set idxs \<and> b < n"
    if "length c = (unat n + 7) div 8" for c
    using that
  proof (induction idxs arbitrary: c)
    case (Cons i idxs)
    then show ?case using len by (auto simp: covers_set_block)
  qed simp
  moreover have "\<not> covers (replicate m 0) b" for m by (simp add: covers_bit)
  ultimately show ?thesis by (simp add: from_block_indices_def)
qed

lemma covers_full: "covers (Coverage_full n) b \<longleftrightarrow> b < n"
proof -
  have "b \<in> set (block_list n)" if "b < n"
    using that by (auto simp: block_list_def word_less_nat_alt intro!: image_eqI [of _ _ "unat b"])
  then show ?thesis by (auto simp: Coverage_full_def covers_from_block_indices)
qed

lemma suffix_block_spec:
  assumes "first \<le> block"
  shows "first \<le> suffix_block c first block \<and> suffix_block c first block \<le> block \<and>
    (\<forall>k. suffix_block c first block \<le> k \<and> k < block \<longrightarrow> covers c (of_nat k)) \<and>
    (suffix_block c first block = first \<or> \<not> covers c (of_nat (suffix_block c first block - 1)))"
  using assms
proof (induction c first block rule: suffix_block.induct)
  case (1 c first block)
  show ?case
  proof (cases "first < block \<and> covers c (of_nat (block - 1))")
    case True
    let ?r = "suffix_block c first (block - 1)"
    have eq: "suffix_block c first block = ?r" by (subst suffix_block.simps) (rule if_P [OF True])
    have IH: "first \<le> ?r \<and> ?r \<le> block - 1 \<and> (\<forall>k. ?r \<le> k \<and> k < block - 1 \<longrightarrow> covers c (of_nat k)) \<and>
        (?r = first \<or> \<not> covers c (of_nat (?r - 1)))"
      by (rule 1(1) [OF True]) (use True in arith)
    have "covers c (of_nat k)" if "?r \<le> k" "k < block" for k
    proof (cases "k = block - 1")
      case False
      with that IH show ?thesis by simp
    qed (use True in \<open>simp only:\<close>)
    with IH show ?thesis unfolding eq by auto
  next
    case False
    have eq: "suffix_block c first block = block" by (subst suffix_block.simps) (rule if_not_P [OF False])
    from False 1(2) show ?thesis unfolding eq by (auto simp del: One_nat_def of_nat_diff)
  qed
qed

lemma covered_suffix_longest_nat:
  assumes inb: "unat start + unat len \<le> unat total_bytes" and small: "unat total_bytes \<le> 2 ^ 58" and ne: "len \<noteq> 0"
    and some: "covered_suffix_start c start len total_bytes = Some s"
  defines "final \<equiv> (unat start + unat len - 1) div 67108864"
  obtains r where "unat start div 67108864 \<le> r" "r \<le> final" "unat s = max (r * 67108864) (unat start)"
    "\<And>k. r \<le> k \<Longrightarrow> k \<le> final \<Longrightarrow> covers c (of_nat k)"
    "r = unat start div 67108864 \<or> \<not> covers c (of_nat (r - 1))"
proof -
  note b = byte_range_blocks [OF inb small ne refl]
  let ?stop = "min (sat_add start len) total_bytes"
  let ?blk = "block_index ((?stop - 1) div DISCOVERY_BLOCK_BYTES)"
  let ?r = "suffix_block c (unat start div 67108864) final"
  have last: "unat ?blk = final" "final < 4294967296" using b(4,5) by (simp_all add: final_def)
  have cov: "covers c ?blk" and s: "s = max (sat_mul (of_nat ?r) DISCOVERY_BLOCK_BYTES) start"
    using some b(2) by (auto simp: covered_suffix_start_def Let_def b(3) last(1) split: if_splits)
  have "unat start div 67108864 \<le> final" unfolding final_def
    using ne by (intro div_le_mono) (simp add: unat_gt_0 Suc_le_eq le_diff_conv2 add.commute)
  from suffix_block_spec [OF this, of c]
  have r: "unat start div 67108864 \<le> ?r" "?r \<le> final" "\<And>k. ?r \<le> k \<Longrightarrow> k < final \<Longrightarrow> covers c (of_nat k)"
    "?r = unat start div 67108864 \<or> \<not> covers c (of_nat (?r - 1))" by auto
  have all: "covers c (of_nat k)" if "?r \<le> k" "k \<le> final" for k
  proof (cases "k = final")
    case True
    then have "of_nat k = ?blk" using last by (simp add: word_unat_eq_iff unat_of_nat_small)
    with cov show ?thesis by simp
  qed (use that r(3) in simp)
  have "?r < 4294967296" using r(2) last(2) by simp
  then have "unat (sat_mul (of_nat ?r) DISCOVERY_BLOCK_BYTES) = ?r * 67108864"
    by (simp add: unat_sat_mul unat_of_nat take_bit_nat_eq_self)
  then have "unat s = max (?r * 67108864) (unat start)" by (simp add: s max_def word_le_nat_alt)
  with that r(1,2,4) all show thesis by blast
qed

lemma covered_suffix_is_longest:
  assumes inb: "unat start + unat len \<le> unat total_bytes" and small: "unat total_bytes \<le> 2 ^ 58" and ne: "len \<noteq> 0"
    and some: "covered_suffix_start c start len total_bytes = Some s"
  shows "unat start \<le> unat s" "unat s < unat start + unat len"
    and "unat s \<le> unat s' \<Longrightarrow> unat s' + unat len' = unat start + unat len \<Longrightarrow> covers_byte_range c s' len' total_bytes"
    and "unat start \<le> unat s' \<Longrightarrow> unat s' < unat s \<Longrightarrow> unat s' + unat len' = unat start + unat len \<Longrightarrow>
          \<not> covers_byte_range c s' len' total_bytes"
proof -
  let ?e = "unat start + unat len"
  obtain r where r: "unat start div 67108864 \<le> r" "r \<le> (?e - 1) div 67108864" "unat s = max (r * 67108864) (unat start)"
    "\<And>k. r \<le> k \<Longrightarrow> k \<le> (?e - 1) div 67108864 \<Longrightarrow> covers c (of_nat k)"
    "r = unat start div 67108864 \<or> \<not> covers c (of_nat (r - 1))"
    using covered_suffix_longest_nat [OF inb small ne some] by blast
  have len: "0 < unat len" using ne by (simp add: unat_gt_0)
  show "unat start \<le> unat s" by (simp add: r(3))
  have "r * 67108864 \<le> ?e - 1" using r(2) by (simp add: less_eq_div_iff_mult_less_eq)
  then show "unat s < ?e" using len by (simp add: r(3))
  show "covers_byte_range c s' len' total_bytes" if "unat s \<le> unat s'" "unat s' + unat len' = ?e"
  proof -
    have "r * 67108864 \<le> unat s'" using that(1) r(3) by simp
    then have "r \<le> unat s' div 67108864" by (simp add: less_eq_div_iff_mult_less_eq)
    moreover have "unat s' + unat len' \<le> unat total_bytes" using that(2) inb by simp
    ultimately show ?thesis using r(4) that(2) by (simp add: covers_byte_range_iff [OF _ small])
  qed
  show "\<not> covers_byte_range c s' len' total_bytes"
    if s': "unat start \<le> unat s'" "unat s' < unat s" "unat s' + unat len' = ?e"
  proof -
    have lt: "unat s' < r * 67108864" using s'(1,2) by (simp add: r(3) max_def split: if_splits)
    then have "unat s' div 67108864 < r" by (simp add: div_less_iff_less_mult)
    moreover from this have "unat start div 67108864 < r" using div_le_mono [OF s'(1), of 67108864] by linarith
    with r(5) have "\<not> covers c (of_nat (r - 1))" by simp
    moreover have "len' \<noteq> 0" using s'(2,3) \<open>unat s < ?e\<close> by auto
    moreover have "unat s' + unat len' \<le> unat total_bytes" using s'(3) inb by simp
    ultimately show ?thesis using r(2) s'(3)
      by (auto simp: covers_byte_range_iff [OF _ small] intro!: exI [of _ "r - 1"])
  qed
qed

lemma set_covered_blocks:
  assumes "8 * length c \<le> 2 ^ 32"
  shows "set (covered_blocks c) = {b. covers c b}"
proof -
  have one: "drop_bit i x AND 1 = 1 \<longleftrightarrow> bit x i" for x :: u8 and i
    by (simp add: and_one_eq odd_iff_mod_2_eq_one [symmetric] bit_iff_odd_drop_bit)
  have "b \<in> set (covered_blocks c) \<longleftrightarrow> (\<exists>i j. i < length c \<and> j < 8 \<and> bit (c ! i) j \<and> b = of_nat (i * 8 + j))" for b
    unfolding covered_blocks_def one by (fastforce simp: set_zip)
  moreover have "(\<exists>i j. i < length c \<and> j < 8 \<and> bit (c ! i) j \<and> b = of_nat (i * 8 + j)) \<longleftrightarrow> covers c b" for b
  proof
    assume "\<exists>i j. i < length c \<and> j < 8 \<and> bit (c ! i) j \<and> b = of_nat (i * 8 + j)"
    then obtain i j where ij: "i < length c" "j < 8" "bit (c ! i) j" "b = of_nat (i * 8 + j)" by blast
    have "i * 8 + j < 4294967296" using ij(1,2) assms by simp
    then have "unat b = i * 8 + j" unfolding ij(4) by (rule unat_of_nat_small)
    with ij show "covers c b" by (simp add: covers_bit)
  next
    assume b: "covers c b"
    have "b = of_nat (unat b div 8 * 8 + unat b mod 8)" unfolding div_mult_mod_eq by simp
    with b show "\<exists>i j. i < length c \<and> j < 8 \<and> bit (c ! i) j \<and> b = of_nat (i * 8 + j)"
      by (intro exI [of _ "unat b div 8"] exI [of _ "unat b mod 8"]) (simp add: covers_bit)
  qed
  ultimately show ?thesis by auto
qed

subsection \<open>Property\<close>

text \<open>
  A steal takes the longest tail it may. For a non-empty range of a blob,
  \<open>covered_suffix_start\<close> answers exactly when the source holds the block of the last byte; from the
  offset it returns on, every shorter tail is covered, and no longer tail is.
\<close>

theorem steal_takes_longest_tail:
  assumes "unat start + unat len \<le> unat total_bytes" and "unat total_bytes \<le> 2 ^ 58" and "len \<noteq> 0"
  shows "(covered_suffix_start c start len total_bytes = None \<longleftrightarrow>
      \<not> covers c (of_nat ((unat start + unat len - 1) div 67108864))) \<and>
    (\<forall>s s' len'. covered_suffix_start c start len total_bytes = Some s \<and> unat start \<le> unat s' \<and>
       unat s' + unat len' = unat start + unat len \<longrightarrow>
       (covers_byte_range c s' len' total_bytes \<longleftrightarrow> unat s \<le> unat s'))"
proof (intro conjI allI impI)
  note b = byte_range_blocks [OF assms refl]
  have "block_index ((min (sat_add start len) total_bytes - 1) div DISCOVERY_BLOCK_BYTES) = of_nat ((unat start + unat len - 1) div 67108864)"
    using b(4,5) by (simp add: word_unat_eq_iff unat_of_nat_small)
  then show "covered_suffix_start c start len total_bytes = None \<longleftrightarrow>
      \<not> covers c (of_nat ((unat start + unat len - 1) div 67108864))"
    using b(2) by (simp add: covered_suffix_start_def Let_def)
  fix s s' len' :: u64
  assume "covered_suffix_start c start len total_bytes = Some s \<and> unat start \<le> unat s' \<and> unat s' + unat len' = unat start + unat len"
  with covered_suffix_is_longest(3,4) [OF assms] show "covers_byte_range c s' len' total_bytes \<longleftrightarrow> unat s \<le> unat s'"
    by (meson not_le)
qed

theorem steal_takes_longest_tail_witness:
  "covers_byte_range [2] 67108864 1 134217728 \<and> \<not> covers_byte_range [2] 0 67108865 134217728"
proof -
  have "covered_suffix_start [2] 0 67108865 134217728 = Some 67108864"
    by (simp add: covered_suffix_start_def suffix_block.simps covers_def block_index_def DISCOVERY_BLOCK_BYTES_def
        sat_add_def sat_mul_def)
  then show ?thesis
    using conjunct2 [OF steal_takes_longest_tail [of 0 67108865 134217728 "[2]"], rule_format, of 67108864 67108864 1]
      conjunct2 [OF steal_takes_longest_tail [of 0 67108865 134217728 "[2]"], rule_format, of 67108864 0 67108865]
    by simp
qed

end
