(* ===== verification/Coverage_Plan.thy ===== *)
theory Coverage_Plan
  imports Coverage
begin

text \<open>
  Which source fetches which bytes: the two planners over the discovery-block bitmap
  (\<open>src/crates/client/src/coverage_plan.rs\<close>), the node's, which keeps to one source while it can, and
  the client's, which gives every source its share.

  Chunk sets are values of the third-party type \<open>ChunkRanges\<close>: its operations are a parameter, and
  \<open>range_ops_ok\<close> states what they are documented to compute. \<open>usize\<close> values are naturals.
\<close>

subsection \<open>Chunk sets\<close>

record 'r range_ops =
  ro_empty :: 'r
  ro_span :: "u64 \<Rightarrow> u64 \<Rightarrow> 'r"
  ro_inter :: "'r \<Rightarrow> 'r \<Rightarrow> 'r"
  ro_union :: "'r \<Rightarrow> 'r \<Rightarrow> 'r"
  ro_intersects :: "'r \<Rightarrow> 'r \<Rightarrow> bool"
  ro_boundaries :: "'r \<Rightarrow> u64 list"

definition range_ops_ok :: "'r range_ops \<Rightarrow> ('r \<Rightarrow> u64 set) \<Rightarrow> bool" where
  "range_ops_ok R mem \<longleftrightarrow>
     mem (ro_empty R) = {} \<and> (\<forall>a b. mem (ro_span R a b) = {a..<b}) \<and>
     (\<forall>x y. mem (ro_inter R x y) = mem x \<inter> mem y) \<and> (\<forall>x y. mem (ro_union R x y) = mem x \<union> mem y) \<and>
     (\<forall>x y. ro_intersects R x y \<longleftrightarrow> mem x \<inter> mem y \<noteq> {}) \<and>
     (\<forall>x. mem x = {} \<longrightarrow> ro_boundaries R x = []) \<and>
     (\<forall>x. mem x \<noteq> {} \<and> - 1 \<notin> mem x \<longrightarrow>
        ro_boundaries R x \<noteq> [] \<and> hd (ro_boundaries R x) = Min (mem x) \<and>
        last (ro_boundaries R x) = Max (mem x) + 1)"

subsection \<open>Blocks, runs and coverage of a byte range\<close>

record source_coverage =
  sc_source_ix :: nat
  sc_coverage :: coverage

record covered_run =
  cr_offset :: u64
  cr_len :: u64
  cr_source_ix :: nat

definition block_offset :: "u32 \<Rightarrow> u64" where
  "block_offset block = ucast block * DISCOVERY_BLOCK_BYTES"

definition gap_extent :: "'r range_ops \<Rightarrow> 'r \<Rightarrow> u64 \<Rightarrow> u64 \<Rightarrow> (u64 \<times> u64) option" where
  "gap_extent R gap lo hi =
     (if hi \<le> lo then None
      else let lo_chunk = lo div BAO_CHUNK_BYTES;
               hi_chunk = div_ceil hi BAO_CHUNK_BYTES;
               bounds = ro_boundaries R (ro_inter R gap (ro_span R lo_chunk hi_chunk))
           in if bounds = [] then None
              else let start = max (sat_mul (hd bounds) BAO_CHUNK_BYTES) lo;
                       stop = min (sat_mul (last bounds) BAO_CHUNK_BYTES) hi
                   in if start < stop then Some (start, stop) else None)"

definition block_chunks :: "'r range_ops \<Rightarrow> u32 \<Rightarrow> 'r" where
  "block_chunks R block =
     (let start = ucast block * chunks_per_block in ro_span R start (start + chunks_per_block))"

definition run_from :: "'r range_ops \<Rightarrow> u64 \<Rightarrow> 'r \<Rightarrow> nat \<times> u32 \<times> u32 \<Rightarrow> covered_run" where
  "run_from R total_bytes gap = (\<lambda>(source_ix, start_block, last_block).
     (let block_lo = block_offset start_block;
          block_hi = min (sat_add (block_offset last_block) DISCOVERY_BLOCK_BYTES) total_bytes;
          (offset, stop) = (case gap_extent R gap block_lo block_hi of Some e \<Rightarrow> e | None \<Rightarrow> (block_lo, block_hi))
      in \<lparr>cr_offset = offset, cr_len = sat_sub stop offset, cr_source_ix = source_ix\<rparr>))"

definition covered_part :: "'r range_ops \<Rightarrow> coverage \<Rightarrow> 'r \<Rightarrow> u64 \<Rightarrow> 'r" where
  "covered_part R c chunks total_bytes =
     ro_inter R chunks
       (fold (\<lambda>block held. ro_union R held (block_chunks R block))
          (filter (covers c) (block_list (num_blocks total_bytes))) (ro_empty R))"

definition source_covers :: "source_coverage list \<Rightarrow> nat \<Rightarrow> u32 \<Rightarrow> bool" where
  "source_covers sources ix block = list_ex (\<lambda>s. sc_source_ix s = ix \<and> covers (sc_coverage s) block) sources"

definition covering_sources :: "u32 \<Rightarrow> source_coverage list \<Rightarrow> nat list \<Rightarrow> nat option" where
  "covering_sources block sources rank = find (\<lambda>ix. source_covers sources ix block) rank"

subsection \<open>The planners\<close>

type_synonym block_run = "nat \<times> u32 \<times> u32"

text \<open>
  Both planners keep an active run and extend it or close it: \<open>place_block\<close> is the match both loops
  share, \<open>close_run\<close> the \<open>take\<close> of the active run.
\<close>

definition place_block ::
  "(block_run \<Rightarrow> covered_run) \<Rightarrow> nat \<Rightarrow> u32 \<Rightarrow> covered_run list \<times> block_run option \<Rightarrow> covered_run list \<times> block_run option" where
  "place_block build src block = (\<lambda>(runs, current).
     (case current of
        Some (cur_src, start, last_block) \<Rightarrow>
          if cur_src = src \<and> checked_add last_block 1 = Some block then (runs, Some (cur_src, start, block))
          else (runs @ [build (cur_src, start, last_block)], Some (src, block, block))
      | None \<Rightarrow> (runs, Some (src, block, block))))"

definition close_run ::
  "(block_run \<Rightarrow> covered_run) \<Rightarrow> covered_run list \<times> block_run option \<Rightarrow> covered_run list \<times> block_run option" where
  "close_run build = (\<lambda>(runs, current).
     (case current of Some r \<Rightarrow> (runs @ [build r], None) | None \<Rightarrow> (runs, None)))"

definition sticky_source :: "source_coverage list \<Rightarrow> block_run option \<Rightarrow> u32 \<Rightarrow> nat option" where
  "sticky_source sources current block =
     (case current of
        None \<Rightarrow> None
      | Some (src, start, last_block) \<Rightarrow>
          if checked_add last_block 1 = Some block \<and> source_covers sources src block then Some src else None)"

definition covered_step ::
  "'r range_ops \<Rightarrow> 'r \<Rightarrow> u64 \<Rightarrow> source_coverage list \<Rightarrow> nat list \<Rightarrow> u32
     \<Rightarrow> (covered_run list \<times> block_run option) \<times> 'r \<Rightarrow> (covered_run list \<times> block_run option) \<times> 'r" where
  "covered_step R gap total_bytes sources rank block = (\<lambda>(rs, uncovered).
     (let chunks = block_chunks R block; build = run_from R total_bytes gap in
      if \<not> ro_intersects R gap chunks then (rs, uncovered)
      else case (case sticky_source sources (snd rs) block of
                   Some src \<Rightarrow> Some src | None \<Rightarrow> covering_sources block sources rank) of
             Some src \<Rightarrow> (place_block build src block rs, uncovered)
           | None \<Rightarrow> (close_run build rs, ro_union R uncovered (ro_inter R chunks gap))))"

definition plan_covered_runs ::
  "'r range_ops \<Rightarrow> 'r \<Rightarrow> u64 \<Rightarrow> source_coverage list \<Rightarrow> nat list \<Rightarrow> covered_run list \<times> 'r" where
  "plan_covered_runs R gap total_bytes sources rank =
     (case fold (covered_step R gap total_bytes sources rank) (block_list (num_blocks total_bytes)) (([], None), ro_empty R) of
        (rs, uncovered) \<Rightarrow> (fst (close_run (run_from R total_bytes gap) rs), uncovered))"

definition block_candidates :: "source_coverage list \<Rightarrow> u32 \<Rightarrow> nat list" where
  "block_candidates sources block = map sc_source_ix (filter (\<lambda>s. covers (sc_coverage s) block) sources)"

definition candidate_step ::
  "'r range_ops \<Rightarrow> 'r \<Rightarrow> source_coverage list \<Rightarrow> u32
     \<Rightarrow> (u32 \<times> nat list) list \<times> 'r \<times> u32 list \<Rightarrow> (u32 \<times> nat list) list \<times> 'r \<times> u32 list" where
  "candidate_step R gap sources block = (\<lambda>(candidates_by_block, uncovered, is_uncovered).
     (let chunks = block_chunks R block in
      if \<not> ro_intersects R gap chunks then (candidates_by_block, uncovered, is_uncovered)
      else let candidates = block_candidates sources block in
           if candidates = [] then (candidates_by_block, ro_union R uncovered (ro_inter R chunks gap), block # is_uncovered)
           else (candidates_by_block @ [(block, candidates)], uncovered, is_uncovered)))"

fun min_by_key :: "('a \<Rightarrow> nat \<times> nat) \<Rightarrow> 'a list \<Rightarrow> 'a option" where
  "min_by_key key [] = None"
| "min_by_key key (x # xs) =
     Some (fold (\<lambda>y best. if fst (key y) < fst (key best) \<or> fst (key y) = fst (key best) \<and> snd (key y) < snd (key best)
                          then y else best) xs x)"

definition rank_positions :: "nat list \<Rightarrow> nat \<rightharpoonup> nat" where
  "rank_positions rank = map_of (rev (zip rank [0..<length rank]))"

definition count_of :: "(nat \<rightharpoonup> nat) \<Rightarrow> nat \<Rightarrow> nat" where
  "count_of counts src = (case counts src of Some n \<Rightarrow> n | None \<Rightarrow> 0)"

definition rank_key :: "nat list \<Rightarrow> (nat \<rightharpoonup> nat) \<Rightarrow> nat \<Rightarrow> nat \<times> nat" where
  "rank_key rank counts src =
     (count_of counts src, case rank_positions rank src of Some pos \<Rightarrow> pos | None \<Rightarrow> 2 ^ 64 - 1)"

definition assign_step ::
  "nat list \<Rightarrow> nat \<Rightarrow> u32 \<times> nat list \<Rightarrow> (nat \<rightharpoonup> nat) \<times> (u32 \<rightharpoonup> nat) \<times> nat option
     \<Rightarrow> (nat \<rightharpoonup> nat) \<times> (u32 \<rightharpoonup> nat) \<times> nat option" where
  "assign_step rank target_share = (\<lambda>(block, candidates) (counts, assignment, current).
     (let stick = (case current of
                     Some src \<Rightarrow> if src \<in> set candidates \<and> count_of counts src < target_share then Some src else None
                   | None \<Rightarrow> None);
          chosen = (case stick of Some src \<Rightarrow> Some src | None \<Rightarrow> min_by_key (rank_key rank counts) candidates)
      in case chosen of
           Some src \<Rightarrow> (counts(src \<mapsto> Suc (count_of counts src)), assignment(block \<mapsto> src), Some src)
         | None \<Rightarrow> (counts, assignment, current)))"

definition coalesce_step ::
  "(block_run \<Rightarrow> covered_run) \<Rightarrow> (u32 \<rightharpoonup> nat) \<Rightarrow> u32 list \<Rightarrow> u32
     \<Rightarrow> covered_run list \<times> block_run option \<Rightarrow> covered_run list \<times> block_run option" where
  "coalesce_step build assignment is_uncovered block rs =
     (case assignment block of
        Some src \<Rightarrow> place_block build src block rs
      | None \<Rightarrow> if block \<in> set is_uncovered then close_run build rs else rs)"

definition target_share_of :: "(u32 \<times> nat list) list \<Rightarrow> source_coverage list \<Rightarrow> nat" where
  "target_share_of candidates_by_block sources =
     (let n_sources = max (length sources) 1
      in max ((length candidates_by_block + n_sources - 1) div n_sources) 1)"

definition spread_segments ::
  "'r range_ops \<Rightarrow> 'r \<Rightarrow> u64 \<Rightarrow> source_coverage list \<Rightarrow> nat list \<Rightarrow> covered_run list \<times> 'r" where
  "spread_segments R gap total_bytes sources rank =
     (let blocks = block_list (num_blocks total_bytes);
          build = run_from R total_bytes gap;
          (candidates_by_block, uncovered, is_uncovered) = fold (candidate_step R gap sources) blocks ([], ro_empty R, []);
          target_share = target_share_of candidates_by_block sources;
          (counts, assignment, current) = fold (assign_step rank target_share) candidates_by_block (Map.empty, Map.empty, None)
      in (fst (close_run build (fold (coalesce_step build assignment is_uncovered) blocks ([], None))), uncovered))"

subsection \<open>Geometry of blocks\<close>

lemma unat_block_offset [simp]: "unat (block_offset b) = unat b * 67108864"
  using unat_u32_below [of b] by (simp add: block_offset_def unat_mult_exact)

definition chunk_block :: "u64 \<Rightarrow> nat" where
  "chunk_block c = unat c div 65536"

lemma mem_block_chunks:
  assumes "range_ops_ok R mem"
  shows "mem (block_chunks R b) = {c. chunk_block c = unat b}"
proof -
  have start: "unat (ucast b * chunks_per_block) = unat b * 65536"
    using unat_u32_below [of b] by (simp add: unat_mult_exact)
  then have stop: "unat (ucast b * chunks_per_block + chunks_per_block) = unat b * 65536 + 65536"
    using unat_u32_below [of b] by (simp add: unat_add_exact)
  have "c \<in> {ucast b * chunks_per_block..<ucast b * chunks_per_block + chunks_per_block} \<longleftrightarrow> chunk_block c = unat b" for c
    unfolding atLeastLessThan_iff word_order_nat start stop chunk_block_def
    using div_nat_eqI [of 65536 "unat b" "unat c"] div_times_less_eq_dividend [of "unat c" 65536] dividend_less_div_times [of 65536 "unat c"]
    by auto
  with assms show ?thesis by (auto simp: block_chunks_def range_ops_ok_def Let_def)
qed

lemma block_byte: "unat b * 67108864 \<le> 1024 * unat c \<longleftrightarrow> unat b \<le> chunk_block c" for b :: u32
  by (simp add: chunk_block_def less_eq_div_iff_mult_less_eq mult.commute)

lemma chunk_block_le_iff: "chunk_block c \<le> k \<longleftrightarrow> 1024 * (unat c + 1) \<le> (k + 1) * 67108864"
proof -
  have "chunk_block c \<le> k \<longleftrightarrow> unat c < (k + 1) * 65536"
    unfolding chunk_block_def Suc_eq_plus1 [symmetric] by (simp only: less_Suc_eq_le [symmetric] div_less_iff_less_mult zero_less_numeral)
  also have "\<dots> \<longleftrightarrow> 1024 * (unat c + 1) \<le> (k + 1) * 67108864" by simp linarith
  finally show ?thesis .
qed

lemma le_chunk_block_iff: "k \<le> chunk_block c \<longleftrightarrow> k * 67108864 \<le> 1024 * unat c"
  by (simp add: chunk_block_def less_eq_div_iff_mult_less_eq mult.commute)

text \<open>What \<open>gap_extent\<close> finds in a span of blocks that misses a chunk: its first and its last missing chunk.\<close>

lemma gap_extent_span:
  fixes f l :: u32 and hi total_bytes :: u64
  assumes ok: "range_ops_ok R mem" and blob: "\<And>c. c \<in> mem gap \<Longrightarrow> unat c * 1024 < unat total_bytes"
    and hi: "unat hi = min (unat l * 67108864 + 67108864) (unat total_bytes)"
    and c: "c \<in> mem gap" "unat f \<le> chunk_block c" "chunk_block c \<le> unat l"
  obtains start stop c0 c1 where "gap_extent R gap (block_offset f) hi = Some (start, stop)"
    "c0 \<in> mem gap" "unat f \<le> chunk_block c0" "chunk_block c0 \<le> unat l"
    "c1 \<in> mem gap" "unat f \<le> chunk_block c1" "chunk_block c1 \<le> unat l"
    "unat start = 1024 * unat c0" "unat stop = min (1024 * (unat c1 + 1)) (unat total_bytes)"
    "\<And>d. d \<in> mem gap \<Longrightarrow> unat f \<le> chunk_block d \<Longrightarrow> chunk_block d \<le> unat l \<Longrightarrow> unat c0 \<le> unat d \<and> unat d \<le> unat c1"
proof -
  let ?lo = "block_offset f div BAO_CHUNK_BYTES" and ?hc = "div_ceil hi BAO_CHUNK_BYTES"
  let ?S = "{d \<in> mem gap. unat f \<le> chunk_block d \<and> chunk_block d \<le> unat l}"
  let ?I = "ro_inter R gap (ro_span R ?lo ?hc)"
  have lo: "unat ?lo = unat f * 65536" by (simp add: unat_div_distrib)
  have hc: "unat ?hc = (unat hi + 1023) div 1024" by (simp add: unat_div_ceil)
  have win: "d \<in> {?lo..<?hc} \<longleftrightarrow> unat f \<le> chunk_block d \<and> chunk_block d \<le> unat l" if "d \<in> mem gap" for d
  proof -
    have "unat d < (unat hi + 1023) div 1024 \<longleftrightarrow> 1024 * unat d < unat hi" by linarith
    also have "\<dots> \<longleftrightarrow> 1024 * unat d < unat l * 67108864 + 67108864" using blob [OF that] by (simp add: hi mult.commute)
    also have "\<dots> \<longleftrightarrow> chunk_block d \<le> unat l" unfolding chunk_block_def by linarith
    finally show ?thesis
      unfolding atLeastLessThan_iff word_order_nat lo hc by (simp add: chunk_block_def less_eq_div_iff_mult_less_eq)
  qed
  have I: "mem ?I = ?S" using ok win by (auto simp: range_ops_ok_def)
  have ne: "?S \<noteq> {}" and fin: "finite ?S" using c by auto
  have small: "unat d * 1024 < 2 ^ 64" if "d \<in> mem gap" for d
    using less_trans [OF blob [OF that] unat_below] by simp
  have top: "- 1 \<notin> ?S" using small [of "- 1"] by (auto simp: unat_max_word)
  have bnd: "ro_boundaries R ?I \<noteq> []" "hd (ro_boundaries R ?I) = Min ?S" "last (ro_boundaries R ?I) = Max ?S + 1"
    using ok ne top I unfolding range_ops_ok_def by metis+
  note c0 = Min_in [OF fin ne] and c1 = Max_in [OF fin ne]
  have "unat (Min ?S) * 1024 < 2 ^ 64" "unat (Max ?S) * 1024 < 2 ^ 64"
    using c0 c1 small by blast+
  then have m: "unat (sat_mul (Min ?S) BAO_CHUNK_BYTES) = 1024 * unat (Min ?S)"
    and M: "unat (Max ?S + 1) = unat (Max ?S) + 1"
    by (auto simp: unat_sat_mul unat_add_exact)
  let ?start = "max (sat_mul (Min ?S) BAO_CHUNK_BYTES) (block_offset f)"
  let ?stop = "min (sat_mul (Max ?S + 1) BAO_CHUNK_BYTES) hi"
  have start: "unat ?start = 1024 * unat (Min ?S)"
  proof -
    have "unat (block_offset f) \<le> 1024 * unat (Min ?S)" using c0 by (simp add: block_byte)
    then have "block_offset f \<le> sat_mul (Min ?S) BAO_CHUNK_BYTES" by (simp only: word_le_nat_alt m)
    then show ?thesis by (simp add: max_absorb1 m)
  qed
  have hi_le: "unat hi \<le> unat total_bytes" "unat hi \<le> 2 ^ 64 - 1" using unat_below [of hi] by (simp_all add: hi)
  have stop: "unat ?stop = min (1024 * (unat (Max ?S) + 1)) (unat total_bytes)"
  proof -
    have "1024 * (unat (Max ?S) + 1) \<le> unat l * 67108864 + 67108864"
      using c1 unfolding chunk_block_def by simp linarith
    then have "min (1024 * (unat (Max ?S) + 1)) (unat hi) = min (1024 * (unat (Max ?S) + 1)) (unat total_bytes)"
      by (simp add: hi min_def)
    moreover have "unat ?stop = min (1024 * (unat (Max ?S) + 1)) (unat hi)"
      using hi_le by (simp add: min_def word_le_nat_alt unat_sat_mul M mult.commute)
    ultimately show ?thesis by simp
  qed
  have mM: "Min ?S \<le> Max ?S" using c0 fin by simp
  have lt: "?start < ?stop"
    using mM c0 blob [of "Min ?S"] unfolding word_order_nat start stop by (simp add: mult.commute)
  have "unat f * 67108864 < unat hi"
    using c blob [OF c(1)] by (auto simp: hi chunk_block_def)
  then have nle: "\<not> hi \<le> block_offset f" by (simp add: word_le_nat_alt)
  show thesis
  proof (rule that [of ?start ?stop "Min ?S" "Max ?S"])
    show "gap_extent R gap (block_offset f) hi = Some (?start, ?stop)"
      using nle bnd lt by (simp add: gap_extent_def Let_def)
    show "unat (Min ?S) \<le> unat d \<and> unat d \<le> unat (Max ?S)"
      if "d \<in> mem gap" "unat f \<le> chunk_block d" "chunk_block d \<le> unat l" for d
      using that fin by (simp flip: word_le_nat_alt)
  qed (use c0 c1 start stop in auto)
qed

lemma run_from_span:
  assumes ok: "range_ops_ok R mem" and blob: "\<And>c. c \<in> mem gap \<Longrightarrow> unat c * 1024 < unat total_bytes"
    and c: "c \<in> mem gap" "unat f \<le> chunk_block c" "chunk_block c \<le> unat l"
  obtains c0 c1 where
    "c0 \<in> mem gap" "unat f \<le> chunk_block c0" "chunk_block c0 \<le> unat l"
    "c1 \<in> mem gap" "unat f \<le> chunk_block c1" "chunk_block c1 \<le> unat l" "unat c0 \<le> unat c1"
    "unat (cr_offset (run_from R total_bytes gap (src, f, l))) = 1024 * unat c0"
    "unat (cr_offset (run_from R total_bytes gap (src, f, l))) + unat (cr_len (run_from R total_bytes gap (src, f, l)))
       = min (1024 * (unat c1 + 1)) (unat total_bytes)"
    "\<And>d. d \<in> mem gap \<Longrightarrow> unat f \<le> chunk_block d \<Longrightarrow> chunk_block d \<le> unat l \<Longrightarrow> unat c0 \<le> unat d \<and> unat d \<le> unat c1"
proof -
  let ?hi = "min (sat_add (block_offset l) DISCOVERY_BLOCK_BYTES) total_bytes"
  have "unat (sat_add (block_offset l) DISCOVERY_BLOCK_BYTES) = unat l * 67108864 + 67108864"
    using unat_u32_below [of l] by (simp add: unat_sat_add)
  then have hi: "unat ?hi = min (unat l * 67108864 + 67108864) (unat total_bytes)"
    by (simp add: min_def word_le_nat_alt)
  from gap_extent_span [OF ok blob hi c] obtain start stop c0 c1 where
    ext: "gap_extent R gap (block_offset f) ?hi = Some (start, stop)"
    and c0: "c0 \<in> mem gap" "unat f \<le> chunk_block c0" "chunk_block c0 \<le> unat l"
    and c1: "c1 \<in> mem gap" "unat f \<le> chunk_block c1" "chunk_block c1 \<le> unat l"
    and start: "unat start = 1024 * unat c0" and stop: "unat stop = min (1024 * (unat c1 + 1)) (unat total_bytes)"
    and all: "\<And>d. d \<in> mem gap \<Longrightarrow> unat f \<le> chunk_block d \<Longrightarrow> chunk_block d \<le> unat l \<Longrightarrow> unat c0 \<le> unat d \<and> unat d \<le> unat c1"
    by blast
  have run: "run_from R total_bytes gap (src, f, l) = \<lparr>cr_offset = start, cr_len = sat_sub stop start, cr_source_ix = src\<rparr>"
    by (simp add: run_from_def ext Let_def)
  have le: "unat c0 \<le> unat c1" using all [OF c1] by simp
  have "unat start \<le> unat stop" using le blob [OF c0(1)] by (simp add: start stop mult.commute)
  with that [OF c0 c1 le] all start stop show thesis by (simp add: run unat_sat_sub)
qed

lemma run_from_source [simp]: "cr_source_ix (run_from R total_bytes gap (src, f, l)) = src"
  by (simp add: run_from_def Let_def split: prod.split)

subsection \<open>Runs of blocks\<close>

text \<open>
  The runs a planner has closed, together with the active one, as runs of blocks: ascending,
  without overlap, below block \<open>k\<close>, and every block of a run good for the run's source.
\<close>

definition block_runs :: "(nat \<Rightarrow> u32 \<Rightarrow> bool) \<Rightarrow> nat \<Rightarrow> block_run list \<Rightarrow> bool" where
  "block_runs good k ts \<longleftrightarrow>
     (\<forall>(src, f, l) \<in> set ts. unat f \<le> unat l \<and> unat l < k \<and> (\<forall>b. unat f \<le> unat b \<and> unat b \<le> unat l \<longrightarrow> good src b)) \<and>
     sorted_wrt (\<lambda>(_, _, l) (_, f, _). unat l < unat f) ts"

definition in_runs :: "block_run list \<Rightarrow> u32 \<Rightarrow> bool" where
  "in_runs ts b \<longleftrightarrow> (\<exists>(src, f, l) \<in> set ts. unat f \<le> unat b \<and> unat b \<le> unat l)"

definition holds_runs ::
  "(block_run \<Rightarrow> covered_run) \<Rightarrow> block_run list \<Rightarrow> covered_run list \<times> block_run option \<Rightarrow> bool" where
  "holds_runs build ts rs \<longleftrightarrow>
     (case snd rs of
        None \<Rightarrow> fst rs = map build ts
      | Some r \<Rightarrow> \<exists>us. ts = us @ [r] \<and> fst rs = map build us)"

lemma block_runs_mono: "block_runs good k ts \<Longrightarrow> k \<le> k' \<Longrightarrow> block_runs good k' ts"
  by (fastforce simp: block_runs_def)

lemma close_run_holds: "holds_runs build ts rs \<Longrightarrow> holds_runs build ts (close_run build rs)"
  by (auto simp: holds_runs_def close_run_def split: option.splits prod.splits)

lemma close_run_list: "holds_runs build ts rs \<Longrightarrow> fst (close_run build rs) = map build ts"
  by (auto simp: holds_runs_def close_run_def split: option.splits prod.splits)

lemma block_runs_snoc:
  assumes "block_runs good k ts" and "unat b = k" and "good src b"
  shows "block_runs good (Suc k) (ts @ [(src, b, b)])"
  using assms by (fastforce simp: block_runs_def sorted_wrt_append word_unat_eq_iff [symmetric])

lemma block_runs_extend:
  assumes "block_runs good k (us @ [(src, f, l)])" and "unat b = k" and "good src b" and "Suc (unat l) = k"
  shows "block_runs good (Suc k) (us @ [(src, f, b)])"
proof -
  have "good src d" if "unat f \<le> unat d" "unat d \<le> k" for d
  proof (cases "unat d \<le> unat l")
    case True
    with assms(1) that(1) show ?thesis by (auto simp: block_runs_def)
  next
    case False
    with that(2) assms(2,4) have "unat d = unat b" by linarith
    with assms(3) show ?thesis by (simp add: word_unat_eq_iff [symmetric])
  qed
  with assms show ?thesis by (fastforce simp: block_runs_def sorted_wrt_append)
qed

lemma place_block_holds:
  assumes "holds_runs build ts rs" and "block_runs good k ts" and "unat b = k" and "good src b"
  obtains ts' where "holds_runs build ts' (place_block build src b rs)" "block_runs good (Suc k) ts'"
    "\<And>d. in_runs ts' d \<longleftrightarrow> in_runs ts d \<or> d = b"
proof (cases "\<exists>f l. snd rs = Some (src, f, l) \<and> checked_add l 1 = Some b")
  case True
  then obtain f l where cur: "snd rs = Some (src, f, l)" "checked_add l 1 = Some b" by blast
  then obtain us where us: "ts = us @ [(src, f, l)]" "fst rs = map build us"
    using assms(1) by (auto simp: holds_runs_def)
  have l: "Suc (unat l) = k" using cur(2) assms(3) by (simp add: checked_add_Some_iff)
  have fl: "unat f \<le> unat l" using assms(2) us(1) by (auto simp: block_runs_def)
  show thesis
  proof (rule that [of "us @ [(src, f, b)]"])
    show "holds_runs build (us @ [(src, f, b)]) (place_block build src b rs)"
      using cur us by (cases rs) (simp add: holds_runs_def place_block_def)
    show "block_runs good (Suc k) (us @ [(src, f, b)])"
      using block_runs_extend assms us(1) l by blast
    have "unat d \<le> k \<longleftrightarrow> unat d \<le> unat l \<or> d = b" for d
      using l assms(3) by (auto simp: word_unat_eq_iff)
    then show "in_runs (us @ [(src, f, b)]) d \<longleftrightarrow> in_runs ts d \<or> d = b" for d
      using fl l assms(3) by (auto simp: in_runs_def us(1))
  qed
next
  case False
  show thesis
  proof (rule that [of "ts @ [(src, b, b)]"])
    show "holds_runs build (ts @ [(src, b, b)]) (place_block build src b rs)"
      using False assms(1) by (auto simp: holds_runs_def place_block_def split: prod.splits option.splits)
    show "block_runs good (Suc k) (ts @ [(src, b, b)])" using assms(2-4) by (rule block_runs_snoc)
    show "in_runs (ts @ [(src, b, b)]) d \<longleftrightarrow> in_runs ts d \<or> d = b" for d
      by (auto simp: in_runs_def word_unat_eq_iff)
  qed
qed

subsection \<open>What a plan promises\<close>

definition run_end :: "covered_run \<Rightarrow> nat" where
  "run_end r = unat (cr_offset r) + unat (cr_len r)"

text \<open>
  The specification both planners meet. Each run begins and ends at a missing chunk, stays in the
  blob and lies in the coverage of its source; runs come in order and do not overlap; every missing
  chunk is either inside a run or reported as uncovered, and then no run touches it.
\<close>

definition run_ok :: "('r \<Rightarrow> u64 set) \<Rightarrow> 'r \<Rightarrow> u64 \<Rightarrow> source_coverage list \<Rightarrow> covered_run \<Rightarrow> bool" where
  "run_ok mem gap total_bytes sources r \<longleftrightarrow>
     0 < cr_len r \<and> run_end r \<le> unat total_bytes \<and>
     (\<exists>c \<in> mem gap. unat (cr_offset r) = 1024 * unat c) \<and>
     (\<exists>c \<in> mem gap. run_end r = min (1024 * (unat c + 1)) (unat total_bytes)) \<and>
     (\<exists>s \<in> set sources. sc_source_ix s = cr_source_ix r \<and>
        covers_byte_range (sc_coverage s) (cr_offset r) (cr_len r) total_bytes)"

definition assigns_gap ::
  "('r \<Rightarrow> u64 set) \<Rightarrow> 'r \<Rightarrow> u64 \<Rightarrow> source_coverage list \<Rightarrow> covered_run list \<times> 'r \<Rightarrow> bool" where
  "assigns_gap mem gap total_bytes sources = (\<lambda>(runs, uncovered).
     (\<forall>r \<in> set runs. run_ok mem gap total_bytes sources r) \<and>
     sorted_wrt (\<lambda>r r'. run_end r \<le> unat (cr_offset r')) runs \<and>
     mem uncovered \<subseteq> mem gap \<and>
     (\<forall>c \<in> mem gap.
        if c \<in> mem uncovered
        then \<forall>r \<in> set runs. run_end r \<le> 1024 * unat c \<or> 1024 * (unat c + 1) \<le> unat (cr_offset r)
        else \<exists>r \<in> set runs. unat (cr_offset r) \<le> 1024 * unat c \<and> min (1024 * (unat c + 1)) (unat total_bytes) \<le> run_end r))"

definition block_of :: "u64 \<Rightarrow> u32" where
  "block_of c = of_nat (chunk_block c)"

definition misses_in :: "('r \<Rightarrow> u64 set) \<Rightarrow> 'r \<Rightarrow> u32 \<Rightarrow> bool" where
  "misses_in mem gap b \<longleftrightarrow> (\<exists>c \<in> mem gap. chunk_block c = unat b)"

definition good_for :: "('r \<Rightarrow> u64 set) \<Rightarrow> 'r \<Rightarrow> source_coverage list \<Rightarrow> nat \<Rightarrow> u32 \<Rightarrow> bool" where
  "good_for mem gap sources src b \<longleftrightarrow> misses_in mem gap b \<and> source_covers sources src b"

lemma source_covers_distinct:
  assumes "distinct (map sc_source_ix sources)" and "source_covers sources src b"
  obtains s where "s \<in> set sources" "sc_source_ix s = src" "\<And>d. source_covers sources src d \<Longrightarrow> covers (sc_coverage s) d"
proof -
  from assms(2) obtain s where s: "s \<in> set sources" "sc_source_ix s = src" by (auto simp: source_covers_def list_ex_iff)
  have "covers (sc_coverage s) d" if "source_covers sources src d" for d
    using that s assms(1) by (auto simp: source_covers_def list_ex_iff distinct_map dest: inj_onD)
  with s that show thesis by blast
qed

lemma intersects_block_iff:
  "range_ops_ok R mem \<Longrightarrow> ro_intersects R gap (block_chunks R b) \<longleftrightarrow> misses_in mem gap b"
  using mem_block_chunks [of R mem b] by (auto simp: range_ops_ok_def misses_in_def)

lemma run_of_block_run:
  assumes ok: "range_ops_ok R mem" and blob: "\<And>c. c \<in> mem gap \<Longrightarrow> unat c * 1024 < unat total_bytes"
    and small: "unat total_bytes \<le> 2 ^ 58" and dist: "distinct (map sc_source_ix sources)"
    and fl: "unat f \<le> unat l" and good: "\<And>b. unat f \<le> unat b \<Longrightarrow> unat b \<le> unat l \<Longrightarrow> good_for mem gap sources src b"
    and r: "r = run_from R total_bytes gap (src, f, l)"
  shows "run_ok mem gap total_bytes sources r"
    and "unat f * 67108864 \<le> unat (cr_offset r)" and "run_end r \<le> (unat l + 1) * 67108864"
    and "\<And>c. c \<in> mem gap \<Longrightarrow> unat f \<le> chunk_block c \<Longrightarrow> chunk_block c \<le> unat l \<Longrightarrow>
           unat (cr_offset r) \<le> 1024 * unat c \<and> min (1024 * (unat c + 1)) (unat total_bytes) \<le> run_end r"
proof -
  from good [of f] fl have gf: "good_for mem gap sources src f" by simp
  then obtain c where c: "c \<in> mem gap" "chunk_block c = unat f" by (auto simp: good_for_def misses_in_def)
  then have cl: "unat f \<le> chunk_block c" "chunk_block c \<le> unat l" using fl by simp_all
  obtain c0 c1 where
    c0: "c0 \<in> mem gap" "unat f \<le> chunk_block c0" "chunk_block c0 \<le> unat l" and
    c1: "c1 \<in> mem gap" "unat f \<le> chunk_block c1" "chunk_block c1 \<le> unat l" and le: "unat c0 \<le> unat c1"
    and off: "unat (cr_offset r) = 1024 * unat c0" and stop: "run_end r = min (1024 * (unat c1 + 1)) (unat total_bytes)"
    and all: "\<And>d. d \<in> mem gap \<Longrightarrow> unat f \<le> chunk_block d \<Longrightarrow> chunk_block d \<le> unat l \<Longrightarrow> unat c0 \<le> unat d \<and> unat d \<le> unat c1"
    using run_from_span [OF ok blob c(1) cl, of src] unfolding r run_end_def by blast
  show lo: "unat f * 67108864 \<le> unat (cr_offset r)" using c0(2) by (simp add: off block_byte)
  have "1024 * (unat c1 + 1) \<le> (unat l + 1) * 67108864" using c1(3) by (simp only: chunk_block_le_iff)
  then show hi: "run_end r \<le> (unat l + 1) * 67108864" by (simp add: stop)
  show "unat (cr_offset r) \<le> 1024 * unat d \<and> min (1024 * (unat d + 1)) (unat total_bytes) \<le> run_end r"
    if "d \<in> mem gap" "unat f \<le> chunk_block d" "chunk_block d \<le> unat l" for d
    using all [OF that] by (auto simp: off stop min_def)
  have pos: "unat (cr_offset r) < run_end r" using le blob [OF c0(1)] by (simp add: off stop mult.commute)
  obtain s where s: "s \<in> set sources" "sc_source_ix s = src" "\<And>d. source_covers sources src d \<Longrightarrow> covers (sc_coverage s) d"
    using source_covers_distinct [OF dist] gf unfolding good_for_def by blast
  have "covers (sc_coverage s) b"
    if "unat (cr_offset r) div 67108864 \<le> unat b" "unat b \<le> (unat (cr_offset r) + unat (cr_len r) - 1) div 67108864" for b :: u32
  proof -
    have "unat f \<le> unat b" using that(1) lo by linarith
    moreover have "unat b * 67108864 \<le> run_end r - 1"
      using that(2) by (simp add: less_eq_div_iff_mult_less_eq run_end_def)
    then have "unat b * 67108864 < (unat l + 1) * 67108864" using hi pos by linarith
    then have "unat b \<le> unat l" by simp
    ultimately show ?thesis using good [of b] s(3) by (simp add: good_for_def)
  qed
  then have "covers_byte_range (sc_coverage s) (cr_offset r) (cr_len r) total_bytes"
    by (intro covers_byte_range_blocks) (use small stop in \<open>simp_all add: run_end_def\<close>)
  moreover have "0 < cr_len r" using pos by (simp add: run_end_def word_less_nat_alt)
  moreover have "cr_source_ix r = src" by (simp add: r)
  ultimately show "run_ok mem gap total_bytes sources r"
    unfolding run_ok_def using s(1,2) c0(1) c1(1) off stop by auto
qed

lemma assigns_gapI:
  assumes ok: "range_ops_ok R mem" and blob: "\<And>c. c \<in> mem gap \<Longrightarrow> unat c * 1024 < unat total_bytes"
    and small: "unat total_bytes \<le> 2 ^ 58" and dist: "distinct (map sc_source_ix sources)"
    and ts: "block_runs (good_for mem gap sources) n ts"
    and unc: "mem uncovered \<subseteq> mem gap"
    and cov: "\<And>c. c \<in> mem gap \<Longrightarrow> c \<in> mem uncovered \<longleftrightarrow> \<not> in_runs ts (block_of c)"
  shows "assigns_gap mem gap total_bytes sources (map (run_from R total_bytes gap) ts, uncovered)"
proof -
  let ?run = "run_from R total_bytes gap"
  have blk: "unat (block_of c) = chunk_block c" if "c \<in> mem gap" for c
  proof -
    have "unat c * 1024 < 2 ^ 58" using blob [OF that] small by linarith
    then have "chunk_block c < 2 ^ 32" by (simp add: chunk_block_def div_less_iff_less_mult)
    then show ?thesis by (simp add: block_of_def unat_of_nat take_bit_nat_eq_self)
  qed
  have t: "unat f \<le> unat l" "\<And>b. unat f \<le> unat b \<Longrightarrow> unat b \<le> unat l \<Longrightarrow> good_for mem gap sources src b"
    if "(src, f, l) \<in> set ts" for src f l
    using ts that by (auto simp: block_runs_def)
  have run:
    "run_ok mem gap total_bytes sources (?run (src, f, l))"
    "unat f * 67108864 \<le> unat (cr_offset (?run (src, f, l)))" "run_end (?run (src, f, l)) \<le> (unat l + 1) * 67108864"
    "\<And>c. c \<in> mem gap \<Longrightarrow> unat f \<le> chunk_block c \<Longrightarrow> chunk_block c \<le> unat l \<Longrightarrow>
       unat (cr_offset (?run (src, f, l))) \<le> 1024 * unat c \<and> min (1024 * (unat c + 1)) (unat total_bytes) \<le> run_end (?run (src, f, l))"
    if "(src, f, l) \<in> set ts" for src f l
    using run_of_block_run [OF ok blob small dist t(1) [OF that] t(2) [OF that] refl] by auto
  have between: "run_end (?run t) \<le> unat (cr_offset (?run t'))"
    if "t \<in> set ts" "t' \<in> set ts" "(case t of (_, _, l) \<Rightarrow> case t' of (_, f, _) \<Rightarrow> unat l < unat f)" for t t'
  proof -
    obtain src f l src' f' l' where [simp]: "t = (src, f, l)" "t' = (src', f', l')" by (metis prod_cases3)
    have "run_end (?run t) \<le> (unat l + 1) * 67108864" using run(3) that(1) by simp
    also have "\<dots> \<le> unat f' * 67108864" by (rule mult_le_mono1) (use that(3) in simp)
    also have "\<dots> \<le> unat (cr_offset (?run t'))" using run(2) that(2) by simp
    finally show ?thesis .
  qed
  have "sorted_wrt (\<lambda>r r'. run_end r \<le> unat (cr_offset r')) (map ?run ts)"
    unfolding sorted_wrt_map
    by (rule sorted_wrt_mono_rel [of ts "\<lambda>(_, _, l) (_, f, _). unat l < unat f"])
       (use between ts in \<open>auto simp: block_runs_def\<close>)
  moreover have "run_ok mem gap total_bytes sources r" if "r \<in> set (map ?run ts)" for r
    using that run(1) by auto
  moreover have "run_end r \<le> 1024 * unat c \<or> 1024 * (unat c + 1) \<le> unat (cr_offset r)"
    if c: "c \<in> mem gap" "c \<in> mem uncovered" and r: "r \<in> set (map ?run ts)" for c r
  proof -
    obtain src f l where t: "(src, f, l) \<in> set ts" "r = ?run (src, f, l)" using r by auto
    have "\<not> (unat f \<le> chunk_block c \<and> chunk_block c \<le> unat l)"
      using cov [OF c(1)] c(2) t(1) by (fastforce simp: in_runs_def blk [OF c(1)])
    then have "Suc (unat l) \<le> chunk_block c \<or> Suc (chunk_block c) \<le> unat f" by linarith
    then have "(unat l + 1) * 67108864 \<le> 1024 * unat c \<or> 1024 * (unat c + 1) \<le> unat f * 67108864"
      using chunk_block_le_iff [of c "unat f - 1"] by (auto simp: le_chunk_block_iff)
    with run(2,3) [OF t(1)] show ?thesis unfolding t(2) by linarith
  qed
  moreover have "\<exists>r \<in> set (map ?run ts). unat (cr_offset r) \<le> 1024 * unat c \<and> min (1024 * (unat c + 1)) (unat total_bytes) \<le> run_end r"
    if c: "c \<in> mem gap" "c \<notin> mem uncovered" for c
  proof -
    obtain src f l where t: "(src, f, l) \<in> set ts" "unat f \<le> chunk_block c" "chunk_block c \<le> unat l"
      using cov [OF c(1)] c(2) by (fastforce simp: in_runs_def blk [OF c(1)])
    with run(4) [OF t(1) c(1)] show ?thesis by force
  qed
  ultimately show ?thesis using unc by (simp add: assigns_gap_def)
qed

subsection \<open>The node's planner\<close>

definition ranked :: "source_coverage list \<Rightarrow> nat list \<Rightarrow> u32 \<Rightarrow> bool" where
  "ranked sources rank b \<longleftrightarrow> (\<exists>ix \<in> set rank. source_covers sources ix b)"

lemma covering_sources_Some: "covering_sources b sources rank = Some src \<Longrightarrow> src \<in> set rank \<and> source_covers sources src b"
  by (auto simp: covering_sources_def find_Some_iff in_set_conv_nth)

lemma covering_sources_None: "covering_sources b sources rank = None \<longleftrightarrow> \<not> ranked sources rank b"
  by (auto simp: covering_sources_def find_None_iff ranked_def)

text \<open>
  The state of either walk after the blocks below \<open>k\<close>: \<open>ts\<close> holds exactly the blocks that miss a
  chunk and have a source, \<open>uncovered\<close> the missing chunks of the others.
\<close>

definition walked_runs ::
  "('r \<Rightarrow> u64 set) \<Rightarrow> 'r \<Rightarrow> (nat \<Rightarrow> u32 \<Rightarrow> bool) \<Rightarrow> (u32 \<Rightarrow> bool) \<Rightarrow> nat \<Rightarrow> block_run list \<Rightarrow> bool" where
  "walked_runs mem gap good served k ts \<longleftrightarrow>
     block_runs good k ts \<and> (\<forall>b. in_runs ts b \<longleftrightarrow> unat b < k \<and> misses_in mem gap b \<and> served b)"

definition unserved :: "('r \<Rightarrow> u64 set) \<Rightarrow> 'r \<Rightarrow> (u32 \<Rightarrow> bool) \<Rightarrow> nat \<Rightarrow> u64 set" where
  "unserved mem gap served k = {c \<in> mem gap. chunk_block c < k \<and> \<not> served (block_of c)}"

lemma block_of_eq: "chunk_block c = unat b \<Longrightarrow> block_of c = b"
  by (simp add: block_of_def)

lemma unserved_Suc:
  assumes "unat b = k"
  shows "unserved mem gap served (Suc k) =
    (if served b then unserved mem gap served k else unserved mem gap served k \<union> {c \<in> mem gap. chunk_block c = k})"
  using assms by (auto simp: unserved_def less_Suc_eq block_of_eq)

lemma mem_add_uncovered:
  assumes "range_ops_ok R mem"
  shows "mem (ro_union R uncovered (ro_inter R (block_chunks R b) gap)) = mem uncovered \<union> {c \<in> mem gap. chunk_block c = unat b}"
  using assms mem_block_chunks [OF assms] by (auto simp: range_ops_ok_def)

lemma walked_runs_skip:
  assumes "walked_runs mem gap good served k ts" and "unat b = k" and "\<not> (misses_in mem gap b \<and> served b)"
  shows "walked_runs mem gap good served (Suc k) ts"
proof -
  have "in_runs ts d \<longleftrightarrow> unat d < Suc k \<and> misses_in mem gap d \<and> served d" for d
  proof (cases "d = b")
    case False
    then have "unat d \<noteq> k" using assms(2) by (simp add: word_unat_eq_iff)
    with assms(1) show ?thesis by (simp add: walked_runs_def less_Suc_eq)
  qed (use assms in \<open>simp add: walked_runs_def\<close>)
  then show ?thesis using assms(1) block_runs_mono [of good k ts "Suc k"] by (simp add: walked_runs_def)
qed

lemma walked_runs_placed:
  assumes "walked_runs mem gap good served k ts" and "holds_runs build ts rs" and "unat b = k"
    and "good src b" and "misses_in mem gap b" and "served b"
  obtains ts' where "walked_runs mem gap good served (Suc k) ts'" "holds_runs build ts' (place_block build src b rs)"
proof -
  have br: "block_runs good k ts" using assms(1) by (simp add: walked_runs_def)
  from place_block_holds [OF assms(2) br assms(3,4)] obtain ts' where
    ts': "holds_runs build ts' (place_block build src b rs)" "block_runs good (Suc k) ts'"
      "\<And>d. in_runs ts' d \<longleftrightarrow> in_runs ts d \<or> d = b" by blast
  have "in_runs ts' d \<longleftrightarrow> unat d < Suc k \<and> misses_in mem gap d \<and> served d" for d
  proof (cases "d = b")
    case False
    then have "unat d \<noteq> k" using assms(3) by (simp add: word_unat_eq_iff)
    with False assms(1) show ?thesis by (simp add: ts'(3) walked_runs_def less_Suc_eq)
  qed (use assms(3,5,6) in \<open>simp add: ts'(3)\<close>)
  with ts'(2) have "walked_runs mem gap good served (Suc k) ts'" by (simp add: walked_runs_def)
  from that [OF this ts'(1)] show thesis .
qed

lemma walked_runs_start: "walked_runs mem gap good served 0 []"
  by (auto simp: walked_runs_def block_runs_def in_runs_def)

definition walked ::
  "('r \<Rightarrow> u64 set) \<Rightarrow> 'r \<Rightarrow> (nat \<Rightarrow> u32 \<Rightarrow> bool) \<Rightarrow> (u32 \<Rightarrow> bool) \<Rightarrow> nat \<Rightarrow> block_run list \<Rightarrow> 'r \<Rightarrow> bool" where
  "walked mem gap good served k ts uncovered \<longleftrightarrow>
     walked_runs mem gap good served k ts \<and> mem uncovered = unserved mem gap served k"

lemma unserved_miss: "unat b = k \<Longrightarrow> \<not> misses_in mem gap b \<Longrightarrow> unserved mem gap served (Suc k) = unserved mem gap served k"
  by (auto simp: unserved_Suc misses_in_def)

lemma covered_step_walked:
  assumes ok: "range_ops_ok R mem" and b: "unat b = k"
    and good: "good = (\<lambda>src b. good_for mem gap sources src b \<and> src \<in> set rank)"
    and w: "walked mem gap good (ranked sources rank) k ts uncovered"
    and h: "holds_runs (run_from R total_bytes gap) ts rs"
    and step: "covered_step R gap total_bytes sources rank b (rs, uncovered) = (rs', uncovered')"
  shows "\<exists>ts'. walked mem gap good (ranked sources rank) (Suc k) ts' uncovered' \<and> holds_runs (run_from R total_bytes gap) ts' rs'"
proof (cases "misses_in mem gap b")
  case False
  with step h w walked_runs_skip [of mem gap good "ranked sources rank" k ts b] b show ?thesis
    by (auto simp: covered_step_def intersects_block_iff [OF ok] walked_def unserved_miss)
next
  case True
  let ?build = "run_from R total_bytes gap"
  let ?chosen = "case sticky_source sources (snd rs) b of Some src \<Rightarrow> Some src | None \<Rightarrow> covering_sources b sources rank"
  show ?thesis
  proof (cases ?chosen)
    case None
    then have un: "\<not> ranked sources rank b" by (auto simp: covering_sources_None split: option.splits)
    have "rs' = close_run ?build rs" "uncovered' = ro_union R uncovered (ro_inter R (block_chunks R b) gap)"
      using step True None by (auto simp: covered_step_def intersects_block_iff [OF ok] Let_def)
    with walked_runs_skip [of mem gap good "ranked sources rank" k ts b] un w b close_run_holds [OF h] show ?thesis
      by (auto simp: walked_def unserved_Suc mem_add_uncovered [OF ok])
  next
    case (Some src)
    have src: "src \<in> set rank \<and> source_covers sources src b"
    proof (cases "sticky_source sources (snd rs) b")
      case None
      with Some covering_sources_Some show ?thesis by simp
    next
      case st: (Some src')
      then obtain f l where cur: "snd rs = Some (src, f, l)" "source_covers sources src b"
        using Some by (auto simp: sticky_source_def split: option.splits prod.splits if_splits)
      then obtain us where "ts = us @ [(src, f, l)]" using h by (auto simp: holds_runs_def)
      then have "good src f" using w by (auto simp: walked_def walked_runs_def block_runs_def)
      with cur(2) show ?thesis by (simp add: good)
    qed
    have "rs' = place_block ?build src b rs" "uncovered' = uncovered"
      using step True Some by (auto simp: covered_step_def intersects_block_iff [OF ok] Let_def)
    moreover have "good src b" "ranked sources rank b" using src True by (auto simp: good good_for_def ranked_def)
    moreover obtain ts' where "walked_runs mem gap good (ranked sources rank) (Suc k) ts'"
      "holds_runs ?build ts' (place_block ?build src b rs)"
      using walked_runs_placed [of mem gap good "ranked sources rank" k ts ?build rs b src] w h b True calculation(3,4)
      unfolding walked_def by blast
    ultimately show ?thesis using w b by (auto simp: walked_def unserved_Suc)
  qed
qed

lemma walked_start: "range_ops_ok R mem \<Longrightarrow> walked mem gap good served 0 [] (ro_empty R)"
  by (simp add: walked_def walked_runs_start unserved_def range_ops_ok_def)

lemma covered_loop:
  assumes ok: "range_ops_ok R mem" and good: "good = (\<lambda>src b. good_for mem gap sources src b \<and> src \<in> set rank)"
    and "k \<le> unat (n :: u32)"
    and "fold (covered_step R gap total_bytes sources rank) (map of_nat [0..<k]) (([], None), ro_empty R) = (rs, uncovered)"
  shows "\<exists>ts. walked mem gap good (ranked sources rank) k ts uncovered \<and> holds_runs (run_from R total_bytes gap) ts rs"
  using assms(3,4)
proof (induction k arbitrary: rs uncovered)
  case 0
  with walked_start [OF ok] show ?case by (auto simp: holds_runs_def)
next
  case (Suc k)
  obtain rs0 unc0 where f: "fold (covered_step R gap total_bytes sources rank) (map of_nat [0..<k]) (([], None), ro_empty R) = (rs0, unc0)"
    by fastforce
  with Suc obtain ts where ts: "walked mem gap good (ranked sources rank) k ts unc0" "holds_runs (run_from R total_bytes gap) ts rs0"
    by fastforce
  have k: "unat (of_nat k :: u32) = k"
    using Suc.prems(1) unat_below [of n] by (simp add: unat_of_nat take_bit_nat_eq_self less_le_trans [OF _ order.strict_implies_order])
  from Suc.prems(2) f have "covered_step R gap total_bytes sources rank (of_nat k) (rs0, unc0) = (rs, uncovered)" by simp
  from covered_step_walked [OF ok k good ts this] show ?case .
qed

lemma chunk_block_in_blob:
  assumes "unat total_bytes \<le> 2 ^ 58 - 2 ^ 26" and "unat c * 1024 < unat total_bytes"
  shows "chunk_block c < unat (num_blocks total_bytes)"
proof -
  have "chunk_block c * 67108864 < unat total_bytes"
    using assms(2) le_chunk_block_iff [of "chunk_block c" c] by simp
  then show ?thesis unfolding unat_num_blocks [OF assms(1)] by linarith
qed

lemma walked_assigns:
  assumes ok: "range_ops_ok R mem" and blob: "\<And>c. c \<in> mem gap \<Longrightarrow> unat c * 1024 < unat total_bytes"
    and small: "unat total_bytes \<le> 2 ^ 58 - 2 ^ 26" and dist: "distinct (map sc_source_ix sources)"
    and good: "\<And>src b. good src b \<Longrightarrow> good_for mem gap sources src b"
    and w: "walked mem gap good served (unat (num_blocks total_bytes)) ts uncovered"
  shows "assigns_gap mem gap total_bytes sources (map (run_from R total_bytes gap) ts, uncovered)"
    and "mem uncovered = {c \<in> mem gap. \<not> served (block_of c)}"
proof -
  have inb: "chunk_block c < unat (num_blocks total_bytes)" if "c \<in> mem gap" for c
    using chunk_block_in_blob [OF small blob [OF that]] .
  then show unc: "mem uncovered = {c \<in> mem gap. \<not> served (block_of c)}"
    using w by (auto simp: walked_def unserved_def)
  have blk: "unat (block_of c) = chunk_block c" if "c \<in> mem gap" for c
    using less_trans [OF inb [OF that] unat_below] by (simp add: block_of_def unat_of_nat take_bit_nat_eq_self)
  have "block_runs (good_for mem gap sources) (unat (num_blocks total_bytes)) ts"
    using w good by (fastforce simp: walked_def walked_runs_def block_runs_def)
  moreover have "in_runs ts (block_of c) \<longleftrightarrow> served (block_of c)" if "c \<in> mem gap" for c
    using w that inb [OF that] blk [OF that] by (auto simp: walked_def walked_runs_def misses_in_def)
  ultimately show "assigns_gap mem gap total_bytes sources (map (run_from R total_bytes gap) ts, uncovered)"
    by (intro assigns_gapI [OF ok blob _ dist]) (use small in \<open>auto simp: unc\<close>)
qed

lemma plan_covered_runs_spec:
  assumes ok: "range_ops_ok R mem" and blob: "\<And>c. c \<in> mem gap \<Longrightarrow> unat c * 1024 < unat total_bytes"
    and small: "unat total_bytes \<le> 2 ^ 58 - 2 ^ 26" and dist: "distinct (map sc_source_ix sources)"
  shows "assigns_gap mem gap total_bytes sources (plan_covered_runs R gap total_bytes sources rank)"
    and "mem (snd (plan_covered_runs R gap total_bytes sources rank)) = {c \<in> mem gap. \<not> ranked sources rank (block_of c)}"
proof -
  let ?good = "\<lambda>src b. good_for mem gap sources src b \<and> src \<in> set rank"
  let ?n = "num_blocks total_bytes"
  obtain rs uncovered where f:
    "fold (covered_step R gap total_bytes sources rank) (block_list ?n) (([], None), ro_empty R) = (rs, uncovered)"
    by fastforce
  then obtain ts where w: "walked mem gap ?good (ranked sources rank) (unat ?n) ts uncovered"
    and h: "holds_runs (run_from R total_bytes gap) ts rs"
    using covered_loop [OF ok refl order_refl] unfolding block_list_def by blast
  have plan: "plan_covered_runs R gap total_bytes sources rank = (map (run_from R total_bytes gap) ts, uncovered)"
    by (simp add: plan_covered_runs_def f close_run_list [OF h])
  show "assigns_gap mem gap total_bytes sources (plan_covered_runs R gap total_bytes sources rank)"
    and "mem (snd (plan_covered_runs R gap total_bytes sources rank)) = {c \<in> mem gap. \<not> ranked sources rank (block_of c)}"
    using walked_assigns [OF ok blob small dist _ w] unfolding plan by auto
qed

subsection \<open>The client's planner\<close>

definition offered :: "source_coverage list \<Rightarrow> u32 \<Rightarrow> bool" where
  "offered sources b \<longleftrightarrow> block_candidates sources b \<noteq> []"

lemma no_candidates_iff: "block_candidates sources b = [] \<longleftrightarrow> \<not> offered sources b"
  by (simp add: offered_def)

lemma in_block_candidates: "src \<in> set (block_candidates sources b) \<longleftrightarrow> source_covers sources src b"
  by (auto simp: block_candidates_def source_covers_def list_ex_iff)

definition candidate_list ::
  "('r \<Rightarrow> u64 set) \<Rightarrow> 'r \<Rightarrow> source_coverage list \<Rightarrow> nat \<Rightarrow> (u32 \<times> nat list) list" where
  "candidate_list mem gap sources k =
     map (\<lambda>b. (b, block_candidates sources b)) (filter (\<lambda>b. misses_in mem gap b \<and> offered sources b) (map of_nat [0..<k]))"

lemma candidate_loop:
  assumes ok: "range_ops_ok R mem" and "k \<le> unat (n :: u32)"
    and "fold (candidate_step R gap sources) (map of_nat [0..<k]) ([], ro_empty R, []) = (cs, uncovered, is_uncovered)"
  shows "cs = candidate_list mem gap sources k \<and> mem uncovered = unserved mem gap (offered sources) k \<and>
    (\<forall>b. b \<in> set is_uncovered \<longrightarrow> \<not> offered sources b)"
  using assms(2,3)
proof (induction k arbitrary: cs uncovered is_uncovered)
  case 0
  with ok show ?case by (auto simp: candidate_list_def unserved_def range_ops_ok_def)
next
  case (Suc k)
  let ?b = "of_nat k :: u32"
  obtain cs0 unc0 is0 where f: "fold (candidate_step R gap sources) (map of_nat [0..<k]) ([], ro_empty R, []) = (cs0, unc0, is0)"
    using prod_cases3 by blast
  have b: "unat ?b = k" using unat_of_nat_u32 [of k n] Suc.prems(1) by simp
  have IH: "cs0 = candidate_list mem gap sources k" "mem unc0 = unserved mem gap (offered sources) k"
    "\<forall>b. b \<in> set is0 \<longrightarrow> \<not> offered sources b"
    using Suc.IH [OF _ f] Suc.prems(1) by auto
  have step: "candidate_step R gap sources ?b (cs0, unc0, is0) = (cs, uncovered, is_uncovered)"
    using Suc.prems(2) f by simp
  show ?case
  proof (cases "misses_in mem gap ?b")
    case False
    with step IH b show ?thesis
      by (auto simp: candidate_step_def intersects_block_iff [OF ok] unserved_miss candidate_list_def)
  next
    case True
    with step IH b show ?thesis
      by (auto simp: candidate_step_def intersects_block_iff [OF ok] no_candidates_iff Let_def candidate_list_def
          unserved_Suc mem_add_uncovered [OF ok] split: if_splits)
  qed
qed

lemma fold_min_step:
  "(let r = fold (\<lambda>y best. if fst (key y) < fst (key best) \<or> fst (key y) = fst (key best) \<and> snd (key y) < snd (key best)
       then y else best) xs x
    in r \<in> insert x (set xs) \<and> (\<forall>y \<in> insert x (set xs). fst (key r) \<le> (fst (key y) :: nat)))"
proof (induction xs arbitrary: x)
  case (Cons y ys)
  let ?x = "if fst (key y) < fst (key x) \<or> fst (key y) = fst (key x) \<and> snd (key y) < snd (key x) then y else x"
  have "fst (key ?x) \<le> fst (key y)" "fst (key ?x) \<le> fst (key x)" by auto
  with Cons.IH [of ?x] show ?case by (auto simp: Let_def intro: order_trans)
qed (simp add: Let_def)

lemma min_by_key_least:
  assumes "cs \<noteq> []"
  obtains x where "min_by_key key cs = Some x" "x \<in> set cs" "\<And>y. y \<in> set cs \<Longrightarrow> fst (key x) \<le> fst (key y)"
  using assms fold_min_step [of key "tl cs" "hd cs"] that by (cases cs) (auto simp: Let_def)

lemma assign_step_chosen:
  assumes "cs \<noteq> []"
  obtains src where "src \<in> set cs"
    "assign_step rank share (b, cs) (counts, asg, cur) = (counts(src \<mapsto> Suc (count_of counts src)), asg(b \<mapsto> src), Some src)"
    "count_of counts src < share \<or> (\<forall>y \<in> set cs. count_of counts src \<le> count_of counts y)"
proof -
  obtain x where x: "min_by_key (rank_key rank counts) cs = Some x" "x \<in> set cs"
    "\<And>y. y \<in> set cs \<Longrightarrow> count_of counts x \<le> count_of counts y"
    using min_by_key_least [OF assms, of "rank_key rank counts"] by (auto simp: rank_key_def)
  show thesis
  proof (cases "\<exists>src. cur = Some src \<and> src \<in> set cs \<and> count_of counts src < share")
    case True
    then obtain src where "cur = Some src" "src \<in> set cs" "count_of counts src < share" by blast
    then show thesis by (intro that [of src]) (simp_all add: assign_step_def Let_def)
  next
    case False
    then have "(case cur of Some src \<Rightarrow> if src \<in> set cs \<and> count_of counts src < share then Some src else None | None \<Rightarrow> None) = None"
      by (auto split: option.split)
    then show thesis using x by (intro that [of x]) (simp_all add: assign_step_def Let_def)
  qed
qed

lemma count_of_upd: "count_of (counts(src \<mapsto> n)) s = (if s = src then n else count_of counts s)"
  by (simp add: count_of_def)

lemma card_assign_upd:
  assumes "asg b = None"
  shows "card {d :: u32. (asg(b \<mapsto> src)) d = Some s} = (if s = src then Suc (card {d. asg d = Some s}) else card {d. asg d = Some s})"
proof -
  have "{d. (asg(b \<mapsto> src)) d = Some s} = (if s = src then insert b {d. asg d = Some s} else {d. asg d = Some s})"
    using assms by auto
  with assms show ?thesis by simp
qed

lemma assign_loop:
  assumes "\<And>b cs. (b, cs) \<in> set xs \<Longrightarrow> cs \<noteq> []" and "distinct (map fst xs)"
    and "\<And>b. b \<in> fst ` set xs \<Longrightarrow> asg b = None"
    and "\<And>s. count_of counts s = card {d. asg d = Some s}"
    and "fold (assign_step rank share) xs (counts, asg, cur) = (counts', asg', cur')"
  shows "(\<forall>b. b \<notin> fst ` set xs \<longrightarrow> asg' b = asg b) \<and>
    (\<forall>(b, cs) \<in> set xs. \<exists>src \<in> set cs. asg' b = Some src) \<and> (\<forall>s. count_of counts' s = card {d. asg' d = Some s})"
  using assms
proof (induction xs arbitrary: counts asg cur)
  case (Cons x xs)
  obtain b cs where x: "x = (b, cs)" by fastforce
  have "cs \<noteq> []" using Cons.prems(1) [of b cs] x by simp
  from assign_step_chosen [OF this, of rank share b counts asg cur] obtain src where src: "src \<in> set cs"
    and step: "assign_step rank share (b, cs) (counts, asg, cur) = (counts(src \<mapsto> Suc (count_of counts src)), asg(b \<mapsto> src), Some src)"
    by blast
  have b: "asg b = None" "b \<notin> fst ` set xs" using Cons.prems(2,3) x by auto
  let ?asg = "asg(b \<mapsto> src)" and ?counts = "counts(src \<mapsto> Suc (count_of counts src))"
  have "fold (assign_step rank share) xs (?counts, ?asg, Some src) = (counts', asg', cur')"
    using Cons.prems(5) x step by simp
  moreover have "count_of ?counts s = card {d. ?asg d = Some s}" for s
    unfolding card_assign_upd [of asg b, OF b(1)] count_of_upd using Cons.prems(4) by simp
  moreover have "?asg d = None" if "d \<in> fst ` set xs" for d using that Cons.prems(3) b(2) by auto
  moreover have "c \<noteq> []" if "(d, c) \<in> set xs" for d c using Cons.prems(1) [of d c] that by simp
  moreover have "distinct (map fst xs)" using Cons.prems(2) by simp
  ultimately have IH: "(\<forall>d. d \<notin> fst ` set xs \<longrightarrow> asg' d = ?asg d) \<and>
    (\<forall>(d, cs) \<in> set xs. \<exists>src \<in> set cs. asg' d = Some src) \<and> (\<forall>s. count_of counts' s = card {d. asg' d = Some s})"
    by (intro Cons.IH)
  then have "asg' b = Some src" using b(2) by simp
  with IH src x show ?case by auto
qed auto

lemma coalesce_loop:
  assumes good: "good = (\<lambda>src b. good_for mem gap sources src b \<and> asg b = Some src)"
    and asg: "\<And>b. unat b < unat (n :: u32) \<Longrightarrow> misses_in mem gap b \<and> offered sources b \<longleftrightarrow> asg b \<noteq> None"
    and cov: "\<And>b src. asg b = Some src \<Longrightarrow> source_covers sources src b"
    and k: "k \<le> unat n"
  shows "\<exists>ts. walked_runs mem gap good (offered sources) k ts \<and>
     holds_runs build ts (fold (coalesce_step build asg is_uncovered) (map of_nat [0..<k]) ([], None))"
  using k
proof (induction k)
  case 0
  show ?case by (auto intro!: exI [of _ "[]"] simp: walked_runs_start holds_runs_def)
next
  case (Suc k)
  let ?b = "of_nat k :: u32" and ?rs = "fold (coalesce_step build asg is_uncovered) (map of_nat [0..<k]) ([], None)"
  have b: "unat ?b = k" using unat_of_nat_u32 [of k n] Suc.prems by simp
  obtain ts where ts: "walked_runs mem gap good (offered sources) k ts" "holds_runs build ts ?rs"
    using Suc by auto
  have step: "fold (coalesce_step build asg is_uncovered) (map of_nat [0..<Suc k]) ([], None) =
      coalesce_step build asg is_uncovered ?b ?rs" by simp
  note coalesce = coalesce_step_def [of build asg is_uncovered ?b ?rs]
  show ?case unfolding step
  proof (cases "asg ?b")
    case None
    then have "\<not> (misses_in mem gap ?b \<and> offered sources ?b)" using asg [of ?b] b Suc.prems by simp
    from walked_runs_skip [OF ts(1) b this] None ts(2) close_run_holds [OF ts(2)]
    show "\<exists>ts. walked_runs mem gap good (offered sources) (Suc k) ts \<and> holds_runs build ts (coalesce_step build asg is_uncovered ?b ?rs)"
      by (auto simp: coalesce)
  next
    case (Some src)
    then have "misses_in mem gap ?b" "offered sources ?b" "good src ?b"
      using asg [of ?b] b Suc.prems cov by (auto simp: good good_for_def)
    from walked_runs_placed [OF ts b this(3,1,2)] Some
    show "\<exists>ts. walked_runs mem gap good (offered sources) (Suc k) ts \<and> holds_runs build ts (coalesce_step build asg is_uncovered ?b ?rs)"
      by (auto simp: coalesce)
  qed
qed

text \<open>Every source's share: the bytes of its runs, against the blocks assigned to it.\<close>

definition source_bytes :: "nat \<Rightarrow> covered_run list \<Rightarrow> nat" where
  "source_bytes src runs = (\<Sum>r \<leftarrow> runs. if cr_source_ix r = src then unat (cr_len r) else 0)"

lemma card_blocks_upto: "card {b :: u32. unat f \<le> unat b \<and> unat b \<le> unat (l :: u32)} = unat l + 1 - unat f"
proof -
  have img: "unat ` {b :: u32. unat f \<le> unat b \<and> unat b \<le> unat l} = {unat f..unat l}"
  proof (intro equalityI subsetI)
    fix x assume x: "x \<in> {unat f..unat l}"
    then have "x < 2 ^ 32" using unat_u32_below [of l] by simp
    then have "unat (of_nat x :: u32) = x" by (simp add: unat_of_nat take_bit_nat_eq_self)
    with x show "x \<in> unat ` {b :: u32. unat f \<le> unat b \<and> unat b \<le> unat l}"
      by (intro image_eqI [of _ _ "of_nat x"]) auto
  qed auto
  have "inj_on unat {b :: u32. unat f \<le> unat b \<and> unat b \<le> unat l}" by (simp add: inj_on_def word_unat_eq_iff)
  from card_image [OF this] show ?thesis unfolding img by simp
qed

lemma run_blocks_sum:
  "block_runs good k ts \<Longrightarrow>
     (\<Sum>(s, f, l) \<leftarrow> ts. if s = src then unat l + 1 - unat f else 0) \<le> card {b. good src b \<and> unat b < k}"
proof (induction ts arbitrary: k rule: rev_induct)
  case (snoc t ts)
  obtain s f l where t: "t = (s, f, l)" by (metis prod_cases3)
  have fl: "unat f \<le> unat l" "unat l < k" and good: "\<And>b. unat f \<le> unat b \<Longrightarrow> unat b \<le> unat l \<Longrightarrow> good s b"
    and rest: "block_runs good (unat f) ts"
    using snoc.prems by (auto simp: t block_runs_def sorted_wrt_append)
  let ?low = "{b. good src b \<and> unat b < unat f}" and ?new = "{b :: u32. unat f \<le> unat b \<and> unat b \<le> unat l}"
  note IH = snoc.IH [OF rest]
  show ?case
  proof (cases "s = src")
    case True
    have "?low \<inter> ?new = {}" by auto
    then have "card (?low \<union> ?new) = card ?low + card ?new" by (simp add: card_Un_disjoint)
    moreover have "?low \<union> ?new \<subseteq> {b. good src b \<and> unat b < k}" using fl good True by auto
    then have "card (?low \<union> ?new) \<le> card {b. good src b \<and> unat b < k}" by (simp add: card_mono)
    ultimately show ?thesis using IH True by (simp add: t card_blocks_upto)
  next
    case False
    have "?low \<subseteq> {b. good src b \<and> unat b < k}" using fl by auto
    then have "card ?low \<le> card {b. good src b \<and> unat b < k}" by (simp add: card_mono)
    with IH False show ?thesis by (simp add: t)
  qed
qed simp

lemma source_bytes_le:
  assumes ok: "range_ops_ok R mem" and blob: "\<And>c. c \<in> mem gap \<Longrightarrow> unat c * 1024 < unat total_bytes"
    and small: "unat total_bytes \<le> 2 ^ 58" and dist: "distinct (map sc_source_ix sources)"
    and ts: "block_runs good k ts" and good: "\<And>src b. good src b \<Longrightarrow> good_for mem gap sources src b"
  shows "source_bytes src (map (run_from R total_bytes gap) ts) \<le> 67108864 * card {b. good src b}"
proof -
  have len: "unat (cr_len (run_from R total_bytes gap (s, f, l))) \<le> 67108864 * (unat l + 1 - unat f)"
    if "(s, f, l) \<in> set ts" for s f l
  proof -
    have fl: "unat f \<le> unat l" and g: "\<And>b. unat f \<le> unat b \<Longrightarrow> unat b \<le> unat l \<Longrightarrow> good_for mem gap sources s b"
      using ts that good by (auto simp: block_runs_def)
    from run_of_block_run(2,3) [OF ok blob small dist fl g refl] show ?thesis
      unfolding run_end_def diff_mult_distrib2 by simp
  qed
  have "source_bytes src (map (run_from R total_bytes gap) ts) \<le>
      (\<Sum>t \<leftarrow> ts. 67108864 * (case t of (s, f, l) \<Rightarrow> if s = src then unat l + 1 - unat f else 0))"
    unfolding source_bytes_def map_map comp_def
    by (rule sum_list_mono) (use len in \<open>auto split: prod.splits\<close>)
  also have "\<dots> = 67108864 * (\<Sum>(s, f, l) \<leftarrow> ts. if s = src then unat l + 1 - unat f else 0)"
    by (simp add: sum_list_const_mult)
  also have "\<dots> \<le> 67108864 * card {b. good src b \<and> unat b < k}" using run_blocks_sum [OF ts] by simp
  also have "\<dots> \<le> 67108864 * card {b. good src b}" by (simp add: card_mono Collect_mono)
  finally show ?thesis .
qed

lemma assign_share:
  assumes "\<And>b cs. (b, cs) \<in> set xs \<Longrightarrow> set cs = S" and "finite S" and "S \<noteq> {}"
    and "(\<Sum>s \<in> S. count_of counts s) + length xs \<le> card S * share" and "\<And>s. count_of counts s \<le> share"
    and "fold (assign_step rank share) xs (counts, asg, cur) = (counts', asg', cur')"
  shows "count_of counts' s \<le> share"
  using assms(1,4-6)
proof (induction xs arbitrary: counts asg cur)
  case (Cons x xs)
  obtain b cs where x: "x = (b, cs)" by fastforce
  have cs: "set cs = S" "cs \<noteq> []" using Cons.prems(1) [of b cs] assms(3) x by auto
  from assign_step_chosen [OF cs(2), of rank share b counts asg cur] obtain src where src: "src \<in> S"
    and step: "assign_step rank share (b, cs) (counts, asg, cur) = (counts(src \<mapsto> Suc (count_of counts src)), asg(b \<mapsto> src), Some src)"
    and low: "count_of counts src < share \<or> (\<forall>y \<in> S. count_of counts src \<le> count_of counts y)"
    using cs(1) by metis
  let ?counts = "counts(src \<mapsto> Suc (count_of counts src))"
  have lt: "count_of counts src < share"
  proof (rule ccontr)
    assume "\<not> ?thesis"
    with low have "share \<le> count_of counts y" if "y \<in> S" for y using that by force
    then have "card S * share \<le> (\<Sum>s \<in> S. count_of counts s)"
      using sum_mono [of S "\<lambda>_. share" "count_of counts"] by simp
    with Cons.prems(2) show False by simp
  qed
  have "(\<Sum>s \<in> S. count_of ?counts s) = Suc (\<Sum>s \<in> S. count_of counts s)"
    using src assms(2) by (simp add: sum.remove [of S src] count_of_upd)
  then have "(\<Sum>s \<in> S. count_of ?counts s) + length xs \<le> card S * share" using Cons.prems(2) by simp
  moreover have "count_of ?counts s \<le> share" for s using lt Cons.prems(3) [of s] by (simp add: count_of_upd)
  moreover have "fold (assign_step rank share) xs (?counts, asg(b \<mapsto> src), Some src) = (counts', asg', cur')"
    using Cons.prems(4) x step by simp
  moreover have "set c = S" if "(d, c) \<in> set xs" for d c using Cons.prems(1) [of d c] that by simp
  ultimately show ?case by (intro Cons.IH)
qed simp

lemma candidate_list_facts:
  assumes "k \<le> unat (n :: u32)"
  shows "distinct (map fst (candidate_list mem gap sources k))"
    and "(b, cs) \<in> set (candidate_list mem gap sources k) \<longleftrightarrow>
           unat b < k \<and> misses_in mem gap b \<and> offered sources b \<and> cs = block_candidates sources b"
proof -
  have un: "unat (of_nat i :: u32) = i" if "i < k" for i
    using unat_of_nat_u32 [of i n] assms that by simp
  have "inj_on (of_nat :: nat \<Rightarrow> u32) {0..<k}"
    by (rule inj_onI) (metis atLeastLessThan_iff un)
  then have "distinct (map of_nat [0..<k] :: u32 list)" by (simp add: distinct_map)
  then show "distinct (map fst (candidate_list mem gap sources k))"
    by (simp add: candidate_list_def comp_def)
  have "b \<in> of_nat ` {0..<k} \<longleftrightarrow> unat b < k"
  proof
    assume "unat b < k"
    then show "b \<in> of_nat ` {0..<k}" by (intro image_eqI [of _ _ "unat b"]) auto
  qed (use un in auto)
  then show "(b, cs) \<in> set (candidate_list mem gap sources k) \<longleftrightarrow>
           unat b < k \<and> misses_in mem gap b \<and> offered sources b \<and> cs = block_candidates sources b"
    by (auto simp: candidate_list_def)
qed

lemma fst_image_iff: "b \<in> fst ` S \<longleftrightarrow> (\<exists>c. (b, c) \<in> S)"
  by force

lemma spread_segments_runs:
  assumes ok: "range_ops_ok R mem" and n: "n = num_blocks total_bytes"
  shows "\<exists>ts uncovered asg counts cur.
    spread_segments R gap total_bytes sources rank = (map (run_from R total_bytes gap) ts, uncovered) \<and>
    walked mem gap (\<lambda>src b. good_for mem gap sources src b \<and> asg b = Some src) (offered sources) (unat n) ts uncovered \<and>
    fold (assign_step rank (target_share_of (candidate_list mem gap sources (unat n)) sources))
       (candidate_list mem gap sources (unat n)) (Map.empty, Map.empty, None) = (counts, asg, cur) \<and>
    (\<forall>s. count_of counts s = card {d. asg d = Some s})"
proof -
  let ?cs = "candidate_list mem gap sources (unat n)"
  obtain cs uncovered is_uncovered where f:
    "fold (candidate_step R gap sources) (block_list n) ([], ro_empty R, []) = (cs, uncovered, is_uncovered)"
    using prod_cases3 by blast
  then have cs: "cs = ?cs" "mem uncovered = unserved mem gap (offered sources) (unat n)"
    using candidate_loop [OF ok order_refl] unfolding block_list_def by auto
  obtain counts asg cur where g: "fold (assign_step rank (target_share_of ?cs sources)) ?cs (Map.empty, Map.empty, None) = (counts, asg, cur)"
    using prod_cases3 by blast
  note facts = candidate_list_facts [where n = n and k = "unat n" and mem = mem and gap = gap and sources = sources, OF order_refl]
  have ne: "c \<noteq> []" if "(b, c) \<in> set ?cs" for b c using that by (auto simp: facts(2) offered_def)
  have asg: "\<And>b. b \<notin> fst ` set ?cs \<Longrightarrow> asg b = None" "\<And>b c. (b, c) \<in> set ?cs \<Longrightarrow> \<exists>src \<in> set c. asg b = Some src"
      "\<forall>s. count_of counts s = card {d. asg d = Some s}"
  proof -
    have "(\<forall>b. b \<notin> fst ` set ?cs \<longrightarrow> asg b = Map.empty b) \<and> (\<forall>(b, c) \<in> set ?cs. \<exists>src \<in> set c. asg b = Some src) \<and>
      (\<forall>s. count_of counts s = card {d. asg d = Some s})"
      by (rule assign_loop [OF _ facts(1) _ _ g]) (use ne in \<open>auto simp: count_of_def\<close>)
    then show "\<And>b. b \<notin> fst ` set ?cs \<Longrightarrow> asg b = None" "\<And>b c. (b, c) \<in> set ?cs \<Longrightarrow> \<exists>src \<in> set c. asg b = Some src"
      "\<forall>s. count_of counts s = card {d. asg d = Some s}" by auto
  qed
  have dom: "asg b \<noteq> None \<longleftrightarrow> unat b < unat n \<and> misses_in mem gap b \<and> offered sources b" for b
  proof -
    have "b \<in> fst ` set ?cs \<longleftrightarrow> unat b < unat n \<and> misses_in mem gap b \<and> offered sources b"
      by (simp add: fst_image_iff facts(2))
    moreover have "asg b \<noteq> None" if "b \<in> fst ` set ?cs"
    proof -
      from that obtain c where "(b, c) \<in> set ?cs" by force
      from asg(2) [OF this] show ?thesis by auto
    qed
    with asg(1) [of b] have "asg b \<noteq> None \<longleftrightarrow> b \<in> fst ` set ?cs" by argo
    ultimately show ?thesis by simp
  qed
  have cov: "source_covers sources src b" if "asg b = Some src" for b src
  proof -
    have "(b, block_candidates sources b) \<in> set ?cs" using dom [of b] that by (simp add: facts(2))
    from asg(2) [OF this] obtain src' where "src' \<in> set (block_candidates sources b)" "asg b = Some src'" by blast
    with that show ?thesis by (simp add: in_block_candidates)
  qed
  let ?build = "run_from R total_bytes gap"
  obtain ts where ts: "walked_runs mem gap (\<lambda>src b. good_for mem gap sources src b \<and> asg b = Some src) (offered sources) (unat n) ts"
    "holds_runs ?build ts (fold (coalesce_step ?build asg is_uncovered) (block_list n) ([], None))"
    using coalesce_loop [OF refl _ _ order_refl, of n mem gap sources asg ?build is_uncovered] dom cov
    unfolding block_list_def by blast
  have "spread_segments R gap total_bytes sources rank = (map ?build ts, uncovered)"
    using f g cs(1) close_run_list [OF ts(2)] by (simp add: spread_segments_def n Let_def)
  with ts(1) cs(2) g asg(3) show ?thesis unfolding walked_def by blast
qed

lemma spread_segments_spec:
  assumes ok: "range_ops_ok R mem" and blob: "\<And>c. c \<in> mem gap \<Longrightarrow> unat c * 1024 < unat total_bytes"
    and small: "unat total_bytes \<le> 2 ^ 58 - 2 ^ 26" and dist: "distinct (map sc_source_ix sources)"
  shows "assigns_gap mem gap total_bytes sources (spread_segments R gap total_bytes sources rank)"
    and "mem (snd (spread_segments R gap total_bytes sources rank)) = {c \<in> mem gap. \<not> offered sources (block_of c)}"
proof -
  obtain ts uncovered asg where
    eq: "spread_segments R gap total_bytes sources rank = (map (run_from R total_bytes gap) ts, uncovered)"
    and w: "walked mem gap (\<lambda>src b. good_for mem gap sources src b \<and> asg b = Some src) (offered sources)
      (unat (num_blocks total_bytes)) ts uncovered"
    using spread_segments_runs [OF ok refl, where gap = gap and sources = sources and rank = rank and total_bytes = total_bytes] by blast
  have "good_for mem gap sources src b" if "good_for mem gap sources src b \<and> asg b = Some src" for src b using that by simp
  note a = walked_assigns [OF ok blob small dist this w]
  show "assigns_gap mem gap total_bytes sources (spread_segments R gap total_bytes sources rank)"
    unfolding eq by (rule a(1))
  show "mem (snd (spread_segments R gap total_bytes sources rank)) = {c \<in> mem gap. \<not> offered sources (block_of c)}"
    unfolding eq snd_conv by (rule a(2))
qed

lemma candidates_count:
  assumes small: "unat total_bytes \<le> 2 ^ 58 - 2 ^ 26" and blob: "\<And>c. c \<in> mem gap \<Longrightarrow> unat c * 1024 < unat total_bytes"
    and full: "\<And>s c. s \<in> set sources \<Longrightarrow> c \<in> mem gap \<Longrightarrow> covers (sc_coverage s) (block_of c)" and ne: "sources \<noteq> []"
  shows "length (candidate_list mem gap sources (unat (num_blocks total_bytes))) = card (chunk_block ` mem gap)"
proof -
  let ?n = "num_blocks total_bytes"
  let ?cs = "candidate_list mem gap sources (unat ?n)"
  note facts = candidate_list_facts [where n = ?n and k = "unat ?n" and mem = mem and gap = gap and sources = sources, OF order_refl]
  have off: "offered sources b" if miss: "misses_in mem gap b" for b
  proof -
    obtain c where "c \<in> mem gap" "chunk_block c = unat b" using miss unfolding misses_in_def by blast
    with full [of "hd sources" c] ne have "sc_source_ix (hd sources) \<in> set (block_candidates sources b)"
      by (auto simp: block_of_eq block_candidates_def)
    then show ?thesis by (auto simp: offered_def)
  qed
  have cs: "fst ` set ?cs = {b. unat b < unat ?n \<and> misses_in mem gap b}"
    using off by (auto simp: fst_image_iff facts(2))
  have img: "unat ` {b :: u32. unat b < unat ?n \<and> misses_in mem gap b} = chunk_block ` mem gap"
  proof (intro equalityI subsetI)
    fix k assume "k \<in> chunk_block ` mem gap"
    then obtain c where c: "c \<in> mem gap" "k = chunk_block c" by blast
    then have "k < unat ?n" using chunk_block_in_blob [OF small blob] by simp
    with c show "k \<in> unat ` {b :: u32. unat b < unat ?n \<and> misses_in mem gap b}"
      using unat_of_nat_u32 [of k ?n] by (intro image_eqI [of _ _ "of_nat k"]) (auto simp: misses_in_def)
  qed (force simp: misses_in_def)
  have "inj_on unat {b :: u32. unat b < unat ?n \<and> misses_in mem gap b}" by (simp add: inj_on_def word_unat_eq_iff)
  from card_image [OF this] have "card (fst ` set ?cs) = card (chunk_block ` mem gap)" unfolding img cs by simp
  with distinct_card [OF facts(1)] show ?thesis by simp
qed

lemma spread_segments_share:
  assumes ok: "range_ops_ok R mem" and blob: "\<And>c. c \<in> mem gap \<Longrightarrow> unat c * 1024 < unat total_bytes"
    and small: "unat total_bytes \<le> 2 ^ 58 - 2 ^ 26" and dist: "distinct (map sc_source_ix sources)"
    and full: "\<And>s c. s \<in> set sources \<Longrightarrow> c \<in> mem gap \<Longrightarrow> covers (sc_coverage s) (block_of c)" and ne: "sources \<noteq> []"
  shows "source_bytes src (fst (spread_segments R gap total_bytes sources rank))
    \<le> 67108864 * max ((card (chunk_block ` mem gap) + length sources - 1) div length sources) 1"
proof -
  let ?n = "num_blocks total_bytes"
  let ?cs = "candidate_list mem gap sources (unat ?n)"
  let ?share = "target_share_of ?cs sources"
  obtain ts uncovered asg counts cur where
    eq: "spread_segments R gap total_bytes sources rank = (map (run_from R total_bytes gap) ts, uncovered)"
    and w: "walked mem gap (\<lambda>src b. good_for mem gap sources src b \<and> asg b = Some src) (offered sources) (unat ?n) ts uncovered"
    and g: "fold (assign_step rank ?share) ?cs (Map.empty, Map.empty, None) = (counts, asg, cur)"
    and cnt: "\<And>s. count_of counts s = card {d. asg d = Some s}"
    using spread_segments_runs [OF ok refl, where gap = gap and sources = sources and rank = rank and total_bytes = total_bytes] by blast
  have N: "0 < length sources" using ne by simp
  have share: "?share = max ((card (chunk_block ` mem gap) + length sources - 1) div length sources) 1"
    using N candidates_count [where mem = mem and gap = gap, OF small blob full ne] by (simp add: target_share_of_def Let_def max_absorb1 Suc_le_eq)
  have S: "set c = sc_source_ix ` set sources" if "(b, c) \<in> set ?cs" for b c
  proof -
    have "misses_in mem gap b" and c: "c = block_candidates sources b"
      using that by (auto simp: candidate_list_facts(2) [OF order_refl])
    then obtain d where "d \<in> mem gap" "block_of d = b" by (auto simp: misses_in_def block_of_eq)
    with full show ?thesis by (auto simp: c block_candidates_def)
  qed
  have cardS: "card (sc_source_ix ` set sources) = length sources"
    using distinct_card [OF dist] by simp
  have "length ?cs \<le> length sources * ?share"
  proof -
    have "length ?cs \<le> length sources * ((length ?cs + length sources - 1) div length sources)"
      using le_ceil_div_iff [OF N, of "length ?cs" "(length ?cs + length sources - 1) div length sources"]
      by (simp add: mult.commute)
    also have "\<dots> \<le> length sources * ?share" using N by (simp add: target_share_of_def Let_def max_absorb1 Suc_le_eq)
    finally show ?thesis .
  qed
  then have le: "count_of counts src \<le> ?share"
    by (intro assign_share [OF S _ _ _ _ g]) (use ne cardS in \<open>auto simp: count_of_def\<close>)
  have "source_bytes src (map (run_from R total_bytes gap) ts) \<le> 67108864 * card {b. good_for mem gap sources src b \<and> asg b = Some src}"
    using w small by (intro source_bytes_le [OF ok blob _ dist]) (auto simp: walked_def walked_runs_def)
  also have "\<dots> \<le> 67108864 * card {b. asg b = Some src}" by (simp add: card_mono Collect_mono)
  also have "\<dots> \<le> 67108864 * ?share" using le cnt by simp
  finally show ?thesis unfolding eq share by simp
qed

subsection \<open>Chunk sets as sets\<close>

text \<open>The documented operations hold of plain sets, with the boundaries of a set of chunks.\<close>

definition edges :: "u64 set \<Rightarrow> u64 set" where
  "edges S = {x. (x \<in> S) \<noteq> (x \<noteq> 0 \<and> x - 1 \<in> S)}"

definition set_ops :: "u64 set range_ops" where
  "set_ops = \<lparr>ro_empty = {}, ro_span = (\<lambda>a b. {a..<b}), ro_inter = (\<inter>), ro_union = (\<union>),
     ro_intersects = (\<lambda>x y. x \<inter> y \<noteq> {}), ro_boundaries = (\<lambda>x. sorted_list_of_set (edges x))\<rparr>"

lemma unat_word_pred: "(x :: 'a::len word) \<noteq> 0 \<Longrightarrow> unat (x - 1) = unat x - 1"
  by (simp add: unat_minus_one)

lemma sorted_ends: "sorted xs \<Longrightarrow> x \<in> set xs \<Longrightarrow> hd xs \<le> x \<and> x \<le> last xs"
  by (induction xs) (auto split: if_splits)

lemma sorted_list_of_set_ends:
  assumes "finite A" and "x \<in> A" "\<And>a. a \<in> A \<Longrightarrow> x \<le> a" and "y \<in> A" "\<And>a. a \<in> A \<Longrightarrow> a \<le> y"
  shows "sorted_list_of_set A \<noteq> []" "hd (sorted_list_of_set A) = x" "last (sorted_list_of_set A) = y"
proof -
  let ?xs = "sorted_list_of_set A"
  have set: "set ?xs = A" using assms(1) by simp
  then show ne: "?xs \<noteq> []" using assms(2) by auto
  have "hd ?xs \<in> A" "last ?xs \<in> A" using ne set hd_in_set last_in_set by blast+
  moreover have "hd ?xs \<le> x" "y \<le> last ?xs" using sorted_ends [of ?xs] assms(2,4) set by auto
  ultimately show "hd ?xs = x" "last ?xs = y" using assms(3,5) by (meson order_antisym)+
qed

lemma edges_bounds:
  assumes "S \<noteq> {}" and "- 1 \<notin> S"
  shows "Min S \<in> edges S" "\<And>a. a \<in> edges S \<Longrightarrow> Min S \<le> a" "Max S + 1 \<in> edges S" "\<And>a. a \<in> edges S \<Longrightarrow> a \<le> Max S + 1"
proof -
  have fin: "finite S" by simp
  have m: "Min S \<in> S" "Max S \<in> S" using assms(1) by simp_all
  have le: "a \<le> Max S" "Min S \<le> a" if "a \<in> S" for a using that by simp_all
  have "unat (Max S) \<noteq> unat (- 1 :: u64)" using m(2) assms(2) by (auto simp flip: word_unat_eq_iff)
  then have "unat (Max S) + unat (1 :: u64) < 2 ^ 64" using unat_below [of "Max S"] by (simp add: unat_max_word)
  then have M: "unat (Max S + 1) = unat (Max S) + 1" by (simp add: unat_add_exact)
  show "Min S \<in> edges S"
  proof -
    have "Min S - 1 \<notin> S" if "Min S \<noteq> 0"
    proof -
      have "0 < unat (Min S)" using that by (simp add: unat_gt_0)
      with le(2) [of "Min S - 1"] that show ?thesis by (auto simp: word_le_nat_alt unat_word_pred)
    qed
    with m show ?thesis by (auto simp: edges_def)
  qed
  show "Min S \<le> a" if "a \<in> edges S" for a
    using that le(2) [of a] le(2) [of "a - 1"] by (auto simp: edges_def word_le_nat_alt unat_word_pred)
  have "Max S + 1 \<notin> S" using le(1) [of "Max S + 1"] by (auto simp: word_le_nat_alt M)
  moreover have "Max S + 1 \<noteq> 0" using M by (auto simp: word_unat_eq_iff)
  ultimately show "Max S + 1 \<in> edges S" using m by (simp add: edges_def)
  show "a \<le> Max S + 1" if "a \<in> edges S" for a
    using that le(1) [of a] le(1) [of "a - 1"] by (auto simp: edges_def word_le_nat_alt unat_word_pred M)
qed

lemma set_ops_ok: "range_ops_ok set_ops (\<lambda>S. S)"
proof -
  have "hd (sorted_list_of_set (edges S)) = Min S \<and> last (sorted_list_of_set (edges S)) = Max S + 1 \<and> sorted_list_of_set (edges S) \<noteq> []"
    if "S \<noteq> {}" "- 1 \<notin> S" for S
    using sorted_list_of_set_ends [of "edges S" "Min S" "Max S + 1"] edges_bounds [OF that] by simp
  then show ?thesis by (auto simp: range_ops_ok_def set_ops_def edges_def)
qed

lemma mem_covered_part:
  assumes ok: "range_ops_ok R mem" and small: "unat total_bytes \<le> 2 ^ 58 - 2 ^ 26"
    and blob: "\<And>x. x \<in> mem chunks \<Longrightarrow> unat x * 1024 < unat total_bytes"
  shows "mem (covered_part R c chunks total_bytes) = {x \<in> mem chunks. covers c (block_of x)}"
proof -
  have fold: "mem (fold (\<lambda>b held. ro_union R held (block_chunks R b)) bs held) = mem held \<union> {x. \<exists>b \<in> set bs. chunk_block x = unat b}" for bs held
  proof (induction bs arbitrary: held)
    case (Cons b bs)
    have "mem (ro_union R held (block_chunks R b)) = mem held \<union> {x. chunk_block x = unat b}"
      using ok mem_block_chunks [OF ok] by (simp add: range_ops_ok_def)
    with Cons show ?case by auto
  qed simp
  have held: "(\<exists>b. b \<in> set (block_list (num_blocks total_bytes)) \<and> covers c b \<and> chunk_block x = unat b) \<longleftrightarrow> covers c (block_of x)"
    if "x \<in> mem chunks" for x
  proof -
    have lt: "chunk_block x < unat (num_blocks total_bytes)" using chunk_block_in_blob [OF small blob [OF that]] .
    then have "block_of x \<in> set (block_list (num_blocks total_bytes))" by (auto simp: block_list_def block_of_def)
    moreover have "unat (block_of x) = chunk_block x" using unat_of_nat_u32 [OF lt] by (simp add: block_of_def)
    ultimately show ?thesis by (auto simp: block_of_eq)
  qed
  have "mem (covered_part R c chunks total_bytes) =
      {x \<in> mem chunks. \<exists>b. b \<in> set (block_list (num_blocks total_bytes)) \<and> covers c b \<and> chunk_block x = unat b}"
    using ok by (auto simp: covered_part_def range_ops_ok_def fold)
  with held show ?thesis by auto
qed

subsection \<open>Properties\<close>

text \<open>
  C18. The node's plan covers the gap exactly. Whatever is missing of a blob, and whatever sources
  offer, the runs of \<open>plan_covered_runs\<close> come in order and do not overlap, each begins and ends at a
  missing chunk and lies in the coverage of its source, and every missing chunk is in a run unless
  no ranked source holds its block, in which case it is reported as uncovered and no run touches it.
\<close>

theorem plan_covered_runs_exact:
  assumes "range_ops_ok R mem" and "\<And>c. c \<in> mem gap \<Longrightarrow> unat c * 1024 < unat total_bytes"
    and "unat total_bytes \<le> 2 ^ 58 - 2 ^ 26" and "distinct (map sc_source_ix sources)"
  shows "assigns_gap mem gap total_bytes sources (plan_covered_runs R gap total_bytes sources rank) \<and>
    mem (snd (plan_covered_runs R gap total_bytes sources rank)) =
      {c \<in> mem gap. \<forall>ix \<in> set rank. \<not> source_covers sources ix (block_of c)}"
proof (intro conjI)
  show "assigns_gap mem gap total_bytes sources (plan_covered_runs R gap total_bytes sources rank)"
    by (rule plan_covered_runs_spec(1) [OF assms])
  show "mem (snd (plan_covered_runs R gap total_bytes sources rank)) =
      {c \<in> mem gap. \<forall>ix \<in> set rank. \<not> source_covers sources ix (block_of c)}"
    by (auto simp: plan_covered_runs_spec(2) [OF assms] ranked_def)
qed

definition demo_sources :: "source_coverage list" where
  "demo_sources = [\<lparr>sc_source_ix = 0, sc_coverage = [3]\<rparr>, \<lparr>sc_source_ix = 1, sc_coverage = [3]\<rparr>]"

lemma demo_gap: "c \<in> {0..<131072 :: u64} \<Longrightarrow> unat c * 1024 < unat (134217728 :: u64)"
  by (simp add: word_less_nat_alt)

lemma demo_distinct: "distinct (map sc_source_ix demo_sources)"
  by (simp add: demo_sources_def)

theorem plan_covered_runs_exact_witness:
  "assigns_gap (\<lambda>S. S) {0..<131072} 134217728 demo_sources (plan_covered_runs set_ops {0..<131072} 134217728 demo_sources [1, 0])"
  by (rule conjunct1 [OF plan_covered_runs_exact [OF set_ops_ok demo_gap _ demo_distinct]]) simp_all

text \<open>
  C19. The client's plan covers the gap exactly and shares it out. The runs of \<open>spread_segments\<close> meet
  the same specification, a missing chunk is uncovered only if no source at all holds its block, and
  when every source holds every missing block no source is given more than its share of whole blocks,
  the number of missing blocks over the number of sources, rounded up.
\<close>

theorem spread_segments_fair:
  assumes "range_ops_ok R mem" and "\<And>c. c \<in> mem gap \<Longrightarrow> unat c * 1024 < unat total_bytes"
    and "unat total_bytes \<le> 2 ^ 58 - 2 ^ 26" and "distinct (map sc_source_ix sources)" and "sources \<noteq> []"
  shows "assigns_gap mem gap total_bytes sources (spread_segments R gap total_bytes sources rank) \<and>
    mem (snd (spread_segments R gap total_bytes sources rank)) =
      {c \<in> mem gap. \<forall>s \<in> set sources. \<not> covers (sc_coverage s) (block_of c)} \<and>
    ((\<forall>s \<in> set sources. \<forall>c \<in> mem gap. covers (sc_coverage s) (block_of c)) \<longrightarrow>
      source_bytes ix (fst (spread_segments R gap total_bytes sources rank))
        \<le> 67108864 * max ((card (chunk_block ` mem gap) + length sources - 1) div length sources) 1)"
proof (intro conjI impI)
  show "assigns_gap mem gap total_bytes sources (spread_segments R gap total_bytes sources rank)"
    by (rule spread_segments_spec(1) [OF assms(1-4)])
  show "mem (snd (spread_segments R gap total_bytes sources rank)) =
      {c \<in> mem gap. \<forall>s \<in> set sources. \<not> covers (sc_coverage s) (block_of c)}"
    by (auto simp: spread_segments_spec(2) [OF assms(1-4)] offered_def block_candidates_def filter_empty_conv)
  show "source_bytes ix (fst (spread_segments R gap total_bytes sources rank))
        \<le> 67108864 * max ((card (chunk_block ` mem gap) + length sources - 1) div length sources) 1"
    if "\<forall>s \<in> set sources. \<forall>c \<in> mem gap. covers (sc_coverage s) (block_of c)"
    by (rule spread_segments_share [OF assms(1-4) _ assms(5)]) (use that in auto)
qed

theorem spread_segments_fair_witness:
  "source_bytes 1 (fst (spread_segments set_ops {0..<131072} 134217728 demo_sources [1, 0])) \<le>
     67108864 * max ((card (chunk_block ` {0..<131072}) + length demo_sources - 1) div length demo_sources) 1"
proof -
  have "covers (sc_coverage s) (block_of c)" if "s \<in> set demo_sources" "c \<in> {0..<131072}" for s c
  proof -
    have "chunk_block c < 2" using that(2) by (simp add: chunk_block_def div_less_iff_less_mult word_less_nat_alt)
    then have "block_of c = 0 \<or> block_of c = 1" by (auto simp: block_of_def numeral_2_eq_2 less_Suc_eq)
    then show ?thesis using that(1) by (auto simp: demo_sources_def covers_def)
  qed
  moreover have "demo_sources \<noteq> []" "unat (134217728 :: u64) \<le> 2 ^ 58 - 2 ^ 26" by (simp_all add: demo_sources_def)
  ultimately show ?thesis
    using spread_segments_fair [OF set_ops_ok demo_gap _ demo_distinct, where gap = "{0..<131072}" and ix = 1 and rank = "[1, 0]"]
    by blast
qed

end
