(* ===== verification/Pacer.thy ===== *)
theory Pacer
  imports Bao_Range
begin

text \<open>
  How far a pull may run ahead of what the downstream client has paid for
  (\<open>src/crates/client/src/pacer.rs\<close>): the buyer's own budget, the node's window over it, and the window
  that ramps with the paid frontier. \<open>leg_range\<close> (\<open>src/crates/client/src/driver.rs\<close>) turns a draw into
  the aligned range that a leg opens.
\<close>

subsection \<open>Policies\<close>

definition PULL_WINDOW_FLOOR :: u64 where
  "PULL_WINDOW_FLOOR = CHUNK_BYTES + VERIFY_LAG_BYTES + 3 * CHUNK_GROUP_BYTES"

definition MIN_DRAW_WINDOW :: u64 where
  "MIN_DRAW_WINDOW = 4 * PULL_WINDOW_FLOOR"

record downstream_frontier =
  df_served_paid :: u64
  df_serve_demand :: u64

record pace_state =
  pc_cleared_bytes :: u64
  pc_requested_bytes :: u64
  pc_remaining_deposit :: u256
  pc_next_voucher_cost :: u256
  pc_pulled_frontier :: u64
  pc_gap_remaining :: u64
  pc_downstream :: downstream_frontier

datatype pace_decision = Draw u64 | Done | Refuse | Wait | WaitForMinDraw

definition budget_decide :: "pace_state \<Rightarrow> pace_decision" where
  "budget_decide s =
     (if pc_requested_bytes s \<le> pc_cleared_bytes s then Done
      else if pc_remaining_deposit s < pc_next_voucher_cost s then Refuse
      else Draw (sat_sub (pc_requested_bytes s) (pc_cleared_bytes s)))"

definition window_decide :: "u64 \<Rightarrow> pace_state \<Rightarrow> pace_decision" where
  "window_decide window_bytes s =
     (case budget_decide s of
        Draw up_to_bytes \<Rightarrow>
          (let ahead = sat_sub (pc_pulled_frontier s) (df_served_paid (pc_downstream s));
               room = sat_sub window_bytes ahead;
               room = room - room mod CHUNK_GROUP_BYTES;
               demand_ahead = sat_sub (df_serve_demand (pc_downstream s)) (pc_pulled_frontier s);
               demanded = (if 0 < demand_ahead \<and> demand_ahead \<le> CHUNK_GROUP_BYTES then PULL_WINDOW_FLOOR else 0);
               min_draw = (if MIN_DRAW_WINDOW \<le> window_bytes
                           then let half = window_bytes div 2 in half - half mod CHUNK_GROUP_BYTES else 0);
               gap_left = sat_mul (div_ceil (pc_gap_remaining s) CHUNK_GROUP_BYTES) CHUNK_GROUP_BYTES;
               below_min_draw = (demanded = 0 \<and> room < min min_draw gap_left);
               room = max room demanded
           in if room = 0 then Wait
              else if below_min_draw then WaitForMinDraw
              else Draw (min up_to_bytes room))
      | other \<Rightarrow> other)"

record ramp_pacer =
  rp_divisor :: u64
  rp_floor :: u64
  rp_credit_max :: u64
  rp_paid_base :: u64
  rp_paid_carried :: u64

definition ramp_window :: "ramp_pacer \<Rightarrow> u64 \<Rightarrow> u64" where
  "ramp_window p served_paid =
     ramped_credit_window (rp_divisor p) (rp_floor p) (rp_credit_max p)
       (sat_add (sat_sub served_paid (rp_paid_base p)) (rp_paid_carried p))"

definition ramp_decide :: "ramp_pacer \<Rightarrow> pace_state \<Rightarrow> pace_decision" where
  "ramp_decide p s = window_decide (ramp_window p (df_served_paid (pc_downstream s))) s"

definition leg_range :: "u64 \<Rightarrow> u64 \<Rightarrow> u64 \<Rightarrow> u64 \<Rightarrow> u64 \<Rightarrow> range_verify_error + aligned_range" where
  "leg_range resume_start gap_end up_to_bytes max_len total_bytes =
     align_range resume_start (min (min (sat_sub gap_end resume_start) up_to_bytes) max_len) total_bytes"

subsection \<open>The room a decision finds\<close>

lemma pacer_constants [simp]:
  "unat CHUNK_GROUP_BYTES = 16384" "unat PULL_WINDOW_FLOOR = 1114112" "unat MIN_DRAW_WINDOW = 4456448"
  by (simp_all add: CHUNK_GROUP_BYTES_def PULL_WINDOW_FLOOR_def MIN_DRAW_WINDOW_def VERIFY_LAG_BYTES_def CHUNK_BYTES_def MB_BYTES_def)

lemma unat_group_floor: "unat (x - x mod CHUNK_GROUP_BYTES) = group_floor (unat x)"
proof -
  have "unat (x mod CHUNK_GROUP_BYTES) = unat x mod 16384" by (simp add: unat_mod_distrib)
  then have "unat (x - x mod CHUNK_GROUP_BYTES) = unat x - unat x mod 16384"
    using unat_sub_exact [of "x mod CHUNK_GROUP_BYTES" x] by (simp add: word_le_nat_alt)
  then show ?thesis unfolding group_floor_def by (simp add: minus_mod_eq_div_mult)
qed

definition parked :: "pace_state \<Rightarrow> bool" where
  "parked s \<longleftrightarrow> unat (pc_pulled_frontier s) < unat (df_serve_demand (pc_downstream s)) \<and>
     unat (df_serve_demand (pc_downstream s)) \<le> unat (pc_pulled_frontier s) + 16384"

definition pull_room :: "u64 \<Rightarrow> pace_state \<Rightarrow> nat" where
  "pull_room window_bytes s =
     group_floor (unat window_bytes - (unat (pc_pulled_frontier s) - unat (df_served_paid (pc_downstream s))))"

lemma unat_pull_room:
  "unat (sat_sub w (sat_sub (pc_pulled_frontier s) (df_served_paid (pc_downstream s)))
      - sat_sub w (sat_sub (pc_pulled_frontier s) (df_served_paid (pc_downstream s))) mod CHUNK_GROUP_BYTES) = pull_room w s"
  by (simp add: unat_group_floor unat_sat_sub pull_room_def)

lemma parked_iff:
  "0 < sat_sub (df_serve_demand (pc_downstream s)) (pc_pulled_frontier s) \<and>
     sat_sub (df_serve_demand (pc_downstream s)) (pc_pulled_frontier s) \<le> CHUNK_GROUP_BYTES \<longleftrightarrow> parked s"
  by (auto simp: parked_def word_order_nat unat_sat_sub)

lemma window_decide_cases:
  assumes "window_decide w s = d"
  shows "case d of
     Draw n \<Rightarrow> 0 < unat n \<and> unat n \<le> (if parked s then max (pull_room w s) 1114112 else pull_room w s)
   | Wait \<Rightarrow> \<not> parked s \<and> pull_room w s = 0
   | WaitForMinDraw \<Rightarrow> \<not> parked s \<and> 4456448 \<le> unat w \<and> pull_room w s < unat w div 2
   | Done \<Rightarrow> pc_requested_bytes s \<le> pc_cleared_bytes s
   | Refuse \<Rightarrow> pc_remaining_deposit s < pc_next_voucher_cost s"
proof (cases "budget_decide s")
  case (Draw up)
  then have up: "0 < unat up" by (auto simp: budget_decide_def unat_sat_sub word_order_nat split: if_splits)
  define room where "room = sat_sub w (sat_sub (pc_pulled_frontier s) (df_served_paid (pc_downstream s)))
      - sat_sub w (sat_sub (pc_pulled_frontier s) (df_served_paid (pc_downstream s))) mod CHUNK_GROUP_BYTES"
  define demanded where "demanded = (if parked s then PULL_WINDOW_FLOOR else 0)"
  define half where "half = w div 2 - w div 2 mod CHUNK_GROUP_BYTES"
  define gap_left where "gap_left = sat_mul (div_ceil (pc_gap_remaining s) CHUNK_GROUP_BYTES) CHUNK_GROUP_BYTES"
  have room: "unat room = pull_room w s" by (simp only: room_def unat_pull_room)
  have "unat half = group_floor (unat w div 2)" by (simp add: half_def unat_group_floor unat_div_distrib)
  then have half: "unat half \<le> unat w div 2" using group_floor_bounds(1) by simp
  have dec: "window_decide w s =
     (if max room demanded = 0 then Wait
      else if demanded = 0 \<and> room < min (if MIN_DRAW_WINDOW \<le> w then half else 0) gap_left then WaitForMinDraw
      else Draw (min up (max room demanded)))"
    unfolding window_decide_def Draw pace_decision.case Let_def parked_iff room_def demanded_def half_def gap_left_def by simp
  have "PULL_WINDOW_FLOOR \<noteq> 0" by (simp add: word_unat_eq_iff)
  then have dem: "demanded = 0 \<longleftrightarrow> \<not> parked s" by (simp add: demanded_def)
  consider "max room demanded = 0" "d = Wait"
    | "demanded = 0" "room < min (if MIN_DRAW_WINDOW \<le> w then half else 0) gap_left" "d = WaitForMinDraw"
    | "max room demanded \<noteq> 0" "d = Draw (min up (max room demanded))"
    using assms dec by (auto split: if_splits)
  then show ?thesis
  proof cases
    case 1
    then show ?thesis using room dem by (auto simp: max_def split: if_splits)
  next
    case 2
    then have "unat room < unat half" "4456448 \<le> unat w"
      by (auto simp: word_order_nat min_def split: if_splits)
    with 2 half room dem show ?thesis by simp
  next
    case 3
    then have "0 < unat (max room demanded)" by (simp add: unat_gt_0)
    then show ?thesis
      using 3(2) up room by (auto simp: demanded_def max_def min_def word_le_nat_alt split: if_splits)
  qed
qed (use assms in \<open>auto simp: window_decide_def budget_decide_def split: if_splits\<close>)

subsection \<open>Exposure of a pull\<close>

lemma group_ceil_mono: "x \<le> y \<Longrightarrow> group_ceil x \<le> group_ceil y"
  unfolding group_ceil_def by (intro mult_le_mono1 div_le_mono) simp

lemma group_ceil_exact: "x mod 16384 = 0 \<Longrightarrow> group_ceil x = x"
  unfolding group_ceil_def by (auto elim!: dvdE simp: mod_eq_0_iff_dvd)

lemma pull_room_aligned: "pull_room w s mod 16384 = 0"
  by (simp add: pull_room_def group_floor_bounds)

lemma leg_end_bound:
  assumes leg: "leg_range resume gap_end n max_len total_bytes = Inr r" and pos: "0 < unat n" "resume < gap_end" "0 < max_len"
    and "unat resume \<le> pulled" "pulled mod 16384 = 0" "unat n \<le> room" "room mod 16384 = 0"
  shows "unat (ar_fetch_end r) \<le> pulled + room" and "unat (ar_fetch_end r) \<le> unat total_bytes"
proof -
  let ?len = "min (min (sat_sub gap_end resume) n) max_len"
  have len: "0 < unat ?len" "unat ?len \<le> unat n"
    using pos by (auto simp: min_def word_order_nat unat_sat_sub)
  then have "?len \<noteq> 0" by auto
  from align_range_Inr [OF leg [unfolded leg_range_def]] this obtain stop where
    r: "r = build_aligned_range resume stop total_bytes" and stop: "unat stop = unat resume + unat ?len"
    by (metis (no_types, lifting))
  have "group_ceil (unat stop) \<le> group_ceil (pulled + room)"
    using stop len(2) assms(5,7) by (intro group_ceil_mono) linarith
  also have "\<dots> = pulled + room"
    by (intro group_ceil_exact) (use assms(6,8) in \<open>simp add: mod_eq_0_iff_dvd dvd_add\<close>)
  finally show "unat (ar_fetch_end r) \<le> pulled + room" "unat (ar_fetch_end r) \<le> unat total_bytes"
    by (simp_all add: r build_aligned_nat(2))
qed

text \<open>
  One fused fill: the pulled frontier of the upstream leg and the paid frontier of the downstream
  leg. A draw opens the leg the pacer allows, which delivers a prefix of it; payments move the paid
  frontier at any moment. A serve leg demands at most \<open>credit\<close> bytes beyond what is paid, the credit
  window it serves under.
\<close>

inductive pull_step :: "ramp_pacer \<Rightarrow> nat \<Rightarrow> u64 \<Rightarrow> u64 \<times> u64 \<Rightarrow> u64 \<times> u64 \<Rightarrow> bool" for p credit total_bytes where
  draw: "pc_pulled_frontier s = pulled \<Longrightarrow> df_served_paid (pc_downstream s) = served \<Longrightarrow>
     unat (df_serve_demand (pc_downstream s)) \<le> unat served + credit \<Longrightarrow> ramp_decide p s = Draw n \<Longrightarrow>
     resume \<le> pulled \<Longrightarrow> resume < gap_end \<Longrightarrow> 0 < max_len \<Longrightarrow> leg_range resume gap_end n max_len total_bytes = Inr r \<Longrightarrow>
     pulled \<le> pulled' \<Longrightarrow> pulled' \<le> max pulled (ar_fetch_end r) \<Longrightarrow> unat pulled' mod 16384 = 0 \<or> pulled' = total_bytes \<Longrightarrow>
     pull_step p credit total_bytes (pulled, served) (pulled', served)"
| pay: "served \<le> served' \<Longrightarrow> pull_step p credit total_bytes (pulled, served) (pulled, served')"

inductive pull_reachable :: "ramp_pacer \<Rightarrow> nat \<Rightarrow> u64 \<Rightarrow> u64 \<times> u64 \<Rightarrow> bool" for p credit total_bytes where
  start: "pulled \<le> served \<Longrightarrow> unat pulled mod 16384 = 0 \<Longrightarrow> pull_reachable p credit total_bytes (pulled, served)"
| step: "pull_reachable p credit total_bytes c \<Longrightarrow> pull_step p credit total_bytes c c' \<Longrightarrow> pull_reachable p credit total_bytes c'"

definition pull_bound :: "ramp_pacer \<Rightarrow> nat \<Rightarrow> nat" where
  "pull_bound p credit = max (max (unat (rp_credit_max p)) (unat (rp_floor p))) (credit + 1114112)"

lemma draw_end_bound:
  assumes "ramp_decide p s = Draw n" and "unat (df_serve_demand (pc_downstream s)) \<le> unat (df_served_paid (pc_downstream s)) + credit"
    and leg: "leg_range resume gap_end n max_len total_bytes = Inr r" "resume < gap_end" "0 < max_len" "resume \<le> pc_pulled_frontier s"
    and al: "unat (pc_pulled_frontier s) mod 16384 = 0"
    and before: "unat (pc_pulled_frontier s) \<le> unat (df_served_paid (pc_downstream s)) + pull_bound p credit"
  shows "unat (ar_fetch_end r) \<le> unat (df_served_paid (pc_downstream s)) + pull_bound p credit"
proof -
  let ?w = "ramp_window p (df_served_paid (pc_downstream s))"
  let ?pulled = "unat (pc_pulled_frontier s)" and ?served = "unat (df_served_paid (pc_downstream s))"
  have n: "0 < unat n" "unat n \<le> (if parked s then max (pull_room ?w s) 1114112 else pull_room ?w s)"
    using window_decide_cases [OF assms(1) [unfolded ramp_decide_def]] by auto
  have res: "unat resume \<le> ?pulled" using leg(4) by (simp add: word_le_nat_alt)
  note ends = leg_end_bound(1) [OF leg(1) n(1) leg(2,3) res al]
  have "unat ?w \<le> pull_bound p credit"
    using ramped_credit_window_bounds unfolding ramp_window_def pull_bound_def by (metis max.coboundedI1)
  moreover have "pull_room ?w s \<le> unat ?w - (?pulled - ?served)"
    unfolding pull_room_def by (rule group_floor_bounds)
  ultimately have room: "?pulled + pull_room ?w s \<le> ?served + pull_bound p credit"
    using before by linarith
  show ?thesis
  proof (cases "parked s")
    case True
    then have "?pulled + 1114112 \<le> ?served + pull_bound p credit"
      using assms(2) unfolding parked_def pull_bound_def by linarith
    moreover have "max (pull_room ?w s) 1114112 mod 16384 = 0"
      using pull_room_aligned [of ?w s] by (simp add: max_def)
    ultimately have "unat (ar_fetch_end r) \<le> ?pulled + max (pull_room ?w s) 1114112"
      using n(2) True by (intro ends) simp_all
    also have "\<dots> \<le> ?served + pull_bound p credit" using room \<open>?pulled + 1114112 \<le> ?served + pull_bound p credit\<close> by simp
    finally show ?thesis .
  next
    case False
    then have "unat (ar_fetch_end r) \<le> ?pulled + pull_room ?w s"
      using n(2) by (intro ends pull_room_aligned) simp
    with room show ?thesis by linarith
  qed
qed

lemma pull_reachable_inv:
  "pull_reachable p credit total_bytes c \<Longrightarrow>
     (unat (fst c) mod 16384 = 0 \<or> fst c = total_bytes) \<and> unat (fst c) \<le> unat (snd c) + pull_bound p credit"
proof (induction rule: pull_reachable.induct)
  case (start pulled served)
  then show ?case by (simp add: word_le_nat_alt)
next
  case (step c c')
  from step(2,3) show ?case
  proof (cases rule: pull_step.cases)
    case (draw s pulled served n resume gap_end max_len r pulled')
    then have al: "unat pulled mod 16384 = 0 \<or> pulled = total_bytes" and before: "unat pulled \<le> unat served + pull_bound p credit"
      using step(3) by auto
    have "unat pulled' \<le> unat served + pull_bound p credit"
    proof (cases "unat pulled mod 16384 = 0")
      case True
      have "unat (ar_fetch_end r) \<le> unat served + pull_bound p credit"
        using draw_end_bound [of p s n credit resume gap_end max_len total_bytes r] draw True before by simp
      with draw before show ?thesis by (simp add: word_le_nat_alt max_def split: if_splits)
    next
      case False
      with al have "pulled = total_bytes" by simp
      moreover have "unat (ar_fetch_end r) \<le> unat total_bytes"
        using draw(10) by (auto simp: leg_range_def elim!: align_range_Inr simp: build_aligned_nat(2))
      ultimately have "unat pulled' \<le> unat pulled" using draw(12) by (simp add: word_le_nat_alt max_def split: if_splits)
      with before show ?thesis by simp
    qed
    with draw show ?thesis by simp
  next
    case (pay served served' pulled)
    with step(3) show ?thesis by (simp add: word_le_nat_alt)
  qed
qed

subsection \<open>Properties\<close>

text \<open>
  C20. A node never fronts more than the credit it extends. However draws, partial deliveries,
  payments and serve demands interleave, the bytes pulled from upstream beyond what the downstream
  client has paid for stay within the larger of the ramp's ceiling and the downstream credit window
  plus one floor.
\<close>

theorem pull_exposure_bounded:
  assumes "pull_reachable p credit total_bytes (pulled, served)"
  shows "unat pulled \<le> unat served + max (max (unat (rp_credit_max p)) (unat (rp_floor p))) (credit + unat PULL_WINDOW_FLOOR)"
  using pull_reachable_inv [OF assms] by (simp add: pull_bound_def)

definition demo_pacer :: ramp_pacer where
  "demo_pacer = \<lparr>rp_divisor = 4, rp_floor = 1114112, rp_credit_max = 8388608, rp_paid_base = 0, rp_paid_carried = 0\<rparr>"

definition demo_pace :: pace_state where
  "demo_pace = \<lparr>pc_cleared_bytes = 0, pc_requested_bytes = 2097152, pc_remaining_deposit = 100, pc_next_voucher_cost = 1,
     pc_pulled_frontier = 0, pc_gap_remaining = 2097152, pc_downstream = \<lparr>df_served_paid = 0, df_serve_demand = 0\<rparr>\<rparr>"

lemma demo_draw: "ramp_decide demo_pacer demo_pace = Draw 1114112"
  by (simp add: ramp_decide_def ramp_window_def window_decide_def budget_decide_def demo_pacer_def demo_pace_def
      ramped_credit_window_def sat_add_def sat_sub_def sat_mul_def div_ceil_def CHUNK_GROUP_BYTES_def
      PULL_WINDOW_FLOOR_def MIN_DRAW_WINDOW_def VERIFY_LAG_BYTES_def CHUNK_BYTES_def MB_BYTES_def)

lemma demo_leg: "leg_range 0 2097152 1114112 4194304 2097152 = Inr (build_aligned_range 0 1114112 2097152)"
  by (simp add: leg_range_def align_range_def range_addressable_def checked_add_def sat_sub_def)

lemma demo_pull_reachable: "pull_reachable demo_pacer 0 2097152 (1114112, 0)"
proof -
  have "unat (ar_fetch_end (build_aligned_range 0 1114112 2097152)) = 1114112"
    by (simp add: build_aligned_nat(2) group_ceil_def)
  then have stop: "ar_fetch_end (build_aligned_range 0 1114112 2097152) = 1114112" by (simp add: word_unat_eq_iff)
  have "pull_reachable demo_pacer 0 2097152 (0, 0)" by (rule pull_reachable.start) simp_all
  moreover have "pull_step demo_pacer 0 2097152 (0, 0) (1114112, 0)"
    by (rule pull_step.draw [OF _ _ _ demo_draw _ _ _ demo_leg]) (simp_all add: demo_pace_def stop)
  ultimately show ?thesis by (rule pull_reachable.step)
qed

theorem pull_exposure_bounded_witness:
  "unat (1114112 :: u64) \<le> unat (0 :: u64) + max (max (unat (rp_credit_max demo_pacer)) (unat (rp_floor demo_pacer))) (0 + unat PULL_WINDOW_FLOOR)"
  by (rule pull_exposure_bounded [OF demo_pull_reachable])

text \<open>
  A pull waits only for a payment that can come. With at least the documented floor, a paused
  pull has run so far ahead of the paid frontier that the client holds a whole chunk, the group it
  needs to verify it and both roundings, and no serve leg is parked at the pull's frontier; and while
  the range is not paid and the deposit covers the next voucher, the pacer draws or waits.
\<close>

theorem pull_waits_for_payable_chunk:
  assumes "PULL_WINDOW_FLOOR \<le> rp_floor p"
  shows "(ramp_decide p s = Wait \<or> ramp_decide p s = WaitForMinDraw \<longrightarrow>
      \<not> parked s \<and>
      unat (df_served_paid (pc_downstream s)) + unat (CHUNK_BYTES + VERIFY_LAG_BYTES + 2 * CHUNK_GROUP_BYTES)
        < unat (pc_pulled_frontier s)) \<and>
    (ramp_decide p s = Done \<longrightarrow> pc_requested_bytes s \<le> pc_cleared_bytes s) \<and>
    (ramp_decide p s = Refuse \<longrightarrow> pc_remaining_deposit s < pc_next_voucher_cost s) \<and>
    (\<forall>n. ramp_decide p s = Draw n \<longrightarrow> 0 < n)"
proof -
  let ?w = "ramp_window p (df_served_paid (pc_downstream s))"
  have w: "1114112 \<le> unat ?w"
    using assms ramped_credit_window_bounds [of "rp_floor p"] unfolding ramp_window_def word_le_nat_alt
    by (metis order_trans pacer_constants(2))
  have lag: "unat (CHUNK_BYTES + VERIFY_LAG_BYTES + 2 * CHUNK_GROUP_BYTES) = 1097728"
    by (simp add: CHUNK_GROUP_BYTES_def VERIFY_LAG_BYTES_def CHUNK_BYTES_def MB_BYTES_def)
  let ?ahead = "unat (pc_pulled_frontier s) - unat (df_served_paid (pc_downstream s))"
  have room: "unat ?w - ?ahead < pull_room ?w s + 16384" unfolding pull_room_def by (rule group_floor_bounds)
  note cases = window_decide_cases [where w = ?w and s = s, OF refl, folded ramp_decide_def]
  have "\<not> parked s \<and> unat (df_served_paid (pc_downstream s)) + 1097728 < unat (pc_pulled_frontier s)"
    if "ramp_decide p s = Wait"
    using cases that w room by simp
  moreover have "\<not> parked s \<and> unat (df_served_paid (pc_downstream s)) + 1097728 < unat (pc_pulled_frontier s)"
    if "ramp_decide p s = WaitForMinDraw"
  proof -
    have "\<not> parked s" "4456448 \<le> unat ?w" "pull_room ?w s < unat ?w div 2" using cases that by auto
    with room show ?thesis by linarith
  qed
  ultimately show ?thesis
    using cases unfolding lag by (auto simp: word_less_nat_alt)
qed

theorem pull_waits_for_payable_chunk_witness:
  "\<not> parked (demo_pace\<lparr>pc_pulled_frontier := 1114112\<rparr>) \<and>
   unat (df_served_paid (pc_downstream demo_pace)) + unat (CHUNK_BYTES + VERIFY_LAG_BYTES + 2 * CHUNK_GROUP_BYTES) < unat (1114112 :: u64)"
proof -
  have "ramp_decide demo_pacer (demo_pace\<lparr>pc_pulled_frontier := 1114112\<rparr>) = Wait"
    by (simp add: ramp_decide_def ramp_window_def window_decide_def budget_decide_def demo_pacer_def demo_pace_def
        ramped_credit_window_def sat_add_def sat_sub_def CHUNK_GROUP_BYTES_def)
  moreover have "PULL_WINDOW_FLOOR \<le> rp_floor demo_pacer"
    by (simp add: demo_pacer_def word_le_nat_alt)
  ultimately show ?thesis
    using pull_waits_for_payable_chunk [of demo_pacer "demo_pace\<lparr>pc_pulled_frontier := 1114112\<rparr>"] by simp
qed

end
