(* ===== verification/Ordered_Writes.thy ===== *)
theory Ordered_Writes
  imports Decdn_Prelude "HOL-Library.Sublist"
begin

text \<open>
  The queue that runs a command's durable writes off the runtime thread
  (\<open>src/crates/client/src/ordered_writes.rs\<close>). The mutex makes each critical section one step: pushing
  a write and claiming the worker, and the worker's pop with its exit on an empty queue. A worker
  that the runtime drops unrun drains the queue all the same (\<open>DrainOnDrop\<close>), so that starting a
  worker always starts a drain; a write that panics counts as run.

  What a write does is a parameter: \<open>exec\<close> maps the durable state to the one after it.
\<close>

subsection \<open>The queue\<close>

record 'w ow_state =
  ow_queue :: "'w list"
  ow_running :: bool

definition ow_new :: "'w ow_state" where
  "ow_new = \<lparr>ow_queue = [], ow_running = False\<rparr>"

text \<open>\<open>queue_write\<close> also says whether the caller must start a worker.\<close>

definition queue_write :: "'w \<Rightarrow> 'w ow_state \<Rightarrow> bool \<times> 'w ow_state" where
  "queue_write w st =
     (let st1 = st\<lparr>ow_queue := ow_queue st @ [w]\<rparr>
      in (\<not> ow_running st1, st1\<lparr>ow_running := True\<rparr>))"

definition drain_next :: "'w ow_state \<Rightarrow> 'w option \<times> 'w ow_state" where
  "drain_next st =
     (case ow_queue st of
        [] \<Rightarrow> (None, st\<lparr>ow_running := False\<rparr>)
      | w # rest \<Rightarrow> (Some w, st\<lparr>ow_queue := rest\<rparr>))"

text \<open>The worker body on its own: what \<open>drain\<close> does when nothing else is queued meanwhile.\<close>

function drain :: "('w \<Rightarrow> 'd \<Rightarrow> 'd) \<Rightarrow> 'w ow_state \<Rightarrow> 'd \<Rightarrow> 'w ow_state \<times> 'd" where
  "drain exec st d =
     (case drain_next st of
        (None, st') \<Rightarrow> (st', d)
      | (Some w, st') \<Rightarrow> drain exec st' (exec w d))"
  by pat_completeness auto
termination
  by (relation "measure (\<lambda>(exec, st, d). length (ow_queue st))") (auto simp: drain_next_def split: list.splits)

declare drain.simps [simp del]

text \<open>Outside a runtime the caller that must start a worker drains the queue itself.\<close>

definition queue_inline :: "('w \<Rightarrow> 'd \<Rightarrow> 'd) \<Rightarrow> 'w \<Rightarrow> 'w ow_state \<Rightarrow> 'd \<Rightarrow> 'w ow_state \<times> 'd" where
  "queue_inline exec w st d =
     (case queue_write w st of (start, st') \<Rightarrow> if start then drain exec st' d else (st', d))"

subsection \<open>Callers and workers\<close>

text \<open>
  A configuration: the shared state, the workers (each with the write it has taken and not yet run),
  the durable state, and as history the writes queued and the writes run.
\<close>

record ('w, 'd) ow_config =
  oc_state :: "'w ow_state"
  oc_workers :: "'w option list"
  oc_disk :: 'd
  oc_queued :: "'w list"
  oc_ran :: "'w list"

inductive worker_step :: "('w \<Rightarrow> 'd \<Rightarrow> 'd) \<Rightarrow> ('w, 'd) ow_config \<Rightarrow> ('w, 'd) ow_config \<Rightarrow> bool" for exec where
  take: "i < length (oc_workers c) \<Longrightarrow> oc_workers c ! i = None \<Longrightarrow> drain_next (oc_state c) = (Some w, st') \<Longrightarrow>
     worker_step exec c (c\<lparr>oc_state := st', oc_workers := (oc_workers c)[i := Some w]\<rparr>)"
| leave: "i < length (oc_workers c) \<Longrightarrow> oc_workers c ! i = None \<Longrightarrow> drain_next (oc_state c) = (None, st') \<Longrightarrow>
     worker_step exec c (c\<lparr>oc_state := st', oc_workers := take i (oc_workers c) @ drop (Suc i) (oc_workers c)\<rparr>)"
| run: "i < length (oc_workers c) \<Longrightarrow> oc_workers c ! i = Some w \<Longrightarrow>
     worker_step exec c (c\<lparr>oc_workers := (oc_workers c)[i := None], oc_disk := exec w (oc_disk c), oc_ran := oc_ran c @ [w]\<rparr>)"

inductive ow_step :: "('w \<Rightarrow> 'd \<Rightarrow> 'd) \<Rightarrow> ('w, 'd) ow_config \<Rightarrow> ('w, 'd) ow_config \<Rightarrow> bool" for exec where
  work: "worker_step exec c c' \<Longrightarrow> ow_step exec c c'"
| enqueue: "queue_write w (oc_state c) = (start, st') \<Longrightarrow>
     ow_step exec c (c\<lparr>oc_state := st', oc_workers := (if start then oc_workers c @ [None] else oc_workers c),
       oc_queued := oc_queued c @ [w]\<rparr>)"

inductive ow_reachable :: "('w \<Rightarrow> 'd \<Rightarrow> 'd) \<Rightarrow> 'd \<Rightarrow> ('w, 'd) ow_config \<Rightarrow> bool" for exec d0 where
  start: "ow_reachable exec d0 \<lparr>oc_state = ow_new, oc_workers = [], oc_disk = d0, oc_queued = [], oc_ran = []\<rparr>"
| step: "ow_reachable exec d0 c \<Longrightarrow> ow_step exec c c' \<Longrightarrow> ow_reachable exec d0 c'"

definition held :: "'w option list \<Rightarrow> 'w list" where
  "held ws = List.map_filter (\<lambda>x. x) ws"

definition ow_inv :: "('w \<Rightarrow> 'd \<Rightarrow> 'd) \<Rightarrow> 'd \<Rightarrow> ('w, 'd) ow_config \<Rightarrow> bool" where
  "ow_inv exec d0 c \<longleftrightarrow>
     length (oc_workers c) = (if ow_running (oc_state c) then 1 else 0) \<and>
     (ow_queue (oc_state c) \<noteq> [] \<longrightarrow> ow_running (oc_state c)) \<and>
     oc_queued c = oc_ran c @ held (oc_workers c) @ ow_queue (oc_state c) \<and>
     oc_disk c = fold exec (oc_ran c) d0"

lemma held_simps [simp]: "held [] = []" "held (None # ws) = held ws" "held (Some w # ws) = w # held ws"
  by (simp_all add: held_def List.map_filter_def)

lemma one_worker:
  assumes "ow_inv exec d0 c" and "i < length (oc_workers c)"
  shows "i = 0 \<and> ow_running (oc_state c) \<and> (\<exists>x. oc_workers c = [x])"
  using assms by (auto simp: ow_inv_def length_Suc_conv split: if_splits)

lemma worker_step_inv:
  assumes "worker_step exec c c'" and "ow_inv exec d0 c"
  shows "ow_inv exec d0 c'"
  using assms(1)
proof (cases rule: worker_step.cases)
  case (take i w st')
  with one_worker [OF assms(2) take(2)] assms(2) show ?thesis
    by (auto simp: ow_inv_def drain_next_def split: list.splits)
next
  case (leave i st')
  with one_worker [OF assms(2) leave(2)] assms(2) show ?thesis
    by (auto simp: ow_inv_def drain_next_def split: list.splits)
next
  case (run i w)
  with one_worker [OF assms(2) run(2)] assms(2) show ?thesis by (auto simp: ow_inv_def)
qed

lemma ow_reachable_inv: "ow_reachable exec d0 c \<Longrightarrow> ow_inv exec d0 c"
proof (induction rule: ow_reachable.induct)
  case start
  show ?case by (simp add: ow_inv_def ow_new_def)
next
  case (step c c')
  from step(2) show ?case
  proof (cases rule: ow_step.cases)
    case work
    from worker_step_inv [OF this step(3)] show ?thesis .
  next
    case (enqueue w start st')
    with step(3) show ?thesis
      by (cases "ow_running (oc_state c)") (auto simp: ow_inv_def queue_write_def Let_def)
  qed
qed

text \<open>
  Worker steps run a queue to its end: each takes, runs or leaves, and the last one leaves nothing
  queued and no worker behind.
\<close>

definition work_left :: "('w, 'd) ow_config \<Rightarrow> nat" where
  "work_left c = 2 * length (ow_queue (oc_state c)) + length (held (oc_workers c)) + length (oc_workers c)"

lemma worker_step_decreases: "worker_step exec c c' \<Longrightarrow> ow_inv exec d0 c \<Longrightarrow> work_left c' < work_left c"
  by (cases rule: worker_step.cases, assumption)
     (auto simp: work_left_def drain_next_def dest!: one_worker split: list.splits)

lemma worker_step_exists:
  assumes "ow_inv exec d0 c" and "oc_workers c \<noteq> []"
  shows "\<exists>c'. worker_step exec c c' \<and> oc_queued c' = oc_queued c"
proof -
  obtain x where x: "oc_workers c = [x]" using one_worker [OF assms(1), of 0] assms(2) by auto
  show ?thesis
  proof (cases x)
    case (Some w)
    then show ?thesis using worker_step.run [of 0 c w exec] x by auto
  next
    case None
    obtain o' st' where n: "drain_next (oc_state c) = (o', st')" by fastforce
    show ?thesis
    proof (cases o')
      case (Some w)
      with n None x worker_step.take [of 0 c w st' exec] show ?thesis by auto
    next
      case no: None
      with n None x worker_step.leave [of 0 c st' exec] show ?thesis by auto
    qed
  qed
qed

lemma workers_finish:
  assumes "ow_inv exec d0 c"
  shows "\<exists>c'. (worker_step exec)\<^sup>*\<^sup>* c c' \<and> oc_workers c' = [] \<and> oc_queued c' = oc_queued c \<and> ow_inv exec d0 c'"
  using assms
proof (induction "work_left c" arbitrary: c rule: less_induct)
  case less
  show ?case
  proof (cases "oc_workers c = []")
    case False
    then obtain c1 where c1: "worker_step exec c c1" "oc_queued c1 = oc_queued c" using worker_step_exists [OF less(2)] by blast
    from less(1) [OF worker_step_decreases [OF c1(1) less(2)] worker_step_inv [OF c1(1) less(2)]] c1 show ?thesis
      by (metis converse_rtranclp_into_rtranclp)
  qed (use less(2) in blast)
qed

lemma ow_inv_idle: "ow_inv exec d0 c \<Longrightarrow> oc_workers c = [] \<Longrightarrow> oc_ran c = oc_queued c"
  by (auto simp: ow_inv_def split: if_splits)

text \<open>The body of a single worker, and a caller outside a runtime, run the queue in one go.\<close>

lemma drain_runs_all:
  "drain exec st d = (st\<lparr>ow_queue := [], ow_running := False\<rparr>, fold exec (ow_queue st) d)"
proof (induction "ow_queue st" arbitrary: st d)
  case Nil
  then show ?case by (subst drain.simps) (simp add: drain_next_def)
next
  case (Cons w rest)
  from Cons(2) have "drain exec st d = drain exec (st\<lparr>ow_queue := rest\<rparr>) (exec w d)"
    by (subst drain.simps) (simp add: drain_next_def flip: Cons(2))
  with Cons(1) [of "st\<lparr>ow_queue := rest\<rparr>" "exec w d"] Cons(2) [symmetric] show ?case by simp
qed

lemma queue_inline_runs:
  assumes "\<not> ow_running st" and "ow_queue st = []"
  shows "queue_inline exec w st d = (st, exec w d)"
  using assms by (simp add: queue_inline_def queue_write_def Let_def drain_runs_all)

subsection \<open>Properties\<close>

text \<open>
  C23. Writes run once each, in the order they were queued, and none is stranded. However callers
  and workers interleave, at most one worker exists, the writes run so far are a prefix of those
  queued and the durable state is the result of running them one after another; and from any moment
  on, the workers' own steps are enough to run everything queued and stop, after finitely many steps.
\<close>

theorem writes_run_in_queue_order:
  assumes "ow_reachable exec d0 c"
  shows "length (oc_workers c) \<le> 1 \<and> prefix (oc_ran c) (oc_queued c) \<and> oc_disk c = fold exec (oc_ran c) d0 \<and>
    (oc_workers c = [] \<longrightarrow> oc_ran c = oc_queued c) \<and>
    (\<exists>c'. (worker_step exec)\<^sup>*\<^sup>* c c' \<and> oc_workers c' = [] \<and> oc_queued c' = oc_queued c \<and>
      oc_disk c' = fold exec (oc_queued c) d0) \<and>
    (\<forall>c'. worker_step exec c c' \<longrightarrow> work_left c' < work_left c)"
proof -
  note inv = ow_reachable_inv [OF assms]
  obtain c' where c': "(worker_step exec)\<^sup>*\<^sup>* c c'" "oc_workers c' = []" "oc_queued c' = oc_queued c" "ow_inv exec d0 c'"
    using workers_finish [OF inv] by blast
  then have "oc_disk c' = fold exec (oc_queued c) d0"
    using ow_inv_idle [OF c'(4,2)] by (simp add: ow_inv_def)
  with c' inv worker_step_decreases [OF _ inv] ow_inv_idle [OF inv] show ?thesis
    by (auto simp: ow_inv_def)
qed

theorem writes_run_in_queue_order_witness:
  "\<exists>c :: (nat, nat list) ow_config. oc_queued c = [7, 8] \<and> oc_ran c = [] \<and> length (oc_workers c) \<le> 1 \<and>
     (\<exists>c'. (worker_step (#))\<^sup>*\<^sup>* c c' \<and> oc_disk c' = [8, 7])"
proof -
  let ?c0 = "\<lparr>oc_state = ow_new, oc_workers = [], oc_disk = [], oc_queued = [], oc_ran = []\<rparr> :: (nat, nat list) ow_config"
  let ?c1 = "\<lparr>oc_state = \<lparr>ow_queue = [7], ow_running = True\<rparr>, oc_workers = [None], oc_disk = [], oc_queued = [7], oc_ran = []\<rparr> :: (nat, nat list) ow_config"
  let ?c2 = "\<lparr>oc_state = \<lparr>ow_queue = [7, 8], ow_running = True\<rparr>, oc_workers = [None], oc_disk = [], oc_queued = [7, 8], oc_ran = []\<rparr> :: (nat, nat list) ow_config"
  have "ow_step (#) ?c0 ?c1"
    using ow_step.enqueue [of 7 ?c0 True "\<lparr>ow_queue = [7], ow_running = True\<rparr>" "(#)"] by (simp add: queue_write_def ow_new_def Let_def)
  moreover have "ow_step (#) ?c1 ?c2"
    using ow_step.enqueue [of 8 ?c1 False "\<lparr>ow_queue = [7, 8], ow_running = True\<rparr>" "(#)"] by (simp add: queue_write_def Let_def)
  ultimately have "ow_reachable (#) [] ?c2" by (meson ow_reachable.intros)
  from writes_run_in_queue_order [OF this] show ?thesis by (intro exI [of _ ?c2]) auto
qed

end
