(* ===== verification/Warming_Allowance.thy ===== *)
theory Warming_Allowance
  imports Decdn_Prelude
begin

text \<open>
  The per-source allowance for speculative buys (\<open>src/crates/node/src/warming_allowance.rs\<close>): a signed
  ledger per upstream source that buys draw down and serves and time fill up, the tag from a blob's
  hash to the source it was bought from, and the bounded queue through which serves credit a ledger.

  Instants are nanoseconds, \<open>i64\<close> values are integers with the saturation of the code written out, and
  each call is one step, as the ledger's mutex makes it.
\<close>

subsection \<open>Signed 64-bit arithmetic\<close>

definition i64_max :: int where "i64_max = 9223372036854775807"

definition i64_min :: int where "i64_min = - 9223372036854775808"

definition i64_sat :: "int \<Rightarrow> int" where
  "i64_sat x = max i64_min (min i64_max x)"

definition i64_of_u64 :: "u64 \<Rightarrow> int" where
  "i64_of_u64 u = min i64_max (int (unat u))"

subsection \<open>The ledger\<close>

record bucket =
  bk_remaining :: int
  bk_last :: nat

record warming =
  wa_budget :: int
  wa_refill_per_sec :: u64
  wa_buckets :: "(b256 \<times> bucket) list"
  wa_source_of :: "(b256 \<times> b256) list"

definition bucket_full :: "int \<Rightarrow> nat \<Rightarrow> bucket" where
  "bucket_full budget now = \<lparr>bk_remaining = budget, bk_last = now\<rparr>"

definition WarmingAllowance_new :: "u64 \<Rightarrow> u64 \<Rightarrow> warming" where
  "WarmingAllowance_new budget refill_per_sec =
     \<lparr>wa_budget = i64_of_u64 budget, wa_refill_per_sec = refill_per_sec, wa_buckets = [], wa_source_of = []\<rparr>"

definition elapsed_secs :: "bucket \<Rightarrow> nat \<Rightarrow> nat" where
  "elapsed_secs b now = (now - bk_last b) div 1000000000"

definition refill_units :: "warming \<Rightarrow> bucket \<Rightarrow> nat \<Rightarrow> int" where
  "refill_units w b now = min i64_max (int (min (unat (wa_refill_per_sec w) * elapsed_secs b now) (2 ^ 64 - 1)))"

definition projected_remaining :: "warming \<Rightarrow> bucket \<Rightarrow> nat \<Rightarrow> int" where
  "projected_remaining w b now = min (i64_sat (bk_remaining b + refill_units w b now)) (wa_budget w)"

definition refill :: "warming \<Rightarrow> nat \<Rightarrow> bucket \<Rightarrow> bucket" where
  "refill w now b = \<lparr>bk_remaining = min (i64_sat (bk_remaining b + refill_units w b now)) (wa_budget w), bk_last = now\<rparr>"

definition enabled :: "warming \<Rightarrow> bool" where
  "enabled w \<longleftrightarrow> 0 < wa_budget w"

definition available :: "warming \<Rightarrow> nat \<Rightarrow> b256 \<Rightarrow> bool \<times> warming" where
  "available w now source =
     (if \<not> enabled w then (False, w)
      else case map_of (wa_buckets w) source of
             Some b \<Rightarrow> (let b' = refill w now b
                        in (0 < bk_remaining b', w\<lparr>wa_buckets := AList.update source b' (wa_buckets w)\<rparr>))
           | None \<Rightarrow> (True, w))"

definition blocked_source_count :: "warming \<Rightarrow> nat \<Rightarrow> nat" where
  "blocked_source_count w now =
     (if \<not> enabled w then 0 else length (filter (\<lambda>(_, b). projected_remaining w b now \<le> 0) (wa_buckets w)))"

definition or_insert_full :: "warming \<Rightarrow> nat \<Rightarrow> b256 \<Rightarrow> bucket" where
  "or_insert_full w now source =
     (case map_of (wa_buckets w) source of Some b \<Rightarrow> b | None \<Rightarrow> bucket_full (wa_budget w) now)"

definition debit_speculative :: "warming \<Rightarrow> nat \<Rightarrow> b256 \<Rightarrow> b256 \<Rightarrow> u64 \<Rightarrow> warming" where
  "debit_speculative w now source hash units =
     (let b = refill w now (or_insert_full w now source);
          remaining = max (i64_sat (bk_remaining b - i64_of_u64 units)) (i64_sat (- wa_budget w))
      in w\<lparr>wa_source_of := AList.update hash source (wa_source_of w),
           wa_buckets := AList.update source (b\<lparr>bk_remaining := remaining\<rparr>) (wa_buckets w)\<rparr>)"

definition source_for :: "warming \<Rightarrow> b256 \<Rightarrow> b256 option" where
  "source_for w hash = map_of (wa_source_of w) hash"

definition credit_source :: "warming \<Rightarrow> nat \<Rightarrow> b256 \<Rightarrow> u64 \<Rightarrow> warming" where
  "credit_source w now source units =
     (let b = refill w now (or_insert_full w now source);
          remaining = min (i64_sat (bk_remaining b + i64_of_u64 units)) (wa_budget w)
      in w\<lparr>wa_buckets := AList.update source (b\<lparr>bk_remaining := remaining\<rparr>) (wa_buckets w)\<rparr>)"

definition forget :: "warming \<Rightarrow> b256 \<Rightarrow> warming" where
  "forget w hash = w\<lparr>wa_source_of := AList.delete hash (wa_source_of w)\<rparr>"

subsection \<open>The credit queue\<close>

definition WARMING_CREDIT_CAPACITY :: nat where
  "WARMING_CREDIT_CAPACITY = 1024"

record credit_sink =
  cs_queue :: "(b256 \<times> u64) list"
  cs_closed :: bool
  cs_dropped :: nat
  cs_applied :: nat

definition sink_credit :: "warming \<Rightarrow> credit_sink \<Rightarrow> b256 \<Rightarrow> u64 \<Rightarrow> credit_sink" where
  "sink_credit w q hash units =
     (case source_for w hash of
        None \<Rightarrow> q
      | Some source \<Rightarrow>
          if cs_closed q then q\<lparr>cs_dropped := Suc (cs_dropped q)\<rparr>
          else if length (cs_queue q) < WARMING_CREDIT_CAPACITY then q\<lparr>cs_queue := cs_queue q @ [(source, units)]\<rparr>
          else q\<lparr>cs_dropped := Suc (cs_dropped q)\<rparr>)"

definition creditor_step :: "warming \<Rightarrow> nat \<Rightarrow> credit_sink \<Rightarrow> warming \<times> credit_sink" where
  "creditor_step w now q =
     (case cs_queue q of
        [] \<Rightarrow> (w, q)
      | (source, units) # rest \<Rightarrow>
          (credit_source w now source units, q\<lparr>cs_queue := rest, cs_applied := Suc (cs_applied q)\<rparr>))"

subsection \<open>Bounds of a ledger\<close>

definition warming_ok :: "warming \<Rightarrow> bool" where
  "warming_ok w \<longleftrightarrow> 0 \<le> wa_budget w \<and> wa_budget w \<le> i64_max \<and>
     (\<forall>(source, b) \<in> set (wa_buckets w). - wa_budget w \<le> bk_remaining b \<and> bk_remaining b \<le> wa_budget w)"

lemmas i64_defs = i64_sat_def i64_max_def i64_min_def i64_of_u64_def

lemma i64_sat_id: "i64_min \<le> x \<Longrightarrow> x \<le> i64_max \<Longrightarrow> i64_sat x = x"
  by (simp add: i64_sat_def)

lemma i64_sat_add_bounds:
  assumes "- i64_max \<le> x" "x \<le> i64_max" "0 \<le> u"
  shows "x \<le> i64_sat (x + u)" "i64_sat (x + u) \<le> x + u"
  using assms by (auto simp: i64_sat_def i64_max_def i64_min_def)

lemma i64_of_u64_bounds: "0 \<le> i64_of_u64 u" "i64_of_u64 u \<le> int (unat u)"
  by (simp_all only: i64_of_u64_def min.cobounded2) (simp add: i64_max_def)

lemma i64_of_u64_id: "int (unat u) \<le> i64_max \<Longrightarrow> i64_of_u64 u = int (unat u)"
  by (simp only: i64_of_u64_def min_absorb2)

lemma refill_units_nonneg: "0 \<le> refill_units w b now"
  by (simp add: refill_units_def i64_max_def)

lemma refill_remaining:
  assumes "0 \<le> wa_budget w" "wa_budget w \<le> i64_max" "- wa_budget w \<le> bk_remaining b" "bk_remaining b \<le> wa_budget w"
  shows "bk_remaining (refill w now b) = min (bk_remaining b + refill_units w b now) (wa_budget w)"
  using assms refill_units_nonneg [of w b now] by (simp add: refill_def i64_defs)

lemma bucket_bounds:
  assumes "warming_ok w"
  shows "- wa_budget w \<le> bk_remaining (or_insert_full w now source) \<and> bk_remaining (or_insert_full w now source) \<le> wa_budget w"
  using assms by (auto simp: warming_ok_def or_insert_full_def bucket_full_def dest!: map_of_SomeD split: option.splits)

lemma refill_bounds:
  assumes "warming_ok w" and "- wa_budget w \<le> bk_remaining b \<and> bk_remaining b \<le> wa_budget w"
  shows "- wa_budget w \<le> bk_remaining (refill w now b) \<and> bk_remaining (refill w now b) \<le> wa_budget w"
  using assms refill_remaining [of w b now] refill_units_nonneg [of w b now] by (auto simp: warming_ok_def)

lemma set_update_subset: "set (AList.update k v al) \<subseteq> insert (k, v) (set al)"
  by (induction al) (auto split: if_splits)

lemma warming_ok_update:
  assumes "warming_ok w" and "- wa_budget w \<le> bk_remaining b \<and> bk_remaining b \<le> wa_budget w"
  shows "warming_ok (w\<lparr>wa_buckets := AList.update source b (wa_buckets w)\<rparr>)"
  using assms set_update_subset [of source b "wa_buckets w"] by (fastforce simp: warming_ok_def)

lemma warming_ok_tags: "warming_ok (w\<lparr>wa_source_of := tags\<rparr>) = warming_ok w"
  by (simp add: warming_ok_def)

lemma warming_ok_new: "warming_ok (WarmingAllowance_new budget rate)"
  by (simp add: warming_ok_def WarmingAllowance_new_def i64_defs)

text \<open>
  One ledger as the operations read it: a source without an entry holds the full budget, and its
  clock starts at \<open>t0\<close>.
\<close>

definition ledger :: "warming \<Rightarrow> nat \<Rightarrow> b256 \<Rightarrow> bucket" where
  "ledger w t0 source = (case map_of (wa_buckets w) source of Some b \<Rightarrow> b | None \<Rightarrow> bucket_full (wa_budget w) t0)"

lemma ledger_update [simp]:
  "ledger (w\<lparr>wa_buckets := AList.update source b (wa_buckets w)\<rparr>) t0 source = b"
  by (simp add: ledger_def update_conv')

lemma ledger_tags [simp]: "ledger (w\<lparr>wa_source_of := tags\<rparr>) t0 source = ledger w t0 source"
  by (simp add: ledger_def split: option.split)

lemma ledger_bounds:
  "warming_ok w \<Longrightarrow> - wa_budget w \<le> bk_remaining (ledger w t0 source) \<and> bk_remaining (ledger w t0 source) \<le> wa_budget w"
  using bucket_bounds [of w t0 source] by (simp add: ledger_def or_insert_full_def)

text \<open>A refill never takes from a ledger and gives at most the rate over the time that passed.\<close>

definition accrued :: "u64 \<Rightarrow> nat \<Rightarrow> nat \<Rightarrow> int" where
  "accrued rate t t' = int (unat rate * (t' - t))"

lemma accrued_add: "t \<le> t' \<Longrightarrow> t' \<le> t'' \<Longrightarrow> accrued rate t t' + accrued rate t' t'' = accrued rate t t''"
  unfolding accrued_def of_nat_add [symmetric] distrib_left [symmetric] by simp

lemma refill_units_le:
  assumes "bk_last b \<le> now"
  shows "1000000000 * refill_units w b now \<le> accrued (wa_refill_per_sec w) (bk_last b) now"
proof -
  let ?r = "unat (wa_refill_per_sec w)"
  have "refill_units w b now \<le> int (?r * elapsed_secs b now)" 
    unfolding refill_units_def by (rule order_trans [OF min.cobounded2]) (simp only: of_nat_le_iff min.cobounded1)
  moreover have "?r * (elapsed_secs b now * 1000000000) \<le> ?r * (now - bk_last b)"
    unfolding elapsed_secs_def by (intro mult_le_mono2) (rule div_times_less_eq_dividend)
  then have "int (?r * (elapsed_secs b now * 1000000000)) \<le> int (?r * (now - bk_last b))" by (simp only: of_nat_le_iff)
  moreover have "int (?r * (elapsed_secs b now * 1000000000)) = 1000000000 * int (?r * elapsed_secs b now)" by simp
  ultimately show ?thesis unfolding accrued_def by linarith
qed

lemma refill_from_full: "bk_remaining b = wa_budget w \<Longrightarrow> 0 \<le> wa_budget w \<Longrightarrow> wa_budget w \<le> i64_max \<Longrightarrow>
    refill w now b = bucket_full (wa_budget w) now"
  using refill_units_nonneg [of w b now] by (simp add: refill_def bucket_full_def i64_defs)

lemma refill_or_insert:
  assumes "warming_ok w"
  shows "refill w now (or_insert_full w now source) = refill w now (ledger w t0 source)"
proof (cases "map_of (wa_buckets w) source")
  case None
  then show ?thesis using assms refill_from_full [of "bucket_full (wa_budget w) now" w now]
      refill_from_full [of "bucket_full (wa_budget w) t0" w now]
    by (simp add: or_insert_full_def ledger_def warming_ok_def bucket_full_def)
qed (simp add: or_insert_full_def ledger_def)

lemma available_ledger:
  assumes "warming_ok w" and "available w now source = (ok, w')" and "enabled w"
  shows "warming_ok w' \<and> wa_budget w' = wa_budget w \<and> wa_refill_per_sec w' = wa_refill_per_sec w \<and>
    (ledger w' t0 source = refill w now (ledger w t0 source) \<or> w' = w \<and> map_of (wa_buckets w) source = None) \<and>
    ok = (0 < bk_remaining (refill w now (ledger w t0 source)))"
proof (cases "map_of (wa_buckets w) source")
  case None
  moreover from None have "bk_remaining (refill w now (ledger w t0 source)) = wa_budget w"
    using assms(1) refill_from_full [of "bucket_full (wa_budget w) t0" w now]
    by (simp add: ledger_def bucket_full_def warming_ok_def)
  ultimately show ?thesis using assms by (auto simp: available_def enabled_def)
next
  case (Some b)
  then have b: "ledger w t0 source = b" by (simp add: ledger_def)
  have "warming_ok (w\<lparr>wa_buckets := AList.update source (refill w now b) (wa_buckets w)\<rparr>)"
    using assms(1) ledger_bounds [OF assms(1), of t0 source] b by (intro warming_ok_update refill_bounds) simp_all
  with assms(2,3) Some b show ?thesis by (auto simp: available_def Let_def)
qed

lemma debit_ledger:
  assumes "warming_ok w" and "int (unat units) \<le> wa_budget w"
  shows "warming_ok (debit_speculative w now source hash units) \<and>
    wa_budget (debit_speculative w now source hash units) = wa_budget w \<and>
    wa_refill_per_sec (debit_speculative w now source hash units) = wa_refill_per_sec w \<and>
    bk_last (ledger (debit_speculative w now source hash units) t0 source) = now \<and>
    bk_remaining (ledger (debit_speculative w now source hash units) t0 source) =
      max (bk_remaining (refill w now (ledger w t0 source)) - int (unat units)) (- wa_budget w)"
proof -
  let ?b = "refill w now (ledger w t0 source)"
  have bnd: "- wa_budget w \<le> bk_remaining ?b \<and> bk_remaining ?b \<le> wa_budget w" "0 \<le> wa_budget w" "wa_budget w \<le> i64_max"
    using refill_bounds [OF assms(1) ledger_bounds [OF assms(1)]] assms(1) by (auto simp: warming_ok_def)
  then have u: "i64_of_u64 units = int (unat units)" using assms(2) by (intro i64_of_u64_id) simp
  have sat: "max (i64_sat x) (i64_sat (- B)) = max x (- B)" if "x \<le> i64_max" "0 \<le> B" "B \<le> i64_max" for x B
    using that by (auto simp: i64_sat_def i64_max_def i64_min_def)
  have "bk_remaining ?b - int (unat units) \<le> i64_max" using bnd by linarith
  then have "max (i64_sat (bk_remaining ?b - i64_of_u64 units)) (i64_sat (- wa_budget w)) =
      max (bk_remaining ?b - int (unat units)) (- wa_budget w)"
    unfolding u using bnd by (intro sat)
  moreover have le: "bk_remaining ?b - int (unat units) \<le> wa_budget w" using bnd by linarith
  moreover have "warming_ok (w\<lparr>wa_buckets := AList.update source (?b\<lparr>bk_remaining := max (bk_remaining ?b - int (unat units)) (- wa_budget w)\<rparr>) (wa_buckets w)\<rparr>)"
    using assms(1) bnd le by (intro warming_ok_update) auto
  moreover have "bk_last ?b = now" by (simp add: refill_def)
  ultimately show ?thesis
    unfolding debit_speculative_def Let_def refill_or_insert [OF assms(1), of now source t0]
    by (auto simp: ledger_def update_conv' warming_ok_def)
qed

lemma credit_ledger:
  assumes "warming_ok w"
  shows "warming_ok (credit_source w now source units) \<and>
    wa_budget (credit_source w now source units) = wa_budget w \<and>
    wa_refill_per_sec (credit_source w now source units) = wa_refill_per_sec w \<and>
    bk_last (ledger (credit_source w now source units) t0 source) = now \<and>
    bk_remaining (refill w now (ledger w t0 source)) \<le> bk_remaining (ledger (credit_source w now source units) t0 source) \<and>
    bk_remaining (ledger (credit_source w now source units) t0 source) \<le>
      bk_remaining (refill w now (ledger w t0 source)) + int (unat units)"
proof -
  let ?b = "refill w now (ledger w t0 source)"
  have bnd: "- wa_budget w \<le> bk_remaining ?b \<and> bk_remaining ?b \<le> wa_budget w" "0 \<le> wa_budget w" "wa_budget w \<le> i64_max"
    using refill_bounds [OF assms ledger_bounds [OF assms]] assms by (auto simp: warming_ok_def)
  let ?r = "min (i64_sat (bk_remaining ?b + i64_of_u64 units)) (wa_budget w)"
  have r: "bk_remaining ?b \<le> ?r" "?r \<le> bk_remaining ?b + int (unat units)" "?r \<le> wa_budget w"
    using bnd i64_sat_add_bounds [of "bk_remaining ?b" "i64_of_u64 units"] i64_of_u64_bounds [of units] by linarith+
  moreover have "warming_ok (w\<lparr>wa_buckets := AList.update source (?b\<lparr>bk_remaining := ?r\<rparr>) (wa_buckets w)\<rparr>)"
    using assms bnd r by (intro warming_ok_update) auto
  ultimately show ?thesis
    unfolding credit_source_def Let_def refill_or_insert [OF assms, of now source t0] by (simp add: refill_def)
qed

subsection \<open>A source's account\<close>

text \<open>
  What happens to one source, in order. A pull asks whether it may buy and goes on only if it may;
  its debit comes later, when the bytes have arrived, or never, when it is abandoned, and
  any number of other events may lie between, other pulls that passed the same check included.
  Serves credit the source, and something asks and does not buy. The run adds up what was spent and what was
  credited, and keeps the number of buys in flight and the most there ever were.
\<close>

datatype warm_event = Begin | Debit b256 u64 | Abandon | Serve u64 | Ask

fun warm_run ::
  "b256 \<Rightarrow> (nat \<times> warm_event) list \<Rightarrow> (warming \<times> int \<times> int) \<times> nat \<times> nat \<Rightarrow> (warming \<times> int \<times> int) \<times> nat \<times> nat" where
  "warm_run source [] c = c"
| "warm_run source ((now, Begin) # evs) ((w, spent, credited), k, peak) =
     (case available w now source of
        (ok, w1) \<Rightarrow>
          if ok then warm_run source evs ((w1, spent, credited), Suc k, max peak (Suc k))
          else warm_run source evs ((w1, spent, credited), k, peak))"
| "warm_run source ((now, Debit hash units) # evs) ((w, spent, credited), k, peak) =
     (if k = 0 then warm_run source evs ((w, spent, credited), k, peak)
      else warm_run source evs
             ((debit_speculative w now source hash units, spent + int (unat units), credited), k - 1, peak))"
| "warm_run source ((now, Abandon) # evs) (c, k, peak) = warm_run source evs (c, k - 1, peak)"
| "warm_run source ((now, Serve units) # evs) ((w, spent, credited), k, peak) =
     warm_run source evs ((credit_source w now source units, spent, credited + int (unat units)), k, peak)"
| "warm_run source ((now, Ask) # evs) ((w, spent, credited), k, peak) =
     warm_run source evs ((snd (available w now source), spent, credited), k, peak)"

definition account_ok :: "u64 \<Rightarrow> nat \<Rightarrow> int \<Rightarrow> b256 \<Rightarrow> nat \<Rightarrow> warming \<times> int \<times> int \<Rightarrow> bool" where
  "account_ok rate t0 most source now = (\<lambda>(w, spent, credited).
     warming_ok w \<and> enabled w \<and> wa_refill_per_sec w = rate \<and>
     (let b = ledger w t0 source in
      t0 \<le> bk_last b \<and> bk_last b \<le> now \<and> - most \<le> bk_remaining b \<and>
      1000000000 * spent \<le> 1000000000 * (wa_budget w - bk_remaining b + credited) + accrued rate t0 (bk_last b)))"

lemma refill_account:
  assumes "account_ok rate t0 most source t (w, spent, credited)" and "t \<le> now" and "0 \<le> most"
  defines "b \<equiv> refill w now (ledger w t0 source)"
  shows "bk_last b = now" "- most \<le> bk_remaining b" "bk_remaining (ledger w t0 source) \<le> bk_remaining b"
    "1000000000 * spent \<le> 1000000000 * (wa_budget w - bk_remaining b + credited) + accrued rate t0 now"
proof -
  let ?l = "ledger w t0 source"
  have ok: "warming_ok w" "wa_refill_per_sec w = rate" "t0 \<le> bk_last ?l" "bk_last ?l \<le> t" "- most \<le> bk_remaining ?l"
    and acc: "1000000000 * spent \<le> 1000000000 * (wa_budget w - bk_remaining ?l + credited) + accrued rate t0 (bk_last ?l)"
    using assms(1) by (auto simp: account_ok_def Let_def)
  have rem: "bk_remaining b = min (bk_remaining ?l + refill_units w ?l now) (wa_budget w)"
    using ok(1) ledger_bounds [OF ok(1), of t0 source] unfolding b_def by (intro refill_remaining) (auto simp: warming_ok_def)
  show "bk_last b = now" by (simp add: b_def refill_def)
  show ge: "bk_remaining ?l \<le> bk_remaining b"
    using rem refill_units_nonneg [of w ?l now] ledger_bounds [OF ok(1), of t0 source] by simp
  with ok(5) show "- most \<le> bk_remaining b" by simp
  have time: "accrued rate t0 (bk_last ?l) + accrued rate (bk_last ?l) now = accrued rate t0 now"
    using ok(3,4) assms(2) by (intro accrued_add) simp_all
  have "1000000000 * refill_units w ?l now \<le> accrued rate (bk_last ?l) now"
    using refill_units_le [of ?l now w] ok(2,4) assms(2) by simp
  moreover have "bk_remaining b \<le> bk_remaining ?l + refill_units w ?l now" by (simp add: rem)
  ultimately show "1000000000 * spent \<le> 1000000000 * (wa_budget w - bk_remaining b + credited) + accrued rate t0 now"
    using acc time by (simp add: algebra_simps)
qed

lemma available_account:
  assumes acc: "account_ok rate t0 most source t (w, spent, credited)" and "t \<le> now" and "0 \<le> most" and "t0 \<le> t"
    and av: "available w now source = (ok, w')"
  shows "account_ok rate t0 most source now (w', spent, credited)" and "wa_budget w' = wa_budget w"
    and "ok = (0 < bk_remaining (refill w now (ledger w t0 source)))"
    and "ok \<Longrightarrow> 0 < bk_remaining (refill w' now (ledger w' t0 source))"
proof -
  have w: "warming_ok w" "enabled w" using acc by (auto simp: account_ok_def)
  note a = available_ledger [OF w(1) av w(2), of t0]
  note r = refill_account [OF acc assms(2,3)]
  show "wa_budget w' = wa_budget w" and okd: "ok = (0 < bk_remaining (refill w now (ledger w t0 source)))" using a by auto
  have en: "enabled w'" using a w(2) by (simp add: enabled_def)
  show acc': "account_ok rate t0 most source now (w', spent, credited)"
  proof (cases "ledger w' t0 source = refill w now (ledger w t0 source)")
    case True
    with a r acc en assms(2,4) show ?thesis by (simp add: account_ok_def Let_def)
  next
    case False
    with a have "w' = w" by auto
    with acc assms(2) show ?thesis by (auto simp: account_ok_def Let_def)
  qed
  show "0 < bk_remaining (refill w' now (ledger w' t0 source))" if ok
  proof (cases "ledger w' t0 source = refill w now (ledger w t0 source)")
    case True
    with okd that have "0 < bk_remaining (ledger w' t0 source)" by simp
    with refill_account(3) [OF acc' order_refl assms(3)] show ?thesis by simp
  next
    case False
    with a have "w' = w" by auto
    with okd that show ?thesis by simp
  qed
qed

lemma available_positive:
  assumes acc: "account_ok rate t0 most source t (w, spent, credited)" and "t \<le> now" and "0 \<le> most" and "t0 \<le> t"
    and av: "available w now source = (True, w')"
  shows "0 < bk_remaining (ledger w' t0 source)"
proof -
  have w: "warming_ok w" "enabled w" using acc by (auto simp: account_ok_def)
  have "0 < wa_budget w" using w(2) by (simp add: enabled_def)
  then show ?thesis
    using available_ledger [OF w(1) av w(2), of t0] by (auto simp: ledger_def bucket_full_def)
qed

lemma account_ok_mono:
  "account_ok rate t0 most source t c \<Longrightarrow> most \<le> most' \<Longrightarrow> t \<le> t' \<Longrightarrow> account_ok rate t0 most' source t' c"
  by (auto simp: account_ok_def Let_def)

lemma debit_account:
  assumes acc: "account_ok rate t0 (B - M) source t (w, spent, credited)" and "t \<le> now" and "t0 \<le> t"
    and "int (unat units) \<le> M" and "0 \<le> B - M" and "B \<le> wa_budget w"
  shows "account_ok rate t0 B source now (debit_speculative w now source hash units, spent + int (unat units), credited)"
    and "wa_budget (debit_speculative w now source hash units) = wa_budget w"
proof -
  have w: "warming_ok w" "enabled w" "wa_refill_per_sec w = rate" using acc by (auto simp: account_ok_def)
  have "0 \<le> M" using assms(4) by linarith
  then have "int (unat units) \<le> wa_budget w" using assms(4-6) by linarith
  note d = debit_ledger [OF w(1) this, of now source hash t0]
  then show "wa_budget (debit_speculative w now source hash units) = wa_budget w" by simp
  note r = refill_account [OF acc assms(2,5)]
  let ?b = "refill w now (ledger w t0 source)"
  have "max (bk_remaining ?b - int (unat units)) (- wa_budget w) = bk_remaining ?b - int (unat units)"
    and "- B \<le> bk_remaining ?b - int (unat units)"
    using r(2) assms(4,6) by linarith+
  then show "account_ok rate t0 B source now (debit_speculative w now source hash units, spent + int (unat units), credited)"
    using r d w assms(2,3) by (simp add: account_ok_def enabled_def Let_def algebra_simps)
qed

lemma credit_account:
  assumes acc: "account_ok rate t0 most source t (w, spent, credited)" and "t \<le> now" and "0 \<le> most" and "t0 \<le> t"
  shows "account_ok rate t0 most source now (credit_source w now source units, spent, credited + int (unat units))"
    and "wa_budget (credit_source w now source units) = wa_budget w"
proof -
  have w: "warming_ok w" "enabled w" "wa_refill_per_sec w = rate" using acc by (auto simp: account_ok_def)
  note r = refill_account [OF acc assms(2,3)] and cr = credit_ledger [OF w(1), of now source units t0]
  show "account_ok rate t0 most source now (credit_source w now source units, spent, credited + int (unat units))"
    using r cr w assms(2,4) by (auto simp: account_ok_def enabled_def Let_def)
  show "wa_budget (credit_source w now source units) = wa_budget w" using cr by simp
qed

lemma peak_mono: "peak \<le> snd (snd (warm_run source evs (c, k, peak)))"
  by (induction source evs "(c, k, peak)" arbitrary: c k peak rule: warm_run.induct) (auto split: prod.splits)

text \<open>With \<open>k\<close> of at most \<open>N\<close> buys in flight the ledger leaves room for their debits above \<open>N\<close> buys below zero.\<close>

lemma room_Suc: "k < N \<Longrightarrow> int (N - Suc k) * M = int (N - k) * M - M"
  by (simp add: of_nat_diff algebra_simps)

lemma warm_run_account:
  assumes "account_ok rate t0 (int (N - k) * M) source t c" and "sorted (t # map fst evs)" and "0 \<le> M" and "t0 \<le> t"
    and "int N * M \<le> wa_budget (fst c)" and "k \<le> N" and "snd (snd (warm_run source evs (c, k, peak))) \<le> N"
    and "\<And>now hash units. (now, Debit hash units) \<in> set evs \<Longrightarrow> int (unat units) \<le> M"
  shows "account_ok rate t0 (int N * M) source (last (t # map fst evs)) (fst (warm_run source evs (c, k, peak))) \<and>
    wa_budget (fst (fst (warm_run source evs (c, k, peak)))) = wa_budget (fst c)"
  using assms
proof (induction evs arbitrary: t c k peak)
  case Nil
  have "int (N - k) * M \<le> int N * M" using Nil.prems(3) by (intro mult_right_mono) simp_all
  with Nil.prems(1) show ?case by (simp add: account_ok_mono)
next
  case (Cons ev evs)
  obtain now e where ev: "ev = (now, e)" by fastforce
  obtain w spent credited where c: "c = (w, spent, credited)" by (metis prod_cases3)
  note acc = Cons.prems(1) [unfolded c]
  have t: "t \<le> now" "sorted (now # map fst evs)" "t0 \<le> now" using Cons.prems(2,4) ev by auto
  have rest: "\<And>now hash units. (now, Debit hash units) \<in> set evs \<Longrightarrow> int (unat units) \<le> M" using Cons.prems(8) by auto
  have nn: "0 \<le> int (N - k) * M" using Cons.prems(3) by simp
  have IH: ?case if "account_ok rate t0 (int (N - k') * M) source now c'" "wa_budget (fst c') = wa_budget w" "k' \<le> N"
      "warm_run source (ev # evs) (c, k, peak) = warm_run source evs (c', k', peak')" for c' k' peak'
    using Cons.IH [OF that(1) t(2) Cons.prems(3) t(3) _ that(3) _ rest, of peak'] that(2,4) Cons.prems(5,7) by (simp add: ev c)
  obtain ok w1 where av: "available w now source = (ok, w1)" by fastforce
  note a = available_account [OF acc t(1) nn Cons.prems(4) av]
  show ?case
  proof (cases e)
    case Ask
    show ?thesis by (rule IH [of k "(w1, spent, credited)"]) (use a av Cons.prems(6) in \<open>simp_all add: ev c Ask\<close>)
  next
    case (Serve units)
    show ?thesis
      by (rule IH [OF credit_account(1) [OF acc t(1) nn Cons.prems(4)]])
         (use credit_account(2) [OF acc t(1) nn Cons.prems(4)] Cons.prems(6) in \<open>simp_all add: ev c Serve\<close>)
  next
    case Abandon
    have "int (N - k) * M \<le> int (N - (k - 1)) * M" using Cons.prems(3) by (intro mult_right_mono) simp_all
    then show ?thesis
      by (intro IH [of "k - 1" c, OF account_ok_mono [OF Cons.prems(1) _ t(1)]])
         (use Cons.prems(6) in \<open>simp_all add: ev c Abandon\<close>)
  next
    case (Debit hash units)
    show ?thesis
    proof (cases "k = 0")
      case True
      show ?thesis by (rule IH [of k c, OF account_ok_mono [OF Cons.prems(1) order_refl t(1)]])
          (use Cons.prems(6) True in \<open>simp_all add: ev c Debit\<close>)
    next
      case False
      let ?B = "int (N - (k - 1)) * M"
      have B: "int (N - k) * M = ?B - M" using room_Suc [of "k - 1" N M] False Cons.prems(6) by simp
      have "?B \<le> int N * M" using Cons.prems(3) by (intro mult_right_mono) simp_all
      then have le: "?B \<le> wa_budget w" using Cons.prems(5) c by simp
      have "int (unat units) \<le> M" using Cons.prems(8) [of now hash units] by (simp add: ev Debit)
      note d = debit_account [OF acc [unfolded B] t(1) Cons.prems(4) this nn [unfolded B] le, of hash]
      show ?thesis by (rule IH [OF d(1)]) (use d(2) False Cons.prems(6) in \<open>simp_all add: ev c Debit\<close>)
    qed
  next
    case Begin
    show ?thesis
    proof (cases ok)
      case False
      show ?thesis by (rule IH [of k "(w1, spent, credited)"]) (use a av False Cons.prems(6) in \<open>simp_all add: ev c Begin\<close>)
    next
      case True
      have run: "warm_run source (ev # evs) (c, k, peak) = warm_run source evs ((w1, spent, credited), Suc k, max peak (Suc k))"
        by (simp add: ev c Begin av True)
      have k: "Suc k \<le> N"
        using peak_mono [of "max peak (Suc k)" source evs "(w1, spent, credited)" "Suc k"] Cons.prems(7) unfolding run by linarith
      have "0 < bk_remaining (ledger w1 t0 source)"
        using available_positive [OF acc t(1) nn Cons.prems(4) av [unfolded eqTrueI [OF True]]] .
      then have "account_ok rate t0 (int (N - Suc k) * M) source now (w1, spent, credited)"
        using a(1) Cons.prems(3) by (auto simp: account_ok_def Let_def intro: order_trans [of _ 0])
      then show ?thesis by (rule IH) (use a(2) k run in simp_all)
    qed
  qed
qed

subsection \<open>Asking again and again\<close>

fun ask_all :: "b256 \<Rightarrow> nat list \<Rightarrow> warming \<Rightarrow> bool list \<times> warming" where
  "ask_all source [] w = ([], w)"
| "ask_all source (now # ts) w =
     (case available w now source of
        (ok, w1) \<Rightarrow> (case ask_all source ts w1 of (oks, w2) \<Rightarrow> (ok # oks, w2)))"

fun within_a_second :: "nat \<Rightarrow> nat list \<Rightarrow> bool" where
  "within_a_second t [] = True"
| "within_a_second t (now # ts) \<longleftrightarrow> t \<le> now \<and> now < t + 1000000000 \<and> within_a_second now ts"

lemma ask_within_second:
  assumes "enabled w" and "warming_ok w" and "map_of (wa_buckets w) source = Some b" and "bk_remaining b \<le> 0"
    and "within_a_second (bk_last b) ts"
  shows "fst (ask_all source ts w) = map (\<lambda>_. False) ts"
  using assms
proof (induction ts arbitrary: w b)
  case (Cons now ts)
  let ?b = "refill w now b"
  have bnd: "- wa_budget w \<le> bk_remaining b \<and> bk_remaining b \<le> wa_budget w"
    using Cons.prems(2,3) by (auto simp: warming_ok_def dest!: map_of_SomeD)
  have "elapsed_secs b now = 0" using Cons.prems(5) unfolding elapsed_secs_def by (intro div_less) auto
  then have "refill_units w b now = 0" by (simp add: refill_units_def i64_max_def)
  then have rem: "bk_remaining ?b = bk_remaining b"
    using refill_remaining [of w b now] Cons.prems(2) bnd by (simp add: warming_ok_def)
  let ?w = "w\<lparr>wa_buckets := AList.update source ?b (wa_buckets w)\<rparr>"
  have av: "available w now source = (False, ?w)"
    using Cons.prems(1,3,4) rem by (simp add: available_def Let_def)
  have "fst (ask_all source ts ?w) = map (\<lambda>_. False) ts"
  proof (rule Cons.IH)
    show "enabled ?w" using Cons.prems(1) by (simp add: enabled_def)
    show "warming_ok ?w" by (rule warming_ok_update) (use Cons.prems(2) bnd rem in simp_all)
    show "map_of (wa_buckets ?w) source = Some ?b" by (simp add: update_conv')
    show "bk_remaining ?b \<le> 0" using rem Cons.prems(4) by simp
    show "within_a_second (bk_last ?b) ts" using Cons.prems(5) by (simp add: refill_def)
  qed
  then show ?case by (cases "ask_all source ts ?w") (simp add: av)
qed simp

subsection \<open>Properties\<close>

text \<open>
  C24. Speculative losses from one source are bounded. Whatever sequence of checks, debits,
  abandoned pulls, serves and questions a source goes through from a fresh ledger, with debits only by pulls that
  passed the check before, the units of the completed buys exceed its budget, the credits it earned and the refill of the
  time that passed by at most one largest buy for each buy that was in flight at once. The bound needs that
  these together do not exceed the budget: below that the ledger stops counting. What an abandoned pull
  paid is not debited and not counted.
\<close>

theorem speculative_loss_bounded:
  assumes "0 < budget" and "sorted (t0 # map fst evs)"
    and "\<And>now hash units. (now, Debit hash units) \<in> set evs \<Longrightarrow> units \<le> most"
    and "warm_run source evs ((WarmingAllowance_new budget rate, 0, 0), 0, 0) = ((w, spent, credited), k, peak)"
    and "int peak * int (unat most) \<le> i64_of_u64 budget"
  shows "1000000000 * spent \<le> 1000000000 * (int (unat budget) + int peak * int (unat most) + credited)
    + int (unat rate * (last (t0 # map fst evs) - t0))"
proof -
  let ?w = "WarmingAllowance_new budget rate" and ?t = "last (t0 # map fst evs)" and ?M = "int peak * int (unat most)"
  have start: "account_ok rate t0 ?M source t0 (?w, 0, 0)"
  proof -
    have "0 < int (unat budget)" using assms(1) by (simp only: of_nat_0_less_iff word_less_nat_alt unat_0)
    then have "0 < i64_of_u64 budget" by (simp only: i64_of_u64_def i64_max_def min_less_iff_conj) simp
    moreover from this have "- ?M \<le> i64_of_u64 budget" using zero_le_mult_iff [of "int peak" "int (unat most)"] by linarith
    ultimately show ?thesis
      using warming_ok_new [of budget rate]
      by (simp add: account_ok_def enabled_def ledger_def WarmingAllowance_new_def bucket_full_def accrued_def)
  qed
  have run: "account_ok rate t0 ?M source ?t (w, spent, credited) \<and> wa_budget w = i64_of_u64 budget"
  proof -
    have "int (unat units) \<le> int (unat most)" if "(now, Debit hash units) \<in> set evs" for now hash units
      using assms(3) [OF that] by (simp only: word_le_nat_alt of_nat_le_iff)
    note * = warm_run_account [where N = peak and k = 0 and peak = 0, OF _ assms(2) _ order_refl _ _ _ this]
    have "account_ok rate t0 (int (peak - 0) * int (unat most)) source t0 (?w, 0, 0)" using start by (simp only: diff_zero)
    from * [OF this] assms(4,5) show ?thesis by (simp add: WarmingAllowance_new_def del: last.simps)
  qed
  let ?l = "ledger w t0 source"
  have "1000000000 * spent \<le> 1000000000 * (i64_of_u64 budget - bk_remaining ?l + credited) + accrued rate t0 (bk_last ?l)"
    and "- ?M \<le> bk_remaining ?l" and l: "t0 \<le> bk_last ?l" "bk_last ?l \<le> ?t"
    using run by (auto simp: account_ok_def Let_def)
  moreover have "accrued rate t0 (bk_last ?l) \<le> accrued rate t0 ?t"
    unfolding accrued_def of_nat_le_iff by (intro mult_le_mono2 diff_le_mono l(2))
  ultimately have "1000000000 * spent \<le> 1000000000 * (int (unat budget) + ?M + credited) + accrued rate t0 ?t"
    using i64_of_u64_bounds(2) [of budget] by (simp add: algebra_simps del: last.simps)
  then show ?thesis by (simp only: accrued_def)
qed

text \<open>The demonstration ledger: a source that has spent its budget of ten and refills a thousand a second.\<close>

definition demo_warming :: warming where
  "demo_warming = fst (fst (warm_run 1 [(0, Begin), (0, Debit 7 10)] ((WarmingAllowance_new 10 1000, 0, 0), 0, 0)))"

lemmas demo_warming_defs = WarmingAllowance_new_def available_def enabled_def debit_speculative_def or_insert_full_def
  bucket_full_def refill_def refill_units_def elapsed_secs_def i64_defs

lemma demo_warming_eq:
  "demo_warming = \<lparr>wa_budget = 10, wa_refill_per_sec = 1000, wa_buckets = [(1, \<lparr>bk_remaining = 0, bk_last = 0\<rparr>)], wa_source_of = [(7, 1)]\<rparr>"
  by (simp add: demo_warming_def demo_warming_defs)

definition demo_ledger :: "int \<Rightarrow> (b256 \<times> b256) list \<Rightarrow> warming" where
  "demo_ledger r tags = \<lparr>wa_budget = 10, wa_refill_per_sec = 1000, wa_buckets = [(1, \<lparr>bk_remaining = r, bk_last = 0\<rparr>)], wa_source_of = tags\<rparr>"

lemma demo_ledger_steps:
  "- 10 \<le> r \<Longrightarrow> r \<le> 10 \<Longrightarrow> available (demo_ledger r tags) 0 1 = (0 < r, demo_ledger r tags)"
  "- 10 \<le> r \<Longrightarrow> r \<le> 10 \<Longrightarrow> debit_speculative (demo_ledger r tags) 0 1 h 5 = demo_ledger (max (r - 5) (- 10)) (AList.update h 1 tags)"
  by (simp_all add: demo_ledger_def demo_warming_defs)

lemma demo_ledger_start:
  "available (WarmingAllowance_new 10 1000) 0 1 = (True, WarmingAllowance_new 10 1000)"
  "debit_speculative (WarmingAllowance_new 10 1000) 0 1 7 3 = demo_ledger 7 [(7, 1)]"
  by (simp_all add: demo_ledger_def demo_warming_defs)

text \<open>Two pulls pass the check before either is debited, so that thirteen units go out of a budget of ten.\<close>

theorem speculative_loss_bounded_witness:
  "\<exists>w. warm_run 1 [(0, Begin), (0, Debit 7 3), (0, Begin), (0, Begin), (0, Debit 8 5), (0, Debit 9 5)]
         ((WarmingAllowance_new 10 1000, 0, 0), 0, 0) = ((w, 13, 0), 0, 2) \<and>
     1000000000 * (13 :: int) \<le> 1000000000 * (10 + 2 * 5 + 0)"
proof -
  let ?evs = "[(0, Begin), (0, Debit 7 3), (0, Begin), (0, Begin), (0, Debit 8 5), (0, Debit 9 5)]"
  have w: "warm_run 1 ?evs ((WarmingAllowance_new 10 1000, 0, 0), 0, 0) = ((demo_ledger (- 3) [(7, 1), (8, 1), (9, 1)], 13, 0), 0, 2)"
    by (simp add: demo_ledger_start demo_ledger_steps)
  from speculative_loss_bounded [OF _ _ _ w, of 0 5] have "1000000000 * (13 :: int) \<le> 1000000000 * (10 + 2 * 5 + 0)"
    by (auto simp: i64_of_u64_def i64_max_def)
  with w show ?thesis by blast
qed

text \<open>
  A source that is asked about more than once a second never refills. Each question resets the
  ledger's clock and grants only whole seconds since the last one, so that a spent source stays
  refused at every question, however long the questions go on and whatever the refill rate.
\<close>

theorem frequent_asks_never_refill:
  assumes "enabled w" and "warming_ok w" and "map_of (wa_buckets w) source = Some b" and "bk_remaining b \<le> 0"
    and "within_a_second (bk_last b) ts"
  shows "fst (ask_all source ts w) = map (\<lambda>_. False) ts"
  by (rule ask_within_second [OF assms])

theorem frequent_asks_never_refill_witness:
  "fst (ask_all 1 [500000000, 1000000000, 1500000000, 2000000000] demo_warming) = [False, False, False, False] \<and>
   projected_remaining demo_warming \<lparr>bk_remaining = 0, bk_last = 0\<rparr> 2000000000 = 10"
proof
  have "fst (ask_all 1 [500000000, 1000000000, 1500000000, 2000000000] demo_warming) =
      map (\<lambda>_. False) [500000000, 1000000000, 1500000000, 2000000000 :: nat]"
    by (rule frequent_asks_never_refill [where b = "\<lparr>bk_remaining = 0, bk_last = 0\<rparr>"])
       (simp_all add: demo_warming_eq enabled_def warming_ok_def i64_max_def)
  then show "fst (ask_all 1 [500000000, 1000000000, 1500000000, 2000000000] demo_warming) = [False, False, False, False]"
    by (simp del: ask_all.simps)
qed (simp add: projected_remaining_def demo_warming_eq refill_units_def elapsed_secs_def i64_defs)

end
