(* ===== verification/Buyer_Pool.thy ===== *)
theory Buyer_Pool
  imports Lane
begin

text \<open>
  The buyer's record of a payment pool (\<open>src/crates/incentive/src/buyer_pool.rs\<close>): the
  cumulative totals signed on every lane of a pool, the deposit, and the spend other signers
  redeemed on it, with the in-memory store of such records.

  The hash map of lanes is an association list whose keys are distinct; its iteration order is
  not observable, which the lemmas on \<open>committed_amount\<close> show. The store's mutex is the flag
  \<open>bm_poisoned\<close>. What every store of buyer pools promises is the functional specification
  \<open>spec_step\<close> on finite maps and the locale \<open>buyer_store\<close>; the in-memory store is interpreted
  in it here and the disk-backed table in \<open>Buyer_Pool_Table\<close>.
\<close>

subsection \<open>Progress of one lane\<close>

record buyer_lane_progress =
  bl_last_amount :: u256
  bl_last_bytes :: u256

datatype buyer_progress_error =
  Regressed (re_field: string) (re_recorded: u256) (re_got: u256)

definition advanced ::
  "buyer_lane_progress option \<Rightarrow> buyer_lane_progress \<Rightarrow> buyer_progress_error + buyer_lane_progress" where
  "advanced recorded totals =
     (case recorded of
        Some existing \<Rightarrow>
          if bl_last_bytes totals < bl_last_bytes existing
          then Inl (Regressed ''bytes'' (bl_last_bytes existing) (bl_last_bytes totals))
          else if bl_last_amount totals < bl_last_amount existing
          then Inl (Regressed ''amount'' (bl_last_amount existing) (bl_last_amount totals))
          else Inr totals
      | None \<Rightarrow> Inr totals)"

definition rebased :: "buyer_lane_progress \<Rightarrow> buyer_lane_progress \<Rightarrow> buyer_lane_progress" where
  "rebased anchor totals =
     (if bl_last_amount anchor \<le> bl_last_amount totals \<and> bl_last_bytes anchor \<le> bl_last_bytes totals
      then totals else anchor)"

subsection \<open>State of one pool\<close>

record deployment =
  chain_id :: u64
  payment_pool :: address

record buyer_pool_state =
  bp_pool_id :: b256
  bp_deployment :: deployment
  bp_owner :: address
  bp_token :: address
  bp_deposit :: u256
  bp_lanes :: "(lane_key \<times> buyer_lane_progress) list"
  bp_redeemed_elsewhere :: u256

definition buyer_new :: "b256 \<Rightarrow> deployment \<Rightarrow> address \<Rightarrow> address \<Rightarrow> u256 \<Rightarrow> buyer_pool_state" where
  "buyer_new pid dep owner token deposit =
     \<lparr>bp_pool_id = pid, bp_deployment = dep, bp_owner = owner, bp_token = token,
      bp_deposit = deposit, bp_lanes = [], bp_redeemed_elsewhere = 0\<rparr>"

definition buyer_adopt ::
  "b256 \<Rightarrow> deployment \<Rightarrow> address \<Rightarrow> address \<Rightarrow> u256 \<Rightarrow> u256 \<Rightarrow> buyer_pool_state" where
  "buyer_adopt pid dep owner token deposit total_redeemed =
     (buyer_new pid dep owner token deposit)\<lparr>bp_redeemed_elsewhere := total_redeemed\<rparr>"

definition buyer_hydrate ::
  "b256 \<Rightarrow> deployment \<Rightarrow> address \<Rightarrow> address \<Rightarrow> u256 \<Rightarrow> (lane_key \<times> buyer_lane_progress) list \<Rightarrow> u256
     \<Rightarrow> buyer_pool_state" where
  "buyer_hydrate pid dep owner token deposit lanes elsewhere =
     \<lparr>bp_pool_id = pid, bp_deployment = dep, bp_owner = owner, bp_token = token,
      bp_deposit = deposit, bp_lanes = fold (\<lambda>(k, p) m. AList.update k p m) lanes [],
      bp_redeemed_elsewhere = elsewhere\<rparr>"

definition lane_progress :: "buyer_pool_state \<Rightarrow> lane_key \<Rightarrow> buyer_lane_progress option" where
  "lane_progress s lane = map_of (bp_lanes s) lane"

definition lane_count :: "buyer_pool_state \<Rightarrow> nat" where
  "lane_count s = length (bp_lanes s)"

definition is_on :: "buyer_pool_state \<Rightarrow> deployment \<Rightarrow> bool" where
  "is_on s dep \<longleftrightarrow> bp_deployment s = dep"

definition committed_amount :: "buyer_pool_state \<Rightarrow> u256" where
  "committed_amount s = foldl (\<lambda>acc p. sat_add acc (bl_last_amount p)) 0 (map snd (bp_lanes s))"

definition pool_spend :: "buyer_pool_state \<Rightarrow> u256" where
  "pool_spend s = sat_add (committed_amount s) (bp_redeemed_elsewhere s)"

definition reconcile_with_chain :: "u256 \<Rightarrow> u256 \<Rightarrow> buyer_pool_state \<Rightarrow> buyer_pool_state" where
  "reconcile_with_chain deposit total_redeemed s =
     (let elsewhere = sat_sub total_redeemed (committed_amount s)
      in s\<lparr>bp_deposit := max (bp_deposit s) deposit,
           bp_redeemed_elsewhere := max (bp_redeemed_elsewhere s) elsewhere\<rparr>)"

definition advance_lane ::
  "lane_key \<Rightarrow> u256 \<Rightarrow> u256 \<Rightarrow> buyer_pool_state \<Rightarrow> buyer_progress_error + buyer_pool_state" where
  "advance_lane lane bytes amount s =
     (case advanced (map_of (bp_lanes s) lane) \<lparr>bl_last_amount = amount, bl_last_bytes = bytes\<rparr> of
        Inl e \<Rightarrow> Inl e
      | Inr progress \<Rightarrow> Inr (s\<lparr>bp_lanes := AList.update lane progress (bp_lanes s)\<rparr>))"

definition seed_lane ::
  "lane_key \<Rightarrow> u256 \<Rightarrow> u256 \<Rightarrow> buyer_pool_state \<Rightarrow> buyer_progress_error + buyer_pool_state" where
  "seed_lane lane bytes amount s =
     (let new = (map_of (bp_lanes s) lane = None)
      in case advance_lane lane bytes amount s of
           Inl e \<Rightarrow> Inl e
         | Inr s' \<Rightarrow>
             Inr (if new
                  then s'\<lparr>bp_redeemed_elsewhere := sat_sub (bp_redeemed_elsewhere s') amount\<rparr>
                  else s'))"

definition rebase_lane ::
  "lane_key \<Rightarrow> buyer_lane_progress \<Rightarrow> buyer_lane_progress \<Rightarrow> buyer_pool_state \<Rightarrow> buyer_pool_state" where
  "rebase_lane lane anchor totals s =
     s\<lparr>bp_lanes := AList.update lane (rebased anchor totals) (bp_lanes s)\<rparr>"

subsection \<open>The store's results\<close>

record buyer_load =
  ld_pools :: "buyer_pool_state list"
  ld_skipped :: "b256 list"

datatype advance_outcome =
    Advanced
  | UnknownPool
  | PoolMismatch
  | AdvanceRegressed buyer_progress_error

datatype deposit_outcome =
    Added u256
  | DepositUnknownPool
  | DepositPoolMismatch

subsection \<open>The in-memory store\<close>

record buyer_mem =
  bm_poisoned :: bool
  bm_pools :: "(b256 \<times> buyer_pool_state) list"
  bm_owner_index :: "(address \<times> b256) list"
  bm_delegate_lanes :: "((deployment \<times> lane_key) \<times> buyer_lane_progress) list"
  bm_lane_salt :: "u8 list option"

definition MemoryBuyerPoolStore_new :: buyer_mem where
  "MemoryBuyerPoolStore_new =
     \<lparr>bm_poisoned = False, bm_pools = [], bm_owner_index = [], bm_delegate_lanes = [],
      bm_lane_salt = None\<rparr>"

definition bm_len :: "buyer_mem \<Rightarrow> nat" where
  "bm_len m = (if bm_poisoned m then 0 else length (bm_pools m))"

definition bm_is_empty :: "buyer_mem \<Rightarrow> bool" where
  "bm_is_empty m \<longleftrightarrow> bm_len m = 0"

definition bm_lock ::
  "buyer_mem \<Rightarrow> (buyer_mem \<Rightarrow> 'r \<times> buyer_mem) \<Rightarrow> (store_error + 'r) \<times> buyer_mem" where
  "bm_lock m body =
     (if bm_poisoned m
      then (Inl (Backend ''memory store mutex poisoned: poisoned lock: another task failed inside''), m)
      else case body m of (r, m') \<Rightarrow> (Inr r, m'))"

definition bm_load_all :: "buyer_mem \<Rightarrow> (store_error + buyer_load) \<times> buyer_mem" where
  "bm_load_all m = bm_lock m (\<lambda>m. (\<lparr>ld_pools = map snd (bm_pools m), ld_skipped = []\<rparr>, m))"

definition bm_record :: "buyer_pool_state \<Rightarrow> buyer_mem \<Rightarrow> (store_error + unit) \<times> buyer_mem" where
  "bm_record s m = bm_lock m (\<lambda>m.
     ((), m\<lparr>bm_owner_index := AList.update (bp_owner s) (bp_pool_id s) (bm_owner_index m),
            bm_pools := AList.update (bp_pool_id s) s (bm_pools m)\<rparr>))"

definition bm_forget :: "address \<Rightarrow> buyer_mem \<Rightarrow> (store_error + unit) \<times> buyer_mem" where
  "bm_forget owner m = bm_lock m (\<lambda>m.
     (case map_of (bm_owner_index m) owner of
        Some pid \<Rightarrow> ((), m\<lparr>bm_owner_index := AList.delete owner (bm_owner_index m),
                             bm_pools := AList.delete pid (bm_pools m)\<rparr>)
      | None \<Rightarrow> ((), m)))"

definition bm_forget_if_pool ::
  "address \<Rightarrow> b256 \<Rightarrow> buyer_mem \<Rightarrow> (store_error + bool) \<times> buyer_mem" where
  "bm_forget_if_pool owner pid m = bm_lock m (\<lambda>m.
     (if map_of (bm_owner_index m) owner = Some pid
      then (True, m\<lparr>bm_owner_index := AList.delete owner (bm_owner_index m),
                    bm_pools := AList.delete pid (bm_pools m)\<rparr>)
      else (False, m)))"

definition bm_get_by_pool_id ::
  "b256 \<Rightarrow> buyer_mem \<Rightarrow> (store_error + buyer_pool_state option) \<times> buyer_mem" where
  "bm_get_by_pool_id pid m = bm_lock m (\<lambda>m. (map_of (bm_pools m) pid, m))"

definition bm_get_by_owner ::
  "address \<Rightarrow> buyer_mem \<Rightarrow> (store_error + buyer_pool_state option) \<times> buyer_mem" where
  "bm_get_by_owner owner m = bm_lock m (\<lambda>m.
     (Option.bind (map_of (bm_owner_index m) owner) (map_of (bm_pools m)), m))"

text \<open>
  The three lane writes and the deposit share the lookup of the committed row: the owner index
  must name the pool the caller paid on, and the row must exist.
\<close>

definition bm_with_row ::
  "address \<Rightarrow> b256 \<Rightarrow> 'r \<Rightarrow> 'r \<Rightarrow> (buyer_pool_state \<Rightarrow> 'r \<times> buyer_pool_state) \<Rightarrow> buyer_mem
     \<Rightarrow> 'r \<times> buyer_mem" where
  "bm_with_row owner pid unknown mismatch f m =
     (case map_of (bm_owner_index m) owner of
        None \<Rightarrow> (unknown, m)
      | Some mapped \<Rightarrow>
          if mapped \<noteq> pid then (mismatch, m)
          else case map_of (bm_pools m) pid of
                 None \<Rightarrow> (unknown, m)
               | Some state \<Rightarrow>
                   (case f state of
                      (r, state') \<Rightarrow> (r, m\<lparr>bm_pools := AList.update pid state' (bm_pools m)\<rparr>)))"

definition bm_advance_progress ::
  "address \<Rightarrow> b256 \<Rightarrow> lane_key \<Rightarrow> u256 \<Rightarrow> u256 \<Rightarrow> buyer_mem
     \<Rightarrow> (store_error + advance_outcome) \<times> buyer_mem" where
  "bm_advance_progress owner pid lane bytes amount m =
     bm_lock m (bm_with_row owner pid UnknownPool PoolMismatch
       (\<lambda>state. case advance_lane lane bytes amount state of
                  Inr state' \<Rightarrow> (Advanced, state')
                | Inl err \<Rightarrow> (AdvanceRegressed err, state)))"

definition bm_rebase_progress ::
  "address \<Rightarrow> b256 \<Rightarrow> lane_key \<Rightarrow> buyer_lane_progress \<Rightarrow> buyer_lane_progress \<Rightarrow> buyer_mem
     \<Rightarrow> (store_error + advance_outcome) \<times> buyer_mem" where
  "bm_rebase_progress owner pid lane anchor totals m =
     bm_lock m (bm_with_row owner pid UnknownPool PoolMismatch
       (\<lambda>state. (Advanced, rebase_lane lane anchor totals state)))"

definition bm_seed_progress ::
  "address \<Rightarrow> b256 \<Rightarrow> lane_key \<Rightarrow> u256 \<Rightarrow> u256 \<Rightarrow> buyer_mem
     \<Rightarrow> (store_error + advance_outcome) \<times> buyer_mem" where
  "bm_seed_progress owner pid lane bytes amount m =
     bm_lock m (bm_with_row owner pid UnknownPool PoolMismatch
       (\<lambda>state. case seed_lane lane bytes amount state of
                  Inr state' \<Rightarrow> (Advanced, state')
                | Inl err \<Rightarrow> (AdvanceRegressed err, state)))"

definition bm_add_deposit ::
  "address \<Rightarrow> b256 \<Rightarrow> u256 \<Rightarrow> buyer_mem \<Rightarrow> (store_error + deposit_outcome) \<times> buyer_mem" where
  "bm_add_deposit owner pid additional m =
     bm_lock m (bm_with_row owner pid DepositUnknownPool DepositPoolMismatch
       (\<lambda>state. let d = sat_add (bp_deposit state) additional in (Added d, state\<lparr>bp_deposit := d\<rparr>)))"

definition bm_delegate_lanes_of ::
  "deployment \<Rightarrow> b256 \<Rightarrow> address \<Rightarrow> buyer_mem
     \<Rightarrow> (store_error + (address \<times> buyer_lane_progress) list) \<times> buyer_mem" where
  "bm_delegate_lanes_of dep pid sg m = bm_lock m (\<lambda>m.
     (sort_key fst
        (map (\<lambda>((_, lane), progress). (lk_provider lane, progress))
          (filter (\<lambda>((on, lane), _). on = dep \<and> lk_pool_id lane = pid \<and> lk_signer lane = sg)
             (bm_delegate_lanes m))), m))"

definition bm_advance_delegate ::
  "deployment \<Rightarrow> lane_key \<Rightarrow> buyer_lane_progress \<Rightarrow> buyer_mem
     \<Rightarrow> (store_error + advance_outcome) \<times> buyer_mem" where
  "bm_advance_delegate dep lane totals m = bm_lock m (\<lambda>m.
     (case advanced (map_of (bm_delegate_lanes m) (dep, lane)) totals of
        Inr progress \<Rightarrow>
          (Advanced, m\<lparr>bm_delegate_lanes := AList.update (dep, lane) progress (bm_delegate_lanes m)\<rparr>)
      | Inl err \<Rightarrow> (AdvanceRegressed err, m)))"

definition bm_rebase_delegate ::
  "deployment \<Rightarrow> lane_key \<Rightarrow> buyer_lane_progress \<Rightarrow> buyer_lane_progress \<Rightarrow> buyer_mem
     \<Rightarrow> (store_error + advance_outcome) \<times> buyer_mem" where
  "bm_rebase_delegate dep lane anchor totals m = bm_lock m (\<lambda>m.
     (Advanced, m\<lparr>bm_delegate_lanes :=
                    AList.update (dep, lane) (rebased anchor totals) (bm_delegate_lanes m)\<rparr>))"

text \<open>The salt drawn from the random source is an argument.\<close>

definition bm_lane_salt_of :: "u8 list \<Rightarrow> buyer_mem \<Rightarrow> (store_error + u8 list) \<times> buyer_mem" where
  "bm_lane_salt_of random m = bm_lock m (\<lambda>m.
     (case bm_lane_salt m of
        Some salt \<Rightarrow> (salt, m)
      | None \<Rightarrow> (random, m\<lparr>bm_lane_salt := Some random\<rparr>)))"

subsection \<open>What the row says the pool has spent\<close>

lemmas advanced_simps = advanced_def advance_lane_def

lemma unat_foldl_sat_add:
  "unat (foldl (\<lambda>acc p. sat_add acc (f p)) a xs :: u256) =
     min (unat a + (\<Sum>p\<leftarrow>xs. unat (f p))) (2 ^ 256 - 1)"
proof (induction xs arbitrary: a)
  case Nil
  have "unat a \<le> 2 ^ 256 - 1" using unat_below [of a] by simp
  then show ?case by (simp add: min_absorb1)
next
  case (Cons x xs)
  show ?case by (simp only: foldl_Cons Cons.IH unat_sat_add list.map sum_list.Cons) (simp add: min_def)
qed

definition lane_total :: "buyer_pool_state \<Rightarrow> nat" where
  "lane_total s = (\<Sum>p\<leftarrow>map snd (bp_lanes s). unat (bl_last_amount p))"

lemma unat_committed_amount: "unat (committed_amount s) = min (lane_total s) (2 ^ 256 - 1)"
  by (simp add: committed_amount_def lane_total_def unat_foldl_sat_add)

lemma unat_pool_spend:
  "unat (pool_spend s) = min (lane_total s + unat (bp_redeemed_elsewhere s)) (2 ^ 256 - 1)"
  by (simp only: pool_spend_def unat_sat_add unat_committed_amount) (simp add: min_def)

text \<open>Neither total depends on the order in which the map of lanes is iterated.\<close>

lemma lane_total_order_free:
  assumes "distinct (map fst (bp_lanes s))" and "distinct (map fst (bp_lanes t))"
    and "map_of (bp_lanes s) = map_of (bp_lanes t)"
  shows "lane_total s = lane_total t"
proof -
  let ?f = "\<lambda>x :: lane_key \<times> buyer_lane_progress. unat (bl_last_amount (snd x))"
  have "lane_total u = sum ?f (set (bp_lanes u))" if "distinct (map fst (bp_lanes u))" for u
    using that by (simp add: lane_total_def comp_def sum_list_distinct_conv_sum_set distinct_map)
  moreover have "set (bp_lanes s) = set (bp_lanes t)"
    using assms by (rule map_of_inject_set [THEN iffD1])
  ultimately show ?thesis using assms by simp
qed

lemma sum_update_new:
  assumes "map_of lanes k = None"
  shows "(\<Sum>x\<leftarrow>AList.update k v lanes. g (snd x)) = (\<Sum>x\<leftarrow>lanes. g (snd x)) + (g v :: nat)"
  using assms by (induction lanes) (auto split: if_splits)

lemma lane_total_update_new:
  assumes "map_of (bp_lanes s) lane = None"
  shows "lane_total (s\<lparr>bp_lanes := AList.update lane p (bp_lanes s), bp_redeemed_elsewhere := e\<rparr>) =
           lane_total s + unat (bl_last_amount p)"
  using sum_update_new [OF assms, of "unat \<circ> bl_last_amount"] by (simp add: lane_total_def comp_def)

lemma advance_lane_new:
  assumes "map_of (bp_lanes s) lane = None"
  shows "advance_lane lane bytes amount s =
           Inr (s\<lparr>bp_lanes := AList.update lane \<lparr>bl_last_amount = amount, bl_last_bytes = bytes\<rparr>
                   (bp_lanes s)\<rparr>)"
  using assms by (simp add: advanced_simps)

lemma seed_lane_new:
  assumes "map_of (bp_lanes s) lane = None"
  shows "seed_lane lane bytes amount s =
           Inr (s\<lparr>bp_lanes := AList.update lane \<lparr>bl_last_amount = amount, bl_last_bytes = bytes\<rparr>
                   (bp_lanes s),
                 bp_redeemed_elsewhere := sat_sub (bp_redeemed_elsewhere s) amount\<rparr>)"
  using assms by (simp add: seed_lane_def advance_lane_new)

lemma seed_lane_new_spend:
  assumes "map_of (bp_lanes s) lane = None" and "seed_lane lane bytes amount s = Inr s'"
  shows "unat (pool_spend s') =
           min (lane_total s + max (unat (bp_redeemed_elsewhere s)) (unat amount)) (2 ^ 256 - 1)"
  using assms
  by (auto simp: seed_lane_new unat_pool_spend lane_total_update_new unat_sat_sub max_def)

fun seed_lanes ::
  "(lane_key \<times> u256 \<times> u256) list \<Rightarrow> buyer_pool_state \<Rightarrow> buyer_progress_error + buyer_pool_state" where
  "seed_lanes [] s = Inr s"
| "seed_lanes ((lane, bytes, amount) # rest) s =
     (case seed_lane lane bytes amount s of Inl e \<Rightarrow> Inl e | Inr s' \<Rightarrow> seed_lanes rest s')"

lemma seed_lanes_new_spend:
  assumes "distinct (map fst seeds)" and "\<forall>(lane, x) \<in> set seeds. map_of (bp_lanes s) lane = None"
    and "(\<Sum>(lane, bytes, amount)\<leftarrow>seeds. unat amount) \<le> unat (bp_redeemed_elsewhere s)"
  shows "\<exists>s'. seed_lanes seeds s = Inr s' \<and> pool_spend s' = pool_spend s"
  using assms
proof (induction seeds arbitrary: s)
  case (Cons x seeds)
  obtain lane bytes amount where x: "x = (lane, bytes, amount)" by (cases x)
  let ?s = "s\<lparr>bp_lanes := AList.update lane \<lparr>bl_last_amount = amount, bl_last_bytes = bytes\<rparr> (bp_lanes s),
              bp_redeemed_elsewhere := sat_sub (bp_redeemed_elsewhere s) amount\<rparr>"
  from Cons.prems x have new: "map_of (bp_lanes s) lane = None" by simp
  have seed: "seed_lane lane bytes amount s = Inr ?s" by (rule seed_lane_new [OF new])
  have "\<forall>(l, x) \<in> set seeds. map_of (bp_lanes ?s) l = None"
    using Cons.prems(1,2) x by (force simp: AList.update_conv')
  moreover have "(\<Sum>(lane, bytes, amount)\<leftarrow>seeds. unat amount) \<le> unat (bp_redeemed_elsewhere ?s)"
    using Cons.prems(3) x by (simp add: unat_sat_sub)
  ultimately obtain s' where s': "seed_lanes seeds ?s = Inr s'" "pool_spend s' = pool_spend ?s"
    using Cons.IH [of ?s] Cons.prems(1) by auto
  have "unat amount \<le> unat (bp_redeemed_elsewhere s)" using Cons.prems(3) x by simp
  then have "unat (pool_spend ?s) = unat (pool_spend s)"
    by (simp only: seed_lane_new_spend [OF new seed] max_absorb1 unat_pool_spend [of s])
  with s' seed x show ?case by (simp add: word_unat_eq_iff)
qed auto

text \<open>
  A row that adopts a live pool counts the pool's on-chain total once: seeding any
  lanes of it, each new to the row and together redeemed for at most that total, succeeds and
  leaves the spend equal to the total.
\<close>

theorem adopted_total_counted_once:
  assumes "distinct (map fst seeds)"
    and "(\<Sum>(lane, bytes, amount)\<leftarrow>seeds. unat amount) \<le> unat total_redeemed"
  shows "\<exists>s. seed_lanes seeds (buyer_adopt pid dep owner token deposit total_redeemed) = Inr s \<and>
             pool_spend s = total_redeemed"
proof -
  let ?a = "buyer_adopt pid dep owner token deposit total_redeemed"
  have "\<exists>s. seed_lanes seeds ?a = Inr s \<and> pool_spend s = pool_spend ?a"
    using assms by (intro seed_lanes_new_spend) (auto simp: buyer_adopt_def buyer_new_def)
  moreover have "pool_spend ?a = total_redeemed"
    using unat_below [of total_redeemed]
    by (simp add: word_unat_eq_iff unat_pool_spend lane_total_def buyer_adopt_def buyer_new_def min_absorb1)
  ultimately show ?thesis by simp
qed

theorem adopted_total_counted_once_witness:
  "\<exists>s. seed_lanes [(\<lparr>lk_pool_id = 7, lk_signer = 1, lk_provider = 2\<rparr>, 4096, 30),
                  (\<lparr>lk_pool_id = 7, lk_signer = 1, lk_provider = 3\<rparr>, 8192, 50)]
         (buyer_adopt 7 \<lparr>chain_id = 1, payment_pool = 9\<rparr> 1 5 1000 100) = Inr s \<and> pool_spend s = 100"
  by (rule adopted_total_counted_once) simp_all

text \<open>
  Reconciling a row with the chain makes its spend exactly the larger of what it was
  and the on-chain total, and neither the deposit nor the spend of others moves down.
\<close>

theorem reconcile_spend_covers_chain:
  "pool_spend (reconcile_with_chain deposit total_redeemed s) = max (pool_spend s) total_redeemed \<and>
   bp_deposit (reconcile_with_chain deposit total_redeemed s) = max (bp_deposit s) deposit \<and>
   bp_redeemed_elsewhere s \<le> bp_redeemed_elsewhere (reconcile_with_chain deposit total_redeemed s)"
proof (intro conjI)
  let ?s = "reconcile_with_chain deposit total_redeemed s"
  let ?M = "2 ^ 256 - 1 :: nat"
  have t: "unat total_redeemed \<le> ?M" using unat_below [of total_redeemed] by simp
  have max: "unat (max a b) = max (unat a) (unat b)" for a b :: u256
    by (simp add: max_def word_le_nat_alt)
  have l: "lane_total ?s = lane_total s" by (simp add: reconcile_with_chain_def Let_def lane_total_def)
  have e: "unat (bp_redeemed_elsewhere ?s) =
           max (unat (bp_redeemed_elsewhere s)) (unat total_redeemed - min (lane_total s) ?M)"
    by (simp add: reconcile_with_chain_def Let_def max unat_sat_sub unat_committed_amount)
  have "unat (pool_spend ?s) = max (unat (pool_spend s)) (unat total_redeemed)"
    unfolding unat_pool_spend l e using t by linarith
  then show "pool_spend ?s = max (pool_spend s) total_redeemed" by (simp add: word_unat_eq_iff max)
qed (simp_all add: reconcile_with_chain_def Let_def)

subsection \<open>One interface for every store\<close>

datatype buyer_op =
    LoadAll
  | Record buyer_pool_state
  | Forget address
  | ForgetIfPool address b256
  | GetByPoolId b256
  | GetByOwner address
  | AdvanceProgress address b256 lane_key u256 u256
  | RebaseProgress address b256 lane_key buyer_lane_progress buyer_lane_progress
  | SeedProgress address b256 lane_key u256 u256
  | AddDeposit address b256 u256
  | DelegateLanes deployment b256 address
  | AdvanceDelegate deployment lane_key buyer_lane_progress
  | RebaseDelegate deployment lane_key buyer_lane_progress buyer_lane_progress
  | LaneSalt "u8 list"

datatype buyer_reply =
    RLoad buyer_load
  | RUnit
  | RBool bool
  | RPool "buyer_pool_state option"
  | RAdvance advance_outcome
  | RDeposit deposit_outcome
  | RLanes "(address \<times> buyer_lane_progress) list"
  | RSalt "u8 list"

definition reply_as :: "('a \<Rightarrow> buyer_reply) \<Rightarrow> (store_error + 'a) \<times> 'st \<Rightarrow> (store_error + buyer_reply) \<times> 'st" where
  "reply_as mk x = (map_sum id mk (fst x), snd x)"

fun bm_step :: "buyer_mem \<Rightarrow> buyer_op \<Rightarrow> (store_error + buyer_reply) \<times> buyer_mem" where
  "bm_step m LoadAll = reply_as RLoad (bm_load_all m)"
| "bm_step m (Record s) = reply_as (\<lambda>_. RUnit) (bm_record s m)"
| "bm_step m (Forget owner) = reply_as (\<lambda>_. RUnit) (bm_forget owner m)"
| "bm_step m (ForgetIfPool owner pid) = reply_as RBool (bm_forget_if_pool owner pid m)"
| "bm_step m (GetByPoolId pid) = reply_as RPool (bm_get_by_pool_id pid m)"
| "bm_step m (GetByOwner owner) = reply_as RPool (bm_get_by_owner owner m)"
| "bm_step m (AdvanceProgress owner pid lane bytes amount) =
     reply_as RAdvance (bm_advance_progress owner pid lane bytes amount m)"
| "bm_step m (RebaseProgress owner pid lane anchor totals) =
     reply_as RAdvance (bm_rebase_progress owner pid lane anchor totals m)"
| "bm_step m (SeedProgress owner pid lane bytes amount) =
     reply_as RAdvance (bm_seed_progress owner pid lane bytes amount m)"
| "bm_step m (AddDeposit owner pid additional) =
     reply_as RDeposit (bm_add_deposit owner pid additional m)"
| "bm_step m (DelegateLanes dep pid sg) = reply_as RLanes (bm_delegate_lanes_of dep pid sg m)"
| "bm_step m (AdvanceDelegate dep lane totals) =
     reply_as RAdvance (bm_advance_delegate dep lane totals m)"
| "bm_step m (RebaseDelegate dep lane anchor totals) =
     reply_as RAdvance (bm_rebase_delegate dep lane anchor totals m)"
| "bm_step m (LaneSalt random) = reply_as RSalt (bm_lane_salt_of random m)"

text \<open>
  A row is well formed when its lanes have distinct keys and every key names the row's own pool;
  an operation is when the lane it writes belongs to the pool it names.
\<close>

definition row_ok :: "buyer_pool_state \<Rightarrow> bool" where
  "row_ok s \<longleftrightarrow> distinct (map fst (bp_lanes s)) \<and>
     (\<forall>k \<in> fst ` set (bp_lanes s). lk_pool_id k = bp_pool_id s)"

fun op_ok :: "buyer_op \<Rightarrow> bool" where
  "op_ok (Record s) = row_ok s"
| "op_ok (AdvanceProgress owner pid lane bytes amount) = (lk_pool_id lane = pid)"
| "op_ok (RebaseProgress owner pid lane anchor totals) = (lk_pool_id lane = pid)"
| "op_ok (SeedProgress owner pid lane bytes amount) = (lk_pool_id lane = pid)"
| "op_ok (LaneSalt random) = (length random = 32)"
| "op_ok op = True"

subsection \<open>The specification\<close>

record abs_row =
  ar_pool_id :: b256
  ar_deployment :: deployment
  ar_owner :: address
  ar_token :: address
  ar_deposit :: u256
  ar_lanes :: "lane_key \<rightharpoonup> buyer_lane_progress"
  ar_elsewhere :: u256

record abs_store =
  as_pools :: "b256 \<rightharpoonup> abs_row"
  as_owner :: "address \<rightharpoonup> b256"
  as_delegates :: "deployment \<times> lane_key \<rightharpoonup> buyer_lane_progress"
  as_salt :: "u8 list option"

datatype abs_reply =
    ALoad "b256 \<rightharpoonup> abs_row" "b256 list"
  | AUnit
  | ABool bool
  | APool "abs_row option"
  | AAdvance advance_outcome
  | ADeposit deposit_outcome
  | ALanes "address \<rightharpoonup> buyer_lane_progress"
  | ASalt "u8 list"

definition abs_row_of :: "buyer_pool_state \<Rightarrow> abs_row" where
  "abs_row_of s =
     \<lparr>ar_pool_id = bp_pool_id s, ar_deployment = bp_deployment s, ar_owner = bp_owner s,
      ar_token = bp_token s, ar_deposit = bp_deposit s, ar_lanes = map_of (bp_lanes s),
      ar_elsewhere = bp_redeemed_elsewhere s\<rparr>"

fun abs_reply_of :: "buyer_reply \<Rightarrow> abs_reply" where
  "abs_reply_of (RLoad ld) =
     ALoad (map_of (map (\<lambda>s. (bp_pool_id s, abs_row_of s)) (ld_pools ld))) (ld_skipped ld)"
| "abs_reply_of RUnit = AUnit"
| "abs_reply_of (RBool b) = ABool b"
| "abs_reply_of (RPool s) = APool (map_option abs_row_of s)"
| "abs_reply_of (RAdvance r) = AAdvance r"
| "abs_reply_of (RDeposit r) = ADeposit r"
| "abs_reply_of (RLanes xs) = ALanes (map_of xs)"
| "abs_reply_of (RSalt salt) = ASalt salt"

definition spec_advance ::
  "lane_key \<Rightarrow> u256 \<Rightarrow> u256 \<Rightarrow> abs_row \<Rightarrow> advance_outcome \<times> abs_row" where
  "spec_advance lane bytes amount r =
     (case advanced (ar_lanes r lane) \<lparr>bl_last_amount = amount, bl_last_bytes = bytes\<rparr> of
        Inl e \<Rightarrow> (AdvanceRegressed e, r)
      | Inr p \<Rightarrow> (Advanced, r\<lparr>ar_lanes := (ar_lanes r)(lane \<mapsto> p)\<rparr>))"

definition spec_seed ::
  "lane_key \<Rightarrow> u256 \<Rightarrow> u256 \<Rightarrow> abs_row \<Rightarrow> advance_outcome \<times> abs_row" where
  "spec_seed lane bytes amount r =
     (case ar_lanes r lane of
        Some _ \<Rightarrow> spec_advance lane bytes amount r
      | None \<Rightarrow> (Advanced, r\<lparr>ar_lanes := (ar_lanes r)(lane \<mapsto> \<lparr>bl_last_amount = amount, bl_last_bytes = bytes\<rparr>),
                               ar_elsewhere := sat_sub (ar_elsewhere r) amount\<rparr>))"

definition spec_rebase ::
  "lane_key \<Rightarrow> buyer_lane_progress \<Rightarrow> buyer_lane_progress \<Rightarrow> abs_row \<Rightarrow> advance_outcome \<times> abs_row" where
  "spec_rebase lane anchor totals r =
     (Advanced, r\<lparr>ar_lanes := (ar_lanes r)(lane \<mapsto> rebased anchor totals)\<rparr>)"

definition spec_deposit :: "u256 \<Rightarrow> abs_row \<Rightarrow> deposit_outcome \<times> abs_row" where
  "spec_deposit additional r =
     (let d = sat_add (ar_deposit r) additional in (Added d, r\<lparr>ar_deposit := d\<rparr>))"

definition spec_with_row ::
  "address \<Rightarrow> b256 \<Rightarrow> 'r \<Rightarrow> 'r \<Rightarrow> (abs_row \<Rightarrow> 'r \<times> abs_row) \<Rightarrow> abs_store \<Rightarrow> 'r \<times> abs_store" where
  "spec_with_row owner pid unknown mismatch f a =
     (if as_owner a owner = None then (unknown, a)
      else if as_owner a owner \<noteq> Some pid then (mismatch, a)
      else case as_pools a pid of
             None \<Rightarrow> (unknown, a)
           | Some r \<Rightarrow> (case f r of (x, r') \<Rightarrow> (x, a\<lparr>as_pools := (as_pools a)(pid \<mapsto> r')\<rparr>)))"

definition spec_drop :: "address \<Rightarrow> b256 \<Rightarrow> abs_store \<Rightarrow> abs_store" where
  "spec_drop owner pid a =
     a\<lparr>as_owner := (as_owner a)(owner := None), as_pools := (as_pools a)(pid := None)\<rparr>"

fun spec_step :: "abs_store \<Rightarrow> buyer_op \<Rightarrow> abs_reply \<times> abs_store" where
  "spec_step a LoadAll = (ALoad (as_pools a) [], a)"
| "spec_step a (Record s) =
     (AUnit, a\<lparr>as_owner := (as_owner a)(bp_owner s \<mapsto> bp_pool_id s),
               as_pools := (as_pools a)(bp_pool_id s \<mapsto> abs_row_of s)\<rparr>)"
| "spec_step a (Forget owner) =
     (AUnit, case as_owner a owner of None \<Rightarrow> a | Some pid \<Rightarrow> spec_drop owner pid a)"
| "spec_step a (ForgetIfPool owner pid) =
     (if as_owner a owner = Some pid then (ABool True, spec_drop owner pid a) else (ABool False, a))"
| "spec_step a (GetByPoolId pid) = (APool (as_pools a pid), a)"
| "spec_step a (GetByOwner owner) = (APool (Option.bind (as_owner a owner) (as_pools a)), a)"
| "spec_step a (AdvanceProgress owner pid lane bytes amount) =
     map_prod AAdvance id (spec_with_row owner pid UnknownPool PoolMismatch (spec_advance lane bytes amount) a)"
| "spec_step a (RebaseProgress owner pid lane anchor totals) =
     map_prod AAdvance id (spec_with_row owner pid UnknownPool PoolMismatch (spec_rebase lane anchor totals) a)"
| "spec_step a (SeedProgress owner pid lane bytes amount) =
     map_prod AAdvance id (spec_with_row owner pid UnknownPool PoolMismatch (spec_seed lane bytes amount) a)"
| "spec_step a (AddDeposit owner pid additional) =
     map_prod ADeposit id
       (spec_with_row owner pid DepositUnknownPool DepositPoolMismatch (spec_deposit additional) a)"
| "spec_step a (DelegateLanes dep pid sg) =
     (ALanes (\<lambda>prov. as_delegates a (dep, \<lparr>lk_pool_id = pid, lk_signer = sg, lk_provider = prov\<rparr>)), a)"
| "spec_step a (AdvanceDelegate dep lane totals) =
     (case advanced (as_delegates a (dep, lane)) totals of
        Inl e \<Rightarrow> (AAdvance (AdvanceRegressed e), a)
      | Inr p \<Rightarrow> (AAdvance Advanced, a\<lparr>as_delegates := (as_delegates a)((dep, lane) \<mapsto> p)\<rparr>))"
| "spec_step a (RebaseDelegate dep lane anchor totals) =
     (AAdvance Advanced, a\<lparr>as_delegates := (as_delegates a)((dep, lane) \<mapsto> rebased anchor totals)\<rparr>)"
| "spec_step a (LaneSalt random) =
     (case as_salt a of
        Some salt \<Rightarrow> (ASalt salt, a)
      | None \<Rightarrow> (ASalt random, a\<lparr>as_salt := Some random\<rparr>))"

fun spec_run :: "abs_store \<Rightarrow> buyer_op list \<Rightarrow> abs_reply list \<times> abs_store" where
  "spec_run a [] = ([], a)"
| "spec_run a (op # ops) =
     (case spec_step a op of (r, a') \<Rightarrow> (case spec_run a' ops of (rs, a'') \<Rightarrow> (r # rs, a'')))"

fun store_run ::
  "('st \<Rightarrow> buyer_op \<Rightarrow> (store_error + buyer_reply) \<times> 'st) \<Rightarrow> 'st \<Rightarrow> buyer_op list
     \<Rightarrow> (store_error + buyer_reply) list \<times> 'st" where
  "store_run step st [] = ([], st)"
| "store_run step st (op # ops) =
     (case step st op of (r, st') \<Rightarrow> (case store_run step st' ops of (rs, st'') \<Rightarrow> (r # rs, st'')))"

subsection \<open>What the specification guarantees\<close>

definition lane_at :: "abs_store \<Rightarrow> b256 \<Rightarrow> lane_key \<Rightarrow> buyer_lane_progress option" where
  "lane_at a pid lane = Option.bind (as_pools a pid) (\<lambda>r. ar_lanes r lane)"

definition at_least :: "buyer_lane_progress \<Rightarrow> buyer_lane_progress option \<Rightarrow> bool" where
  "at_least p q \<longleftrightarrow>
     (\<exists>p'. q = Some p' \<and> bl_last_amount p \<le> bl_last_amount p' \<and> bl_last_bytes p \<le> bl_last_bytes p')"

text \<open>The operations that may lower or drop the progress of one lane.\<close>

fun overwrites :: "b256 \<Rightarrow> lane_key \<Rightarrow> buyer_op \<Rightarrow> bool" where
  "overwrites pid lane (Record s) = (bp_pool_id s = pid)"
| "overwrites pid lane (RebaseProgress owner q l anchor totals) = (q = pid \<and> l = lane)"
| "overwrites pid lane (Forget owner) = True"
| "overwrites pid lane (ForgetIfPool owner q) = (q = pid)"
| "overwrites pid lane op = False"

lemma at_least_refl [simp]: "at_least p (Some p)"
  by (simp add: at_least_def)

lemma at_least_trans: "at_least p (Some q) \<Longrightarrow> at_least q r \<Longrightarrow> at_least p r"
  by (auto simp: at_least_def intro: order_trans)

lemma spec_with_row_cases:
  assumes "spec_with_row owner pid unknown mismatch f a = (x, a')"
  obtains "a' = a" | r x' r' where "as_pools a pid = Some r" and "f r = (x', r')"
    and "a' = a\<lparr>as_pools := (as_pools a)(pid \<mapsto> r')\<rparr>"
proof (cases "as_owner a owner = Some pid \<and> as_pools a pid \<noteq> None")
  case True
  then obtain r where r: "as_pools a pid = Some r" by auto
  with True assms that(2) [OF r] show ?thesis by (cases "f r") (simp add: spec_with_row_def)
next
  case False
  with assms have "a' = a" by (auto simp: spec_with_row_def split: if_splits option.splits)
  then show ?thesis by (rule that(1))
qed

lemma with_row_lane_at:
  assumes "spec_with_row owner q unknown mismatch f a = (x, a')" and "lane_at a pid lane = Some p"
    and "\<And>r x' r'. f r = (x', r') \<Longrightarrow> q = pid \<Longrightarrow> ar_lanes r lane = Some p \<Longrightarrow> at_least p (ar_lanes r' lane)"
  shows "at_least p (lane_at a' pid lane)"
  using assms(1)
proof (cases rule: spec_with_row_cases)
  case 1
  with assms(2) show ?thesis by simp
next
  case (2 r x' r')
  with assms(2) assms(3) [OF 2(2)] show ?thesis by (cases "q = pid") (auto simp: lane_at_def)
qed

lemma spec_advance_at_least:
  assumes "spec_advance l bytes amount r = (x, r')" and "ar_lanes r lane = Some p"
  shows "at_least p (ar_lanes r' lane)"
  using assms
  by (auto simp: spec_advance_def advanced_def at_least_def not_less split: if_splits option.splits)

lemma spec_seed_at_least:
  assumes "spec_seed l bytes amount r = (x, r')" and "ar_lanes r lane = Some p"
  shows "at_least p (ar_lanes r' lane)"
  using assms spec_advance_at_least [OF _ assms(2)]
  by (auto simp: spec_seed_def at_least_def split: option.splits)

lemma spec_step_lane_at:
  assumes "spec_step a op = (x, a')" and "lane_at a pid lane = Some p" and "\<not> overwrites pid lane op"
  shows "at_least p (lane_at a' pid lane)"
proof (cases op)
  case (AdvanceProgress owner q l bytes amount)
  then show ?thesis using assms spec_advance_at_least
    by (auto elim!: with_row_lane_at simp: map_prod_def split: prod.splits)
next
  case (RebaseProgress owner q l anchor totals)
  then show ?thesis using assms
    by (auto elim!: with_row_lane_at simp: map_prod_def spec_rebase_def split: prod.splits)
next
  case (SeedProgress owner q l bytes amount)
  then show ?thesis using assms spec_seed_at_least
    by (auto elim!: with_row_lane_at simp: map_prod_def split: prod.splits)
next
  case (AddDeposit owner q additional)
  then show ?thesis using assms
    by (auto elim!: with_row_lane_at simp: map_prod_def spec_deposit_def Let_def split: prod.splits)
qed (use assms in \<open>auto simp: lane_at_def spec_drop_def split: if_splits option.splits sum.splits\<close>)

lemma spec_run_lane_at:
  assumes "spec_run a ops = (xs, a')" and "lane_at a pid lane = Some p"
    and "list_all (\<lambda>op. \<not> overwrites pid lane op) ops"
  shows "at_least p (lane_at a' pid lane)"
  using assms
proof (induction ops arbitrary: a xs p)
  case (Cons op ops)
  obtain x a1 where step: "spec_step a op = (x, a1)" by (cases "spec_step a op")
  with Cons.prems have "at_least p (lane_at a1 pid lane)" by (auto intro: spec_step_lane_at)
  then obtain p1 where p1: "lane_at a1 pid lane = Some p1" "at_least p (Some p1)"
    by (auto simp: at_least_def)
  moreover have "at_least p1 (lane_at a' pid lane)"
    using Cons.IH [OF _ p1(1)] Cons.prems step by (auto split: prod.splits)
  ultimately show ?case by (auto intro: at_least_trans)
qed simp

text \<open>
  A row no owner maps to is displaced. Only recording the same pool again brings it back in
  reach: every other operation leaves the row as it is and displaced.
\<close>

definition displaced_row :: "abs_store \<Rightarrow> b256 \<Rightarrow> bool" where
  "displaced_row a pid \<longleftrightarrow> (\<forall>owner. as_owner a owner \<noteq> Some pid)"

fun records :: "b256 \<Rightarrow> buyer_op \<Rightarrow> bool" where
  "records pid (Record s) = (bp_pool_id s = pid)"
| "records pid op = False"

lemma with_row_displaced:
  assumes "spec_with_row owner q unknown mismatch f a = (x, a')" and "displaced_row a pid"
  shows "displaced_row a' pid \<and> as_pools a' pid = as_pools a pid"
  using assms by (auto simp: spec_with_row_def displaced_row_def split: if_splits option.splits prod.splits)

lemma spec_step_displaced:
  assumes "spec_step a op = (x, a')" and "displaced_row a pid" and "\<not> records pid op"
  shows "displaced_row a' pid \<and> as_pools a' pid = as_pools a pid"
  using assms
  by (cases op)
     (auto simp: map_prod_def with_row_displaced displaced_row_def spec_drop_def
       split: if_splits option.splits sum.splits prod.splits
       dest!: with_row_displaced [unfolded displaced_row_def])

lemma spec_run_displaced:
  assumes "spec_run a ops = (xs, a')" and "displaced_row a pid" and "list_all (\<lambda>op. \<not> records pid op) ops"
  shows "displaced_row a' pid \<and> as_pools a' pid = as_pools a pid"
  using assms
proof (induction ops arbitrary: a xs)
  case (Cons op ops)
  obtain x a1 where step: "spec_step a op = (x, a1)" by (cases "spec_step a op")
  have "displaced_row a1 pid \<and> as_pools a1 pid = as_pools a pid"
    using spec_step_displaced [OF step] Cons.prems by simp
  with Cons.IH [of a1] Cons.prems step show ?case by (auto split: prod.splits)
qed simp

locale buyer_store =
  fixes step :: "'st \<Rightarrow> buyer_op \<Rightarrow> (store_error + buyer_reply) \<times> 'st"
    and inv :: "'st \<Rightarrow> bool"
    and abs :: "'st \<Rightarrow> abs_store"
  assumes step_refines: "inv st \<Longrightarrow> op_ok op \<Longrightarrow>
      \<exists>y. fst (step st op) = Inr y \<and> inv (snd (step st op)) \<and>
          spec_step (abs st) op = (abs_reply_of y, abs (snd (step st op)))"
begin

lemma run_refines:
  assumes "inv st" and "list_all op_ok ops"
  shows "\<exists>ys. fst (store_run step st ops) = map Inr ys \<and> inv (snd (store_run step st ops)) \<and>
              spec_run (abs st) ops = (map abs_reply_of ys, abs (snd (store_run step st ops)))"
  using assms
proof (induction ops arbitrary: st)
  case (Cons op ops)
  obtain y st1 where y: "step st op = (Inr y, st1)" "inv st1"
    "spec_step (abs st) op = (abs_reply_of y, abs st1)"
    using step_refines [OF Cons.prems(1), of op] Cons.prems(2) by (cases "step st op") auto
  obtain ys where "fst (store_run step st1 ops) = map Inr ys" "inv (snd (store_run step st1 ops))"
    "spec_run (abs st1) ops = (map abs_reply_of ys, abs (snd (store_run step st1 ops)))"
    using Cons.IH [OF y(2)] Cons.prems(2) by auto
  with y show ?case by (intro exI [of _ "y # ys"]) (auto split: prod.splits)
qed auto

lemma run_watermark:
  assumes "inv st" and "list_all op_ok ops" and "lane_at (abs st) pid lane = Some p"
    and "list_all (\<lambda>op. \<not> overwrites pid lane op) ops"
  shows "at_least p (lane_at (abs (snd (store_run step st ops))) pid lane)"
  using run_refines [OF assms(1,2)] spec_run_lane_at [OF _ assms(3,4)] by auto

lemma run_displaced:
  assumes "inv st" and "list_all op_ok ops" and "displaced_row (abs st) pid"
    and "list_all (\<lambda>op. \<not> records pid op) ops"
  shows "displaced_row (abs (snd (store_run step st ops))) pid \<and>
         as_pools (abs (snd (store_run step st ops))) pid = as_pools (abs st) pid"
  using run_refines [OF assms(1,2)] spec_run_displaced [OF _ assms(3,4)] by auto

end

subsection \<open>The in-memory store meets the specification\<close>

text \<open>
  A change of one row implements a change of its specification when it gives the same reply,
  the same row up to the order of its lanes, and keeps the row well formed under its pool.
\<close>

definition row_refines ::
  "b256 \<Rightarrow> (buyer_pool_state \<Rightarrow> 'r \<times> buyer_pool_state) \<Rightarrow> (abs_row \<Rightarrow> 'r \<times> abs_row) \<Rightarrow> bool" where
  "row_refines pid f g \<longleftrightarrow>
     (\<forall>s. row_ok s \<longrightarrow> bp_pool_id s = pid \<longrightarrow>
        g (abs_row_of s) = (fst (f s), abs_row_of (snd (f s))) \<and>
        row_ok (snd (f s)) \<and> bp_pool_id (snd (f s)) = pid)"

definition advance_row :: "lane_key \<Rightarrow> u256 \<Rightarrow> u256 \<Rightarrow> buyer_pool_state \<Rightarrow> advance_outcome \<times> buyer_pool_state" where
  "advance_row lane bytes amount state =
     (case advance_lane lane bytes amount state of
        Inr state' \<Rightarrow> (Advanced, state') | Inl err \<Rightarrow> (AdvanceRegressed err, state))"

definition seed_row :: "lane_key \<Rightarrow> u256 \<Rightarrow> u256 \<Rightarrow> buyer_pool_state \<Rightarrow> advance_outcome \<times> buyer_pool_state" where
  "seed_row lane bytes amount state =
     (case seed_lane lane bytes amount state of
        Inr state' \<Rightarrow> (Advanced, state') | Inl err \<Rightarrow> (AdvanceRegressed err, state))"

definition rebase_row ::
  "lane_key \<Rightarrow> buyer_lane_progress \<Rightarrow> buyer_lane_progress \<Rightarrow> buyer_pool_state \<Rightarrow> advance_outcome \<times> buyer_pool_state" where
  "rebase_row lane anchor totals state = (Advanced, rebase_lane lane anchor totals state)"

definition deposit_row :: "u256 \<Rightarrow> buyer_pool_state \<Rightarrow> deposit_outcome \<times> buyer_pool_state" where
  "deposit_row additional state =
     (let d = sat_add (bp_deposit state) additional in (Added d, state\<lparr>bp_deposit := d\<rparr>))"

lemma row_ok_update:
  assumes "row_ok s" and "lk_pool_id lane = bp_pool_id s"
  shows "row_ok (s\<lparr>bp_lanes := AList.update lane p (bp_lanes s)\<rparr>)"
  using assms by (auto simp: row_ok_def AList.dom_update intro!: AList.distinct_update)

lemma row_ok_fields [simp]:
  "row_ok (s\<lparr>bp_redeemed_elsewhere := e\<rparr>) = row_ok s" "row_ok (s\<lparr>bp_deposit := d\<rparr>) = row_ok s"
  by (simp_all add: row_ok_def)

lemma advance_row_refines: "lk_pool_id lane = pid \<Longrightarrow>
    row_refines pid (advance_row lane bytes amount) (spec_advance lane bytes amount)"
  by (auto simp: row_refines_def advance_row_def advance_lane_def spec_advance_def abs_row_of_def
      AList.update_conv' row_ok_update split: sum.splits)

lemma seed_row_refines: "lk_pool_id lane = pid \<Longrightarrow>
    row_refines pid (seed_row lane bytes amount) (spec_seed lane bytes amount)"
  unfolding row_refines_def
proof (intro allI impI)
  fix s
  assume lane: "lk_pool_id lane = pid" and ok: "row_ok s" and pid: "bp_pool_id s = pid"
  show "spec_seed lane bytes amount (abs_row_of s) =
          (fst (seed_row lane bytes amount s), abs_row_of (snd (seed_row lane bytes amount s))) \<and>
        row_ok (snd (seed_row lane bytes amount s)) \<and> bp_pool_id (snd (seed_row lane bytes amount s)) = pid"
  proof (cases "map_of (bp_lanes s) lane")
    case None
    with lane ok pid row_ok_update [OF ok] show ?thesis
      by (auto simp: seed_row_def seed_lane_new spec_seed_def abs_row_of_def AList.update_conv')
  next
    case (Some p)
    then have "seed_row lane bytes amount s = advance_row lane bytes amount s"
      and "spec_seed lane bytes amount (abs_row_of s) = spec_advance lane bytes amount (abs_row_of s)"
      by (simp_all add: seed_row_def advance_row_def seed_lane_def spec_seed_def abs_row_of_def split: sum.splits)
    with advance_row_refines [OF lane] ok pid show ?thesis by (simp add: row_refines_def)
  qed
qed

lemma rebase_row_refines: "lk_pool_id lane = pid \<Longrightarrow>
    row_refines pid (rebase_row lane anchor totals) (spec_rebase lane anchor totals)"
  by (auto simp: row_refines_def rebase_row_def rebase_lane_def spec_rebase_def abs_row_of_def
      AList.update_conv' row_ok_update)

lemma deposit_row_refines: "row_refines pid (deposit_row additional) (spec_deposit additional)"
  by (auto simp: row_refines_def deposit_row_def spec_deposit_def abs_row_of_def Let_def)

lemmas row_refinements =
  advance_row_refines seed_row_refines rebase_row_refines deposit_row_refines

definition bm_abs :: "buyer_mem \<Rightarrow> abs_store" where
  "bm_abs m =
     \<lparr>as_pools = (\<lambda>pid. map_option abs_row_of (map_of (bm_pools m) pid)),
      as_owner = map_of (bm_owner_index m), as_delegates = map_of (bm_delegate_lanes m),
      as_salt = bm_lane_salt m\<rparr>"

definition bm_inv :: "buyer_mem \<Rightarrow> bool" where
  "bm_inv m \<longleftrightarrow> \<not> bm_poisoned m \<and> distinct (map fst (bm_pools m)) \<and>
     distinct (map fst (bm_delegate_lanes m)) \<and>
     (\<forall>pid s. map_of (bm_pools m) pid = Some s \<longrightarrow> bp_pool_id s = pid \<and> row_ok s)"

lemma bm_with_row_refines:
  assumes "row_refines pid f g" and "bm_inv m" and "bm_with_row owner pid unknown mismatch f m = (x, m')"
  shows "bm_inv m' \<and> spec_with_row owner pid unknown mismatch g (bm_abs m) = (x, bm_abs m')"
proof (cases "map_of (bm_owner_index m) owner = Some pid \<and> map_of (bm_pools m) pid \<noteq> None")
  case True
  then obtain s where s: "map_of (bm_pools m) pid = Some s" by auto
  obtain r s' where f: "f s = (r, s')" by (cases "f s")
  have m': "x = r" "m' = m\<lparr>bm_pools := AList.update pid s' (bm_pools m)\<rparr>"
    using assms(3) True s f by (simp_all add: bm_with_row_def)
  have ok: "g (abs_row_of s) = (r, abs_row_of s')" "row_ok s'" "bp_pool_id s' = pid"
    using assms(1,2) s f unfolding row_refines_def bm_inv_def by force+
  have "bm_inv m'" using assms(2) ok m'
    by (auto simp: bm_inv_def AList.update_conv' AList.distinct_update split: if_splits)
  moreover have "bm_abs m' = bm_abs m\<lparr>as_pools := (as_pools (bm_abs m))(pid \<mapsto> abs_row_of s')\<rparr>"
    by (auto simp: m' bm_abs_def AList.update_conv' fun_eq_iff)
  ultimately show ?thesis using True s ok m' by (simp add: spec_with_row_def bm_abs_def)
next
  case False
  with assms show ?thesis
    by (auto simp: bm_with_row_def spec_with_row_def bm_abs_def split: if_splits option.splits)
qed

lemma map_of_sort_key:
  "distinct (map fst xs) \<Longrightarrow> map_of (sort_key f xs) = map_of xs"
  by (simp add: map_of_inject_set distinct_map distinct_sort)

lemma lane_key_eq:
  "k = l \<longleftrightarrow> lk_pool_id k = lk_pool_id l \<and> lk_signer k = lk_signer l \<and> lk_provider k = lk_provider l"
  for k l :: lane_key
  by (cases k; cases l) auto

lemma map_of_delegates:
  "map_of (map (\<lambda>((_, lane), progress). (lk_provider lane, progress))
     (filter (\<lambda>((on, lane), _). on = dep \<and> lk_pool_id lane = pid \<and> lk_signer lane = sg) xs)) prov =
   map_of xs (dep, \<lparr>lk_pool_id = pid, lk_signer = sg, lk_provider = prov\<rparr>)"
  by (induction xs) (auto simp: lane_key_eq)

lemma distinct_delegates:
  fixes xs :: "((deployment \<times> lane_key) \<times> buyer_lane_progress) list"
  assumes "distinct (map fst xs)"
  shows "distinct (map fst (map (\<lambda>((_, lane), progress). (lk_provider lane, progress))
     (filter (\<lambda>((on, lane), _). on = dep \<and> lk_pool_id lane = pid \<and> lk_signer lane = sg) xs)))"
  using assms
proof (induction xs)
  case (Cons x xs)
  obtain on lane p where x: "x = ((on, lane), p)" by (metis prod.exhaust)
  have "x' = (on, lane)" if "x' \<in> fst ` set xs" "fst x' = dep" "lk_pool_id (snd x') = pid"
    "lk_signer (snd x') = sg" "lk_provider (snd x') = lk_provider lane"
    "on = dep" "lk_pool_id lane = pid" "lk_signer lane = sg" for x'
    using that by (cases x') (auto simp: lane_key_eq)
  with Cons x show ?case by (force simp: image_iff)
qed simp

lemma reply_as_lock:
  "\<not> bm_poisoned m \<Longrightarrow> reply_as mk (bm_lock m body) = (Inr (mk (fst (body m))), snd (body m))"
  by (simp add: reply_as_def bm_lock_def split: prod.splits)

lemma bm_step_with_row:
  assumes "row_refines pid f g" and "bm_inv m"
    and "bm_step m op = reply_as mk (bm_lock m (bm_with_row owner pid unknown mismatch f))"
    and "\<And>a. spec_step a op = map_prod mk' id (spec_with_row owner pid unknown mismatch g a)"
    and "\<And>x. abs_reply_of (mk x) = mk' x"
  shows "\<exists>y. fst (bm_step m op) = Inr y \<and> bm_inv (snd (bm_step m op)) \<and>
             spec_step (bm_abs m) op = (abs_reply_of y, bm_abs (snd (bm_step m op)))"
proof -
  obtain x m' where x: "bm_with_row owner pid unknown mismatch f m = (x, m')"
    by (cases "bm_with_row owner pid unknown mismatch f m")
  from assms(2) have "\<not> bm_poisoned m" by (simp add: bm_inv_def)
  with bm_with_row_refines [OF assms(1,2) x] x assms(3-5) show ?thesis
    by (simp add: reply_as_lock)
qed

lemma bm_inv_pools:
  assumes "bm_inv m" and "distinct (map fst ps)"
    and "\<And>pid s. map_of ps pid = Some s \<Longrightarrow> map_of (bm_pools m) pid \<noteq> Some s \<Longrightarrow> bp_pool_id s = pid \<and> row_ok s"
  shows "bm_inv (m\<lparr>bm_owner_index := idx, bm_pools := ps\<rparr>)"
proof -
  have "bp_pool_id s = pid \<and> row_ok s" if "map_of ps pid = Some s" for pid s
    using assms(1) assms(3) [OF that] by (cases "map_of (bm_pools m) pid = Some s") (simp_all add: bm_inv_def)
  with assms(1,2) show ?thesis by (simp add: bm_inv_def)
qed

lemma bm_drop:
  assumes "bm_inv m"
  shows "bm_inv (m\<lparr>bm_owner_index := AList.delete owner (bm_owner_index m),
                   bm_pools := AList.delete pid (bm_pools m)\<rparr>) \<and>
         bm_abs (m\<lparr>bm_owner_index := AList.delete owner (bm_owner_index m),
                   bm_pools := AList.delete pid (bm_pools m)\<rparr>) = spec_drop owner pid (bm_abs m)"
  using assms
  by (auto simp: bm_abs_def spec_drop_def AList.delete_conv' fun_eq_iff bm_inv_def
      intro!: AList.distinct_delete split: if_splits)

lemma bm_load_map:
  assumes "bm_inv m"
  shows "map_of (map (\<lambda>s. (bp_pool_id s, abs_row_of s)) (map snd (bm_pools m))) = as_pools (bm_abs m)"
proof -
  have "map (\<lambda>s. (bp_pool_id s, abs_row_of s)) (map snd (bm_pools m)) =
        map (\<lambda>(pid, s). (pid, abs_row_of s)) (bm_pools m)"
    using assms by (auto simp: bm_inv_def)
  then show ?thesis by (simp only: bm_abs_def map_of_map abs_store.simps comp_def)
qed

lemma bm_step_refines:
  assumes inv: "bm_inv m" and ok: "op_ok op"
  shows "\<exists>y. fst (bm_step m op) = Inr y \<and> bm_inv (snd (bm_step m op)) \<and>
             spec_step (bm_abs m) op = (abs_reply_of y, bm_abs (snd (bm_step m op)))"
proof -
  from inv have np: "\<not> bm_poisoned m" by (simp add: bm_inv_def)
  note lock = reply_as_lock [OF np]
  show ?thesis
  proof (cases op)
    case LoadAll
    then show ?thesis using inv bm_load_map [OF inv] by (simp add: bm_load_all_def lock)
  next
    case (Record s)
    with ok inv show ?thesis
      by (auto simp: bm_record_def lock bm_abs_def AList.update_conv' fun_eq_iff
          intro!: bm_inv_pools AList.distinct_update split: if_splits simp: bm_inv_def)
  next
    case (Forget owner)
    with inv bm_drop [OF inv] show ?thesis
      by (auto simp: bm_forget_def lock bm_abs_def split: option.splits)
  next
    case (ForgetIfPool owner pid)
    with inv bm_drop [OF inv] show ?thesis
      by (auto simp: bm_forget_if_pool_def lock bm_abs_def)
  next
    case (GetByPoolId pid)
    with inv show ?thesis by (simp add: bm_get_by_pool_id_def lock bm_abs_def)
  next
    case (GetByOwner owner)
    with inv show ?thesis
      by (auto simp: bm_get_by_owner_def lock bm_abs_def split: Option.bind_splits)
  next
    case (AdvanceProgress owner pid lane bytes amount)
    with ok show ?thesis
      by (intro bm_step_with_row [OF advance_row_refines inv])
         (auto simp: bm_advance_progress_def advance_row_def [abs_def])
  next
    case (RebaseProgress owner pid lane anchor totals)
    with ok show ?thesis
      by (intro bm_step_with_row [OF rebase_row_refines inv])
         (auto simp: bm_rebase_progress_def rebase_row_def [abs_def])
  next
    case (SeedProgress owner pid lane bytes amount)
    with ok show ?thesis
      by (intro bm_step_with_row [OF seed_row_refines inv])
         (auto simp: bm_seed_progress_def seed_row_def [abs_def])
  next
    case (AddDeposit owner pid additional)
    then show ?thesis
      by (intro bm_step_with_row [OF deposit_row_refines inv])
         (auto simp: bm_add_deposit_def deposit_row_def [abs_def])
  next
    case (DelegateLanes dep pid sg)
    with inv show ?thesis
      by (auto simp: bm_delegate_lanes_of_def lock bm_abs_def map_of_sort_key [OF distinct_delegates]
          map_of_delegates bm_inv_def)
  next
    case (AdvanceDelegate dep lane totals)
    with inv show ?thesis
      by (auto simp: bm_advance_delegate_def lock bm_abs_def AList.update_conv' bm_inv_def
          AList.distinct_update split: sum.splits)
  next
    case (RebaseDelegate dep lane anchor totals)
    with inv show ?thesis
      by (auto simp: bm_rebase_delegate_def lock bm_abs_def AList.update_conv' bm_inv_def
          AList.distinct_update)
  next
    case (LaneSalt random)
    with inv show ?thesis
      by (auto simp: bm_lane_salt_of_def lock bm_abs_def bm_inv_def split: option.splits)
  qed
qed

interpretation mem: buyer_store bm_step bm_inv bm_abs
  by unfold_locales (rule bm_step_refines)

end
