(* ===== verification/Buyer_Pool_Table.thy ===== *)
theory Buyer_Pool_Table
  imports Buyer_Pool
begin

text \<open>
  The buyer-pool table on disk (\<open>src/crates/incentive/src/buyer_pool_table.rs\<close>, behind
  \<open>buyer_pool_redb.rs\<close> and the node's \<open>pool_store.rs\<close>): its record layout, its keys and every
  transaction on it, with the deployment's byte form (\<open>deployment.rs\<close>).

  A database is its four tables, each absent until a first commit creates it; a table is the
  list of its rows by key. A write transaction computes the new database and returns it only
  after the commit: an early return or an error leaves the database as it was. Every call of
  the third-party database may fail; the argument \<open>f\<close> says, for the label the code puts in the
  error, whether that call fails and with which text. The third-party codec and the printing
  of ids are the record \<open>buyer_codec\<close>, with \<open>buyer_codec_ok\<close> what the code relies on.
\<close>

subsection \<open>Keys\<close>

definition deployment_to_bytes :: "deployment \<Rightarrow> u8 list" where
  "deployment_to_bytes d = to_be_bytes 8 (chain_id d) @ to_be_bytes 20 (payment_pool d)"

definition deployment_from_bytes :: "u8 list \<Rightarrow> store_error + deployment" where
  "deployment_from_bytes bytes =
     (if length bytes \<noteq> 28
      then Inl (Corrupt None (''deployment is '' @ show_nat (length bytes) @ '' bytes, expected '' @ show_nat 28))
      else Inr \<lparr>chain_id = from_be_bytes (take 8 bytes), payment_pool = from_be_bytes (drop 8 bytes)\<rparr>)"

definition delegate_signer_prefix :: "deployment \<Rightarrow> b256 \<Rightarrow> address \<Rightarrow> u8 list" where
  "delegate_signer_prefix dep pid sg = deployment_to_bytes dep @ to_be_bytes 32 pid @ to_be_bytes 20 sg"

definition delegate_lane_key :: "u8 list \<Rightarrow> u8 list \<Rightarrow> u8 list" where
  "delegate_lane_key prefix tail = prefix @ tail"

definition delegate_key :: "deployment \<Rightarrow> lane_key \<Rightarrow> u8 list" where
  "delegate_key dep lane =
     delegate_lane_key (delegate_signer_prefix dep (lk_pool_id lane) (lk_signer lane))
       (to_be_bytes 20 (lk_provider lane))"

subsection \<open>Records\<close>

definition BUYER_SUPPORTED_SCHEMA_VERSION :: u32 where
  "BUYER_SUPPORTED_SCHEMA_VERSION = 1"

definition DELEGATE_LANE_SCHEMA_VERSION :: u32 where
  "DELEGATE_LANE_SCHEMA_VERSION = 1"

record stored_delegate_lane =
  sd_schema_version :: u32
  sd_last_amount :: "u8 list"
  sd_last_bytes :: "u8 list"

record stored_buyer_lane =
  sb_signer :: "u8 list"
  sb_provider :: "u8 list"
  sb_last_amount :: "u8 list"
  sb_last_bytes :: "u8 list"

record stored_buyer_pool =
  sp_schema_version :: u32
  sp_pool_id :: "u8 list"
  sp_chain_id :: "u8 list"
  sp_payment_pool :: "u8 list"
  sp_owner :: "u8 list"
  sp_token :: "u8 list"
  sp_deposit :: "u8 list"
  sp_lanes :: "stored_buyer_lane list"
  sp_redeemed_elsewhere :: "u8 list"

record buyer_codec =
  pc_encode :: "stored_buyer_pool \<Rightarrow> string + u8 list"
  pc_take :: "u8 list \<Rightarrow> string + stored_buyer_pool \<times> u8 list"
  pc_encode_lane :: "stored_delegate_lane \<Rightarrow> string + u8 list"
  pc_take_lane :: "u8 list \<Rightarrow> string + stored_delegate_lane \<times> u8 list"
  show_pool_id :: "b256 \<Rightarrow> string"
  show_address :: "address \<Rightarrow> string"

definition stored_lane_from :: "lane_key \<times> buyer_lane_progress \<Rightarrow> stored_buyer_lane" where
  "stored_lane_from kp =
     \<lparr>sb_signer = to_be_bytes 20 (lk_signer (fst kp)), sb_provider = to_be_bytes 20 (lk_provider (fst kp)),
      sb_last_amount = to_be_bytes 32 (bl_last_amount (snd kp)),
      sb_last_bytes = to_be_bytes 32 (bl_last_bytes (snd kp))\<rparr>"

definition stored_buyer_from :: "buyer_pool_state \<Rightarrow> stored_buyer_pool" where
  "stored_buyer_from s =
     \<lparr>sp_schema_version = BUYER_SUPPORTED_SCHEMA_VERSION,
      sp_pool_id = to_be_bytes 32 (bp_pool_id s),
      sp_chain_id = to_be_bytes 8 (chain_id (bp_deployment s)),
      sp_payment_pool = to_be_bytes 20 (payment_pool (bp_deployment s)),
      sp_owner = to_be_bytes 20 (bp_owner s),
      sp_token = to_be_bytes 20 (bp_token s),
      sp_deposit = to_be_bytes 32 (bp_deposit s),
      sp_lanes = sort_key (\<lambda>l. sb_signer l @ sb_provider l) (map stored_lane_from (bp_lanes s)),
      sp_redeemed_elsewhere = to_be_bytes 32 (bp_redeemed_elsewhere s)\<rparr>"

definition lane_from_stored :: "b256 \<Rightarrow> stored_buyer_lane \<Rightarrow> lane_key \<times> buyer_lane_progress" where
  "lane_from_stored pid l =
     (\<lparr>lk_pool_id = pid, lk_signer = from_be_bytes (sb_signer l), lk_provider = from_be_bytes (sb_provider l)\<rparr>,
      \<lparr>bl_last_amount = from_be_bytes (sb_last_amount l), bl_last_bytes = from_be_bytes (sb_last_bytes l)\<rparr>)"

definition into_state :: "stored_buyer_pool \<Rightarrow> b256 \<Rightarrow> store_error + buyer_pool_state" where
  "into_state r pid =
     (if sp_schema_version r \<noteq> BUYER_SUPPORTED_SCHEMA_VERSION
      then Inl (UnsupportedSchema (sp_schema_version r) BUYER_SUPPORTED_SCHEMA_VERSION)
      else Inr (buyer_hydrate pid
             \<lparr>chain_id = from_be_bytes (sp_chain_id r), payment_pool = from_be_bytes (sp_payment_pool r)\<rparr>
             (from_be_bytes (sp_owner r)) (from_be_bytes (sp_token r)) (from_be_bytes (sp_deposit r))
             (map (lane_from_stored pid) (sp_lanes r)) (from_be_bytes (sp_redeemed_elsewhere r))))"

definition encode_buyer_record :: "buyer_codec \<Rightarrow> buyer_pool_state \<Rightarrow> store_error + u8 list" where
  "encode_buyer_record c s =
     (case pc_encode c (stored_buyer_from s) of
        Inl err \<Rightarrow> Inl (Codec (''buyer record postcard encode: '' @ err))
      | Inr bytes \<Rightarrow> Inr bytes)"

definition decode_buyer_record :: "buyer_codec \<Rightarrow> u8 list \<Rightarrow> u8 list \<Rightarrow> store_error + buyer_pool_state" where
  "decode_buyer_record c key_bytes value_bytes =
     (let pid = from_be_bytes key_bytes in
      case pc_take c value_bytes of
        Inl err \<Rightarrow> Inl (Corrupt (Some pid)
                    (''buyer record postcard decode failed (pool_id '' @ show_pool_id c pid @ ''): '' @ err))
      | Inr (stored, remainder) \<Rightarrow>
          if sp_pool_id stored \<noteq> key_bytes
          then Inl (Corrupt (Some pid)
                 (''buyer record pool_id '' @ show_pool_id c pid @ '' does not match table key''))
          else into_state stored pid)"

definition encode_delegate_lane :: "buyer_codec \<Rightarrow> buyer_lane_progress \<Rightarrow> store_error + u8 list" where
  "encode_delegate_lane c p =
     (case pc_encode_lane c
            \<lparr>sd_schema_version = DELEGATE_LANE_SCHEMA_VERSION,
             sd_last_amount = to_be_bytes 32 (bl_last_amount p),
             sd_last_bytes = to_be_bytes 32 (bl_last_bytes p)\<rparr> of
        Inl err \<Rightarrow> Inl (Codec (''delegate lane postcard encode: '' @ err))
      | Inr bytes \<Rightarrow> Inr bytes)"

definition delegate_corrupt :: "buyer_codec \<Rightarrow> lane_key \<Rightarrow> string \<Rightarrow> store_error" where
  "delegate_corrupt c lane why =
     Corrupt (Some (lk_pool_id lane))
       (''delegate lane record (pool_id '' @ show_pool_id c (lk_pool_id lane) @ '', signer ''
        @ show_address c (lk_signer lane) @ '', provider '' @ show_address c (lk_provider lane) @ '') '' @ why)"

definition decode_delegate_lane ::
  "buyer_codec \<Rightarrow> lane_key \<Rightarrow> u8 list \<Rightarrow> store_error + buyer_lane_progress" where
  "decode_delegate_lane c lane bytes =
     (case pc_take_lane c bytes of
        Inl err \<Rightarrow> Inl (delegate_corrupt c lane (''postcard decode failed: '' @ err))
      | Inr (stored, remainder) \<Rightarrow>
          if remainder \<noteq> []
          then Inl (delegate_corrupt c lane (''has '' @ show_nat (length remainder) @ '' trailing bytes''))
          else if sd_schema_version stored \<noteq> DELEGATE_LANE_SCHEMA_VERSION
          then Inl (UnsupportedSchema (sd_schema_version stored) DELEGATE_LANE_SCHEMA_VERSION)
          else Inr \<lparr>bl_last_amount = from_be_bytes (sd_last_amount stored),
                    bl_last_bytes = from_be_bytes (sd_last_bytes stored)\<rparr>)"

subsection \<open>The database\<close>

type_synonym db_table = "(u8 list \<times> u8 list) list"
type_synonym faults = "string \<Rightarrow> string option"

record buyer_db =
  db_pools :: "db_table option"
  db_owner_index :: "db_table option"
  db_delegates :: "db_table option"
  db_lane_salt :: "u8 list option option"

definition rows :: "db_table option \<Rightarrow> db_table" where
  "rows t = (case t of None \<Rightarrow> [] | Some rs \<Rightarrow> rs)"

definition db_call :: "faults \<Rightarrow> string \<Rightarrow> store_error + 'a \<Rightarrow> store_error + 'a" where
  "db_call f what k =
     (case f what of Some err \<Rightarrow> Inl (Backend (what @ '': '' @ err)) | None \<Rightarrow> k)"

definition begin_durable_write :: "faults \<Rightarrow> store_error + 'a \<Rightarrow> store_error + 'a" where
  "begin_durable_write f k = db_call f ''begin_write'' (db_call f ''set_durability'' k)"

definition write_txn ::
  "buyer_db \<Rightarrow> store_error + 'r \<times> buyer_db \<Rightarrow> (store_error + 'r) \<times> buyer_db" where
  "write_txn db body = (case body of Inl e \<Rightarrow> (Inl e, db) | Inr (r, db') \<Rightarrow> (Inr r, db'))"

definition load_row :: "buyer_codec \<Rightarrow> u8 list \<times> u8 list \<Rightarrow> buyer_load \<Rightarrow> buyer_load" where
  "load_row c kv ld =
     (case decode_buyer_record c (fst kv) (snd kv) of
        Inr state \<Rightarrow> ld\<lparr>ld_pools := ld_pools ld @ [state]\<rparr>
      | Inl err \<Rightarrow> ld\<lparr>ld_skipped := ld_skipped ld @ [from_be_bytes (fst kv)]\<rparr>)"

definition load_all_from :: "faults \<Rightarrow> buyer_codec \<Rightarrow> buyer_db \<Rightarrow> store_error + buyer_load" where
  "load_all_from f c db =
     db_call f ''begin_read''
       (case db_pools db of
          None \<Rightarrow> Inr \<lparr>ld_pools = [], ld_skipped = []\<rparr>
        | Some t \<Rightarrow>
            db_call f ''open_table'' (db_call f ''table iter''
              (let loaded = fold (load_row c) (sort_key fst t) \<lparr>ld_pools = [], ld_skipped = []\<rparr>
               in if t = [] then Inr loaded else db_call f ''iter entry'' (Inr loaded))))"

definition bt_load_all :: "faults \<Rightarrow> buyer_codec \<Rightarrow> buyer_db \<Rightarrow> (store_error + buyer_load) \<times> buyer_db" where
  "bt_load_all f c db = (load_all_from f c db, db)"

definition bt_record ::
  "faults \<Rightarrow> buyer_codec \<Rightarrow> buyer_pool_state \<Rightarrow> buyer_db \<Rightarrow> (store_error + unit) \<times> buyer_db" where
  "bt_record f c state db = write_txn db
     (case encode_buyer_record c state of
        Inl e \<Rightarrow> Inl e
      | Inr encoded \<Rightarrow>
          (let primary_key = to_be_bytes 32 (bp_pool_id state); index_key = to_be_bytes 20 (bp_owner state) in
           begin_durable_write f
             (db_call f ''open_table'' (db_call f ''insert''
               (db_call f ''open_table (index)'' (db_call f ''insert (index)''
                 (db_call f ''commit (fsync)''
                   (Inr ((), db\<lparr>db_pools := Some (AList.update primary_key encoded (rows (db_pools db))),
                                db_owner_index := Some (AList.update index_key primary_key (rows (db_owner_index db)))\<rparr>)))))))))"

definition bt_forget :: "faults \<Rightarrow> address \<Rightarrow> buyer_db \<Rightarrow> (store_error + unit) \<times> buyer_db" where
  "bt_forget f owner db = write_txn db
     (let index_key = to_be_bytes 20 owner in
      begin_durable_write f
        (db_call f ''open_table (index)'' (db_call f ''get (index)''
          (case map_of (rows (db_owner_index db)) index_key of
             None \<Rightarrow> Inr ((), db)
           | Some primary_key \<Rightarrow>
               db_call f ''remove (index)'' (db_call f ''open_table'' (db_call f ''remove''
                 (db_call f ''commit (fsync)''
                   (Inr ((), db\<lparr>db_owner_index := Some (AList.delete index_key (rows (db_owner_index db))),
                                db_pools := Some (AList.delete primary_key (rows (db_pools db)))\<rparr>)))))))))"

definition get_row ::
  "faults \<Rightarrow> buyer_codec \<Rightarrow> u8 list \<Rightarrow> buyer_db \<Rightarrow> store_error + buyer_pool_state option" where
  "get_row f c key db =
     (case db_pools db of
        None \<Rightarrow> Inr None
      | Some t \<Rightarrow>
          db_call f ''open_table'' (db_call f ''get''
            (case map_of t key of
               None \<Rightarrow> Inr None
             | Some v \<Rightarrow> (case decode_buyer_record c key v of Inl e \<Rightarrow> Inl e | Inr s \<Rightarrow> Inr (Some s)))))"

definition bt_get_by_pool_id ::
  "faults \<Rightarrow> buyer_codec \<Rightarrow> b256 \<Rightarrow> buyer_db \<Rightarrow> (store_error + buyer_pool_state option) \<times> buyer_db" where
  "bt_get_by_pool_id f c pid db = (db_call f ''begin_read'' (get_row f c (to_be_bytes 32 pid) db), db)"

definition bt_get_by_owner ::
  "faults \<Rightarrow> buyer_codec \<Rightarrow> address \<Rightarrow> buyer_db \<Rightarrow> (store_error + buyer_pool_state option) \<times> buyer_db" where
  "bt_get_by_owner f c owner db =
     (db_call f ''begin_read''
        (case db_owner_index db of
           None \<Rightarrow> Inr None
         | Some t \<Rightarrow>
             db_call f ''open_table (index)'' (db_call f ''get (index)''
               (case map_of t (to_be_bytes 20 owner) of
                  None \<Rightarrow> Inr None
                | Some primary_key \<Rightarrow> get_row f c primary_key db))), db)"

definition bt_forget_if_pool ::
  "faults \<Rightarrow> address \<Rightarrow> b256 \<Rightarrow> buyer_db \<Rightarrow> (store_error + bool) \<times> buyer_db" where
  "bt_forget_if_pool f owner pid db = write_txn db
     (let index_key = to_be_bytes 20 owner; primary_key = to_be_bytes 32 pid in
      begin_durable_write f
        (db_call f ''open_table (index)'' (db_call f ''get (index)''
          (case map_of (rows (db_owner_index db)) index_key of
             None \<Rightarrow> Inr (False, db)
           | Some mapped \<Rightarrow>
               if mapped \<noteq> primary_key then Inr (False, db)
               else
                 db_call f ''remove (index)'' (db_call f ''open_table'' (db_call f ''remove''
                   (db_call f ''commit (fsync)''
                     (Inr (True, db\<lparr>db_owner_index := Some (AList.delete index_key (rows (db_owner_index db))),
                                    db_pools := Some (AList.delete primary_key (rows (db_pools db)))\<rparr>)))))))))"

text \<open>
  The owner-index check, then \<open>apply\<close> on the committed row and its write-back, in one
  transaction. A refused change returns without a commit.
\<close>

definition bt_write_lane ::
  "faults \<Rightarrow> buyer_codec \<Rightarrow> address \<Rightarrow> b256 \<Rightarrow> (buyer_pool_state \<Rightarrow> buyer_progress_error + buyer_pool_state)
     \<Rightarrow> buyer_db \<Rightarrow> (store_error + advance_outcome) \<times> buyer_db" where
  "bt_write_lane f c owner pid app db = write_txn db
     (let index_key = to_be_bytes 20 owner; primary_key = to_be_bytes 32 pid in
      begin_durable_write f
        (db_call f ''open_table (index)'' (db_call f ''get (index)''
          (case map_of (rows (db_owner_index db)) index_key of
             None \<Rightarrow> Inr (UnknownPool, db)
           | Some mapped \<Rightarrow>
               if mapped \<noteq> primary_key then Inr (PoolMismatch, db)
               else
                 db_call f ''open_table'' (db_call f ''get''
                   (case map_of (rows (db_pools db)) primary_key of
                      None \<Rightarrow> Inr (UnknownPool, db)
                    | Some v \<Rightarrow>
                        (case decode_buyer_record c primary_key v of
                           Inl e \<Rightarrow> Inl e
                         | Inr state \<Rightarrow>
                             (case app state of
                                Inl err \<Rightarrow> Inr (AdvanceRegressed err, db)
                              | Inr state' \<Rightarrow>
                                  (case encode_buyer_record c state' of
                                     Inl e \<Rightarrow> Inl e
                                   | Inr encoded \<Rightarrow>
                                       db_call f ''insert'' (db_call f ''commit (fsync)''
                                         (Inr (Advanced,
                                            db\<lparr>db_pools := Some (AList.update primary_key encoded
                                                            (rows (db_pools db)))\<rparr>))))))))))))"

definition bt_advance_progress ::
  "faults \<Rightarrow> buyer_codec \<Rightarrow> address \<Rightarrow> b256 \<Rightarrow> lane_key \<Rightarrow> u256 \<Rightarrow> u256 \<Rightarrow> buyer_db
     \<Rightarrow> (store_error + advance_outcome) \<times> buyer_db" where
  "bt_advance_progress f c owner pid lane bytes amount db =
     bt_write_lane f c owner pid (advance_lane lane bytes amount) db"

definition bt_rebase_progress ::
  "faults \<Rightarrow> buyer_codec \<Rightarrow> address \<Rightarrow> b256 \<Rightarrow> lane_key \<Rightarrow> buyer_lane_progress \<Rightarrow> buyer_lane_progress
     \<Rightarrow> buyer_db \<Rightarrow> (store_error + advance_outcome) \<times> buyer_db" where
  "bt_rebase_progress f c owner pid lane anchor totals db =
     bt_write_lane f c owner pid (\<lambda>state. Inr (rebase_lane lane anchor totals state)) db"

definition bt_seed_progress ::
  "faults \<Rightarrow> buyer_codec \<Rightarrow> address \<Rightarrow> b256 \<Rightarrow> lane_key \<Rightarrow> u256 \<Rightarrow> u256 \<Rightarrow> buyer_db
     \<Rightarrow> (store_error + advance_outcome) \<times> buyer_db" where
  "bt_seed_progress f c owner pid lane bytes amount db =
     bt_write_lane f c owner pid (seed_lane lane bytes amount) db"

definition bt_add_deposit ::
  "faults \<Rightarrow> buyer_codec \<Rightarrow> address \<Rightarrow> b256 \<Rightarrow> u256 \<Rightarrow> buyer_db
     \<Rightarrow> (store_error + deposit_outcome) \<times> buyer_db" where
  "bt_add_deposit f c owner pid additional db = write_txn db
     (let index_key = to_be_bytes 20 owner; primary_key = to_be_bytes 32 pid in
      begin_durable_write f
        (db_call f ''open_table (index)'' (db_call f ''get (index)''
          (case map_of (rows (db_owner_index db)) index_key of
             None \<Rightarrow> Inr (DepositUnknownPool, db)
           | Some mapped \<Rightarrow>
               if mapped \<noteq> primary_key then Inr (DepositPoolMismatch, db)
               else
                 db_call f ''open_table'' (db_call f ''get''
                   (case map_of (rows (db_pools db)) primary_key of
                      None \<Rightarrow> Inr (DepositUnknownPool, db)
                    | Some v \<Rightarrow>
                        (case decode_buyer_record c primary_key v of
                           Inl e \<Rightarrow> Inl e
                         | Inr state \<Rightarrow>
                             (let state' = state\<lparr>bp_deposit := sat_add (bp_deposit state) additional\<rparr> in
                              case encode_buyer_record c state' of
                                Inl e \<Rightarrow> Inl e
                              | Inr encoded \<Rightarrow>
                                  db_call f ''insert'' (db_call f ''commit (fsync)''
                                    (Inr (Added (bp_deposit state'),
                                       db\<lparr>db_pools := Some (AList.update primary_key encoded
                                                       (rows (db_pools db)))\<rparr>)))))))))))"

subsection \<open>Delegate lanes and the lane salt\<close>

text \<open>A range scan returns the rows between two keys, both included, in key order.\<close>

definition table_range :: "u8 list \<Rightarrow> u8 list \<Rightarrow> db_table \<Rightarrow> db_table" where
  "table_range lo hi t = sort_key fst (filter (\<lambda>(k, _). lo \<le> k \<and> k \<le> hi) t)"

fun collect_delegates ::
  "buyer_codec \<Rightarrow> b256 \<Rightarrow> address \<Rightarrow> db_table \<Rightarrow> store_error + (address \<times> buyer_lane_progress) list" where
  "collect_delegates c pid sg [] = Inr []"
| "collect_delegates c pid sg ((k, v) # rs) =
     (if length k < 20
      then Inl (Corrupt (Some pid) ''delegate lane key is shorter than a provider address'')
      else
        let prov = from_be_bytes (drop (length k - 20) k) in
        case decode_delegate_lane c \<lparr>lk_pool_id = pid, lk_signer = sg, lk_provider = prov\<rparr> v of
          Inl e \<Rightarrow> Inl e
        | Inr p \<Rightarrow> (case collect_delegates c pid sg rs of Inl e \<Rightarrow> Inl e | Inr out \<Rightarrow> Inr ((prov, p) # out)))"

definition bt_delegate_lanes ::
  "faults \<Rightarrow> buyer_codec \<Rightarrow> deployment \<Rightarrow> b256 \<Rightarrow> address \<Rightarrow> buyer_db
     \<Rightarrow> (store_error + (address \<times> buyer_lane_progress) list) \<times> buyer_db" where
  "bt_delegate_lanes f c dep pid sg db =
     (let prefix = delegate_signer_prefix dep pid sg;
          first = delegate_lane_key prefix (replicate 20 0);
          final = delegate_lane_key prefix (replicate 20 255)
      in db_call f ''begin_read''
           (case db_delegates db of
              None \<Rightarrow> Inr []
            | Some t \<Rightarrow>
                db_call f ''open_table (delegate)'' (db_call f ''range (delegate)''
                  (let found = table_range first final t
                   in if found = [] then Inr []
                      else db_call f ''range entry'' (collect_delegates c pid sg found)))), db)"

datatype delegate_write = DAdvance buyer_lane_progress | DRebase buyer_lane_progress buyer_lane_progress

definition bt_write_delegate_lane ::
  "faults \<Rightarrow> buyer_codec \<Rightarrow> deployment \<Rightarrow> lane_key \<Rightarrow> delegate_write \<Rightarrow> buyer_db
     \<Rightarrow> (store_error + advance_outcome) \<times> buyer_db" where
  "bt_write_delegate_lane f c dep lane w db = write_txn db
     (let key = delegate_key dep lane in
      begin_durable_write f (db_call f ''open_table (delegate)''
        (let progress =
           (case w of
              DAdvance totals \<Rightarrow>
                db_call f ''get (delegate)''
                  (case map_of (rows (db_delegates db)) key of
                     None \<Rightarrow> Inr (advanced None totals)
                   | Some v \<Rightarrow>
                       (case decode_delegate_lane c lane v of
                          Inl e \<Rightarrow> Inl e
                        | Inr recorded \<Rightarrow> Inr (advanced (Some recorded) totals)))
            | DRebase anchor totals \<Rightarrow> Inr (Inr (rebased anchor totals)))
         in case progress of
              Inl e \<Rightarrow> Inl e
            | Inr (Inl err) \<Rightarrow> Inr (AdvanceRegressed err, db)
            | Inr (Inr p) \<Rightarrow>
                (case encode_delegate_lane c p of
                   Inl e \<Rightarrow> Inl e
                 | Inr encoded \<Rightarrow>
                     db_call f ''insert (delegate)'' (db_call f ''commit (fsync)''
                       (Inr (Advanced,
                          db\<lparr>db_delegates := Some (AList.update key encoded (rows (db_delegates db)))\<rparr>)))))))"

definition bt_advance_delegate ::
  "faults \<Rightarrow> buyer_codec \<Rightarrow> deployment \<Rightarrow> lane_key \<Rightarrow> buyer_lane_progress \<Rightarrow> buyer_db
     \<Rightarrow> (store_error + advance_outcome) \<times> buyer_db" where
  "bt_advance_delegate f c dep lane totals db = bt_write_delegate_lane f c dep lane (DAdvance totals) db"

definition bt_rebase_delegate ::
  "faults \<Rightarrow> buyer_codec \<Rightarrow> deployment \<Rightarrow> lane_key \<Rightarrow> buyer_lane_progress \<Rightarrow> buyer_lane_progress \<Rightarrow> buyer_db
     \<Rightarrow> (store_error + advance_outcome) \<times> buyer_db" where
  "bt_rebase_delegate f c dep lane anchor totals db =
     bt_write_delegate_lane f c dep lane (DRebase anchor totals) db"

definition read_lane_salt :: "faults \<Rightarrow> buyer_db \<Rightarrow> store_error + u8 list option" where
  "read_lane_salt f db =
     db_call f ''begin_read''
       (case db_lane_salt db of
          None \<Rightarrow> Inr None
        | Some row \<Rightarrow> db_call f ''open_table (lane salt)'' (db_call f ''get (lane salt)'' (Inr row)))"

definition bt_lane_salt ::
  "faults \<Rightarrow> u8 list \<Rightarrow> buyer_db \<Rightarrow> (store_error + u8 list) \<times> buyer_db" where
  "bt_lane_salt f random db =
     (case read_lane_salt f db of
        Inl e \<Rightarrow> (Inl e, db)
      | Inr (Some salt) \<Rightarrow> (Inr salt, db)
      | Inr None \<Rightarrow> write_txn db
          (begin_durable_write f
             (db_call f ''open_table (lane salt)'' (db_call f ''get (lane salt)''
               (case db_lane_salt db of
                  Some (Some salt) \<Rightarrow> Inr (salt, db)
                | _ \<Rightarrow> db_call f ''insert (lane salt)'' (db_call f ''commit (lane salt)''
                        (Inr (random, db\<lparr>db_lane_salt := Some (Some random)\<rparr>))))))))"

fun bt_step ::
  "faults \<Rightarrow> buyer_codec \<Rightarrow> buyer_db \<Rightarrow> buyer_op \<Rightarrow> (store_error + buyer_reply) \<times> buyer_db" where
  "bt_step f c db LoadAll = reply_as RLoad (bt_load_all f c db)"
| "bt_step f c db (Record s) = reply_as (\<lambda>_. RUnit) (bt_record f c s db)"
| "bt_step f c db (Forget owner) = reply_as (\<lambda>_. RUnit) (bt_forget f owner db)"
| "bt_step f c db (ForgetIfPool owner pid) = reply_as RBool (bt_forget_if_pool f owner pid db)"
| "bt_step f c db (GetByPoolId pid) = reply_as RPool (bt_get_by_pool_id f c pid db)"
| "bt_step f c db (GetByOwner owner) = reply_as RPool (bt_get_by_owner f c owner db)"
| "bt_step f c db (AdvanceProgress owner pid lane bytes amount) =
     reply_as RAdvance (bt_advance_progress f c owner pid lane bytes amount db)"
| "bt_step f c db (RebaseProgress owner pid lane anchor totals) =
     reply_as RAdvance (bt_rebase_progress f c owner pid lane anchor totals db)"
| "bt_step f c db (SeedProgress owner pid lane bytes amount) =
     reply_as RAdvance (bt_seed_progress f c owner pid lane bytes amount db)"
| "bt_step f c db (AddDeposit owner pid additional) =
     reply_as RDeposit (bt_add_deposit f c owner pid additional db)"
| "bt_step f c db (DelegateLanes dep pid sg) = reply_as RLanes (bt_delegate_lanes f c dep pid sg db)"
| "bt_step f c db (AdvanceDelegate dep lane totals) =
     reply_as RAdvance (bt_advance_delegate f c dep lane totals db)"
| "bt_step f c db (RebaseDelegate dep lane anchor totals) =
     reply_as RAdvance (bt_rebase_delegate f c dep lane anchor totals db)"
| "bt_step f c db (LaneSalt random) = reply_as RSalt (bt_lane_salt f random db)"

subsection \<open>Keys are faithful\<close>

lemma be_32 [simp]: "from_be_bytes (to_be_bytes 32 (w :: u256)) = w"
  by (simp add: from_to_be_bytes)

lemma be_20 [simp]: "from_be_bytes (to_be_bytes 20 (w :: address)) = w"
  by (simp add: from_to_be_bytes)

lemma be_8 [simp]: "from_be_bytes (to_be_bytes 8 (w :: u64)) = w"
  by (simp add: from_to_be_bytes)

lemma be_inj [simp]:
  "to_be_bytes 32 (a :: u256) = to_be_bytes 32 b \<longleftrightarrow> a = b"
  "to_be_bytes 20 (x :: address) = to_be_bytes 20 y \<longleftrightarrow> x = y"
  "to_be_bytes 8 (u :: u64) = to_be_bytes 8 v \<longleftrightarrow> u = v"
  by (metis be_32, metis be_20, metis be_8)

lemma length_prefix [simp]: "length (delegate_signer_prefix dep pid sg) = 80"
  by (simp add: delegate_signer_prefix_def deployment_to_bytes_def)

lemma length_delegate_key [simp]: "length (delegate_key dep lane) = 100"
  by (simp add: delegate_key_def delegate_lane_key_def)

lemma deployment_eq: "d = e \<longleftrightarrow> chain_id d = chain_id e \<and> payment_pool d = payment_pool e"
  for d e :: deployment
  by (cases d; cases e) auto

lemma prefix_inj [simp]:
  "delegate_signer_prefix dep pid sg = delegate_signer_prefix dep' pid' sg' \<longleftrightarrow>
   dep = dep' \<and> pid = pid' \<and> sg = sg'"
  by (auto simp: delegate_signer_prefix_def deployment_to_bytes_def deployment_eq)

lemma delegate_key_inj [simp]:
  "delegate_key dep lane = delegate_key dep' lane' \<longleftrightarrow> dep = dep' \<and> lane = lane'"
  by (auto simp: delegate_key_def delegate_lane_key_def lane_key_eq)

lemma deployment_roundtrip [simp]: "deployment_from_bytes (deployment_to_bytes d) = Inr d"
  by (simp add: deployment_from_bytes_def deployment_to_bytes_def)

lemma append_le_iff:
  assumes "length p = length a"
  shows "p @ x \<le> a @ y \<longleftrightarrow> p < a \<or> p = a \<and> x \<le> (y :: 'a::linorder list)"
  using assms by (induction p a rule: list_induct2) auto

lemma zeros_least: "length t = n \<Longrightarrow> replicate n 0 \<le> (t :: u8 list)"
proof (induction n arbitrary: t)
  case (Suc n)
  then obtain b t' where "t = b # t'" "length t' = n" by (cases t) auto
  with Suc.IH [of t'] show ?case by (auto simp: word_neq_0_conv)
qed simp

lemma ones_greatest: "length t = n \<Longrightarrow> (t :: u8 list) \<le> replicate n 255"
proof (induction n arbitrary: t)
  case (Suc n)
  then obtain b t' where "t = b # t'" "length t' = n" by (cases t) auto
  moreover have "unat b \<le> 255" using unat_below [of b] by simp
  then have "b < 255 \<or> b = 255" by (auto simp: word_less_nat_alt word_unat_eq_iff)
  ultimately show ?case using Suc.IH [of t'] by auto
qed simp

text \<open>The range scan of one signer's prefix finds exactly the keys that start with it.\<close>

lemma prefix_range_iff:
  assumes "length p' = length p" and "length t = 20"
  shows "delegate_lane_key p (replicate 20 0) \<le> p' @ t \<and> p' @ t \<le> delegate_lane_key p (replicate 20 255)
           \<longleftrightarrow> p' = p"
  using assms zeros_least [OF assms(2)] ones_greatest [OF assms(2)]
  by (auto simp: delegate_lane_key_def append_le_iff)

lemma delegate_in_range:
  "delegate_lane_key (delegate_signer_prefix dep pid sg) (replicate 20 0) \<le> delegate_key on lane \<and>
   delegate_key on lane \<le> delegate_lane_key (delegate_signer_prefix dep pid sg) (replicate 20 255)
     \<longleftrightarrow> on = dep \<and> lk_pool_id lane = pid \<and> lk_signer lane = sg"
  unfolding delegate_key_def delegate_lane_key_def [of "delegate_signer_prefix on _ _"]
  by (subst prefix_range_iff) auto

subsection \<open>Records read back as they were written\<close>

definition buyer_codec_ok :: "buyer_codec \<Rightarrow> bool" where
  "buyer_codec_ok c \<longleftrightarrow>
     (\<forall>r. \<exists>bytes. pc_encode c r = Inr bytes \<and> pc_take c bytes = Inr (r, [])) \<and>
     (\<forall>r. \<exists>bytes. pc_encode_lane c r = Inr bytes \<and> pc_take_lane c bytes = Inr (r, []))"

lemma lane_from_stored_from:
  "lk_pool_id k = pid \<Longrightarrow> lane_from_stored pid (stored_lane_from (k, p)) = (k, p)"
  by (simp add: lane_from_stored_def stored_lane_from_def)

lemma fold_update_map_of:
  "distinct (map fst xs) \<Longrightarrow>
   map_of (fold (\<lambda>(k, p) m. AList.update k p m) xs ys) = map_of ys ++ map_of xs"
proof (induction xs arbitrary: ys)
  case (Cons x xs)
  then show ?case
    by (cases x) (auto simp: AList.update_conv' map_add_def fun_eq_iff split: option.splits
        dest: map_of_SomeD intro: rev_image_eqI)
qed simp

lemma fold_update_distinct:
  "distinct (map fst ys) \<Longrightarrow> distinct (map fst (fold (\<lambda>(k, p) m. AList.update k p m) xs ys))"
  by (induction xs arbitrary: ys) (auto simp: AList.distinct_update)

lemma stored_lanes_perm:
  assumes "row_ok s"
  defines "xs \<equiv> map (lane_from_stored (bp_pool_id s)) (sp_lanes (stored_buyer_from s))"
  shows "distinct (map fst xs)" and "set xs = set (bp_lanes s)"
proof -
  have inv: "lane_from_stored (bp_pool_id s) (stored_lane_from x) = x" if "x \<in> set (bp_lanes s)" for x
    using that assms(1) lane_from_stored_from [of "fst x" "bp_pool_id s" "snd x"] by (force simp: row_ok_def)
  have lanes: "set (sp_lanes (stored_buyer_from s)) = stored_lane_from ` set (bp_lanes s)"
    by (simp add: stored_buyer_from_def)
  show "set xs = set (bp_lanes s)" using inv by (force simp: xs_def lanes)
  have inj: "inj_on fst (set (bp_lanes s))" "distinct (bp_lanes s)"
    using assms(1) by (auto simp: row_ok_def distinct_map)
  have "inj_on stored_lane_from (set (bp_lanes s))" using inv by (rule inj_on_inverseI)
  then have "distinct (sp_lanes (stored_buyer_from s))"
    using inj(2) by (simp add: stored_buyer_from_def distinct_map)
  moreover have "inj_on (fst \<circ> lane_from_stored (bp_pool_id s)) (set (sp_lanes (stored_buyer_from s)))"
    using inj(1) unfolding lanes by (intro inj_onI) (auto simp: inv dest: inj_onD)
  ultimately show "distinct (map fst xs)" by (simp add: xs_def distinct_map comp_inj_on_iff)
qed

lemma into_state_stored:
  assumes "row_ok s"
  shows "\<exists>s'. into_state (stored_buyer_from s) (bp_pool_id s) = Inr s' \<and> abs_row_of s' = abs_row_of s \<and>
              row_ok s' \<and> bp_pool_id s' = bp_pool_id s"
proof -
  let ?xs = "map (lane_from_stored (bp_pool_id s)) (sp_lanes (stored_buyer_from s))"
  let ?ys = "fold (\<lambda>(k, p) m. AList.update k p m) ?xs []"
  note perm = stored_lanes_perm [OF assms]
  have "map_of ?ys = map_of ?xs" by (simp add: fold_update_map_of [OF perm(1)] del: map_map)
  also have "\<dots> = map_of (bp_lanes s)"
    using perm assms by (subst map_of_inject_set) (auto simp: row_ok_def)
  finally have m: "map_of ?ys = map_of (bp_lanes s)" .
  have d: "distinct (map fst ?ys)" by (rule fold_update_distinct) simp
  have "set ?ys = set (bp_lanes s)"
    using m d assms by (subst map_of_inject_set [symmetric]) (auto simp: row_ok_def)
  with d assms have "row_ok (s\<lparr>bp_lanes := ?ys\<rparr>)" unfolding row_ok_def by simp
  moreover have "into_state (stored_buyer_from s) (bp_pool_id s) = Inr (s\<lparr>bp_lanes := ?ys\<rparr>)"
    by (simp add: into_state_def buyer_hydrate_def stored_buyer_from_def)
  moreover have "abs_row_of (s\<lparr>bp_lanes := ?ys\<rparr>) = abs_row_of s" by (simp add: abs_row_of_def m del: map_map)
  ultimately show ?thesis by auto
qed

lemma buyer_record_roundtrip:
  assumes "buyer_codec_ok c" and "row_ok s" and "bp_pool_id s = pid"
  obtains bytes s' where "encode_buyer_record c s = Inr bytes"
    and "decode_buyer_record c (to_be_bytes 32 pid) bytes = Inr s'" and "abs_row_of s' = abs_row_of s"
    and "row_ok s'" and "bp_pool_id s' = pid"
proof -
  obtain bytes where bytes: "pc_encode c (stored_buyer_from s) = Inr bytes"
    "pc_take c bytes = Inr (stored_buyer_from s, [])"
    using assms(1) unfolding buyer_codec_ok_def by blast
  have "sp_pool_id (stored_buyer_from s) = to_be_bytes 32 pid"
    using assms(3) by (simp add: stored_buyer_from_def)
  with bytes into_state_stored [OF assms(2)] that [of bytes] assms(3) show thesis
    by (auto simp: encode_buyer_record_def decode_buyer_record_def)
qed

lemma delegate_roundtrip:
  assumes "buyer_codec_ok c"
  obtains bytes where "encode_delegate_lane c p = Inr bytes" and "decode_delegate_lane c lane bytes = Inr p"
proof -
  let ?r = "\<lparr>sd_schema_version = DELEGATE_LANE_SCHEMA_VERSION, sd_last_amount = to_be_bytes 32 (bl_last_amount p),
            sd_last_bytes = to_be_bytes 32 (bl_last_bytes p)\<rparr>"
  obtain bytes where "pc_encode_lane c ?r = Inr bytes" "pc_take_lane c bytes = Inr (?r, [])"
    using assms unfolding buyer_codec_ok_def by blast
  with that [of bytes] show thesis by (simp add: encode_delegate_lane_def decode_delegate_lane_def)
qed

subsection \<open>The table meets the specification\<close>

definition row_at :: "buyer_codec \<Rightarrow> db_table \<Rightarrow> b256 \<Rightarrow> abs_row option" where
  "row_at c t pid =
     (case map_of t (to_be_bytes 32 pid) of
        None \<Rightarrow> None
      | Some v \<Rightarrow> (case decode_buyer_record c (to_be_bytes 32 pid) v of
                    Inl _ \<Rightarrow> None | Inr s \<Rightarrow> Some (abs_row_of s)))"

definition delegate_at :: "buyer_codec \<Rightarrow> db_table \<Rightarrow> deployment \<times> lane_key \<Rightarrow> buyer_lane_progress option" where
  "delegate_at c t dl =
     (case map_of t (delegate_key (fst dl) (snd dl)) of
        None \<Rightarrow> None
      | Some v \<Rightarrow> (case decode_delegate_lane c (snd dl) v of Inl _ \<Rightarrow> None | Inr p \<Rightarrow> Some p))"

definition owner_at :: "db_table \<Rightarrow> address \<Rightarrow> b256 option" where
  "owner_at t owner = map_option from_be_bytes (map_of t (to_be_bytes 20 owner))"

definition salt_at :: "u8 list option option \<Rightarrow> u8 list option" where
  "salt_at t = (case t of Some (Some salt) \<Rightarrow> Some salt | _ \<Rightarrow> None)"

definition bt_abs :: "buyer_codec \<Rightarrow> buyer_db \<Rightarrow> abs_store" where
  "bt_abs c db =
     \<lparr>as_pools = row_at c (rows (db_pools db)), as_owner = owner_at (rows (db_owner_index db)),
      as_delegates = delegate_at c (rows (db_delegates db)), as_salt = salt_at (db_lane_salt db)\<rparr>"

definition pools_ok :: "buyer_codec \<Rightarrow> db_table \<Rightarrow> bool" where
  "pools_ok c t \<longleftrightarrow> distinct (map fst t) \<and>
     (\<forall>k v. (k, v) \<in> set t \<longrightarrow>
        (\<exists>pid s. k = to_be_bytes 32 pid \<and> decode_buyer_record c k v = Inr s \<and> row_ok s \<and> bp_pool_id s = pid))"

definition owners_ok :: "db_table \<Rightarrow> bool" where
  "owners_ok t \<longleftrightarrow> (\<forall>k v. map_of t k = Some v \<longrightarrow> (\<exists>pid :: b256. v = to_be_bytes 32 pid))"

definition delegates_ok :: "buyer_codec \<Rightarrow> db_table \<Rightarrow> bool" where
  "delegates_ok c t \<longleftrightarrow> distinct (map fst t) \<and>
     (\<forall>k v. (k, v) \<in> set t \<longrightarrow>
        (\<exists>dep lane p. k = delegate_key dep lane \<and> decode_delegate_lane c lane v = Inr p))"

definition no_faults :: faults where
  "no_faults = (\<lambda>_. None)"

definition bt_inv :: "faults \<Rightarrow> buyer_codec \<Rightarrow> buyer_db \<Rightarrow> bool" where
  "bt_inv f c db \<longleftrightarrow> f = no_faults \<and> buyer_codec_ok c \<and> pools_ok c (rows (db_pools db)) \<and>
     owners_ok (rows (db_owner_index db)) \<and> delegates_ok c (rows (db_delegates db))"

lemma no_faults_call [simp]: "db_call no_faults what k = k"
  by (simp add: db_call_def no_faults_def)

lemma no_faults_begin [simp]: "begin_durable_write no_faults k = k"
  by (simp add: begin_durable_write_def)

lemma rows_simps [simp]: "rows None = []" "rows (Some t) = t"
  by (simp_all add: rows_def)

lemma write_txn_Inr [simp]: "write_txn db (Inr (r, db')) = (Inr r, db')"
  by (simp add: write_txn_def)

lemma reply_as_Inr [simp]: "reply_as mk (Inr r, st) = (Inr (mk r), st)"
  by (simp add: reply_as_def)

lemma pools_ok_map_of:
  assumes "pools_ok c t" and "map_of t (to_be_bytes 32 pid) = Some v"
  obtains s where "decode_buyer_record c (to_be_bytes 32 pid) v = Inr s" and "row_ok s"
    and "bp_pool_id s = pid" and "row_at c t pid = Some (abs_row_of s)"
  using assms map_of_SomeD [OF assms(2)] unfolding pools_ok_def row_at_def by fastforce

lemma pools_put:
  assumes "pools_ok c t" and "decode_buyer_record c (to_be_bytes 32 pid) v = Inr s"
    and "row_ok s" and "bp_pool_id s = pid"
  shows "pools_ok c (AList.update (to_be_bytes 32 pid) v t)"
    and "row_at c (AList.update (to_be_bytes 32 pid) v t) = (row_at c t)(pid \<mapsto> abs_row_of s)"
proof -
  have d: "distinct (map fst (AList.update (to_be_bytes 32 pid) v t))"
    using assms(1) by (simp add: pools_ok_def AList.distinct_update)
  show "pools_ok c (AList.update (to_be_bytes 32 pid) v t)"
    unfolding pools_ok_def
  proof (intro conjI allI impI d)
    fix k w
    assume "(k, w) \<in> set (AList.update (to_be_bytes 32 pid) v t)"
    with d have "map_of (AList.update (to_be_bytes 32 pid) v t) k = Some w" by simp
    then have "k = to_be_bytes 32 pid \<and> w = v \<or> (k, w) \<in> set t"
      by (auto simp: AList.update_conv' split: if_splits dest: map_of_SomeD)
    with assms show "\<exists>pid s. k = to_be_bytes 32 pid \<and> decode_buyer_record c k w = Inr s \<and> row_ok s \<and> bp_pool_id s = pid"
      unfolding pools_ok_def by blast
  qed
  show "row_at c (AList.update (to_be_bytes 32 pid) v t) = (row_at c t)(pid \<mapsto> abs_row_of s)"
    using assms(2) by (auto simp: row_at_def AList.update_conv' fun_eq_iff)
qed

lemma pools_drop:
  assumes "pools_ok c t"
  shows "pools_ok c (AList.delete k t)"
    and "row_at c (AList.delete (to_be_bytes 32 pid) t) = (row_at c t)(pid := None)"
proof -
  have "set (AList.delete k t) \<subseteq> set t" by (auto simp: AList.delete_eq)
  with assms show "pools_ok c (AList.delete k t)"
    unfolding pools_ok_def by (blast intro: AList.distinct_delete)
  show "row_at c (AList.delete (to_be_bytes 32 pid) t) = (row_at c t)(pid := None)"
    by (auto simp: row_at_def AList.delete_conv' fun_eq_iff)
qed

lemma owners_put:
  assumes "owners_ok t"
  shows "owners_ok (AList.update (to_be_bytes 20 owner) (to_be_bytes 32 pid) t)"
    and "owner_at (AList.update (to_be_bytes 20 owner) (to_be_bytes 32 pid) t) = (owner_at t)(owner \<mapsto> pid)"
  using assms by (auto simp: owners_ok_def owner_at_def AList.update_conv' fun_eq_iff)

lemma owners_drop:
  assumes "owners_ok t"
  shows "owners_ok (AList.delete k t)"
    and "owner_at (AList.delete (to_be_bytes 20 owner) t) = (owner_at t)(owner := None)"
  using assms by (auto simp: owners_ok_def owner_at_def AList.delete_conv' fun_eq_iff)

lemma owners_map_of:
  assumes "owners_ok t"
  shows "map_of t (to_be_bytes 20 owner) = map_option (to_be_bytes 32) (owner_at t owner)"
  using assms by (cases "map_of t (to_be_bytes 20 owner)") (fastforce simp: owners_ok_def owner_at_def)+

lemma delegates_put:
  assumes "delegates_ok c t" and "decode_delegate_lane c lane v = Inr p"
  shows "delegates_ok c (AList.update (delegate_key dep lane) v t)"
    and "delegate_at c (AList.update (delegate_key dep lane) v t) = (delegate_at c t)((dep, lane) \<mapsto> p)"
proof -
  let ?t = "AList.update (delegate_key dep lane) v t"
  have d: "distinct (map fst ?t)" using assms(1) by (simp add: delegates_ok_def AList.distinct_update)
  show "delegates_ok c ?t"
    unfolding delegates_ok_def
  proof (intro conjI allI impI d)
    fix k w
    assume "(k, w) \<in> set ?t"
    with d have "map_of ?t k = Some w" by simp
    then have "k = delegate_key dep lane \<and> w = v \<or> (k, w) \<in> set t"
      by (auto simp: AList.update_conv' split: if_splits dest: map_of_SomeD)
    with assms show "\<exists>dep lane p. k = delegate_key dep lane \<and> decode_delegate_lane c lane w = Inr p"
      unfolding delegates_ok_def by blast
  qed
  show "delegate_at c ?t = (delegate_at c t)((dep, lane) \<mapsto> p)"
    using assms(2) by (auto simp: delegate_at_def AList.update_conv' fun_eq_iff)
qed

definition outcome_of ::
  "(buyer_pool_state \<Rightarrow> buyer_progress_error + buyer_pool_state) \<Rightarrow> buyer_pool_state
     \<Rightarrow> advance_outcome \<times> buyer_pool_state" where
  "outcome_of app state =
     (case app state of Inr state' \<Rightarrow> (Advanced, state') | Inl err \<Rightarrow> (AdvanceRegressed err, state))"

lemma outcome_of_rows:
  "outcome_of (advance_lane lane bytes amount) = advance_row lane bytes amount"
  "outcome_of (seed_lane lane bytes amount) = seed_row lane bytes amount"
  "outcome_of (\<lambda>state. Inr (rebase_lane lane anchor totals state)) = rebase_row lane anchor totals"
  by (simp_all add: outcome_of_def advance_row_def seed_row_def rebase_row_def fun_eq_iff)

lemma bt_abs_pools: "bt_abs c (db\<lparr>db_pools := Some t\<rparr>) = (bt_abs c db)\<lparr>as_pools := row_at c t\<rparr>"
  by (simp add: bt_abs_def)

text \<open>
  The row a write finds: the owner index names the pool, the row decodes to a state that stands
  for the specification's row, and writing back any well-formed successor of it is the
  specification's update.
\<close>

lemma bt_row_found:
  assumes "bt_inv f c db" and "as_owner (bt_abs c db) owner = Some pid" and "as_pools (bt_abs c db) pid = Some r"
  obtains v s where "map_of (rows (db_owner_index db)) (to_be_bytes 20 owner) = Some (to_be_bytes 32 pid)"
    and "map_of (rows (db_pools db)) (to_be_bytes 32 pid) = Some v"
    and "decode_buyer_record c (to_be_bytes 32 pid) v = Inr s" and "row_ok s" and "bp_pool_id s = pid"
    and "r = abs_row_of s"
proof -
  have "map_of (rows (db_pools db)) (to_be_bytes 32 pid) \<noteq> None"
    using assms(3) by (auto simp: bt_abs_def row_at_def split: option.splits)
  then obtain v where v: "map_of (rows (db_pools db)) (to_be_bytes 32 pid) = Some v" by auto
  from assms(1) have "pools_ok c (rows (db_pools db))" by (simp add: bt_inv_def)
  then obtain s where "decode_buyer_record c (to_be_bytes 32 pid) v = Inr s" "row_ok s" "bp_pool_id s = pid"
    "row_at c (rows (db_pools db)) pid = Some (abs_row_of s)" using v by (rule pools_ok_map_of)
  moreover have "map_of (rows (db_owner_index db)) (to_be_bytes 20 owner) = Some (to_be_bytes 32 pid)"
    using assms(1,2) owners_map_of [of "rows (db_owner_index db)" owner] by (simp add: bt_inv_def bt_abs_def)
  ultimately show thesis using that v assms(3) by (simp add: bt_abs_def)
qed

lemma bt_row_put:
  assumes "bt_inv f c db" and "row_ok s" and "bp_pool_id s = pid"
  obtains v where "encode_buyer_record c s = Inr v"
    and "bt_inv f c (db\<lparr>db_pools := Some (AList.update (to_be_bytes 32 pid) v (rows (db_pools db)))\<rparr>)"
    and "bt_abs c (db\<lparr>db_pools := Some (AList.update (to_be_bytes 32 pid) v (rows (db_pools db)))\<rparr>) =
           (bt_abs c db)\<lparr>as_pools := (as_pools (bt_abs c db))(pid \<mapsto> abs_row_of s)\<rparr>"
proof -
  from assms(1) have c: "buyer_codec_ok c" and t: "pools_ok c (rows (db_pools db))" by (simp_all add: bt_inv_def)
  obtain v s' where v: "encode_buyer_record c s = Inr v"
    "decode_buyer_record c (to_be_bytes 32 pid) v = Inr s'" "abs_row_of s' = abs_row_of s"
    "row_ok s'" "bp_pool_id s' = pid"
    using buyer_record_roundtrip [OF c assms(2,3)] .
  note put = pools_put [OF t v(2,4,5)]
  show thesis
  proof (rule that [OF v(1)])
    show "bt_inv f c (db\<lparr>db_pools := Some (AList.update (to_be_bytes 32 pid) v (rows (db_pools db)))\<rparr>)"
      using assms(1) put(1) by (simp add: bt_inv_def)
  qed (simp add: bt_abs_pools put(2) v(3), simp add: bt_abs_def)
qed

lemma bt_row_missing:
  assumes "bt_inv f c db" and "as_owner (bt_abs c db) owner = Some pid" and "as_pools (bt_abs c db) pid = None"
  shows "map_of (rows (db_owner_index db)) (to_be_bytes 20 owner) = Some (to_be_bytes 32 pid)"
    and "map_of (rows (db_pools db)) (to_be_bytes 32 pid) = None"
proof -
  show "map_of (rows (db_owner_index db)) (to_be_bytes 20 owner) = Some (to_be_bytes 32 pid)"
    using assms(1,2) owners_map_of [of "rows (db_owner_index db)" owner] by (simp add: bt_inv_def bt_abs_def)
  from assms(1) have t: "pools_ok c (rows (db_pools db))" by (simp add: bt_inv_def)
  show "map_of (rows (db_pools db)) (to_be_bytes 32 pid) = None"
  proof (rule ccontr)
    assume "map_of (rows (db_pools db)) (to_be_bytes 32 pid) \<noteq> None"
    then obtain v where "map_of (rows (db_pools db)) (to_be_bytes 32 pid) = Some v" by auto
    with assms(3) show False by (auto elim!: pools_ok_map_of [OF t] simp: bt_abs_def)
  qed
qed

lemma owner_index_map:
  assumes "bt_inv f c db"
  shows "map_of (rows (db_owner_index db)) (to_be_bytes 20 owner) =
           map_option (to_be_bytes 32) (as_owner (bt_abs c db) owner)"
  using assms owners_map_of by (simp add: bt_inv_def bt_abs_def)

lemma bt_write_lane_refines:
  assumes "row_refines pid (outcome_of app) g" and inv: "bt_inv f c db"
  shows "\<exists>y db'. bt_write_lane f c owner pid app db = (Inr y, db') \<and> bt_inv f c db' \<and>
               spec_with_row owner pid UnknownPool PoolMismatch g (bt_abs c db) = (y, bt_abs c db')"
proof -
  from inv have f: "f = no_faults" by (simp add: bt_inv_def)
  consider (wrong) "as_owner (bt_abs c db) owner \<noteq> Some pid"
    | (missing) "as_owner (bt_abs c db) owner = Some pid" "as_pools (bt_abs c db) pid = None"
    | (found) r where "as_owner (bt_abs c db) owner = Some pid" "as_pools (bt_abs c db) pid = Some r"
    by fastforce
  then show ?thesis
  proof cases
    case wrong
    with inv owner_index_map [OF inv] show ?thesis
      by (auto simp: bt_write_lane_def f spec_with_row_def Let_def split: option.splits)
  next
    case missing
    with inv bt_row_missing [OF inv missing] show ?thesis
      by (auto simp: bt_write_lane_def f spec_with_row_def)
  next
    case found
    obtain v s where row: "map_of (rows (db_owner_index db)) (to_be_bytes 20 owner) = Some (to_be_bytes 32 pid)"
      "map_of (rows (db_pools db)) (to_be_bytes 32 pid) = Some v"
      "decode_buyer_record c (to_be_bytes 32 pid) v = Inr s" "row_ok s" "bp_pool_id s = pid" "r = abs_row_of s"
      using bt_row_found [OF inv found] .
    have g: "g r = (fst (outcome_of app s), abs_row_of (snd (outcome_of app s)))"
      "row_ok (snd (outcome_of app s))" "bp_pool_id (snd (outcome_of app s)) = pid"
      using assms(1) row by (simp_all add: row_refines_def)
    show ?thesis
    proof (cases "app s")
      case (Inl e)
      have "(as_pools (bt_abs c db))(pid \<mapsto> r) = as_pools (bt_abs c db)" using found by (simp add: fun_upd_idem)
      with Inl inv row found g show ?thesis
        by (simp add: bt_write_lane_def f spec_with_row_def outcome_of_def)
    next
      case (Inr s')
      with g have s': "row_ok s'" "bp_pool_id s' = pid" "g r = (Advanced, abs_row_of s')"
        by (simp_all add: outcome_of_def)
      obtain w where w: "encode_buyer_record c s' = Inr w"
        "bt_inv f c (db\<lparr>db_pools := Some (AList.update (to_be_bytes 32 pid) w (rows (db_pools db)))\<rparr>)"
        "bt_abs c (db\<lparr>db_pools := Some (AList.update (to_be_bytes 32 pid) w (rows (db_pools db)))\<rparr>) =
           (bt_abs c db)\<lparr>as_pools := (as_pools (bt_abs c db))(pid \<mapsto> abs_row_of s')\<rparr>"
        using bt_row_put [OF inv s'(1,2)] .
      with Inr row found s' f show ?thesis by (simp add: bt_write_lane_def spec_with_row_def)
    qed
  qed
qed

lemma bt_add_deposit_refines:
  assumes inv: "bt_inv f c db"
  shows "\<exists>y db'. bt_add_deposit f c owner pid additional db = (Inr y, db') \<and> bt_inv f c db' \<and>
               spec_with_row owner pid DepositUnknownPool DepositPoolMismatch (spec_deposit additional)
                 (bt_abs c db) = (y, bt_abs c db')"
proof -
  from inv have f: "f = no_faults" by (simp add: bt_inv_def)
  consider (wrong) "as_owner (bt_abs c db) owner \<noteq> Some pid"
    | (missing) "as_owner (bt_abs c db) owner = Some pid" "as_pools (bt_abs c db) pid = None"
    | (found) r where "as_owner (bt_abs c db) owner = Some pid" "as_pools (bt_abs c db) pid = Some r"
    by fastforce
  then show ?thesis
  proof cases
    case wrong
    with inv owner_index_map [OF inv] show ?thesis
      by (auto simp: bt_add_deposit_def f spec_with_row_def Let_def split: option.splits)
  next
    case missing
    with inv bt_row_missing [OF inv missing] show ?thesis
      by (auto simp: bt_add_deposit_def f spec_with_row_def)
  next
    case found
    obtain v s where row: "map_of (rows (db_owner_index db)) (to_be_bytes 20 owner) = Some (to_be_bytes 32 pid)"
      "map_of (rows (db_pools db)) (to_be_bytes 32 pid) = Some v"
      "decode_buyer_record c (to_be_bytes 32 pid) v = Inr s" "row_ok s" "bp_pool_id s = pid" "r = abs_row_of s"
      using bt_row_found [OF inv found] .
    let ?s = "snd (deposit_row additional s)"
    have s': "row_ok ?s" "bp_pool_id ?s = pid" "spec_deposit additional r = (fst (deposit_row additional s), abs_row_of ?s)"
      using deposit_row_refines [of pid additional] row by (simp_all add: row_refines_def)
    obtain w where "encode_buyer_record c ?s = Inr w"
      "bt_inv f c (db\<lparr>db_pools := Some (AList.update (to_be_bytes 32 pid) w (rows (db_pools db)))\<rparr>)"
      "bt_abs c (db\<lparr>db_pools := Some (AList.update (to_be_bytes 32 pid) w (rows (db_pools db)))\<rparr>) =
         (bt_abs c db)\<lparr>as_pools := (as_pools (bt_abs c db))(pid \<mapsto> abs_row_of ?s)\<rparr>"
      using bt_row_put [OF inv s'(1,2)] .
    with row found s' f show ?thesis
      by (simp add: bt_add_deposit_def spec_with_row_def deposit_row_def Let_def)
  qed
qed

lemma bt_record_refines:
  assumes inv: "bt_inv f c db" and "row_ok s"
  shows "\<exists>db'. bt_record f c s db = (Inr (), db') \<and> bt_inv f c db' \<and>
             bt_abs c db' = (bt_abs c db)\<lparr>as_owner := (as_owner (bt_abs c db))(bp_owner s \<mapsto> bp_pool_id s),
                                         as_pools := (as_pools (bt_abs c db))(bp_pool_id s \<mapsto> abs_row_of s)\<rparr>"
proof -
  let ?k = "to_be_bytes 32 (bp_pool_id s)"
  obtain v where v: "encode_buyer_record c s = Inr v"
    "bt_inv f c (db\<lparr>db_pools := Some (AList.update ?k v (rows (db_pools db)))\<rparr>)"
    "bt_abs c (db\<lparr>db_pools := Some (AList.update ?k v (rows (db_pools db)))\<rparr>) =
       (bt_abs c db)\<lparr>as_pools := (as_pools (bt_abs c db))(bp_pool_id s \<mapsto> abs_row_of s)\<rparr>"
    using bt_row_put [OF inv assms(2) refl] .
  have o: "owners_ok (rows (db_owner_index db))" and f: "f = no_faults" using inv by (simp_all add: bt_inv_def)
  from v o f show ?thesis
    by (auto simp: bt_record_def Let_def bt_inv_def bt_abs_def owners_put)
qed

lemma bt_drop_refines:
  fixes owner :: address and pid :: b256
  assumes inv: "bt_inv f c db"
  defines "db' \<equiv> db\<lparr>db_owner_index := Some (AList.delete (to_be_bytes 20 owner) (rows (db_owner_index db))),
                    db_pools := Some (AList.delete (to_be_bytes 32 pid) (rows (db_pools db)))\<rparr>"
  shows "bt_inv f c db' \<and> bt_abs c db' = spec_drop owner pid (bt_abs c db)"
  using inv owners_drop pools_drop
  by (simp add: db'_def bt_inv_def bt_abs_def spec_drop_def)

lemma get_row_refines:
  assumes inv: "bt_inv f c db"
  shows "\<exists>s. get_row f c (to_be_bytes 32 pid) db = Inr s \<and> map_option abs_row_of s = as_pools (bt_abs c db) pid"
proof (cases "map_of (rows (db_pools db)) (to_be_bytes 32 pid)")
  case None
  with inv show ?thesis
    by (cases "db_pools db") (auto simp: get_row_def bt_inv_def bt_abs_def row_at_def)
next
  case (Some v)
  from inv have t: "pools_ok c (rows (db_pools db))" and f: "f = no_faults" by (simp_all add: bt_inv_def)
  from Some obtain t where "db_pools db = Some t" by (cases "db_pools db") auto
  moreover obtain s where "decode_buyer_record c (to_be_bytes 32 pid) v = Inr s"
    "row_at c (rows (db_pools db)) pid = Some (abs_row_of s)"
    using pools_ok_map_of [OF t Some] .
  ultimately show ?thesis using Some f by (simp add: get_row_def bt_abs_def)
qed

text \<open>
  Loading every row: the decoded states in key order and, apart, the ids of the rows that do not
  decode. This holds of any table, damaged rows included.
\<close>

definition good_row :: "buyer_codec \<Rightarrow> u8 list \<times> u8 list \<Rightarrow> buyer_pool_state option" where
  "good_row c kv = (case decode_buyer_record c (fst kv) (snd kv) of Inl _ \<Rightarrow> None | Inr s \<Rightarrow> Some s)"

definition bad_row :: "buyer_codec \<Rightarrow> u8 list \<times> u8 list \<Rightarrow> b256 option" where
  "bad_row c kv =
     (case decode_buyer_record c (fst kv) (snd kv) of Inl _ \<Rightarrow> Some (from_be_bytes (fst kv)) | Inr _ \<Rightarrow> None)"

lemma fold_load_row:
  "fold (load_row c) xs ld =
     \<lparr>ld_pools = ld_pools ld @ List.map_filter (good_row c) xs,
      ld_skipped = ld_skipped ld @ List.map_filter (bad_row c) xs\<rparr>"
  by (induction xs arbitrary: ld)
     (auto simp: load_row_def good_row_def bad_row_def map_filter_simps split: sum.splits)

lemma load_all_no_faults:
  "load_all_from no_faults c db =
     Inr \<lparr>ld_pools = List.map_filter (good_row c) (sort_key fst (rows (db_pools db))),
          ld_skipped = List.map_filter (bad_row c) (sort_key fst (rows (db_pools db)))\<rparr>"
  by (cases "db_pools db") (simp_all add: load_all_from_def fold_load_row Let_def map_filter_simps)

lemma map_of_good_rows:
  assumes "\<forall>(k, v) \<in> set xs. \<exists>pid s. k = to_be_bytes 32 pid \<and> decode_buyer_record c k v = Inr s \<and> bp_pool_id s = pid"
  shows "map_of (map (\<lambda>s. (bp_pool_id s, abs_row_of s)) (List.map_filter (good_row c) xs)) pid = row_at c xs pid"
  using assms
proof (induction xs)
  case (Cons x xs)
  obtain k v where x: "x = (k, v)" by (cases x)
  with Cons.prems obtain q s where "k = to_be_bytes 32 q" "decode_buyer_record c k v = Inr s" "bp_pool_id s = q"
    by auto
  with x Cons show ?case by (auto simp: map_filter_simps good_row_def row_at_def)
qed (simp add: map_filter_simps row_at_def)

lemma map_filter_None: "(\<And>x. x \<in> set xs \<Longrightarrow> g x = None) \<Longrightarrow> List.map_filter g xs = []"
  by (induction xs) (auto simp: map_filter_simps)

lemma load_all_refines:
  assumes inv: "bt_inv f c db"
  shows "\<exists>ld. load_all_from f c db = Inr ld \<and> ld_skipped ld = [] \<and>
              map_of (map (\<lambda>s. (bp_pool_id s, abs_row_of s)) (ld_pools ld)) = as_pools (bt_abs c db)"
proof -
  let ?t = "rows (db_pools db)"
  from inv have f: "f = no_faults" and t: "pools_ok c ?t" by (simp_all add: bt_inv_def)
  have sorted: "map_of (sort_key fst ?t) = map_of ?t"
    using t by (intro map_of_sort_key) (simp add: pools_ok_def)
  have "map_of (map (\<lambda>s. (bp_pool_id s, abs_row_of s)) (List.map_filter (good_row c) (sort_key fst ?t))) =
        row_at c (sort_key fst ?t)"
    using t by (intro ext map_of_good_rows) (fastforce simp: pools_ok_def)
  also have "\<dots> = as_pools (bt_abs c db)" by (simp add: bt_abs_def row_at_def sorted fun_eq_iff)
  finally have pools: "map_of (map (\<lambda>s. (bp_pool_id s, abs_row_of s))
      (List.map_filter (good_row c) (sort_key fst ?t))) = as_pools (bt_abs c db)" .
  have "bad_row c x = None" if "x \<in> set ?t" for x
  proof -
    obtain k v where x: "x = (k, v)" by (cases x)
    with that t obtain s where "decode_buyer_record c k v = Inr s" unfolding pools_ok_def by blast
    then show ?thesis by (simp add: bad_row_def x)
  qed
  then have "List.map_filter (bad_row c) (sort_key fst ?t) = []" by (intro map_filter_None) simp
  with pools f show ?thesis by (simp add: load_all_no_faults)
qed

definition signer_lane :: "b256 \<Rightarrow> address \<Rightarrow> address \<Rightarrow> lane_key" where
  "signer_lane pid sg prov = \<lparr>lk_pool_id = pid, lk_signer = sg, lk_provider = prov\<rparr>"

lemma key_provider [simp]: "from_be_bytes (drop 80 (delegate_key dep lane)) = lk_provider lane"
  by (simp add: delegate_key_def delegate_lane_key_def)

lemma collect_delegates_ok:
  assumes "\<forall>(k, v) \<in> set xs. \<exists>prov p. k = delegate_key dep (signer_lane pid sg prov) \<and>
             decode_delegate_lane c (signer_lane pid sg prov) v = Inr p"
  shows "\<exists>ys. collect_delegates c pid sg xs = Inr ys \<and>
              (\<forall>prov. map_of ys prov = delegate_at c xs (dep, signer_lane pid sg prov))"
  using assms
proof (induction xs)
  case (Cons x xs)
  obtain k v where x: "x = (k, v)" by (cases x)
  with Cons.prems obtain q p where q: "k = delegate_key dep (signer_lane pid sg q)"
    "decode_delegate_lane c (signer_lane pid sg q) v = Inr p" by auto
  from Cons obtain ys where ys: "collect_delegates c pid sg xs = Inr ys"
    "\<forall>prov. map_of ys prov = delegate_at c xs (dep, signer_lane pid sg prov)" by auto
  have "collect_delegates c pid sg (x # xs) = Inr ((q, p) # ys)"
    using q ys(1) by (simp add: x Let_def) (simp add: signer_lane_def)
  moreover have "map_of ((q, p) # ys) prov = delegate_at c (x # xs) (dep, signer_lane pid sg prov)" for prov
    using q ys(2) by (auto simp: x delegate_at_def signer_lane_def)
  ultimately show ?case by blast
qed (simp add: delegate_at_def)

lemma map_of_range:
  assumes "distinct (map fst t)" and "lo \<le> k \<and> k \<le> hi"
  shows "map_of (table_range lo hi t) k = map_of t k"
proof -
  have "distinct (map fst (filter (\<lambda>(k, _). lo \<le> k \<and> k \<le> hi) t))"
    using assms(1) by (rule distinct_map_filter)
  then have "map_of (table_range lo hi t) k = map_of (filter (\<lambda>(k, _). lo \<le> k \<and> k \<le> hi) t) k"
    unfolding table_range_def by (simp only: map_of_sort_key)
  also have "\<dots> = map_of t k" using assms(2) by (induction t) auto
  finally show ?thesis .
qed

lemma bt_delegate_lanes_refines:
  assumes inv: "bt_inv f c db"
  shows "\<exists>ys. bt_delegate_lanes f c dep pid sg db = (Inr ys, db) \<and>
              map_of ys = (\<lambda>prov. as_delegates (bt_abs c db) (dep, signer_lane pid sg prov))"
proof -
  let ?t = "rows (db_delegates db)"
  let ?lo = "delegate_lane_key (delegate_signer_prefix dep pid sg) (replicate 20 0)"
  let ?hi = "delegate_lane_key (delegate_signer_prefix dep pid sg) (replicate 20 255)"
  let ?xs = "table_range ?lo ?hi ?t"
  from inv have f: "f = no_faults" and t: "delegates_ok c ?t" by (simp_all add: bt_inv_def)
  have "\<exists>prov p. k = delegate_key dep (signer_lane pid sg prov) \<and>
          decode_delegate_lane c (signer_lane pid sg prov) v = Inr p" if "(k, v) \<in> set ?xs" for k v
  proof -
    from that have "(k, v) \<in> set ?t" "?lo \<le> k \<and> k \<le> ?hi" by (simp_all add: table_range_def)
    moreover from this t obtain on lane p where "k = delegate_key on lane" "decode_delegate_lane c lane v = Inr p"
      unfolding delegates_ok_def by blast
    moreover have "signer_lane (lk_pool_id lane) (lk_signer lane) (lk_provider lane) = lane"
      by (simp add: signer_lane_def)
    ultimately show ?thesis
      by (intro exI [of _ "lk_provider lane"] exI [of _ p]) (auto simp: delegate_in_range)
  qed
  then obtain ys where ys: "collect_delegates c pid sg ?xs = Inr ys"
    "\<forall>prov. map_of ys prov = delegate_at c ?xs (dep, signer_lane pid sg prov)"
    using collect_delegates_ok [of ?xs dep pid sg c] by blast
  have "bt_delegate_lanes f c dep pid sg db = (Inr ys, db)"
  proof (cases "db_delegates db")
    case None
    with ys(1) f show ?thesis by (simp add: bt_delegate_lanes_def table_range_def)
  next
    case (Some u)
    with ys(1) f show ?thesis by (auto simp: bt_delegate_lanes_def Let_def)
  qed
  moreover have "map_of ?xs (delegate_key dep (signer_lane pid sg prov)) =
                 map_of ?t (delegate_key dep (signer_lane pid sg prov))" for prov
    using t by (intro map_of_range) (simp_all only: delegates_ok_def delegate_in_range, simp add: signer_lane_def)
  ultimately show ?thesis using ys(2) by (simp add: bt_abs_def delegate_at_def fun_eq_iff)
qed

lemma bt_write_delegate_refines:
  assumes inv: "bt_inv f c db"
    and new: "new = (case w of DAdvance totals \<Rightarrow> advanced (as_delegates (bt_abs c db) (dep, lane)) totals
                             | DRebase anchor totals \<Rightarrow> Inr (rebased anchor totals))"
  shows "\<exists>db'. bt_write_delegate_lane f c dep lane w db =
                (Inr (case new of Inl e \<Rightarrow> AdvanceRegressed e | Inr _ \<Rightarrow> Advanced), db') \<and>
              bt_inv f c db' \<and>
              bt_abs c db' = (case new of Inl e \<Rightarrow> bt_abs c db
                 | Inr p \<Rightarrow> (bt_abs c db)\<lparr>as_delegates := (as_delegates (bt_abs c db))((dep, lane) \<mapsto> p)\<rparr>)"
proof -
  let ?k = "delegate_key dep lane" and ?t = "rows (db_delegates db)"
  from inv have f: "f = no_faults" and t: "delegates_ok c ?t" and c: "buyer_codec_ok c"
    by (simp_all add: bt_inv_def)
  have "\<exists>p. decode_delegate_lane c lane v = Inr p" if "map_of ?t ?k = Some v" for v
    using t map_of_SomeD [OF that] unfolding delegates_ok_def by (metis delegate_key_inj)
  then have progress: "(case w of DAdvance totals \<Rightarrow> db_call f ''get (delegate)''
        (case map_of ?t ?k of None \<Rightarrow> Inr (advanced None totals)
         | Some v \<Rightarrow> (case decode_delegate_lane c lane v of Inl e \<Rightarrow> Inl e
                     | Inr recorded \<Rightarrow> Inr (advanced (Some recorded) totals)))
      | DRebase anchor totals \<Rightarrow> Inr (Inr (rebased anchor totals))) = (Inr new :: store_error + _)"
    by (auto simp: new f bt_abs_def delegate_at_def split: delegate_write.splits option.splits)
  show ?thesis
  proof (cases new)
    case (Inl e)
    have "bt_write_delegate_lane f c dep lane w db = (Inr (AdvanceRegressed e), db)"
      unfolding bt_write_delegate_lane_def Let_def progress Inl by (simp add: f)
    with inv Inl show ?thesis by simp
  next
    case (Inr p)
    obtain v where v: "encode_delegate_lane c p = Inr v" "decode_delegate_lane c lane v = Inr p"
      using delegate_roundtrip [OF c] .
    then have "bt_write_delegate_lane f c dep lane w db =
        (Inr Advanced, db\<lparr>db_delegates := Some (AList.update ?k v ?t)\<rparr>)"
      unfolding bt_write_delegate_lane_def Let_def progress Inr by (simp add: f)
    with inv Inr delegates_put [OF t v(2), of dep] show ?thesis by (simp add: bt_inv_def bt_abs_def)
  qed
qed

lemma bt_step_lane_write:
  assumes "row_refines pid (outcome_of app) g" and "bt_inv f c db"
    and "bt_step f c db op = reply_as RAdvance (bt_write_lane f c owner pid app db)"
    and "\<And>a. spec_step a op = map_prod AAdvance id (spec_with_row owner pid UnknownPool PoolMismatch g a)"
  shows "\<exists>y. fst (bt_step f c db op) = Inr y \<and> bt_inv f c (snd (bt_step f c db op)) \<and>
             spec_step (bt_abs c db) op = (abs_reply_of y, bt_abs c (snd (bt_step f c db op)))"
  using bt_write_lane_refines [OF assms(1,2), of owner] assms(3,4) by auto

lemma bt_step_refines:
  assumes inv: "bt_inv f c db" and ok: "op_ok op"
  shows "\<exists>y. fst (bt_step f c db op) = Inr y \<and> bt_inv f c (snd (bt_step f c db op)) \<and>
             spec_step (bt_abs c db) op = (abs_reply_of y, bt_abs c (snd (bt_step f c db op)))"
proof -
  from inv have f: "f = no_faults" by (simp add: bt_inv_def)
  note index = owner_index_map [OF inv]
  show ?thesis
  proof (cases op)
    case LoadAll
    with load_all_refines [OF inv] inv show ?thesis by (auto simp: bt_load_all_def)
  next
    case (Record s)
    with ok have "row_ok s" by simp
    from bt_record_refines [OF inv this] obtain db' where "bt_record f c s db = (Inr (), db')" "bt_inv f c db'"
      "spec_step (bt_abs c db) op = (AUnit, bt_abs c db')" by (auto simp: Record)
    then show ?thesis by (simp add: Record)
  next
    case (Forget owner)
    with inv bt_drop_refines [OF inv] index show ?thesis
      by (auto simp: bt_forget_def f Let_def split: option.splits)
  next
    case (ForgetIfPool owner pid)
    with inv bt_drop_refines [OF inv] index show ?thesis
      by (auto simp: bt_forget_if_pool_def f Let_def split: option.splits)
  next
    case (GetByPoolId pid)
    with inv get_row_refines [OF inv, of pid] show ?thesis by (auto simp: bt_get_by_pool_id_def f)
  next
    case (GetByOwner owner)
    show ?thesis
    proof (cases "as_owner (bt_abs c db) owner")
      case None
      with GetByOwner inv index [of owner] show ?thesis
        by (cases "db_owner_index db") (auto simp: bt_get_by_owner_def f)
    next
      case (Some pid)
      with index [of owner] obtain t where t: "db_owner_index db = Some t"
        "map_of t (to_be_bytes 20 owner) = Some (to_be_bytes 32 pid)" by (cases "db_owner_index db") auto
      from get_row_refines [OF inv, of pid] t Some GetByOwner inv show ?thesis
        by (auto simp: bt_get_by_owner_def f)
    qed
  next
    case (AdvanceProgress owner pid lane bytes amount)
    with ok show ?thesis
      by (intro bt_step_lane_write [OF _ inv]) (auto simp: bt_advance_progress_def outcome_of_rows row_refinements)
  next
    case (RebaseProgress owner pid lane anchor totals)
    with ok show ?thesis
      by (intro bt_step_lane_write [OF _ inv]) (auto simp: bt_rebase_progress_def outcome_of_rows row_refinements)
  next
    case (SeedProgress owner pid lane bytes amount)
    with ok show ?thesis
      by (intro bt_step_lane_write [OF _ inv]) (auto simp: bt_seed_progress_def outcome_of_rows row_refinements)
  next
    case (AddDeposit owner pid additional)
    with bt_add_deposit_refines [OF inv, of owner pid additional] show ?thesis by auto
  next
    case (DelegateLanes dep pid sg)
    with bt_delegate_lanes_refines [OF inv, of dep pid sg] inv show ?thesis by (auto simp: signer_lane_def)
  next
    case (AdvanceDelegate dep lane totals)
    with bt_write_delegate_refines [OF inv refl, of dep lane "DAdvance totals"] show ?thesis
      by (auto simp: bt_advance_delegate_def split: sum.splits)
  next
    case (RebaseDelegate dep lane anchor totals)
    with bt_write_delegate_refines [OF inv refl, of dep lane "DRebase anchor totals"] show ?thesis
      by (auto simp: bt_rebase_delegate_def)
  next
    case (LaneSalt random)
    with inv show ?thesis
      by (auto simp: bt_lane_salt_def read_lane_salt_def f bt_inv_def bt_abs_def salt_at_def
          split: option.splits)
  qed
qed

interpretation tab: buyer_store "bt_step f c" "bt_inv f c" "bt_abs c" for f c
  by unfold_locales (rule bt_step_refines)

subsection \<open>Failed calls\<close>

text \<open>
  A transaction body with failing calls either ends in an error or computes what it computes when
  no call fails.
\<close>

definition faulty :: "store_error + 'a \<Rightarrow> store_error + 'a \<Rightarrow> bool" where
  "faulty x y \<longleftrightarrow> (\<exists>e. x = Inl e) \<or> x = y"

named_theorems faulty_intros \<open>how failing calls propagate through a transaction body\<close>

lemma faulty_refl [faulty_intros]: "faulty x x"
  by (simp add: faulty_def)

lemma faulty_call [faulty_intros]: "faulty x y \<Longrightarrow> faulty (db_call f what x) (db_call no_faults what y)"
  by (auto simp: faulty_def db_call_def no_faults_def split: option.splits)

lemma faulty_begin [faulty_intros]:
  "faulty x y \<Longrightarrow> faulty (begin_durable_write f x) (begin_durable_write no_faults y)"
  unfolding begin_durable_write_def by (intro faulty_call)

lemma faulty_option [faulty_intros]:
  "faulty a a' \<Longrightarrow> (\<And>y. faulty (b y) (b' y)) \<Longrightarrow> faulty (case_option a b x) (case_option a' b' x)"
  by (cases x) auto

lemma faulty_sum [faulty_intros]:
  "(\<And>y. faulty (a y) (a' y)) \<Longrightarrow> (\<And>y. faulty (b y) (b' y)) \<Longrightarrow> faulty (case_sum a b x) (case_sum a' b' x)"
  by (cases x) auto

lemma faulty_sum_arg:
  "faulty x y \<Longrightarrow> (\<And>z. faulty (b z) (b' z)) \<Longrightarrow> faulty (case_sum Inl b x) (case_sum Inl b' y)"
  by (cases x; cases y) (auto simp: faulty_def)

lemma faulty_if [faulty_intros]: "faulty a a' \<Longrightarrow> faulty b b' \<Longrightarrow> faulty (if P then a else b) (if P then a' else b')"
  by simp

lemma faulty_write_txn:
  "faulty x y \<Longrightarrow> write_txn db x = write_txn db y \<or> (\<exists>e. write_txn db x = (Inl e, db))"
  by (auto simp: faulty_def write_txn_def)

lemma faulty_read: "faulty x y \<Longrightarrow> (x, db) = (y, db) \<or> (\<exists>e. (x, db) = (Inl e, db))"
  by (auto simp: faulty_def)

lemma faulty_reply:
  "x = y \<or> (\<exists>e. x = (Inl e, db)) \<Longrightarrow>
   reply_as mk x = reply_as mk y \<or> (\<exists>e. reply_as mk x = (Inl e, db))"
  by (auto simp: reply_as_def)

lemma faulty_load: "faulty (load_all_from f c db) (load_all_from no_faults c db)"
  unfolding load_all_from_def Let_def by (intro faulty_intros)

lemma faulty_get_row: "faulty (get_row f c k db) (get_row no_faults c k db)"
  unfolding get_row_def by (intro faulty_intros)

lemma faulty_write_lane:
  "bt_write_lane f c owner pid app db = bt_write_lane no_faults c owner pid app db \<or>
   (\<exists>e. bt_write_lane f c owner pid app db = (Inl e, db))"
  unfolding bt_write_lane_def Let_def by (intro faulty_write_txn faulty_intros)

lemma faulty_delegate:
  "bt_write_delegate_lane f c dep lane w db = bt_write_delegate_lane no_faults c dep lane w db \<or>
   (\<exists>e. bt_write_delegate_lane f c dep lane w db = (Inl e, db))"
  unfolding bt_write_delegate_lane_def Let_def
proof (intro faulty_write_txn faulty_begin faulty_call, rule faulty_sum_arg)
  show "faulty (case w of DAdvance totals \<Rightarrow> db_call f ''get (delegate)''
          (case map_of (rows (db_delegates db)) (delegate_key dep lane) of
             None \<Rightarrow> Inr (advanced None totals)
           | Some v \<Rightarrow> (case decode_delegate_lane c lane v of
                         Inl e \<Rightarrow> Inl e | Inr recorded \<Rightarrow> Inr (advanced (Some recorded) totals)))
        | DRebase anchor totals \<Rightarrow> Inr (Inr (rebased anchor totals)))
        (case w of DAdvance totals \<Rightarrow> db_call no_faults ''get (delegate)''
          (case map_of (rows (db_delegates db)) (delegate_key dep lane) of
             None \<Rightarrow> Inr (advanced None totals)
           | Some v \<Rightarrow> (case decode_delegate_lane c lane v of
                         Inl e \<Rightarrow> Inl e | Inr recorded \<Rightarrow> Inr (advanced (Some recorded) totals)))
        | DRebase anchor totals \<Rightarrow> Inr (Inr (rebased anchor totals)))"
    by (cases w) (simp_all only: delegate_write.case faulty_call faulty_refl)
qed (intro faulty_intros)

lemma faulty_salt:
  "bt_lane_salt f random db = bt_lane_salt no_faults random db \<or>
   (\<exists>e. bt_lane_salt f random db = (Inl e, db))"
proof (cases "read_lane_salt f db")
  case (Inl e)
  then show ?thesis by (simp add: bt_lane_salt_def)
next
  case (Inr r)
  then have clean: "read_lane_salt no_faults db = Inr r"
    by (auto simp: read_lane_salt_def db_call_def no_faults_def split: option.splits)
  show ?thesis
  proof (cases r)
    case None
    show ?thesis unfolding bt_lane_salt_def Inr clean None sum.case option.case
      by (intro faulty_write_txn faulty_intros)
  qed (simp add: bt_lane_salt_def Inr clean)
qed

lemma bt_step_faulty:
  "bt_step f c db op = bt_step no_faults c db op \<or> (\<exists>e. bt_step f c db op = (Inl e, db))"
proof (cases op)
  case LoadAll
  then show ?thesis using faulty_load by (auto simp: bt_load_all_def intro!: faulty_reply faulty_read)
next
  case (Record s)
  then show ?thesis unfolding Record bt_step.simps bt_record_def Let_def
    by (intro faulty_reply faulty_write_txn faulty_intros)
next
  case (Forget owner)
  then show ?thesis unfolding Forget bt_step.simps bt_forget_def Let_def
    by (intro faulty_reply faulty_write_txn faulty_intros)
next
  case (ForgetIfPool owner pid)
  then show ?thesis unfolding ForgetIfPool bt_step.simps bt_forget_if_pool_def Let_def
    by (intro faulty_reply faulty_write_txn faulty_intros)
next
  case (GetByPoolId pid)
  then show ?thesis unfolding GetByPoolId bt_step.simps bt_get_by_pool_id_def
    by (intro faulty_reply faulty_read faulty_call faulty_get_row)
next
  case (GetByOwner owner)
  then show ?thesis unfolding GetByOwner bt_step.simps bt_get_by_owner_def
    by (intro faulty_reply faulty_read faulty_call faulty_option faulty_refl faulty_get_row)
next
  case (AdvanceProgress owner pid lane bytes amount)
  then show ?thesis by (simp only: bt_step.simps bt_advance_progress_def) (intro faulty_reply faulty_write_lane)
next
  case (RebaseProgress owner pid lane anchor totals)
  then show ?thesis by (simp only: bt_step.simps bt_rebase_progress_def) (intro faulty_reply faulty_write_lane)
next
  case (SeedProgress owner pid lane bytes amount)
  then show ?thesis by (simp only: bt_step.simps bt_seed_progress_def) (intro faulty_reply faulty_write_lane)
next
  case (AddDeposit owner pid additional)
  then show ?thesis unfolding AddDeposit bt_step.simps bt_add_deposit_def Let_def
    by (intro faulty_reply faulty_write_txn faulty_intros)
next
  case (DelegateLanes dep pid sg)
  then show ?thesis unfolding DelegateLanes bt_step.simps bt_delegate_lanes_def Let_def
    by (intro faulty_reply faulty_read faulty_intros)
next
  case (AdvanceDelegate dep lane totals)
  then show ?thesis by (simp only: bt_step.simps bt_advance_delegate_def) (intro faulty_reply faulty_delegate)
next
  case (RebaseDelegate dep lane anchor totals)
  then show ?thesis by (simp only: bt_step.simps bt_rebase_delegate_def) (intro faulty_reply faulty_delegate)
next
  case (LaneSalt random)
  then show ?thesis by (simp only: bt_step.simps) (intro faulty_reply faulty_salt)
qed

subsection \<open>A codec that reads back what it writes\<close>

text \<open>
  A concrete codec that satisfies \<open>buyer_codec_ok\<close>, so the hypotheses of the properties below can
  hold: each field is written byte by byte behind a one, and ends with a zero.
\<close>

fun esc :: "u8 list \<Rightarrow> u8 list" where
  "esc [] = [0]"
| "esc (b # bs) = 1 # b # esc bs"

fun split_fields :: "u8 list \<Rightarrow> u8 list \<Rightarrow> u8 list list" where
  "split_fields acc [] = []"
| "split_fields acc [x] = [acc]"
| "split_fields acc (x # b # bs) =
     (if x = 0 then acc # split_fields [] (b # bs) else split_fields (acc @ [b]) bs)"

lemma esc_not_Nil [simp]: "esc bs \<noteq> []"
  by (cases bs) auto

lemma split_fields_zero: "split_fields acc (0 # rest) = acc # split_fields [] rest"
  by (cases rest) auto

lemma split_fields_esc: "split_fields acc (esc bs @ rest) = (acc @ bs) # split_fields [] rest"
  by (induction bs arbitrary: acc) (auto simp: split_fields_zero)

lemma split_fields_concat: "split_fields [] (concat (map esc fs)) = fs"
  by (induction fs) (auto simp: split_fields_esc)

fun lane_fields :: "stored_buyer_lane list \<Rightarrow> u8 list list" where
  "lane_fields [] = []"
| "lane_fields (l # ls) = sb_signer l # sb_provider l # sb_last_amount l # sb_last_bytes l # lane_fields ls"

fun lanes_of :: "u8 list list \<Rightarrow> stored_buyer_lane list" where
  "lanes_of (a # b # c # d # rest) =
     \<lparr>sb_signer = a, sb_provider = b, sb_last_amount = c, sb_last_bytes = d\<rparr> # lanes_of rest"
| "lanes_of _ = []"

lemma lanes_of_fields [simp]: "lanes_of (lane_fields ls) = ls"
  by (induction ls) auto

definition demo_codec :: buyer_codec where
  "demo_codec =
     \<lparr>pc_encode = (\<lambda>r. Inr (concat (map esc
        ([to_be_bytes 4 (sp_schema_version r), sp_pool_id r, sp_chain_id r, sp_payment_pool r, sp_owner r,
          sp_token r, sp_deposit r, sp_redeemed_elsewhere r] @ lane_fields (sp_lanes r))))),
      pc_take = (\<lambda>bytes. case split_fields [] bytes of
          a # b # c # d # e # f # g # h # rest \<Rightarrow>
            Inr (\<lparr>sp_schema_version = from_be_bytes a, sp_pool_id = b, sp_chain_id = c, sp_payment_pool = d,
                  sp_owner = e, sp_token = f, sp_deposit = g, sp_lanes = lanes_of rest,
                  sp_redeemed_elsewhere = h\<rparr>, [])
        | _ \<Rightarrow> Inl ''short record''),
      pc_encode_lane = (\<lambda>r. Inr (concat (map esc
        [to_be_bytes 4 (sd_schema_version r), sd_last_amount r, sd_last_bytes r]))),
      pc_take_lane = (\<lambda>bytes. case split_fields [] bytes of
          [a, b, c] \<Rightarrow> Inr (\<lparr>sd_schema_version = from_be_bytes a, sd_last_amount = b, sd_last_bytes = c\<rparr>, [])
        | _ \<Rightarrow> Inl ''short record''),
      show_pool_id = (\<lambda>_. ''pool''), show_address = (\<lambda>_. ''address'')\<rparr>"

lemma be_4 [simp]: "from_be_bytes (to_be_bytes 4 (w :: u32)) = w"
  by (simp add: from_to_be_bytes)

lemma demo_codec_ok: "buyer_codec_ok demo_codec"
  unfolding buyer_codec_ok_def
proof (intro conjI allI)
  fix r :: stored_buyer_pool
  have "split_fields [] (concat (map esc
        ([to_be_bytes 4 (sp_schema_version r), sp_pool_id r, sp_chain_id r, sp_payment_pool r, sp_owner r,
          sp_token r, sp_deposit r, sp_redeemed_elsewhere r] @ lane_fields (sp_lanes r)))) =
        [to_be_bytes 4 (sp_schema_version r), sp_pool_id r, sp_chain_id r, sp_payment_pool r, sp_owner r,
          sp_token r, sp_deposit r, sp_redeemed_elsewhere r] @ lane_fields (sp_lanes r)"
    by (rule split_fields_concat)
  then show "\<exists>bytes. pc_encode demo_codec r = Inr bytes \<and> pc_take demo_codec bytes = Inr (r, [])"
    by (simp add: demo_codec_def)
next
  fix r :: stored_delegate_lane
  have "split_fields [] (concat (map esc [to_be_bytes 4 (sd_schema_version r), sd_last_amount r, sd_last_bytes r])) =
        [to_be_bytes 4 (sd_schema_version r), sd_last_amount r, sd_last_bytes r]"
    by (rule split_fields_concat)
  then show "\<exists>bytes. pc_encode_lane demo_codec r = Inr bytes \<and> pc_take_lane demo_codec bytes = Inr (r, [])"
    by (simp add: demo_codec_def)
qed

subsection \<open>Properties\<close>

definition fresh_db :: buyer_db where
  "fresh_db = \<lparr>db_pools = None, db_owner_index = None, db_delegates = None, db_lane_salt = None\<rparr>"

lemma fresh_db_inv: "buyer_codec_ok c \<Longrightarrow> bt_inv no_faults c fresh_db"
  by (simp add: bt_inv_def fresh_db_def pools_ok_def owners_ok_def delegates_ok_def)

lemma fresh_abs: "bt_abs c fresh_db = bm_abs MemoryBuyerPoolStore_new"
  by (simp add: bt_abs_def bm_abs_def fresh_db_def MemoryBuyerPoolStore_new_def row_at_def owner_at_def
      delegate_at_def salt_at_def fun_eq_iff)

lemma fresh_mem_inv: "bm_inv MemoryBuyerPoolStore_new"
  by (simp add: bm_inv_def MemoryBuyerPoolStore_new_def)

text \<open>A history of a database file: each operation with the failures its database calls meet.\<close>

fun bt_history :: "buyer_codec \<Rightarrow> buyer_db \<Rightarrow> (faults \<times> buyer_op) list \<Rightarrow> buyer_db" where
  "bt_history c db [] = db"
| "bt_history c db ((f, op) # ops) = bt_history c (snd (bt_step f c db op)) ops"

lemma bt_step_any_inv:
  assumes "bt_inv no_faults c db" and "op_ok op"
  shows "bt_inv no_faults c (snd (bt_step f c db op))"
  using bt_step_refines [OF assms] bt_step_faulty [of f c db op] assms(1) by auto

lemma bt_history_inv:
  "bt_inv no_faults c db \<Longrightarrow> list_all (op_ok \<circ> snd) ops \<Longrightarrow> bt_inv no_faults c (bt_history c db ops)"
  by (induction c db ops rule: bt_history.induct) (auto intro: bt_step_any_inv)

lemma bt_step_any_lane_at:
  assumes "bt_inv no_faults c db" and "op_ok op" and "lane_at (bt_abs c db) pid lane = Some p"
    and "\<not> overwrites pid lane op"
  shows "at_least p (lane_at (bt_abs c (snd (bt_step f c db op))) pid lane)"
  using bt_step_refines [OF assms(1,2)] spec_step_lane_at [OF _ assms(3,4)] bt_step_faulty [of f c db op] assms(3)
  by auto

lemma bt_history_lane_at:
  assumes "bt_inv no_faults c db" and "list_all (op_ok \<circ> snd) ops" and "lane_at (bt_abs c db) pid lane = Some p"
    and "list_all (\<lambda>x. \<not> overwrites pid lane (snd x)) ops"
  shows "at_least p (lane_at (bt_abs c (bt_history c db ops)) pid lane)"
  using assms
proof (induction c db ops arbitrary: p rule: bt_history.induct)
  case (2 c db f op ops)
  then have inv: "bt_inv no_faults c (snd (bt_step f c db op))" by (auto intro: bt_step_any_inv)
  from 2 have "at_least p (lane_at (bt_abs c (snd (bt_step f c db op))) pid lane)"
    by (auto intro: bt_step_any_lane_at)
  then obtain q where q: "lane_at (bt_abs c (snd (bt_step f c db op))) pid lane = Some q" "at_least p (Some q)"
    by (auto simp: at_least_def)
  with "2.IH" [OF inv _ q(1)] "2.prems" show ?case by (auto intro: at_least_trans)
qed simp

lemma bt_history_append: "bt_history c db (xs @ ys) = bt_history c (bt_history c db xs) ys"
  by (induction c db xs rule: bt_history.induct) auto

lemma bt_history_clean:
  "bt_history c db (map (Pair no_faults) ops) = snd (store_run (bt_step no_faults c) db ops)"
  by (induction ops arbitrary: db) (auto split: prod.splits)

lemma clean_history_abs:
  assumes "buyer_codec_ok c" and "list_all op_ok ops"
  shows "bt_abs c (bt_history c fresh_db (map (Pair no_faults) ops)) =
           snd (spec_run (bm_abs MemoryBuyerPoolStore_new) ops)"
  using tab.run_refines [OF fresh_db_inv [OF assms(1)] assms(2)]
  by (auto simp: bt_history_clean fresh_abs)

definition demo_lane :: lane_key where
  "demo_lane = \<lparr>lk_pool_id = 7, lk_signer = 1, lk_provider = 2\<rparr>"

definition demo_row :: buyer_pool_state where
  "demo_row = buyer_new 7 \<lparr>chain_id = 1, payment_pool = 9\<rparr> 1 5 1000"

definition demo_before :: "buyer_op list" where
  "demo_before = [Record demo_row, AdvanceProgress 1 7 demo_lane 4096 50]"

definition demo_after :: "buyer_op list" where
  "demo_after = [AdvanceProgress 1 7 demo_lane 4096 40, AddDeposit 1 7 500,
     AdvanceProgress 1 7 demo_lane 8192 90, GetByOwner 1]"

lemmas demo_defs = demo_before_def demo_after_def demo_row_def demo_lane_def buyer_new_def

lemma demo_ops_ok: "list_all op_ok (demo_before @ demo_after)" "list_all op_ok demo_before"
  by (simp_all add: demo_defs row_ok_def)

text \<open>
  C27. The disk-backed table is a refinement of the same specification as the in-memory store:
  while the database does not fail, from empty stores, every sequence of operations gets the same
  replies from both, up to the order of lanes and rows, and never an error. The operations are
  those the callers make: a recorded row has distinct lanes of its own pool, a lane is advanced,
  rebased or seeded under its own pool, and a drawn salt is 32 bytes long.
\<close>

theorem table_agrees_with_memory:
  assumes "buyer_codec_ok c" and "list_all op_ok ops"
  shows "\<exists>ys zs. fst (store_run (bt_step no_faults c) fresh_db ops) = map Inr ys \<and>
                 fst (store_run bm_step MemoryBuyerPoolStore_new ops) = map Inr zs \<and>
                 map abs_reply_of ys = map abs_reply_of zs"
  using tab.run_refines [OF fresh_db_inv [OF assms(1)] assms(2)] mem.run_refines [OF fresh_mem_inv assms(2)]
  by (auto simp: fresh_abs)

theorem table_agrees_with_memory_witness:
  "\<exists>ys. fst (store_run (bt_step no_faults demo_codec) fresh_db (demo_before @ demo_after)) = map Inr ys \<and>
        map abs_reply_of ys =
          [AUnit, AAdvance Advanced, AAdvance (AdvanceRegressed (Regressed ''amount'' 50 40)),
           ADeposit (Added 1500), AAdvance Advanced,
           APool (Some \<lparr>ar_pool_id = 7, ar_deployment = \<lparr>chain_id = 1, payment_pool = 9\<rparr>, ar_owner = 1,
                        ar_token = 5, ar_deposit = 1500,
                        ar_lanes = [demo_lane \<mapsto> \<lparr>bl_last_amount = 90, bl_last_bytes = 8192\<rparr>],
                        ar_elsewhere = 0\<rparr>)]"
proof -
  have "fst (store_run bm_step MemoryBuyerPoolStore_new (demo_before @ demo_after)) = map Inr zs \<Longrightarrow>
        map abs_reply_of zs =
          [AUnit, AAdvance Advanced, AAdvance (AdvanceRegressed (Regressed ''amount'' 50 40)),
           ADeposit (Added 1500), AAdvance Advanced,
           APool (Some \<lparr>ar_pool_id = 7, ar_deployment = \<lparr>chain_id = 1, payment_pool = 9\<rparr>, ar_owner = 1,
                        ar_token = 5, ar_deposit = 1500,
                        ar_lanes = [demo_lane \<mapsto> \<lparr>bl_last_amount = 90, bl_last_bytes = 8192\<rparr>],
                        ar_elsewhere = 0\<rparr>)]" for zs
    using mem.run_refines [OF fresh_mem_inv demo_ops_ok(1)]
    by (auto simp: demo_defs bm_abs_def MemoryBuyerPoolStore_new_def spec_with_row_def spec_advance_def
        spec_deposit_def advanced_def abs_row_of_def Let_def sat_add_def)
  with table_agrees_with_memory [OF demo_codec_ok demo_ops_ok(1)] show ?thesis by metis
qed

text \<open>
  Whatever database call fails and wherever, an operation on the table either behaves as
  if nothing had failed or returns an error with the file unchanged.
\<close>

theorem faults_leave_file_unchanged:
  "bt_step f c db op = bt_step no_faults c db op \<or> (\<exists>e. bt_step f c db op = (Inl e, db))"
  by (rule bt_step_faulty)

text \<open>
  C28. The committed totals of a lane never fall, through any history of operations and
  failures, unless the row is recorded anew or forgotten or the lane is rebased.
\<close>

theorem committed_watermark_never_falls:
  assumes "buyer_codec_ok c" and "list_all (op_ok \<circ> snd) (before @ after)"
    and "lane_at (bt_abs c (bt_history c fresh_db before)) pid lane = Some p"
    and "list_all (\<lambda>x. \<not> overwrites pid lane (snd x)) after"
  shows "\<exists>q. lane_at (bt_abs c (bt_history c fresh_db (before @ after))) pid lane = Some q \<and>
             bl_last_amount p \<le> bl_last_amount q \<and> bl_last_bytes p \<le> bl_last_bytes q"
proof -
  from assms(2) have ok: "list_all (op_ok \<circ> snd) before" "list_all (op_ok \<circ> snd) after" by simp_all
  have "bt_inv no_faults c (bt_history c fresh_db before)"
    by (rule bt_history_inv [OF fresh_db_inv [OF assms(1)] ok(1)])
  from bt_history_lane_at [OF this ok(2) assms(3,4)] show ?thesis
    by (auto simp: bt_history_append at_least_def)
qed

theorem committed_watermark_never_falls_witness:
  "\<exists>q. lane_at (bt_abs demo_codec (bt_history demo_codec fresh_db
          (map (Pair no_faults) demo_before @ map (Pair no_faults) demo_after))) 7 demo_lane = Some q \<and>
       50 \<le> bl_last_amount q \<and> 4096 \<le> bl_last_bytes q"
proof -
  have ok: "list_all (op_ok \<circ> snd) (map (Pair no_faults) demo_before @ map (Pair no_faults) demo_after)"
    using demo_ops_ok(1) by (simp add: list.pred_map comp_def)
  have lane: "lane_at (bt_abs demo_codec (bt_history demo_codec fresh_db (map (Pair no_faults) demo_before)))
      7 demo_lane = Some \<lparr>bl_last_amount = 50, bl_last_bytes = 4096\<rparr>"
    unfolding clean_history_abs [OF demo_codec_ok demo_ops_ok(2)]
    by (simp add: demo_defs lane_at_def bm_abs_def MemoryBuyerPoolStore_new_def spec_with_row_def
        spec_advance_def advanced_def abs_row_of_def)
  have "list_all (\<lambda>x. \<not> overwrites 7 demo_lane (snd x)) (map (Pair no_faults) demo_after)"
    by (simp add: demo_after_def)
  from committed_watermark_never_falls [OF demo_codec_ok ok lane this] show ?thesis by simp
qed

text \<open>
  C29. In every file the operations can produce, each row decodes, under a key that is the
  row's own pool id, to a state whose lanes are distinct and belong to that pool.
\<close>

theorem stored_rows_wellformed:
  assumes "buyer_codec_ok c" and "list_all (op_ok \<circ> snd) ops"
    and "(k, v) \<in> set (rows (db_pools (bt_history c fresh_db ops)))"
  shows "\<exists>s. decode_buyer_record c k v = Inr s \<and> k = to_be_bytes 32 (bp_pool_id s) \<and> row_ok s"
  using bt_history_inv [OF fresh_db_inv [OF assms(1)] assms(2)] assms(3)
  unfolding bt_inv_def pools_ok_def by blast

theorem stored_rows_wellformed_witness:
  "\<exists>v s. rows (db_pools (bt_history demo_codec fresh_db [(no_faults, Record demo_row)])) =
           [(to_be_bytes 32 (7 :: u256), v)] \<and>
         decode_buyer_record demo_codec (to_be_bytes 32 (7 :: u256)) v = Inr s \<and> bp_pool_id s = 7 \<and> row_ok s"
proof -
  obtain v where v: "encode_buyer_record demo_codec demo_row = Inr v"
    by (simp add: encode_buyer_record_def demo_codec_def)
  then have db: "rows (db_pools (bt_history demo_codec fresh_db [(no_faults, Record demo_row)])) =
      [(to_be_bytes 32 (7 :: u256), v)]"
    by (simp add: bt_record_def fresh_db_def Let_def demo_row_def buyer_new_def)
  have "list_all (op_ok \<circ> snd) [(no_faults, Record demo_row)]" using demo_ops_ok(2) by (simp add: demo_before_def)
  from stored_rows_wellformed [OF demo_codec_ok this, of "to_be_bytes 32 (7 :: u256)" v] db show ?thesis by auto
qed

lemma set_map_filter: "set (List.map_filter g xs) = {y. \<exists>x. x \<in> set xs \<and> g x = Some y}"
  by (induction xs) (auto simp: map_filter_simps split: option.splits)

lemma good_row_Some: "good_row c x = Some s \<longleftrightarrow> decode_buyer_record c (fst x) (snd x) = Inr s"
  by (auto simp: good_row_def split: sum.splits)

lemma bad_row_Some:
  "bad_row c x = Some pid \<longleftrightarrow>
     pid = from_be_bytes (fst x) \<and> (\<exists>e. decode_buyer_record c (fst x) (snd x) = Inl e)"
  by (auto simp: bad_row_def split: sum.splits)

text \<open>
  Loading a file with damaged rows returns every row that decodes and names every row that does
  not, whatever the other rows hold.
\<close>

theorem load_all_partitions_rows:
  "\<exists>ld. load_all_from no_faults c db = Inr ld \<and>
        set (ld_pools ld) = {s. \<exists>k v. (k, v) \<in> set (rows (db_pools db)) \<and> decode_buyer_record c k v = Inr s} \<and>
        set (ld_skipped ld) =
          {pid. \<exists>k v e. pid = from_be_bytes k \<and> (k, v) \<in> set (rows (db_pools db)) \<and>
                         decode_buyer_record c k v = Inl e}"
  by (auto simp: load_all_no_faults set_map_filter good_row_Some bad_row_Some)

end
