(* ===== verification/Buyer_Reconcile.thy ===== *)
theory Buyer_Reconcile
  imports Buyer_Pool_Table
begin

text \<open>
  How the node's buyer keeps its one pool in step with the chain
  (\<open>src/crates/node/src/buyer_pool.rs\<close>, with the enumeration of an owner's pools in
  \<open>src/crates/incentive/src/payment_pool.rs\<close>): adopting a pool the store forgot, dropping a
  row that is foreign or closed, opening or replacing a pool, and the reclaim sweep.

  The store is the record \<open>buyer_iface\<close> of the operations the code calls through its trait
  object; both stores of \<open>Buyer_Pool\<close> and \<open>Buyer_Pool_Table\<close> are instances. What the chain
  answers is the record \<open>chain_view\<close>: every read may fail. Log lines are left out; the metric
  counts that tell failures apart and the transactions sent are returned as events.
\<close>

subsection \<open>The chain and the store\<close>

datatype pool_status = Open | Closing | Closed

record chain_pool =
  cp_owner :: address
  cp_status :: pool_status
  cp_disputeDeadline :: u64
  cp_deposit :: u64
  cp_totalRedeemed :: u64

datatype reclaim_send =
    ReclaimMined bool
  | ReclaimReceiptUnread
  | ReclaimMaybeSent
  | ReclaimSendFailed

record chain_view =
  cv_get_pools :: "u64 \<Rightarrow> string + b256 list"
  cv_get_pool :: "b256 \<Rightarrow> string + chain_pool"
  cv_head_timestamp :: "string + u64"
  cv_reclaim :: "b256 \<Rightarrow> reclaim_send"

record 'st buyer_iface =
  bi_get_by_owner :: "address \<Rightarrow> 'st \<Rightarrow> (store_error + buyer_pool_state option) \<times> 'st"
  bi_record :: "buyer_pool_state \<Rightarrow> 'st \<Rightarrow> (store_error + unit) \<times> 'st"
  bi_forget_if_pool :: "address \<Rightarrow> b256 \<Rightarrow> 'st \<Rightarrow> (store_error + bool) \<times> 'st"

definition table_iface :: "faults \<Rightarrow> buyer_codec \<Rightarrow> buyer_db buyer_iface" where
  "table_iface f c =
     \<lparr>bi_get_by_owner = bt_get_by_owner f c, bi_record = bt_record f c,
      bi_forget_if_pool = bt_forget_if_pool f\<rparr>"

definition mem_iface :: "buyer_mem buyer_iface" where
  "mem_iface =
     \<lparr>bi_get_by_owner = bm_get_by_owner, bi_record = bm_record, bi_forget_if_pool = bm_forget_if_pool\<rparr>"

subsection \<open>The pools an owner holds\<close>

definition OWNED_POOLS_PAGE :: nat where
  "OWNED_POOLS_PAGE = 256"

text \<open>
  One page per round; a short page ends the walk. A contract that always answers full pages
  would keep the loop going, so the walk has fuel and \<open>None\<close> is a walk that has not ended.
\<close>

fun enumerate_pages ::
  "nat \<Rightarrow> (u64 \<Rightarrow> string + b256 list) \<Rightarrow> u64 \<Rightarrow> b256 list \<Rightarrow> (string + b256 list) option" where
  "enumerate_pages 0 get offset ids = None"
| "enumerate_pages (Suc fuel) get offset ids =
     (case get offset of
        Inl err \<Rightarrow> Some (Inl (''getPools(offset='' @ show_nat (unat offset) @ '') failed: '' @ err))
      | Inr page \<Rightarrow>
          (let ids = ids @ page in
           if length page < OWNED_POOLS_PAGE then Some (Inr ids)
           else enumerate_pages fuel get (sat_add offset (of_nat (length page))) ids))"

definition enumerate_owned_pools_at :: "nat \<Rightarrow> chain_view \<Rightarrow> (string + b256 list) option" where
  "enumerate_owned_pools_at fuel cv = enumerate_pages fuel (cv_get_pools cv) 0 []"

record owned_pools =
  op_read :: "(b256 \<times> chain_pool) list"
  op_unreadable :: "b256 list"

definition walk_step :: "chain_view \<Rightarrow> b256 \<Rightarrow> owned_pools \<Rightarrow> owned_pools" where
  "walk_step cv pid pools =
     (case cv_get_pool cv pid of
        Inr pool \<Rightarrow> pools\<lparr>op_read := op_read pools @ [(pid, pool)]\<rparr>
      | Inl err \<Rightarrow> pools\<lparr>op_unreadable := op_unreadable pools @ [pid]\<rparr>)"

definition OwnedPools_walk :: "chain_view \<Rightarrow> b256 list \<Rightarrow> owned_pools" where
  "OwnedPools_walk cv ids = fold (walk_step cv) (rev ids) \<lparr>op_read = [], op_unreadable = []\<rparr>"

datatype tracked_status = TrackedOpen | TrackedNotOpen | TrackedUnknown

definition tracked_status_of :: "owned_pools \<Rightarrow> b256 \<Rightarrow> tracked_status" where
  "tracked_status_of pools pid =
     (case List.find (\<lambda>(i, _). i = pid) (op_read pools) of
        None \<Rightarrow> TrackedUnknown
      | Some (_, pool) \<Rightarrow> if cp_status pool = Open then TrackedOpen else TrackedNotOpen)"

definition open_pools :: "owned_pools \<Rightarrow> (b256 \<times> chain_pool) list" where
  "open_pools pools = filter (\<lambda>(_, pool). cp_status pool = Open) (op_read pools)"

definition newest_solvent :: "owned_pools \<Rightarrow> (b256 \<times> chain_pool) option" where
  "newest_solvent pools = List.find (\<lambda>(_, pool). cp_totalRedeemed pool < cp_deposit pool) (open_pools pools)"

definition recoverable_beside :: "owned_pools \<Rightarrow> b256 \<Rightarrow> b256 list" where
  "recoverable_beside pools in_use =
     map fst (filter (\<lambda>(i, pool). i \<noteq> in_use \<and> cp_totalRedeemed pool < cp_deposit pool) (open_pools pools))"

text \<open>The strict variant the client uses: a failed read of a newer pool stops the search.\<close>

fun newest_solvent_in :: "chain_view \<Rightarrow> b256 list \<Rightarrow> string + (b256 \<times> chain_pool) option" where
  "newest_solvent_in cv [] = Inr None"
| "newest_solvent_in cv (pid # ids) =
     (case cv_get_pool cv pid of
        Inl err \<Rightarrow> Inl err
      | Inr pool \<Rightarrow>
          if cp_status pool = Open \<and> cp_totalRedeemed pool < cp_deposit pool then Inr (Some (pid, pool))
          else newest_solvent_in cv ids)"

definition newest_solvent_owned_pool ::
  "nat \<Rightarrow> chain_view \<Rightarrow> (string + (b256 \<times> chain_pool) option) option" where
  "newest_solvent_owned_pool fuel cv =
     (case enumerate_owned_pools_at fuel cv of
        None \<Rightarrow> None
      | Some (Inl err) \<Rightarrow> Some (Inl err)
      | Some (Inr ids) \<Rightarrow> Some (newest_solvent_in cv (rev ids)))"

subsection \<open>Reconciliation\<close>

datatype adoption_check =
    Applies
  | Foreign b256 deployment
  | AlreadyTracked b256
  | CheckUnknown

datatype reconciled =
    Adopted b256
  | KeptTracked
  | NoneHeld
  | ReconcileUnknown
  | Unrecorded b256

datatype tracked_outcome =
    TrackedKeep
  | TrackedUndecided
  | TrackedReplace "(b256 \<times> chain_pool) option"

datatype reconcile_event = AdoptionFailure | Stranded "b256 list" nat

definition adoption_applies ::
  "'st buyer_iface \<Rightarrow> address \<Rightarrow> deployment \<Rightarrow> 'st \<Rightarrow> adoption_check \<times> 'st" where
  "adoption_applies I owner dep st =
     (case bi_get_by_owner I owner st of
        (Inr None, st') \<Rightarrow> (Applies, st')
      | (Inr (Some state), st') \<Rightarrow>
          (if \<not> is_on state dep then Foreign (bp_pool_id state) (bp_deployment state)
           else AlreadyTracked (bp_pool_id state), st')
      | (Inl err, st') \<Rightarrow> (CheckUnknown, st'))"

definition drop_row :: "'st buyer_iface \<Rightarrow> address \<Rightarrow> b256 \<Rightarrow> 'st \<Rightarrow> bool \<times> 'st" where
  "drop_row I owner pid st =
     (case bi_forget_if_pool I owner pid st of
        (Inl err, st') \<Rightarrow> (False, st')
      | (Inr _, st') \<Rightarrow> (True, st'))"

definition report_stranded_pools :: "b256 list \<Rightarrow> nat \<Rightarrow> reconcile_event list" where
  "report_stranded_pools stranded unreadable =
     (if stranded = [] \<and> unreadable = 0 then [] else [Stranded stranded unreadable])"

definition reconcile_tracked ::
  "'st buyer_iface \<Rightarrow> owned_pools \<Rightarrow> address \<Rightarrow> b256 \<Rightarrow> 'st
     \<Rightarrow> tracked_outcome \<times> reconcile_event list \<times> 'st" where
  "reconcile_tracked I pools owner pid st =
     (case tracked_status_of pools pid of
        TrackedOpen \<Rightarrow>
          (TrackedKeep, report_stranded_pools (recoverable_beside pools pid) (length (op_unreadable pools)), st)
      | TrackedUnknown \<Rightarrow> (TrackedUndecided, [], st)
      | TrackedNotOpen \<Rightarrow>
          (case drop_row I owner pid st of
             (True, st') \<Rightarrow> (TrackedReplace (newest_solvent pools), [], st')
           | (False, st') \<Rightarrow> (TrackedUndecided, [], st')))"

definition adopt_candidate ::
  "'st buyer_iface \<Rightarrow> owned_pools \<Rightarrow> deployment \<Rightarrow> address \<Rightarrow> address \<Rightarrow> bool
     \<Rightarrow> (b256 \<times> chain_pool) option \<Rightarrow> 'st \<Rightarrow> reconciled \<times> reconcile_event list \<times> 'st" where
  "adopt_candidate I pools dep owner token bootstrap candidate st =
     (case candidate of
        None \<Rightarrow> (if op_unreadable pools = [] then NoneHeld else ReconcileUnknown, [], st)
      | Some (pid, pool) \<Rightarrow>
          (let state = buyer_adopt pid dep owner token (ucast (cp_deposit pool)) (ucast (cp_totalRedeemed pool)) in
           case bi_record I state st of
             (Inl err, st') \<Rightarrow> (Unrecorded pid, if bootstrap then [AdoptionFailure] else [], st')
           | (Inr _, st') \<Rightarrow>
               (Adopted pid,
                report_stranded_pools (recoverable_beside pools pid) (length (op_unreadable pools)), st')))"

definition enumerate_open_pools :: "nat \<Rightarrow> chain_view \<Rightarrow> owned_pools option option" where
  "enumerate_open_pools fuel cv =
     (case enumerate_owned_pools_at fuel cv of
        None \<Rightarrow> None
      | Some (Inl err) \<Rightarrow> Some None
      | Some (Inr ids) \<Rightarrow> Some (Some (OwnedPools_walk cv ids)))"

text \<open>
  The outer option is the fuel of the enumeration. \<open>bootstrap\<close> tells the two runs apart: only
  the bootstrap counts a failure to adopt.
\<close>

definition reconcile_buyer ::
  "nat \<Rightarrow> 'st buyer_iface \<Rightarrow> chain_view \<Rightarrow> deployment \<Rightarrow> address \<Rightarrow> address \<Rightarrow> bool \<Rightarrow> 'st
     \<Rightarrow> (reconciled \<times> reconcile_event list \<times> 'st) option" where
  "reconcile_buyer fuel I cv dep owner token bootstrap st =
     (let count = (if bootstrap then [AdoptionFailure] else []);
          (verdict, st1) = adoption_applies I owner dep st;
          sweep = (\<lambda>tracked st2.
            (case enumerate_open_pools fuel cv of
               None \<Rightarrow> None
             | Some None \<Rightarrow> Some (ReconcileUnknown, if tracked = None then count else [], st2)
             | Some (Some pools) \<Rightarrow>
                 (case tracked of
                    None \<Rightarrow> Some (adopt_candidate I pools dep owner token bootstrap (newest_solvent pools) st2)
                  | Some pid \<Rightarrow>
                      (case reconcile_tracked I pools owner pid st2 of
                         (TrackedKeep, ev, st3) \<Rightarrow> Some (KeptTracked, ev, st3)
                       | (TrackedUndecided, ev, st3) \<Rightarrow> Some (ReconcileUnknown, ev, st3)
                       | (TrackedReplace candidate, ev, st3) \<Rightarrow>
                           Some (adopt_candidate I pools dep owner token bootstrap candidate st3)))))
      in case verdict of
           CheckUnknown \<Rightarrow> Some (ReconcileUnknown, count, st1)
         | Applies \<Rightarrow> sweep None st1
         | Foreign pid was_on \<Rightarrow>
             (case drop_row I owner pid st1 of
                (False, st2) \<Rightarrow> Some (ReconcileUnknown, [], st2)
              | (True, st2) \<Rightarrow> sweep None st2)
         | AlreadyTracked pid \<Rightarrow> sweep (Some pid) st1)"

subsection \<open>Opening a pool\<close>

record open_request =
  or_deployment :: deployment
  or_token :: address
  or_owner :: address
  or_deposit :: u256

datatype open_failure_reason = InsufficientDeposit | RpcError | ContractRevert

datatype landed = Opened buyer_pool_state | LandedAdopted | OpenFailed "open_failure_reason option"

datatype open_error =
    OpenStoreUnread store_error
  | OpenFailedFor "open_failure_reason option" bool
  | OpenUnpersisted store_error

definition node_wide :: "open_failure_reason option \<Rightarrow> bool" where
  "node_wide reason \<longleftrightarrow> reason = Some InsufficientDeposit \<or> reason = Some RpcError"

text \<open>
  The open task under the open slot. \<open>landed\<close> is what the \<open>openPool\<close> transaction came to; the
  task asks for it only when no live row stops it, so the first component tells whether it sent.
\<close>

definition run_open ::
  "'st buyer_iface \<Rightarrow> open_request \<Rightarrow> b256 option \<Rightarrow> landed \<Rightarrow> 'st \<Rightarrow> bool \<times> (open_error + unit) \<times> 'st" where
  "run_open I req replacing landed st =
     (case bi_get_by_owner I (or_owner req) st of
        (Inl err, st1) \<Rightarrow> (False, Inl (OpenStoreUnread err), st1)
      | (Inr found, st1) \<Rightarrow>
          if (case found of None \<Rightarrow> False
              | Some state \<Rightarrow> is_on state (or_deployment req) \<and> Some (bp_pool_id state) \<noteq> replacing)
          then (False, Inr (), st1)
          else
            (case landed of
               LandedAdopted \<Rightarrow> (True, Inr (), st1)
             | OpenFailed reason \<Rightarrow> (True, Inl (OpenFailedFor reason (node_wide reason)), st1)
             | Opened state \<Rightarrow>
                 (case bi_record I state st1 of
                    (Inl err, st2) \<Rightarrow> (True, Inl (OpenUnpersisted err), st2)
                  | (Inr _, st2) \<Rightarrow> (True, Inr (), st2))))"

subsection \<open>The reclaim sweep\<close>

datatype reclaim_event = ReadPool b256 | SentReclaim b256 | ReclaimFailure

definition reclaim_drop ::
  "'st buyer_iface \<Rightarrow> address \<Rightarrow> b256 \<Rightarrow> 'st \<Rightarrow> reclaim_event list \<times> 'st" where
  "reclaim_drop I owner pid st =
     (case bi_forget_if_pool I owner pid st of
        (Inl err, st') \<Rightarrow> ([ReclaimFailure], st')
      | (Inr _, st') \<Rightarrow> ([], st'))"

definition reclaim_submit ::
  "'st buyer_iface \<Rightarrow> chain_view \<Rightarrow> address \<Rightarrow> b256 \<Rightarrow> 'st \<Rightarrow> reclaim_event list \<times> 'st" where
  "reclaim_submit I cv owner pid st =
     (case cv_reclaim cv pid of
        ReclaimMined True \<Rightarrow> map_prod (Cons (SentReclaim pid)) id (reclaim_drop I owner pid st)
      | ReclaimMined False \<Rightarrow> ([SentReclaim pid, ReclaimFailure], st)
      | ReclaimReceiptUnread \<Rightarrow> ([SentReclaim pid, ReclaimFailure], st)
      | ReclaimMaybeSent \<Rightarrow> ([SentReclaim pid, ReclaimFailure], st)
      | ReclaimSendFailed \<Rightarrow> ([SentReclaim pid, ReclaimFailure], st))"

definition reclaim_once ::
  "'st buyer_iface \<Rightarrow> chain_view \<Rightarrow> address \<Rightarrow> 'st \<Rightarrow> reclaim_event list \<times> 'st" where
  "reclaim_once I cv owner st =
     (case bi_get_by_owner I owner st of
        (Inl err, st1) \<Rightarrow> ([ReclaimFailure], st1)
      | (Inr None, st1) \<Rightarrow> ([], st1)
      | (Inr (Some state), st1) \<Rightarrow>
          (let pid = bp_pool_id state in
           case cv_get_pool cv pid of
             Inl err \<Rightarrow> ([ReadPool pid, ReclaimFailure], st1)
           | Inr pool \<Rightarrow>
               if cp_status pool = Closed
               then map_prod (Cons (ReadPool pid)) id (reclaim_drop I owner pid st1)
               else if cp_disputeDeadline pool = 0 then ([ReadPool pid], st1)
               else if (case cv_head_timestamp cv of Inr now \<Rightarrow> now < cp_disputeDeadline pool | Inl _ \<Rightarrow> False)
               then ([ReadPool pid], st1)
               else map_prod (Cons (ReadPool pid)) id (reclaim_submit I cv owner pid st1)))"

subsection \<open>What the service relies on\<close>

text \<open>
  Each call on the store either fails and changes nothing, or does what the specification of
  \<open>Buyer_Pool\<close> says.
\<close>

locale buyer_service =
  fixes I :: "'st buyer_iface" and inv :: "'st \<Rightarrow> bool" and abs :: "'st \<Rightarrow> abs_store"
  assumes get_law: "inv st \<Longrightarrow>
      (\<exists>e. bi_get_by_owner I owner st = (Inl e, st)) \<or>
      (\<exists>s st'. bi_get_by_owner I owner st = (Inr s, st') \<and> inv st' \<and> abs st' = abs st \<and>
         map_option abs_row_of s = Option.bind (as_owner (abs st) owner) (as_pools (abs st)))"
    and record_law: "inv st \<Longrightarrow> row_ok s \<Longrightarrow>
      (\<exists>e. bi_record I s st = (Inl e, st)) \<or>
      (\<exists>st'. bi_record I s st = (Inr (), st') \<and> inv st' \<and> abs st' = snd (spec_step (abs st) (Record s)))"
    and forget_law: "inv st \<Longrightarrow>
      (\<exists>e. bi_forget_if_pool I owner pid st = (Inl e, st)) \<or>
      (\<exists>b st'. bi_forget_if_pool I owner pid st = (Inr b, st') \<and> inv st' \<and>
         abs st' = snd (spec_step (abs st) (ForgetIfPool owner pid)))"
    and key_law: "inv st \<Longrightarrow> as_pools (abs st) pid = Some r \<Longrightarrow> ar_pool_id r = pid"

locale healthy_service = buyer_service +
  assumes get_ok: "inv st \<Longrightarrow> bi_get_by_owner I owner st \<noteq> (Inl e, st)"
    and record_ok: "inv st \<Longrightarrow> row_ok s \<Longrightarrow> bi_record I s st \<noteq> (Inl e', st)"
    and forget_ok: "inv st \<Longrightarrow> bi_forget_if_pool I owner pid st \<noteq> (Inl e'', st)"

lemma reply_as_InrE:
  assumes "fst (reply_as mk x) = Inr y"
  obtains r st' where "x = (Inr r, st')" and "y = mk r"
  using assms by (cases x; cases "fst x") (auto simp: reply_as_def)

lemma reply_as_snd [simp]: "snd (reply_as mk x) = snd x"
  by (simp add: reply_as_def)

text \<open>A store whose steps refine the specification, seen through the interface.\<close>

lemma service_of_store:
  fixes I :: "'st buyer_iface" and inv :: "'st \<Rightarrow> bool" and abs :: "'st \<Rightarrow> abs_store"
  assumes store: "buyer_store step inv abs"
    and get: "\<And>owner st. step st (GetByOwner owner) = reply_as RPool (bi_get_by_owner I owner st)"
    and rec: "\<And>s st. step st (Record s) = reply_as (\<lambda>_. RUnit) (bi_record I s st)"
    and fgt: "\<And>owner pid st. step st (ForgetIfPool owner pid) = reply_as RBool (bi_forget_if_pool I owner pid st)"
  shows "inv st \<Longrightarrow> \<exists>s st'. bi_get_by_owner I owner st = (Inr s, st') \<and> inv st' \<and> abs st' = abs st \<and>
         map_option abs_row_of s = Option.bind (as_owner (abs st) owner) (as_pools (abs st))"
    and "inv st \<Longrightarrow> row_ok s \<Longrightarrow>
      \<exists>st'. bi_record I s st = (Inr (), st') \<and> inv st' \<and> abs st' = snd (spec_step (abs st) (Record s))"
    and "inv st \<Longrightarrow> \<exists>b st'. bi_forget_if_pool I owner pid st = (Inr b, st') \<and> inv st' \<and>
         abs st' = snd (spec_step (abs st) (ForgetIfPool owner pid))"
proof -
  note refines = buyer_store.step_refines [OF store]
  show "inv st \<Longrightarrow> \<exists>s st'. bi_get_by_owner I owner st = (Inr s, st') \<and> inv st' \<and> abs st' = abs st \<and>
         map_option abs_row_of s = Option.bind (as_owner (abs st) owner) (as_pools (abs st))"
    using refines [of st "GetByOwner owner"] by (auto simp: get elim!: reply_as_InrE)
  show "inv st \<Longrightarrow> row_ok s \<Longrightarrow>
      \<exists>st'. bi_record I s st = (Inr (), st') \<and> inv st' \<and> abs st' = snd (spec_step (abs st) (Record s))"
    using refines [of st "Record s"] by (auto simp: rec elim!: reply_as_InrE)
  show "inv st \<Longrightarrow> \<exists>b st'. bi_forget_if_pool I owner pid st = (Inr b, st') \<and> inv st' \<and>
         abs st' = snd (spec_step (abs st) (ForgetIfPool owner pid))"
    using refines [of st "ForgetIfPool owner pid"] by (auto simp: fgt elim!: reply_as_InrE)
qed

lemma mem_keys: "bm_inv st \<Longrightarrow> as_pools (bm_abs st) pid = Some r \<Longrightarrow> ar_pool_id r = pid"
  by (auto simp: bm_inv_def bm_abs_def abs_row_of_def)

lemma table_keys: "bt_inv no_faults c st \<Longrightarrow> as_pools (bt_abs c st) pid = Some r \<Longrightarrow> ar_pool_id r = pid"
  by (auto simp: bt_inv_def bt_abs_def row_at_def abs_row_of_def split: option.splits sum.splits
      elim: pools_ok_map_of)

lemma mem_laws:
  "bm_inv st \<Longrightarrow> \<exists>s st'. bi_get_by_owner mem_iface owner st = (Inr s, st') \<and> bm_inv st' \<and> bm_abs st' = bm_abs st \<and>
     map_option abs_row_of s = Option.bind (as_owner (bm_abs st) owner) (as_pools (bm_abs st))"
  "bm_inv st \<Longrightarrow> row_ok s \<Longrightarrow>
     \<exists>st'. bi_record mem_iface s st = (Inr (), st') \<and> bm_inv st' \<and> bm_abs st' = snd (spec_step (bm_abs st) (Record s))"
  "bm_inv st \<Longrightarrow> \<exists>b st'. bi_forget_if_pool mem_iface owner pid st = (Inr b, st') \<and> bm_inv st' \<and>
     bm_abs st' = snd (spec_step (bm_abs st) (ForgetIfPool owner pid))"
  using service_of_store [OF mem.buyer_store_axioms, of mem_iface] by (simp_all add: mem_iface_def)

lemma table_laws:
  "bt_inv no_faults c st \<Longrightarrow> \<exists>s st'. bi_get_by_owner (table_iface no_faults c) owner st = (Inr s, st') \<and>
     bt_inv no_faults c st' \<and> bt_abs c st' = bt_abs c st \<and>
     map_option abs_row_of s = Option.bind (as_owner (bt_abs c st) owner) (as_pools (bt_abs c st))"
  "bt_inv no_faults c st \<Longrightarrow> row_ok s \<Longrightarrow>
     \<exists>st'. bi_record (table_iface no_faults c) s st = (Inr (), st') \<and> bt_inv no_faults c st' \<and>
       bt_abs c st' = snd (spec_step (bt_abs c st) (Record s))"
  "bt_inv no_faults c st \<Longrightarrow> \<exists>b st'. bi_forget_if_pool (table_iface no_faults c) owner pid st = (Inr b, st') \<and>
     bt_inv no_faults c st' \<and> bt_abs c st' = snd (spec_step (bt_abs c st) (ForgetIfPool owner pid))"
  using service_of_store [OF tab.buyer_store_axioms [of no_faults c], of "table_iface no_faults c"]
  by (simp_all add: table_iface_def)

interpretation mem_service: healthy_service mem_iface bm_inv bm_abs
proof (unfold_locales, goal_cases)
  case (1 st owner) then show ?case using mem_laws(1) by blast
next
  case (2 st s) then show ?case using mem_laws(2) by blast
next
  case (3 st owner pid) then show ?case using mem_laws(3) by blast
next
  case (4 st pid r) then show ?case by (rule mem_keys)
next
  case (5 st owner e) then show ?case using mem_laws(1) [of st owner] by auto
next
  case (6 st s e) then show ?case using mem_laws(2) [of st s] by auto
next
  case (7 st owner pid e) then show ?case using mem_laws(3) [of st owner pid] by auto
qed

interpretation table_ok: healthy_service "table_iface no_faults c" "bt_inv no_faults c" "bt_abs c" for c
proof (unfold_locales, goal_cases)
  case (1 st owner) then show ?case using table_laws(1) by blast
next
  case (2 st s) then show ?case using table_laws(2) by blast
next
  case (3 st owner pid) then show ?case using table_laws(3) by blast
next
  case (4 st pid r) then show ?case by (rule table_keys)
next
  case (5 st owner e) then show ?case using table_laws(1) [of c st owner] by auto
next
  case (6 st s e) then show ?case using table_laws(2) [of c st s] by auto
next
  case (7 st owner pid e) then show ?case using table_laws(3) [of c st owner pid] by auto
qed

lemma map_sum_eq_cases:
  "reply_as mk x = reply_as mk y \<Longrightarrow> inj mk \<Longrightarrow> x = y"
  by (cases x; cases y; cases "fst x"; cases "fst y") (auto simp: reply_as_def inj_def)

lemma reply_as_Inl: "reply_as mk x = (Inl e, st) \<Longrightarrow> x = (Inl e, st)"
  by (cases x; cases "fst x") (auto simp: reply_as_def)

lemma table_may_fail:
  "bi_get_by_owner (table_iface f c) owner st = bi_get_by_owner (table_iface no_faults c) owner st \<or>
     (\<exists>e. bi_get_by_owner (table_iface f c) owner st = (Inl e, st))"
  "bi_record (table_iface f c) s st = bi_record (table_iface no_faults c) s st \<or>
     (\<exists>e. bi_record (table_iface f c) s st = (Inl e, st))"
  "bi_forget_if_pool (table_iface f c) owner pid st = bi_forget_if_pool (table_iface no_faults c) owner pid st \<or>
     (\<exists>e. bi_forget_if_pool (table_iface f c) owner pid st = (Inl e, st))"
proof -
  have inj: "inj RPool" "inj RBool" "inj (\<lambda>_ :: unit. RUnit)" by (auto intro: injI)
  show "bi_get_by_owner (table_iface f c) owner st = bi_get_by_owner (table_iface no_faults c) owner st \<or>
     (\<exists>e. bi_get_by_owner (table_iface f c) owner st = (Inl e, st))"
    using bt_step_faulty [of f c st "GetByOwner owner"] inj(1)
    by (auto simp: table_iface_def dest: map_sum_eq_cases reply_as_Inl)
  show "bi_record (table_iface f c) s st = bi_record (table_iface no_faults c) s st \<or>
     (\<exists>e. bi_record (table_iface f c) s st = (Inl e, st))"
    using bt_step_faulty [of f c st "Record s"] inj(3)
    by (auto simp: table_iface_def dest: map_sum_eq_cases reply_as_Inl)
  show "bi_forget_if_pool (table_iface f c) owner pid st = bi_forget_if_pool (table_iface no_faults c) owner pid st \<or>
     (\<exists>e. bi_forget_if_pool (table_iface f c) owner pid st = (Inl e, st))"
    using bt_step_faulty [of f c st "ForgetIfPool owner pid"] inj(2)
    by (auto simp: table_iface_def dest: map_sum_eq_cases reply_as_Inl)
qed

interpretation table_any: buyer_service "table_iface f c" "bt_inv no_faults c" "bt_abs c" for f c
proof (unfold_locales, goal_cases)
  case (1 st owner) then show ?case using table_laws(1) table_may_fail(1) by metis
next
  case (2 st s) then show ?case using table_laws(2) table_may_fail(2) by metis
next
  case (3 st owner pid) then show ?case using table_laws(3) table_may_fail(3) by metis
next
  case (4 st pid r) then show ?case by (rule table_keys)
qed

subsection \<open>The enumeration\<close>

definition pages_of :: "b256 list \<Rightarrow> u64 \<Rightarrow> string + b256 list" where
  "pages_of ids offset = Inr (take OWNED_POOLS_PAGE (drop (unat offset) ids))"

lemma enumerate_pages_complete:
  assumes "length ids < 2 ^ 64" and "unat offset \<le> length ids"
    and "(length ids - unat offset) div OWNED_POOLS_PAGE < fuel"
  shows "enumerate_pages fuel (pages_of ids) offset (take (unat offset) ids) = Some (Inr ids)"
  using assms(2,3)
proof (induction fuel arbitrary: offset)
  case (Suc fuel)
  let ?page = "take OWNED_POOLS_PAGE (drop (unat offset) ids)"
  have acc: "take (unat offset) ids @ ?page = take (unat offset + OWNED_POOLS_PAGE) ids"
    by (simp add: take_add)
  show ?case
  proof (cases "length ?page < OWNED_POOLS_PAGE")
    case True
    then have "length ids \<le> unat offset + OWNED_POOLS_PAGE" using Suc.prems(1) by auto
    with True show ?thesis by (simp add: pages_of_def acc del: length_take)
  next
    case False
    then have len: "length ?page = OWNED_POOLS_PAGE" "unat offset + OWNED_POOLS_PAGE \<le> length ids"
      using Suc.prems(1) by (auto simp: min_def OWNED_POOLS_PAGE_def split: if_splits)
    then have next_offset: "unat (sat_add offset (of_nat OWNED_POOLS_PAGE)) = unat offset + OWNED_POOLS_PAGE"
      using assms(1) by (simp add: unat_sat_add OWNED_POOLS_PAGE_def min_def)
    have "(length ids - (unat offset + OWNED_POOLS_PAGE)) div OWNED_POOLS_PAGE < fuel"
      using Suc.prems(2) len(2) by (simp add: OWNED_POOLS_PAGE_def)
    then show ?thesis
      using False Suc.IH [of "sat_add offset (of_nat OWNED_POOLS_PAGE)"] len
      by (simp add: pages_of_def acc next_offset)
  qed
qed simp

lemma enumerate_owned_pools_complete:
  assumes "cv_get_pools cv = pages_of ids" and "length ids < 2 ^ 64" and "length ids div OWNED_POOLS_PAGE < fuel"
  shows "enumerate_owned_pools_at fuel cv = Some (Inr ids)"
  using enumerate_pages_complete [of ids 0 fuel] assms by (simp add: enumerate_owned_pools_at_def)

definition read_of :: "chain_view \<Rightarrow> b256 \<Rightarrow> (b256 \<times> chain_pool) option" where
  "read_of cv pid = (case cv_get_pool cv pid of Inr pool \<Rightarrow> Some (pid, pool) | Inl _ \<Rightarrow> None)"

definition unread_of :: "chain_view \<Rightarrow> b256 \<Rightarrow> b256 option" where
  "unread_of cv pid = (case cv_get_pool cv pid of Inr _ \<Rightarrow> None | Inl _ \<Rightarrow> Some pid)"

lemma fold_walk_step:
  "fold (walk_step cv) ids pools =
     \<lparr>op_read = op_read pools @ List.map_filter (read_of cv) ids,
      op_unreadable = op_unreadable pools @ List.map_filter (unread_of cv) ids\<rparr>"
  by (induction ids arbitrary: pools)
     (auto simp: walk_step_def read_of_def unread_of_def map_filter_simps split: sum.splits)

lemma walk_read:
  "op_read (OwnedPools_walk cv ids) = List.map_filter (read_of cv) (rev ids)"
  "op_unreadable (OwnedPools_walk cv ids) = List.map_filter (unread_of cv) (rev ids)"
  by (simp_all add: OwnedPools_walk_def fold_walk_step)

lemma walk_read_iff:
  "(pid, pool) \<in> set (op_read (OwnedPools_walk cv ids)) \<longleftrightarrow> pid \<in> set ids \<and> cv_get_pool cv pid = Inr pool"
proof -
  have "read_of cv i = Some (pid, pool) \<longleftrightarrow> i = pid \<and> cv_get_pool cv pid = Inr pool" for i
    by (auto simp: read_of_def split: sum.splits)
  then show ?thesis by (auto simp: walk_read set_map_filter)
qed

text \<open>A verdict on the tracked pool other than unknown rests on a successful read of it.\<close>

lemma tracked_status_read:
  assumes "tracked_status_of (OwnedPools_walk cv ids) pid = st" and "st \<noteq> TrackedUnknown"
  obtains pool where "cv_get_pool cv pid = Inr pool" and "st = TrackedOpen \<longleftrightarrow> cp_status pool = Open"
proof -
  obtain i pool where find: "List.find (\<lambda>(i, _). i = pid) (op_read (OwnedPools_walk cv ids)) = Some (i, pool)"
    using assms by (auto simp: tracked_status_of_def split: option.splits)
  then have "(i, pool) \<in> set (op_read (OwnedPools_walk cv ids))" "i = pid"
    by (auto simp: find_Some_iff in_set_conv_nth)
  with find assms(1) that [of pool] show thesis
    by (auto simp: walk_read_iff tracked_status_of_def split: if_splits)
qed

definition solvent_open :: "chain_view \<Rightarrow> b256 \<Rightarrow> bool" where
  "solvent_open cv pid =
     (case cv_get_pool cv pid of
        Inr pool \<Rightarrow> cp_status pool = Open \<and> cp_totalRedeemed pool < cp_deposit pool | Inl _ \<Rightarrow> False)"

lemma find_map_filter:
  "List.find P (filter Q (List.map_filter g xs)) =
     (case List.find (\<lambda>x. case g x of None \<Rightarrow> False | Some y \<Rightarrow> Q y \<and> P y) xs of
        None \<Rightarrow> None | Some x \<Rightarrow> g x)"
  by (induction xs) (auto simp: map_filter_simps split: option.splits)

text \<open>The walk's pick is the first open, solvent pool that could be read, newest first.\<close>

lemma newest_solvent_walk:
  "newest_solvent (OwnedPools_walk cv ids) =
     (case List.find (solvent_open cv) (rev ids) of None \<Rightarrow> None | Some pid \<Rightarrow> read_of cv pid)"
proof -
  have "(\<lambda>x. case read_of cv x of None \<Rightarrow> False
         | Some y \<Rightarrow> (\<lambda>(_, pool). cp_status pool = Open) y \<and> (\<lambda>(_, pool). cp_totalRedeemed pool < cp_deposit pool) y)
        = solvent_open cv"
    by (auto simp: fun_eq_iff read_of_def solvent_open_def split: sum.splits)
  then show ?thesis
    unfolding newest_solvent_def open_pools_def walk_read find_map_filter by simp
qed

subsection \<open>Reconciling keeps or replaces the tracked row\<close>

definition tracked_row :: "abs_store \<Rightarrow> address \<Rightarrow> abs_row option" where
  "tracked_row a owner = Option.bind (as_owner a owner) (as_pools a)"

definition tracks :: "abs_store \<Rightarrow> address \<Rightarrow> deployment \<Rightarrow> bool" where
  "tracks a owner dep \<longleftrightarrow> (\<exists>r. tracked_row a owner = Some r \<and> ar_deployment r = dep)"

lemma is_on_row: "is_on s dep \<longleftrightarrow> ar_deployment (abs_row_of s) = dep"
  by (simp add: is_on_def abs_row_of_def)

lemma abs_row_pool_id: "bp_pool_id s = ar_pool_id (abs_row_of s)"
  by (simp add: abs_row_of_def)

lemma tracked_row_record:
  "tracked_row (snd (spec_step a (Record s))) (bp_owner s) = Some (abs_row_of s)"
  by (simp add: tracked_row_def)

lemma adopt_row_ok: "row_ok (buyer_adopt pid dep owner token deposit total_redeemed)"
  by (simp add: buyer_adopt_def buyer_new_def row_ok_def)

context buyer_service
begin

lemma adoption_verdict:
  assumes "inv st" and "adoption_applies I owner dep st = (v, st1)"
  shows "inv st1" and "abs st1 = abs st"
    and "v \<noteq> CheckUnknown \<Longrightarrow>
           v = (case tracked_row (abs st) owner of
                  None \<Rightarrow> Applies
                | Some r \<Rightarrow> if ar_deployment r = dep then AlreadyTracked (ar_pool_id r)
                            else Foreign (ar_pool_id r) (ar_deployment r))"
proof -
  consider e where "bi_get_by_owner I owner st = (Inl e, st)"
    | s st' where "bi_get_by_owner I owner st = (Inr s, st')" "inv st'" "abs st' = abs st"
        "map_option abs_row_of s = tracked_row (abs st) owner"
    using get_law [OF assms(1), of owner] unfolding tracked_row_def by blast
  then have "inv st1 \<and> abs st1 = abs st \<and> (v \<noteq> CheckUnknown \<longrightarrow>
           v = (case tracked_row (abs st) owner of None \<Rightarrow> Applies
                | Some r \<Rightarrow> if ar_deployment r = dep then AlreadyTracked (ar_pool_id r)
                            else Foreign (ar_pool_id r) (ar_deployment r)))"
  proof cases
    case 1
    with assms show ?thesis by (simp add: adoption_applies_def)
  next
    case (2 s st')
    show ?thesis
    proof (cases s)
      case None
      with 2 assms show ?thesis by (auto simp: adoption_applies_def)
    next
      case (Some x)
      with 2 have "tracked_row (abs st) owner = Some (abs_row_of x)" by simp
      with 2 Some assms(2) show ?thesis
        by (auto simp: adoption_applies_def is_on_row abs_row_of_def)
    qed
  qed
  then show "inv st1" "abs st1 = abs st" "v \<noteq> CheckUnknown \<Longrightarrow>
           v = (case tracked_row (abs st) owner of None \<Rightarrow> Applies
                | Some r \<Rightarrow> if ar_deployment r = dep then AlreadyTracked (ar_pool_id r)
                            else Foreign (ar_pool_id r) (ar_deployment r))" by blast+
qed

lemma drop_row_inv: "inv st \<Longrightarrow> drop_row I owner pid st = (b, st') \<Longrightarrow> inv st'"
  using forget_law [of st owner pid] by (auto simp: drop_row_def)

lemma adopt_candidate_inv:
  assumes "inv st" and "adopt_candidate I pools dep owner token boot candidate st = (res, ev, st')"
  shows "inv st'"
proof (cases candidate)
  case None
  with assms show ?thesis by (simp add: adopt_candidate_def)
next
  case (Some x)
  obtain pid pool where x: "x = (pid, pool)" by (cases x)
  let ?s = "buyer_adopt pid dep owner token (ucast (cp_deposit pool)) (ucast (cp_totalRedeemed pool))"
  from record_law [OF assms(1) adopt_row_ok, of pid dep owner token "ucast (cp_deposit pool)"
      "ucast (cp_totalRedeemed pool)"] assms Some x
  show ?thesis by (auto simp: adopt_candidate_def Let_def)
qed

lemma reconcile_keeps:
  assumes inv: "inv st" and row: "tracked_row (abs st) owner = Some r" and on: "ar_deployment r = dep"
    and unread: "\<And>pool. cv_get_pool cv (ar_pool_id r) = Inr pool \<Longrightarrow> cp_status pool = Open"
    and run: "reconcile_buyer fuel I cv dep owner token boot st = Some (res, ev, st')"
  shows "inv st' \<and> abs st' = abs st \<and> (res = KeptTracked \<or> res = ReconcileUnknown)"
proof -
  obtain v st1 where v: "adoption_applies I owner dep st = (v, st1)" by (cases "adoption_applies I owner dep st")
  note verdict = adoption_verdict [OF inv v]
  have "v = CheckUnknown \<or> v = AlreadyTracked (ar_pool_id r)" using verdict(3) row on by auto
  then show ?thesis
  proof
    assume "v = CheckUnknown"
    with run v verdict show ?thesis by (auto simp: reconcile_buyer_def Let_def)
  next
    assume tracked: "v = AlreadyTracked (ar_pool_id r)"
    show ?thesis
    proof (cases "\<exists>ids. enumerate_owned_pools_at fuel cv = Some (Inr ids)")
      case True
      then obtain ids where ids: "enumerate_owned_pools_at fuel cv = Some (Inr ids)" by blast
      have "tracked_status_of (OwnedPools_walk cv ids) (ar_pool_id r) \<noteq> TrackedNotOpen"
        using unread by (auto elim: tracked_status_read)
      with ids run v tracked verdict show ?thesis
        by (auto simp: reconcile_buyer_def Let_def enumerate_open_pools_def reconcile_tracked_def
            split: tracked_status.splits)
    next
      case False
      with run v tracked verdict show ?thesis
        by (auto simp: reconcile_buyer_def Let_def enumerate_open_pools_def split: option.splits sum.splits)
    qed
  qed
qed

lemma run_open_tracked:
  assumes "inv st" and "tracks (abs st) owner dep" and "run_open I req None landed st = (sent, out, st')"
    and "or_owner req = owner" and "or_deployment req = dep"
  shows "\<not> sent \<and> inv st' \<and> abs st' = abs st"
  using get_law [OF assms(1), of owner]
proof (elim disjE exE conjE)
  fix e
  assume "bi_get_by_owner I owner st = (Inl e, st)"
  with assms show ?thesis by (auto simp: run_open_def)
next
  fix s st1
  assume get: "bi_get_by_owner I owner st = (Inr s, st1)" "inv st1" "abs st1 = abs st"
    "map_option abs_row_of s = Option.bind (as_owner (abs st) owner) (as_pools (abs st))"
  with assms(2) obtain x where "s = Some x" "is_on x dep"
    by (auto simp: tracks_def tracked_row_def is_on_row)
  with get assms(3-5) show ?thesis by (auto simp: run_open_def)
qed

end

context healthy_service
begin

lemma verdict_known:
  assumes "inv st" and "adoption_applies I owner dep st = (v, st1)"
  shows "v \<noteq> CheckUnknown"
  using get_law [OF assms(1), of owner] get_ok [OF assms(1), of owner] assms(2)
  by (auto simp: adoption_applies_def split: option.splits if_splits)

lemma drop_row_ok: "inv st \<Longrightarrow> \<exists>st'. drop_row I owner pid st = (True, st') \<and> inv st'"
  using forget_law [of st owner pid] forget_ok [of st owner pid] by (auto simp: drop_row_def)

lemma adopt_tracks:
  assumes "inv st"
  shows "\<exists>ev st'. adopt_candidate I pools dep owner token boot (Some (pid, pool)) st = (Adopted pid, ev, st') \<and>
                  inv st' \<and> tracks (abs st') owner dep"
proof -
  let ?s = "buyer_adopt pid dep owner token (ucast (cp_deposit pool)) (ucast (cp_totalRedeemed pool))"
  have ok: "row_ok ?s" by (rule adopt_row_ok)
  then obtain st' where st': "bi_record I ?s st = (Inr (), st')" "inv st'"
    "abs st' = snd (spec_step (abs st) (Record ?s))"
    using record_law [OF assms ok] record_ok [OF assms ok] by blast
  have "bp_owner ?s = owner" "ar_deployment (abs_row_of ?s) = dep"
    by (simp_all add: buyer_adopt_def buyer_new_def abs_row_of_def)
  with st' tracked_row_record [of "abs st" ?s] have "tracks (abs st') owner dep" by (simp add: tracks_def)
  with st' show ?thesis by (simp add: adopt_candidate_def Let_def)
qed

lemma reconcile_tracks:
  assumes inv: "inv st" and ids: "enumerate_owned_pools_at fuel cv = Some (Inr ids)"
    and pick: "newest_solvent (OwnedPools_walk cv ids) = Some (pid, pool)"
  shows "\<exists>res ev st'. reconcile_buyer fuel I cv dep owner token boot st = Some (res, ev, st') \<and>
                      inv st' \<and> tracks (abs st') owner dep"
proof -
  let ?pools = "OwnedPools_walk cv ids"
  obtain v st1 where v: "adoption_applies I owner dep st = (v, st1)" by (cases "adoption_applies I owner dep st")
  note verdict = adoption_verdict(1,2) [OF inv v] adoption_verdict(3) [OF inv v verdict_known [OF inv v]]
  have adopt: "\<exists>ev st'. adopt_candidate I ?pools dep owner token boot (newest_solvent ?pools) st2 =
       (Adopted pid, ev, st') \<and> inv st' \<and> tracks (abs st') owner dep" if "inv st2" for st2
    unfolding pick by (rule adopt_tracks [OF that])
  note defs = reconcile_buyer_def enumerate_open_pools_def reconcile_tracked_def ids v
  show ?thesis
  proof (cases v)
    case Applies
    with adopt [OF verdict(1)] show ?thesis by (auto simp: defs)
  next
    case (Foreign q was_on)
    with drop_row_ok [OF verdict(1), of owner q] obtain st2 where "drop_row I owner q st1 = (True, st2)" "inv st2"
      by blast
    with Foreign adopt [of st2] show ?thesis by (auto simp: defs)
  next
    case (AlreadyTracked q)
    show ?thesis
    proof (cases "tracked_status_of ?pools q = TrackedNotOpen")
      case True
      with drop_row_ok [OF verdict(1), of owner q] obtain st2 where "drop_row I owner q st1 = (True, st2)" "inv st2"
        by blast
      with AlreadyTracked True adopt [of st2] show ?thesis by (auto simp: defs)
    next
      case False
      with AlreadyTracked verdict show ?thesis
        by (auto simp: defs tracks_def split: tracked_status.splits option.splits if_splits)
    qed
  next
    case CheckUnknown
    with verdict_known [OF inv v] show ?thesis by simp
  qed
qed

end

context buyer_service
begin

lemma reclaim_drop_displaced:
  assumes "inv st" and "displaced_row (abs st) pid" and "reclaim_drop I owner q st = (ev, st')"
  shows "set ev \<subseteq> {ReclaimFailure} \<and> inv st' \<and> displaced_row (abs st') pid \<and>
         as_pools (abs st') pid = as_pools (abs st) pid"
  using forget_law [OF assms(1), of owner q] assms
    spec_step_displaced [of "abs st" "ForgetIfPool owner q" _ _ pid]
  by (cases "spec_step (abs st) (ForgetIfPool owner q)") (auto simp: reclaim_drop_def)

lemma reclaim_once_displaced:
  assumes inv: "inv st" and displaced: "displaced_row (abs st) pid" and run: "reclaim_once I cv owner st = (ev, st')"
  shows "ReadPool pid \<notin> set ev \<and> SentReclaim pid \<notin> set ev \<and> inv st' \<and> displaced_row (abs st') pid \<and>
         as_pools (abs st') pid = as_pools (abs st) pid"
  using get_law [OF inv, of owner]
proof (elim disjE exE conjE)
  fix e
  assume "bi_get_by_owner I owner st = (Inl e, st)"
  with assms show ?thesis by (auto simp: reclaim_once_def)
next
  fix s st1
  assume get: "bi_get_by_owner I owner st = (Inr s, st1)" "inv st1" "abs st1 = abs st"
    "map_option abs_row_of s = Option.bind (as_owner (abs st) owner) (as_pools (abs st))"
  show ?thesis
  proof (cases s)
    case None
    with get assms show ?thesis by (auto simp: reclaim_once_def)
  next
    case (Some x)
    with get obtain q where q: "as_owner (abs st) owner = Some q" "as_pools (abs st) q = Some (abs_row_of x)"
      by (auto split: Option.bind_splits)
    have "bp_pool_id x = q" using key_law [OF inv q(2)] by (simp add: abs_row_of_def)
    with displaced q have neq: "bp_pool_id x \<noteq> pid" by (auto simp: displaced_row_def)
    obtain ev2 st2 where dr: "reclaim_drop I owner (bp_pool_id x) st1 = (ev2, st2)"
      by (cases "reclaim_drop I owner (bp_pool_id x) st1")
    with reclaim_drop_displaced [OF get(2) _ dr, of pid] displaced get(3)
    have "set ev2 \<subseteq> {ReclaimFailure} \<and> inv st2 \<and> displaced_row (abs st2) pid \<and>
          as_pools (abs st2) pid = as_pools (abs st) pid" by simp
    with get Some run dr neq displaced show ?thesis
      by (auto simp: reclaim_once_def reclaim_submit_def Let_def
          split: sum.splits if_splits reclaim_send.splits bool.splits)
  qed
qed

end

subsection \<open>Properties\<close>

definition demo_chain :: chain_view where
  "demo_chain =
     \<lparr>cv_get_pools = pages_of [7, 8],
      cv_get_pool = (\<lambda>pid. if pid = 7 then Inr \<lparr>cp_owner = 1, cp_status = Open, cp_disputeDeadline = 0,
                                              cp_deposit = 1000, cp_totalRedeemed = 100\<rparr>
                           else Inl ''connection reset''),
      cv_head_timestamp = Inr 50, cv_reclaim = (\<lambda>_. ReclaimMined True)\<rparr>"

lemma demo_chain_pools: "cv_get_pools demo_chain = pages_of [7, 8]"
  by (simp add: demo_chain_def)

text \<open>
  C25. A node whose owner holds an open pool with funds left, read from the chain, opens no second
  one: whatever the store tracked before, the reconciliation returns and leaves a row on this
  deployment in use, and an open task that runs after it and replaces no pool sends no
  \<open>openPool\<close>. The chain lists the owner's pools page by page without an error, and no
  call of the store fails. A task that replaces a pool does open another one.
\<close>

theorem reconciled_node_opens_no_second_pool:
  assumes "bt_inv no_faults c db" and "cv_get_pools cv = pages_of ids" and "length ids < 2 ^ 64"
    and "length ids div OWNED_POOLS_PAGE < fuel" and "pid \<in> set ids" and "solvent_open cv pid"
  shows "\<exists>res ev db'. reconcile_buyer fuel (table_iface no_faults c) cv dep owner token boot db = Some (res, ev, db') \<and>
           tracks (bt_abs c db') owner dep \<and>
           (\<exists>out db''. run_open (table_iface no_faults c)
                \<lparr>or_deployment = dep, or_token = token, or_owner = owner, or_deposit = deposit\<rparr> None landed db' =
                (False, out, db'') \<and> bt_abs c db'' = bt_abs c db')"
proof -
  have ids: "enumerate_owned_pools_at fuel cv = Some (Inr ids)"
    using assms(2-4) by (rule enumerate_owned_pools_complete)
  have "List.find (solvent_open cv) (rev ids) \<noteq> None" using assms(5,6) by (auto simp: find_None_iff)
  then obtain q where q: "List.find (solvent_open cv) (rev ids) = Some q" by auto
  then have "solvent_open cv q" by (auto simp: find_Some_iff)
  then obtain pool where "newest_solvent (OwnedPools_walk cv ids) = Some (q, pool)"
    using q by (auto simp: newest_solvent_walk read_of_def solvent_open_def split: sum.splits)
  from table_ok.reconcile_tracks [OF assms(1) ids this, of dep owner token boot]
  obtain res ev db' where run: "reconcile_buyer fuel (table_iface no_faults c) cv dep owner token boot db = Some (res, ev, db')"
    "bt_inv no_faults c db'" "tracks (bt_abs c db') owner dep" by blast
  let ?req = "\<lparr>or_deployment = dep, or_token = token, or_owner = owner, or_deposit = deposit\<rparr>"
  obtain sent out db'' where "run_open (table_iface no_faults c) ?req None landed db' = (sent, out, db'')"
    by (metis prod.exhaust)
  moreover from table_any.run_open_tracked [OF run(2,3) this] have "\<not> sent" "bt_abs c db'' = bt_abs c db'" by simp_all
  ultimately show ?thesis using run by auto
qed

theorem reconciled_node_opens_no_second_pool_witness:
  "\<exists>res ev db'. reconcile_buyer 1 (table_iface no_faults demo_codec) demo_chain
       \<lparr>chain_id = 1, payment_pool = 9\<rparr> 1 5 True fresh_db = Some (res, ev, db') \<and>
     tracks (bt_abs demo_codec db') 1 \<lparr>chain_id = 1, payment_pool = 9\<rparr> \<and>
     (\<exists>out db''. run_open (table_iface no_faults demo_codec)
        \<lparr>or_deployment = \<lparr>chain_id = 1, payment_pool = 9\<rparr>, or_token = 5, or_owner = 1, or_deposit = 500\<rparr> None
        LandedAdopted db' = (False, out, db'') \<and> bt_abs demo_codec db'' = bt_abs demo_codec db')"
proof -
  have "solvent_open demo_chain 7" by (simp add: solvent_open_def demo_chain_def)
  then show ?thesis
    by (intro reconciled_node_opens_no_second_pool [OF fresh_db_inv [OF demo_codec_ok] demo_chain_pools])
       (simp_all add: OWNED_POOLS_PAGE_def)
qed

text \<open>
  C26. A failed read never costs the node its row: unless the chain answered that the tracked pool
  is not open, a reconciliation leaves every row and the owner index as they were, whatever
  enumeration, pool read or store call failed.
\<close>

theorem failed_read_keeps_tracked_row:
  assumes "bt_inv no_faults c db" and "tracked_row (bt_abs c db) owner = Some r" and "ar_deployment r = dep"
    and "\<And>pool. cv_get_pool cv (ar_pool_id r) = Inr pool \<Longrightarrow> cp_status pool = Open"
    and "reconcile_buyer fuel (table_iface f c) cv dep owner token boot db = Some (res, ev, db')"
  shows "bt_abs c db' = bt_abs c db \<and> (res = KeptTracked \<or> res = ReconcileUnknown)"
  using table_any.reconcile_keeps [OF assms] by blast

definition demo_tracked :: buyer_db where
  "demo_tracked = bt_history demo_codec fresh_db [(no_faults, Record (demo_row\<lparr>bp_pool_id := 8\<rparr>))]"

lemma demo_tracked_inv: "bt_inv no_faults demo_codec demo_tracked"
  unfolding demo_tracked_def
  by (intro bt_history_inv fresh_db_inv demo_codec_ok) (simp add: demo_row_def buyer_new_def row_ok_def)

lemma demo_tracked_row: "tracked_row (bt_abs demo_codec demo_tracked) 1 = Some (abs_row_of (demo_row\<lparr>bp_pool_id := 8\<rparr>))"
proof -
  have "bt_abs demo_codec demo_tracked = snd (spec_run (bm_abs MemoryBuyerPoolStore_new) [Record (demo_row\<lparr>bp_pool_id := 8\<rparr>)])"
    using clean_history_abs [OF demo_codec_ok, of "[Record (demo_row\<lparr>bp_pool_id := 8\<rparr>)]"]
    by (simp add: demo_tracked_def demo_row_def buyer_new_def row_ok_def)
  then show ?thesis by (simp add: tracked_row_def demo_row_def buyer_new_def)
qed

theorem failed_read_keeps_tracked_row_witness:
  "\<exists>res ev db'. reconcile_buyer 1 (table_iface no_faults demo_codec) demo_chain
       \<lparr>chain_id = 1, payment_pool = 9\<rparr> 1 5 True demo_tracked = Some (res, ev, db') \<and>
     bt_abs demo_codec db' = bt_abs demo_codec demo_tracked"
proof -
  let ?dep = "\<lparr>chain_id = 1, payment_pool = 9\<rparr>"
  let ?run = "reconcile_buyer 1 (table_iface no_faults demo_codec) demo_chain ?dep 1 5 True demo_tracked"
  have ids: "enumerate_owned_pools_at 1 demo_chain = Some (Inr [7, 8])"
    by (rule enumerate_owned_pools_complete [OF demo_chain_pools]) (simp_all add: OWNED_POOLS_PAGE_def)
  have "List.find (solvent_open demo_chain) (rev [7, 8]) = Some 7"
    by (simp add: solvent_open_def demo_chain_def)
  then obtain pool where "newest_solvent (OwnedPools_walk demo_chain [7, 8]) = Some (7, pool)"
    by (simp add: newest_solvent_walk read_of_def demo_chain_def)
  from table_ok.reconcile_tracks [OF demo_tracked_inv ids this, of ?dep 1 5 True]
  obtain res ev db' where run: "?run = Some (res, ev, db')" by blast
  have "ar_deployment (abs_row_of (demo_row\<lparr>bp_pool_id := 8\<rparr>)) = ?dep"
    by (simp add: abs_row_of_def demo_row_def buyer_new_def)
  from failed_read_keeps_tracked_row [OF demo_tracked_inv demo_tracked_row this _ run] run
  show ?thesis by (simp add: demo_chain_def abs_row_of_def)
qed

text \<open>What a running node does to its file: store operations and reclaim sweeps, in any order.\<close>

datatype service_action = StoreOp faults buyer_op | Sweep faults address chain_view

fun service_run :: "buyer_codec \<Rightarrow> buyer_db \<Rightarrow> service_action list \<Rightarrow> reclaim_event list \<times> buyer_db" where
  "service_run c db [] = ([], db)"
| "service_run c db (StoreOp f op # acts) = service_run c (snd (bt_step f c db op)) acts"
| "service_run c db (Sweep f owner cv # acts) =
     (case reclaim_once (table_iface f c) cv owner db of
        (ev, db') \<Rightarrow> (case service_run c db' acts of (evs, db'') \<Rightarrow> (ev @ evs, db'')))"

fun action_ok :: "b256 \<Rightarrow> service_action \<Rightarrow> bool" where
  "action_ok pid (StoreOp f op) = (op_ok op \<and> \<not> records pid op)"
| "action_ok pid (Sweep f owner cv) = True"

lemma bt_step_any_displaced:
  assumes "bt_inv no_faults c db" and "op_ok op" and "displaced_row (bt_abs c db) pid" and "\<not> records pid op"
  shows "displaced_row (bt_abs c (snd (bt_step f c db op))) pid \<and>
         as_pools (bt_abs c (snd (bt_step f c db op))) pid = as_pools (bt_abs c db) pid"
  using bt_step_refines [OF assms(1,2)] spec_step_displaced [OF _ assms(3,4)] bt_step_faulty [of f c db op] assms(3)
  by auto

lemma service_run_displaced:
  assumes "bt_inv no_faults c db" and "displaced_row (bt_abs c db) pid" and "list_all (action_ok pid) acts"
    and "service_run c db acts = (evs, db')"
  shows "ReadPool pid \<notin> set evs \<and> SentReclaim pid \<notin> set evs \<and> as_pools (bt_abs c db') pid = as_pools (bt_abs c db) pid"
  using assms
proof (induction c db acts arbitrary: evs rule: service_run.induct)
  case (2 c db f op acts)
  then have "bt_inv no_faults c (snd (bt_step f c db op))" by (auto intro: bt_step_any_inv)
  moreover have "displaced_row (bt_abs c (snd (bt_step f c db op))) pid \<and>
         as_pools (bt_abs c (snd (bt_step f c db op))) pid = as_pools (bt_abs c db) pid"
    using "2.prems" by (intro bt_step_any_displaced) simp_all
  ultimately show ?case using "2.IH" "2.prems" by simp
next
  case (3 c db f owner cv acts)
  obtain ev db1 where ev: "reclaim_once (table_iface f c) cv owner db = (ev, db1)"
    by (cases "reclaim_once (table_iface f c) cv owner db")
  with table_any.reclaim_once_displaced [OF "3.prems"(1,2) ev] "3.IH" [OF ev [symmetric]] "3.prems"(3,4)
  show ?case by (auto split: prod.splits)
qed simp

text \<open>
  C30. Replacing a closing pool strands its residual: the open task records the new pool over the
  owner's index entry, and from then on no reclaim sweep reads the closing pool or reclaims it,
  while its row stays in the table, until some operation records that pool again.
\<close>

theorem replacement_strands_closed_pool:
  assumes inv: "bt_inv no_faults c db"
    and old: "as_owner (bt_abs c db) owner = Some old" "as_pools (bt_abs c db) old = Some r"
    and only: "\<And>o'. as_owner (bt_abs c db) o' = Some old \<Longrightarrow> o' = owner"
    and new: "row_ok new" "bp_owner new = owner" "bp_pool_id new \<noteq> old" and req: "or_owner req = owner"
    and run: "run_open (table_iface no_faults c) req (Some old) (Opened new) db = (sent, out, db1)"
    and acts: "list_all (action_ok old) acts" "service_run c db1 acts = (evs, db2)"
  shows "sent \<and> out = Inr () \<and> ReadPool old \<notin> set evs \<and> SentReclaim old \<notin> set evs \<and>
         as_pools (bt_abs c db2) old = Some r"
proof -
  obtain s st' where get: "bi_get_by_owner (table_iface no_faults c) owner db = (Inr s, st')" "bt_inv no_faults c st'"
    "bt_abs c st' = bt_abs c db" "map_option abs_row_of s = Some r"
    using table_laws(1) [OF inv, of owner] old by auto
  then obtain x where x: "s = Some x" "abs_row_of x = r" by auto
  have "bp_pool_id x = old" using table_keys [OF inv old(2)] x by (auto simp: abs_row_of_def)
  moreover obtain st2 where st2: "bi_record (table_iface no_faults c) new st' = (Inr (), st2)" "bt_inv no_faults c st2"
    "bt_abs c st2 = snd (spec_step (bt_abs c st') (Record new))"
    using table_laws(2) [OF get(2) new(1)] by blast
  ultimately have out: "sent" "out = Inr ()" "db1 = st2" using run get x req by (auto simp: run_open_def)
  have abs1: "bt_abs c db1 = snd (spec_step (bt_abs c db) (Record new))" using out(3) st2(3) get(3) by simp
  have displaced: "displaced_row (bt_abs c db1) old"
    unfolding displaced_row_def abs1 using only new(2,3) by auto
  have row: "as_pools (bt_abs c db1) old = Some r" unfolding abs1 using new(3) old(2) by simp
  have "bt_inv no_faults c db1" using out(3) st2(2) by simp
  from service_run_displaced [OF this displaced acts] row out(1,2) show ?thesis by simp
qed

definition demo_closing :: chain_view where
  "demo_closing =
     \<lparr>cv_get_pools = pages_of [8, 9],
      cv_get_pool = (\<lambda>pid. Inr \<lparr>cp_owner = 1, cp_status = (if pid = 8 then Closing else Open),
                                cp_disputeDeadline = (if pid = 8 then 10 else 0),
                                cp_deposit = 1000, cp_totalRedeemed = 100\<rparr>),
      cv_head_timestamp = Inr 50, cv_reclaim = (\<lambda>_. ReclaimMined True)\<rparr>"

theorem replacement_strands_closed_pool_witness:
  "\<exists>db1 evs db2 r.
     run_open (table_iface no_faults demo_codec)
       \<lparr>or_deployment = \<lparr>chain_id = 1, payment_pool = 9\<rparr>, or_token = 5, or_owner = 1, or_deposit = 500\<rparr>
       (Some 8) (Opened (demo_row\<lparr>bp_pool_id := 9\<rparr>)) demo_tracked = (True, Inr (), db1) \<and>
     service_run demo_codec db1 [Sweep no_faults 1 demo_closing] = (evs, db2) \<and>
     ReadPool 8 \<notin> set evs \<and> SentReclaim 8 \<notin> set evs \<and> as_pools (bt_abs demo_codec db2) 8 = Some r"
proof -
  let ?req = "\<lparr>or_deployment = \<lparr>chain_id = 1, payment_pool = 9\<rparr>, or_token = 5, or_owner = 1, or_deposit = 500\<rparr>"
  let ?new = "demo_row\<lparr>bp_pool_id := 9\<rparr>"
  have abs: "bt_abs demo_codec demo_tracked = snd (spec_run (bm_abs MemoryBuyerPoolStore_new) [Record (demo_row\<lparr>bp_pool_id := 8\<rparr>)])"
    using clean_history_abs [OF demo_codec_ok, of "[Record (demo_row\<lparr>bp_pool_id := 8\<rparr>)]"]
    by (simp add: demo_tracked_def demo_row_def buyer_new_def row_ok_def)
  have old: "as_owner (bt_abs demo_codec demo_tracked) 1 = Some 8"
    "as_pools (bt_abs demo_codec demo_tracked) 8 = Some (abs_row_of (demo_row\<lparr>bp_pool_id := 8\<rparr>))"
    "as_owner (bt_abs demo_codec demo_tracked) o' = Some 8 \<Longrightarrow> o' = 1" for o'
    by (auto simp: abs demo_row_def buyer_new_def bm_abs_def MemoryBuyerPoolStore_new_def split: if_splits)
  have new: "row_ok ?new" "bp_owner ?new = 1" "bp_pool_id ?new \<noteq> 8" "or_owner ?req = 1"
    by (simp_all add: demo_row_def buyer_new_def row_ok_def)
  obtain sent out db1 where run: "run_open (table_iface no_faults demo_codec) ?req (Some 8) (Opened ?new) demo_tracked = (sent, out, db1)"
    by (metis prod.exhaust)
  obtain evs db2 where acts: "service_run demo_codec db1 [Sweep no_faults 1 demo_closing] = (evs, db2)"
    by (metis prod.exhaust)
  have "list_all (action_ok 8) [Sweep no_faults 1 demo_closing]" by simp
  from replacement_strands_closed_pool [OF demo_tracked_inv old new run this acts] run acts show ?thesis by auto
qed

end
