(* ===== verification/Stream_Cap.thy ===== *)
theory Stream_Cap
  imports Decdn_Prelude
begin

text \<open>
  The cap on concurrent streams to one provider (\<open>src/crates/client/src/stream_cap.rs\<close>): the
  permits of each provider, the claims of the lanes that wait for one, and the order in which
  a freed permit is granted.

  A provider's semaphore is its number of free permits; a permit held is a count at its holder.
  Times are milliseconds. The code polls every fetch on one task and never awaits while it
  counts and takes, so each call is one step. The step relation \<open>cap_step\<close> lets any number of
  lanes to any providers lease, grow, release and end in any order.
\<close>

subsection \<open>Permits and claims of one provider\<close>

definition GROWTH_RETRY :: nat where
  "GROWTH_RETRY = 1000"

definition CLAIM_TTL :: nat where
  "CLAIM_TTL = GROWTH_RETRY * 3"

record claim =
  cl_lane :: u64
  cl_keep :: nat
  cl_bare :: bool
  cl_at :: nat

record provider_streams =
  available_permits :: nat
  ps_claims :: "claim list"

definition ProviderStreams_new :: "nat \<Rightarrow> provider_streams" where
  "ProviderStreams_new n = \<lparr>available_permits = n, ps_claims = []\<rparr>"

fun claim_position :: "u64 \<Rightarrow> claim list \<Rightarrow> nat option" where
  "claim_position lane [] = None"
| "claim_position lane (c # cs) =
     (if cl_lane c = lane then Some 0 else map_option Suc (claim_position lane cs))"

definition live_claims :: "nat \<Rightarrow> claim list \<Rightarrow> claim list" where
  "live_claims now cs = filter (\<lambda>c. now - cl_at c < CLAIM_TTL) cs"

definition held_back :: "u64 \<Rightarrow> nat \<Rightarrow> bool \<Rightarrow> claim list \<Rightarrow> nat \<times> nat" where
  "held_back lane keep bare live =
     (let own = claim_position lane live;
          ahead = take (case own of None \<Rightarrow> length live | Some i \<Rightarrow> i) live
      in fold (\<lambda>c (n, kept). (n + 1, max kept (cl_keep c))) (filter (\<lambda>c. \<not> bare \<or> cl_bare c) ahead) (0, keep))"

definition streams_take ::
  "nat \<Rightarrow> u64 \<Rightarrow> nat \<Rightarrow> bool \<Rightarrow> provider_streams \<Rightarrow> bool \<times> provider_streams" where
  "streams_take now lane keep bare ps =
     (let live = live_claims now (ps_claims ps);
          own = claim_position lane live;
          (ahead, kept) = held_back lane keep bare live
      in if available_permits ps \<le> ahead + kept
         then (let c = \<lparr>cl_lane = lane, cl_keep = keep, cl_bare = bare, cl_at = now\<rparr>
               in (False, ps\<lparr>ps_claims := (case own of Some i \<Rightarrow> live[i := c] | None \<Rightarrow> live @ [c])\<rparr>))
         else if available_permits ps = 0 then (False, ps\<lparr>ps_claims := live\<rparr>)
         else (True, ps\<lparr>available_permits := available_permits ps - 1,
                        ps_claims := (case own of Some i \<Rightarrow> take i live @ drop (Suc i) live | None \<Rightarrow> live)\<rparr>))"

definition streams_forget :: "u64 \<Rightarrow> provider_streams \<Rightarrow> provider_streams" where
  "streams_forget lane ps = ps\<lparr>ps_claims := filter (\<lambda>c. cl_lane c \<noteq> lane) (ps_claims ps)\<rparr>"

subsection \<open>The cap of a run\<close>

record lane_stream_cap =
  cap_map :: "(address \<times> provider_streams) list"
  cap_n :: nat
  cap_next_lane :: u64

definition LaneStreamCap_new :: "nat \<Rightarrow> lane_stream_cap" where
  "LaneStreamCap_new n = \<lparr>cap_map = [], cap_n = max n 1, cap_next_lane = 0\<rparr>"

definition cap_streams :: "lane_stream_cap \<Rightarrow> address \<Rightarrow> provider_streams" where
  "cap_streams cap p =
     (case map_of (cap_map cap) p of Some ps \<Rightarrow> ps | None \<Rightarrow> ProviderStreams_new (cap_n cap))"

definition cap_put :: "address \<Rightarrow> provider_streams \<Rightarrow> lane_stream_cap \<Rightarrow> lane_stream_cap" where
  "cap_put p ps cap = cap\<lparr>cap_map := AList.update p ps (cap_map cap)\<rparr>"

definition try_permit :: "address \<Rightarrow> lane_stream_cap \<Rightarrow> bool \<times> lane_stream_cap" where
  "try_permit p cap =
     (let ps = cap_streams cap p in
      if available_permits ps = 0 then (False, cap_put p ps cap)
      else (True, cap_put p (ps\<lparr>available_permits := available_permits ps - 1\<rparr>) cap))"

definition give_back :: "address \<Rightarrow> nat \<Rightarrow> lane_stream_cap \<Rightarrow> lane_stream_cap" where
  "give_back p k cap =
     (let ps = cap_streams cap p in cap_put p (ps\<lparr>available_permits := available_permits ps + k\<rparr>) cap)"

definition extra_keep :: "lane_stream_cap \<Rightarrow> nat" where
  "extra_keep cap = (if cap_n cap > 2 then 1 else 0)"

datatype grow_for = Restart | Extra

record extra_permits =
  ep_provider :: address
  ep_keep :: nat
  ep_lane :: u64
  ep_held :: nat

definition extra_permits_new :: "address \<Rightarrow> lane_stream_cap \<Rightarrow> extra_permits \<times> lane_stream_cap" where
  "extra_permits_new p cap =
     (\<lparr>ep_provider = p, ep_keep = extra_keep cap, ep_lane = cap_next_lane cap, ep_held = 0\<rparr>,
      (cap_put p (cap_streams cap p) cap)\<lparr>cap_next_lane := cap_next_lane cap + 1\<rparr>)"

definition extra_grant ::
  "nat \<Rightarrow> grow_for \<Rightarrow> extra_permits \<Rightarrow> lane_stream_cap \<Rightarrow> bool \<times> extra_permits \<times> lane_stream_cap" where
  "extra_grant now kind ep cap =
     (let (keep, bare) = (case kind of Restart \<Rightarrow> (0, ep_held ep = 0) | Extra \<Rightarrow> (ep_keep ep, False));
          (granted, ps) = streams_take now (ep_lane ep) keep bare (cap_streams cap (ep_provider ep));
          cap' = cap_put (ep_provider ep) ps cap
      in if granted then (True, ep\<lparr>ep_held := ep_held ep + 1\<rparr>, cap') else (False, ep, cap'))"

text \<open>A release with none held does nothing; a debug build asserts that it does not happen.\<close>

definition extra_release_one :: "extra_permits \<Rightarrow> lane_stream_cap \<Rightarrow> extra_permits \<times> lane_stream_cap" where
  "extra_release_one ep cap =
     (if ep_held ep = 0 then (ep, cap)
      else (ep\<lparr>ep_held := ep_held ep - 1\<rparr>, give_back (ep_provider ep) 1 cap))"

text \<open>An ended lane claims nothing; the permits it still holds go back with it.\<close>

definition extra_drop :: "extra_permits \<Rightarrow> lane_stream_cap \<Rightarrow> lane_stream_cap" where
  "extra_drop ep cap =
     (let p = ep_provider ep; cap' = cap_put p (streams_forget (ep_lane ep) (cap_streams cap p)) cap
      in give_back p (ep_held ep) cap')"

subsection \<open>Lanes running side by side\<close>

record cap_world =
  cw_cap :: lane_stream_cap
  cw_leases :: "address list"
  cw_extras :: "extra_permits list"

inductive cap_step :: "cap_world \<Rightarrow> cap_world \<Rightarrow> bool" where
  lease: "try_permit p (cw_cap w) = (True, cap) \<Longrightarrow>
    cap_step w (w\<lparr>cw_cap := cap, cw_leases := p # cw_leases w\<rparr>)"
| lease_refused: "try_permit p (cw_cap w) = (False, cap) \<Longrightarrow> cap_step w (w\<lparr>cw_cap := cap\<rparr>)"
| lease_end: "p \<in> set (cw_leases w) \<Longrightarrow>
    cap_step w (w\<lparr>cw_cap := give_back p 1 (cw_cap w), cw_leases := remove1 p (cw_leases w)\<rparr>)"
| widen: "extra_permits_new p (cw_cap w) = (ep, cap) \<Longrightarrow>
    cap_step w (w\<lparr>cw_cap := cap, cw_extras := ep # cw_extras w\<rparr>)"
| grow: "i < length (cw_extras w) \<Longrightarrow> extra_grant now kind (cw_extras w ! i) (cw_cap w) = (granted, ep, cap) \<Longrightarrow>
    cap_step w (w\<lparr>cw_cap := cap, cw_extras := (cw_extras w)[i := ep]\<rparr>)"
| shrink: "i < length (cw_extras w) \<Longrightarrow> extra_release_one (cw_extras w ! i) (cw_cap w) = (ep, cap) \<Longrightarrow>
    cap_step w (w\<lparr>cw_cap := cap, cw_extras := (cw_extras w)[i := ep]\<rparr>)"
| lane_end: "i < length (cw_extras w) \<Longrightarrow>
    cap_step w (w\<lparr>cw_cap := extra_drop (cw_extras w ! i) (cw_cap w),
                  cw_extras := take i (cw_extras w) @ drop (Suc i) (cw_extras w)\<rparr>)"

inductive cap_reachable :: "nat \<Rightarrow> cap_world \<Rightarrow> bool" for n where
  start: "cap_reachable n \<lparr>cw_cap = LaneStreamCap_new n, cw_leases = [], cw_extras = []\<rparr>"
| step: "cap_reachable n w \<Longrightarrow> cap_step w w' \<Longrightarrow> cap_reachable n w'"

inductive_cases cap_stepE: "cap_step w w'"

subsection \<open>What holds a permit back\<close>

definition ahead_of :: "u64 \<Rightarrow> bool \<Rightarrow> claim list \<Rightarrow> claim list" where
  "ahead_of lane bare live =
     filter (\<lambda>c. \<not> bare \<or> cl_bare c) (takeWhile (\<lambda>c. cl_lane c \<noteq> lane) live)"

lemma take_claim_position:
  "take (case claim_position lane cs of None \<Rightarrow> length cs | Some i \<Rightarrow> i) cs
     = takeWhile (\<lambda>c. cl_lane c \<noteq> lane) cs"
  by (induction cs) (auto split: option.splits)

lemma claim_position_Some:
  "claim_position lane cs = Some i \<Longrightarrow> i < length cs \<and> cl_lane (cs ! i) = lane"
  by (induction cs arbitrary: i) (auto split: if_splits)

lemma claim_position_after:
  "(case claim_position lane cs of None \<Rightarrow> True | Some i \<Rightarrow> j < i) \<Longrightarrow>
     \<forall>c \<in> set (take j cs). cl_lane c \<noteq> lane"
proof (induction cs arbitrary: j)
  case (Cons c cs)
  then show ?case by (cases j) (fastforce split: option.splits if_splits)+
qed simp

lemma claim_position_None:
  "claim_position lane cs = None \<longleftrightarrow> lane \<notin> cl_lane ` set cs"
  by (induction cs) auto

lemma fold_held_back:
  "fold (\<lambda>c (n, kept). (Suc n, max kept (cl_keep c))) cs (n, k)
     = (n + length cs, fold (\<lambda>c kept. max kept (cl_keep c)) cs k)"
  by (induction cs arbitrary: n k) auto

lemma held_back_split:
  "held_back lane keep bare live =
     (length (ahead_of lane bare live),
      fold (\<lambda>c kept. max kept (cl_keep c)) (ahead_of lane bare live) keep)"
  by (simp add: held_back_def Let_def take_claim_position fold_held_back ahead_of_def)

lemma fold_keep_le:
  "fold (\<lambda>c kept. max kept (cl_keep c)) cs k \<le> m \<longleftrightarrow> k \<le> m \<and> (\<forall>c \<in> set cs. cl_keep c \<le> m)"
  by (induction cs arbitrary: k) auto

lemma streams_take_granted:
  "fst (streams_take now lane keep bare ps) \<longleftrightarrow>
     (let (ahead, kept) = held_back lane keep bare (live_claims now (ps_claims ps))
      in ahead + kept < available_permits ps)"
  by (auto simp: streams_take_def Let_def split: prod.splits)

lemma drop_claim_at:
  "claim_position lane cs = Some i \<Longrightarrow> distinct (map cl_lane cs) \<Longrightarrow>
     take i cs @ drop (Suc i) cs = filter (\<lambda>c. cl_lane c \<noteq> lane) cs"
proof (induction cs arbitrary: i)
  case (Cons c cs)
  have "lane \<notin> cl_lane ` set cs \<Longrightarrow> filter (\<lambda>c. cl_lane c \<noteq> lane) cs = cs"
    by (induction cs) auto
  with Cons show ?case by (auto split: if_splits)
qed simp

lemma streams_take_grant:
  assumes "streams_take now lane keep bare ps = (True, ps')" "distinct (map cl_lane (ps_claims ps))"
  shows "available_permits ps = Suc (available_permits ps')"
    and "ps_claims ps' = filter (\<lambda>c. cl_lane c \<noteq> lane) (live_claims now (ps_claims ps))"
proof -
  have live: "distinct (map cl_lane (live_claims now (ps_claims ps)))"
    using assms(2) by (simp add: live_claims_def distinct_map_filter)
  have none: "lane \<notin> cl_lane ` set cs \<Longrightarrow> filter (\<lambda>c. cl_lane c \<noteq> lane) cs = cs" for cs
    by (induction cs) auto
  show "available_permits ps = Suc (available_permits ps')"
    using assms(1) by (auto simp: streams_take_def Let_def split: prod.splits if_splits)
  show "ps_claims ps' = filter (\<lambda>c. cl_lane c \<noteq> lane) (live_claims now (ps_claims ps))"
    using assms(1) live
    by (auto simp: streams_take_def Let_def drop_claim_at claim_position_None none
        split: prod.splits if_splits option.splits)
qed

lemma streams_take_refused_permits:
  "streams_take now lane keep bare ps = (False, ps') \<Longrightarrow> available_permits ps' = available_permits ps"
  by (auto simp: streams_take_def Let_def split: prod.splits if_splits)

lemma streams_take_claims:
  assumes "distinct (map cl_lane (ps_claims ps))" "streams_take now lane keep bare ps = (g, ps')"
  shows "distinct (map cl_lane (ps_claims ps'))"
    and "cl_lane ` set (ps_claims ps') \<subseteq> insert lane (cl_lane ` set (ps_claims ps))"
proof -
  define live where "live = live_claims now (ps_claims ps)"
  have live: "distinct (map cl_lane live)" and sub: "set live \<subseteq> set (ps_claims ps)"
    using assms(1) by (auto simp: live_def live_claims_def distinct_map_filter)
  have renew: "map cl_lane (live[i := c]) = map cl_lane live"
    if "claim_position lane live = Some i" "cl_lane c = lane" for i c
    using claim_position_Some [OF that(1)] that(2) by (simp add: map_update list_update_same_conv)
  have renewed: "set (live[i := c]) \<subseteq> insert c (set live)" for i c
    by (rule set_update_subset_insert)
  define c where "c = \<lparr>cl_lane = lane, cl_keep = keep, cl_bare = bare, cl_at = now\<rparr>"
  have c: "cl_lane c = lane" by (simp add: c_def)
  have *: "ps_claims ps' = filter (\<lambda>c. cl_lane c \<noteq> lane) live \<or> ps_claims ps' = live \<or>
      claim_position lane live = None \<and> ps_claims ps' = live @ [c] \<or>
      (\<exists>i. claim_position lane live = Some i \<and> ps_claims ps' = live[i := c])"
    using assms(2) unfolding streams_take_def live_def [symmetric] Let_def c_def [symmetric]
    by (cases "claim_position lane live") (auto simp: drop_claim_at live split: prod.splits if_splits)
  show "distinct (map cl_lane (ps_claims ps'))"
    using * live c by (auto simp: renew claim_position_None distinct_map_filter)
  show "cl_lane ` set (ps_claims ps') \<subseteq> insert lane (cl_lane ` set (ps_claims ps))"
    using * sub c renewed [of _ c] by fastforce
qed

subsection \<open>Nobody overtakes a waiting lane\<close>

lemma takeWhile_filter_other:
  "\<forall>c \<in> set (takeWhile P cs). Q c \<Longrightarrow> (\<And>c. \<not> P c \<Longrightarrow> Q c) \<Longrightarrow>
     takeWhile P (filter Q cs) = takeWhile P cs"
  by (induction cs) (auto split: if_splits)

lemma takeWhile_lane_at:
  "distinct (map cl_lane cs) \<Longrightarrow> j < length cs \<Longrightarrow>
     takeWhile (\<lambda>c. cl_lane c \<noteq> cl_lane (cs ! j)) cs = take j cs"
proof (induction cs arbitrary: j)
  case (Cons c cs)
  then show ?case by (cases j) (auto simp: image_iff)
qed simp

lemma live_claims_idem: "live_claims now (live_claims now cs) = live_claims now cs"
  by (simp add: live_claims_def)

lemma live_claims_filter: "live_claims now (filter Q cs) = filter Q (live_claims now cs)"
  by (simp add: live_claims_def conj_commute)

text \<open>The lane of claim \<open>j\<close> asks after another lane's grant: its claims ahead are a part of the
  claims that held the other lane back, and its own is one more of them.\<close>

lemma ahead_of_prefix:
  assumes "distinct (map cl_lane live)" "j < length live"
    and "case claim_position lane live of None \<Rightarrow> True | Some i \<Rightarrow> j < i"
    and "bare \<longrightarrow> cl_bare (live ! j)"
  shows "\<exists>later. ahead_of lane bare live =
           filter (\<lambda>c. \<not> bare \<or> cl_bare c) (take j live) @ live ! j # later"
proof -
  define m where "m = (case claim_position lane live of None \<Rightarrow> length live | Some i \<Rightarrow> i)"
  have m: "j < m" "m \<le> length live"
    using assms(2,3) claim_position_Some [of lane live] by (auto simp: m_def split: option.splits)
  have "take m live = take j live @ live ! j # take (m - Suc j) (drop (Suc j) live)"
  proof -
    have "take m live = take j live @ take (m - j) (drop j live)"
      using m by (metis le_add_diff_inverse less_imp_le take_add)
    also have "drop j live = live ! j # drop (Suc j) live"
      using assms(2) by (simp add: Cons_nth_drop_Suc)
    finally show ?thesis
      using m(1) by (simp add: Suc_diff_Suc [symmetric])
  qed
  then show ?thesis
    using assms(4) by (auto simp: ahead_of_def take_claim_position [symmetric] m_def [symmetric])
qed

lemma grant_leaves_room:
  assumes live: "live = live_claims now (ps_claims ps)" and d: "distinct (map cl_lane (ps_claims ps))"
    and j: "j < length live" "c = live ! j"
    and lane: "lane \<noteq> cl_lane c" "case claim_position lane live of None \<Rightarrow> True | Some i \<Rightarrow> j < i"
    and bare: "bare \<longrightarrow> cl_bare c"
    and grant: "streams_take now lane keep bare ps = (True, ps')"
  shows "fst (streams_take now (cl_lane c) (cl_keep c) (cl_bare c) ps')"
proof -
  let ?fold = "fold (\<lambda>c kept. max kept (cl_keep c))"
  have dl: "distinct (map cl_lane live)"
    using d by (simp add: live live_claims_def distinct_map_filter)
  note ps' = streams_take_grant [OF grant d, folded live]
  have claims: "live_claims now (ps_claims ps') = filter (\<lambda>c. cl_lane c \<noteq> lane) live"
    by (simp add: ps'(2) live live_claims_filter live_claims_idem)
  obtain later where ahead: "ahead_of lane bare live =
      filter (\<lambda>c. \<not> bare \<or> cl_bare c) (take j live) @ c # later"
    using ahead_of_prefix [OF dl j(1) lane(2)] bare j(2) by blast
  have others: "\<forall>x \<in> set (take j live). cl_lane x \<noteq> lane"
    using lane(2) by (rule claim_position_after)
  have "takeWhile (\<lambda>x. cl_lane x \<noteq> cl_lane c) (filter (\<lambda>x. cl_lane x \<noteq> lane) live) = take j live"
    using takeWhile_lane_at [OF dl j(1)] others lane(1) j(2)
    by (subst takeWhile_filter_other) auto
  then have mine: "ahead_of (cl_lane c) (cl_bare c) (filter (\<lambda>c. cl_lane c \<noteq> lane) live)
      = filter (\<lambda>x. \<not> cl_bare c \<or> cl_bare x) (take j live)"
    by (simp add: ahead_of_def)
  have "set (ahead_of (cl_lane c) (cl_bare c) (filter (\<lambda>c. cl_lane c \<noteq> lane) live))
      \<subseteq> set (filter (\<lambda>c. \<not> bare \<or> cl_bare c) (take j live))"
    using bare by (auto simp: mine)
  then have kept: "?fold (ahead_of (cl_lane c) (cl_bare c) (filter (\<lambda>c. cl_lane c \<noteq> lane) live)) (cl_keep c)
      \<le> ?fold (ahead_of lane bare live) keep"
    using fold_keep_le [of "ahead_of lane bare live" keep "?fold (ahead_of lane bare live) keep"]
    by (auto simp: fold_keep_le ahead)
  have count: "length (ahead_of (cl_lane c) (cl_bare c) (filter (\<lambda>c. cl_lane c \<noteq> lane) live))
      < length (ahead_of lane bare live)"
  proof -
    have "length (filter (\<lambda>x. \<not> cl_bare c \<or> cl_bare x) xs) \<le> length (filter (\<lambda>x. \<not> bare \<or> cl_bare x) xs)" for xs
      using bare by (induction xs) (auto simp: le_SucI)
    from this [of "take j live"] show ?thesis by (simp add: mine ahead)
  qed
  have "length (ahead_of lane bare live) + ?fold (ahead_of lane bare live) keep < available_permits ps"
    using streams_take_granted [of now lane keep bare ps] grant
    by (simp add: held_back_split live)
  with kept count show ?thesis
    by (simp add: streams_take_granted held_back_split claims ps'(1))
qed

subsection \<open>The permits of a provider are conserved\<close>

definition streams_running :: "address \<Rightarrow> cap_world \<Rightarrow> nat" where
  "streams_running p w = count_list (cw_leases w) p
     + (\<Sum>e \<leftarrow> cw_extras w. if ep_provider e = p then ep_held e else 0)"

text \<open>The ids of the running lanes to a provider; no claim outlives its lane.\<close>

definition lanes_to :: "address \<Rightarrow> extra_permits list \<Rightarrow> u64 set" where
  "lanes_to p es = {lane. (p, lane) \<in> (\<lambda>e. (ep_provider e, ep_lane e)) ` set es}"

definition cap_inv :: "nat \<Rightarrow> cap_world \<Rightarrow> bool" where
  "cap_inv n w \<longleftrightarrow> cap_n (cw_cap w) = max n 1 \<and>
     (\<forall>p. available_permits (cap_streams (cw_cap w) p) + streams_running p w = max n 1 \<and>
          distinct (map cl_lane (ps_claims (cap_streams (cw_cap w) p))) \<and>
          cl_lane ` set (ps_claims (cap_streams (cw_cap w) p)) \<subseteq> lanes_to p (cw_extras w))"

lemma cap_streams_put [simp]:
  "cap_streams (cap_put p ps cap) q = (if q = p then ps else cap_streams cap q)"
  "cap_n (cap_put p ps cap) = cap_n cap"
  by (simp_all add: cap_streams_def cap_put_def update_conv' split: option.splits)

lemma cap_streams_next_lane [simp]:
  "cap_streams (cap\<lparr>cap_next_lane := l\<rparr>) = cap_streams cap"
  by (simp add: cap_streams_def fun_eq_iff split: option.splits)

lemma sum_list_replace:
  fixes f :: "'a \<Rightarrow> nat"
  assumes "i < length xs"
  shows "(\<Sum>x \<leftarrow> xs[i := y]. f x) + f (xs ! i) = (\<Sum>x \<leftarrow> xs. f x) + f y"
    and "(\<Sum>x \<leftarrow> take i xs @ drop (Suc i) xs. f x) + f (xs ! i) = (\<Sum>x \<leftarrow> xs. f x)"
proof -
  have xs: "xs = take i xs @ xs ! i # drop (Suc i) xs"
    using assms by (rule id_take_nth_drop)
  have "(\<Sum>x \<leftarrow> xs. f x) = (\<Sum>x \<leftarrow> take i xs. f x) + f (xs ! i) + (\<Sum>x \<leftarrow> drop (Suc i) xs. f x)"
    by (subst xs) simp
  then show "(\<Sum>x \<leftarrow> xs[i := y]. f x) + f (xs ! i) = (\<Sum>x \<leftarrow> xs. f x) + f y"
    and "(\<Sum>x \<leftarrow> take i xs @ drop (Suc i) xs. f x) + f (xs ! i) = (\<Sum>x \<leftarrow> xs. f x)"
    using assms by (simp_all add: upd_conv_take_nth_drop)
qed

lemma count_list_remove1:
  "p \<in> set xs \<Longrightarrow> count_list (remove1 p xs) q + (if q = p then 1 else 0) = count_list xs q"
  by (induction xs) auto

lemma set_drop_nth:
  assumes "i < length xs" "x \<in> set xs" "x \<noteq> xs ! i"
  shows "x \<in> set (take i xs @ drop (Suc i) xs)"
proof -
  have "set xs = set (take i xs @ xs ! i # drop (Suc i) xs)"
    using assms(1) by (simp flip: id_take_nth_drop)
  with assms show ?thesis by auto
qed

lemma lanes_to_Cons [simp]:
  "lanes_to p (e # es) = (if ep_provider e = p then insert (ep_lane e) (lanes_to p es) else lanes_to p es)"
  by (auto simp: lanes_to_def)

lemma lanes_to_replace:
  assumes "i < length es" "ep_provider e = ep_provider (es ! i)" "ep_lane e = ep_lane (es ! i)"
  shows "lanes_to p (es[i := e]) = lanes_to p es"
proof -
  define key where "key = (\<lambda>e :: extra_permits. (ep_provider e, ep_lane e))"
  have "map key (es[i := e]) = (map key es)[i := map key es ! i]"
    using assms by (simp add: map_update key_def)
  then have "key ` set (es[i := e]) = key ` set es"
    by (metis list.set_map list_update_id)
  then show ?thesis by (simp add: lanes_to_def key_def)
qed

lemma lanes_to_remove:
  assumes "i < length es"
  shows "lanes_to p es \<subseteq> lanes_to p (take i es @ drop (Suc i) es)
           \<union> (if ep_provider (es ! i) = p then {ep_lane (es ! i)} else {})"
  using set_drop_nth [OF assms] by (fastforce simp: lanes_to_def)

lemma streams_running_update:
  assumes "i < length (cw_extras w)" "ep_provider e = ep_provider (cw_extras w ! i)"
  shows "streams_running p (w\<lparr>cw_cap := cap, cw_extras := (cw_extras w)[i := e]\<rparr>)
           + (if ep_provider e = p then ep_held (cw_extras w ! i) else 0)
         = streams_running p w + (if ep_provider e = p then ep_held e else 0)"
  using sum_list_replace(1) [OF assms(1), of "\<lambda>e. if ep_provider e = p then ep_held e else 0" e] assms(2)
  by (simp add: streams_running_def)

lemma streams_running_remove:
  assumes "i < length (cw_extras w)"
  shows "streams_running p (w\<lparr>cw_cap := cap, cw_extras := take i (cw_extras w) @ drop (Suc i) (cw_extras w)\<rparr>)
           + (if ep_provider (cw_extras w ! i) = p then ep_held (cw_extras w ! i) else 0)
         = streams_running p w"
  using sum_list_replace(2) [OF assms, of "\<lambda>e. if ep_provider e = p then ep_held e else 0"]
  by (simp add: streams_running_def)

lemma extra_grant_cases:
  assumes "extra_grant now kind e cap = (granted, e', cap')"
  obtains ps keep bare where
    "streams_take now (ep_lane e) keep bare (cap_streams cap (ep_provider e)) = (granted, ps)"
    "cap' = cap_put (ep_provider e) ps cap" "e' = e\<lparr>ep_held := ep_held e + (if granted then 1 else 0)\<rparr>"
proof -
  define a where "a = (case kind of Restart \<Rightarrow> (0, ep_held e = 0) | Extra \<Rightarrow> (ep_keep e, False))"
  obtain g ps where take: "streams_take now (ep_lane e) (fst a) (snd a) (cap_streams cap (ep_provider e)) = (g, ps)"
    by (cases "streams_take now (ep_lane e) (fst a) (snd a) (cap_streams cap (ep_provider e))")
  have "extra_grant now kind e cap =
      (g, e\<lparr>ep_held := ep_held e + (if g then 1 else 0)\<rparr>, cap_put (ep_provider e) ps cap)"
    unfolding extra_grant_def a_def [symmetric] by (simp add: Let_def take split_beta)
  with assms take show thesis by (auto intro: that)
qed

lemma streams_take_permits:
  "distinct (map cl_lane (ps_claims ps)) \<Longrightarrow> streams_take now lane keep bare ps = (g, ps') \<Longrightarrow>
     available_permits ps = available_permits ps' + (if g then 1 else 0)"
  using streams_take_grant(1) [of now lane keep bare ps ps'] streams_take_refused_permits [of now lane keep bare ps ps']
  by (cases g) auto

lemma cap_inv_frame:
  assumes inv: "cap_inv n w" and n: "cap_n cap' = cap_n (cw_cap w)"
    and others: "\<And>q. q \<noteq> p \<Longrightarrow> cap_streams cap' q = cap_streams (cw_cap w) q"
      "\<And>q. q \<noteq> p \<Longrightarrow> streams_running q w' = streams_running q w"
      "\<And>q. q \<noteq> p \<Longrightarrow> lanes_to q (cw_extras w) \<subseteq> lanes_to q (cw_extras w')"
    and cap: "cw_cap w' = cap'"
    and at: "available_permits (cap_streams cap' p) + streams_running p w'
               = available_permits (cap_streams (cw_cap w) p) + streams_running p w"
      "distinct (map cl_lane (ps_claims (cap_streams cap' p)))"
      "cl_lane ` set (ps_claims (cap_streams cap' p)) \<subseteq> lanes_to p (cw_extras w')"
  shows "cap_inv n w'"
  unfolding cap_inv_def
proof (intro conjI allI)
  show "cap_n (cw_cap w') = max n 1"
    using inv n cap by (simp add: cap_inv_def)
  fix q
  show "available_permits (cap_streams (cw_cap w') q) + streams_running q w' = max n 1"
    using inv others(1,2) [of q] at(1) cap by (cases "q = p") (auto simp: cap_inv_def)
  show "distinct (map cl_lane (ps_claims (cap_streams (cw_cap w') q)))"
    using inv others(1) [of q] at(2) cap by (cases "q = p") (auto simp: cap_inv_def)
  show "cl_lane ` set (ps_claims (cap_streams (cw_cap w') q)) \<subseteq> lanes_to q (cw_extras w')"
  proof (cases "q = p")
    case False
    have "cl_lane ` set (ps_claims (cap_streams (cw_cap w) q)) \<subseteq> lanes_to q (cw_extras w)"
      using inv unfolding cap_inv_def by blast
    with others [OF False] cap show ?thesis by (metis subset_trans)
  qed (use at(3) cap in simp)
qed

lemma cap_invD:
  assumes "cap_inv n w"
  shows "distinct (map cl_lane (ps_claims (cap_streams (cw_cap w) p)))"
    and "cl_lane ` set (ps_claims (cap_streams (cw_cap w) p)) \<subseteq> lanes_to p (cw_extras w)"
    and "available_permits (cap_streams (cw_cap w) p) + streams_running p w = max n 1"
  using assms unfolding cap_inv_def by blast+

lemma streams_running_lease:
  "streams_running q (w\<lparr>cw_cap := cap, cw_leases := p # cw_leases w\<rparr>) = streams_running q w + (if q = p then 1 else 0)"
  "streams_running q (w\<lparr>cw_cap := cap\<rparr>) = streams_running q w"
  "streams_running q (w\<lparr>cw_cap := cap, cw_extras := e # cw_extras w\<rparr>)
     = (if ep_provider e = q then ep_held e else 0) + streams_running q w"
  by (simp_all add: streams_running_def)

lemma streams_running_lease_end:
  "p \<in> set (cw_leases w) \<Longrightarrow>
     streams_running q (w\<lparr>cw_cap := cap, cw_leases := remove1 p (cw_leases w)\<rparr>) + (if q = p then 1 else 0)
       = streams_running q w"
  using count_list_remove1 [of p "cw_leases w" q] by (simp add: streams_running_def)

lemma try_permit_spec:
  assumes "try_permit p cap = (g, cap')"
  shows "cap_n cap' = cap_n cap" "q \<noteq> p \<Longrightarrow> cap_streams cap' q = cap_streams cap q"
    and "ps_claims (cap_streams cap' p) = ps_claims (cap_streams cap p)"
    and "available_permits (cap_streams cap p) = available_permits (cap_streams cap' p) + (if g then 1 else 0)"
  using assms by (auto simp: try_permit_def Let_def split: if_splits)

lemma cap_inv_lease:
  assumes "cap_inv n w" "try_permit p (cw_cap w) = (g, cap)"
    and w': "w' = (if g then w\<lparr>cw_cap := cap, cw_leases := p # cw_leases w\<rparr> else w\<lparr>cw_cap := cap\<rparr>)"
  shows "cap_inv n w'"
proof (rule cap_inv_frame [where p = p and cap' = cap, OF assms(1)])
  show "cl_lane ` set (ps_claims (cap_streams cap p)) \<subseteq> lanes_to p (cw_extras w')"
    using cap_invD(2) [OF assms(1)] by (simp add: w' try_permit_spec(3) [OF assms(2)])
qed (simp_all add: w' try_permit_spec [OF assms(2)] streams_running_lease cap_invD(1) [OF assms(1)])

lemma cap_inv_lease_end:
  assumes "cap_inv n w" "p \<in> set (cw_leases w)"
  shows "cap_inv n (w\<lparr>cw_cap := give_back p 1 (cw_cap w), cw_leases := remove1 p (cw_leases w)\<rparr>)"
proof (rule cap_inv_frame [where p = p and cap' = "give_back p 1 (cw_cap w)", OF assms(1)])
  let ?w = "w\<lparr>cw_cap := give_back p 1 (cw_cap w), cw_leases := remove1 p (cw_leases w)\<rparr>"
  show "cl_lane ` set (ps_claims (cap_streams (give_back p 1 (cw_cap w)) p)) \<subseteq> lanes_to p (cw_extras ?w)"
    using cap_invD(2) [OF assms(1), of p] by (simp add: give_back_def Let_def)
  show "streams_running q ?w = streams_running q w" if "q \<noteq> p" for q
    using streams_running_lease_end [OF assms(2), of q] that by simp
  show "available_permits (cap_streams (give_back p 1 (cw_cap w)) p) + streams_running p ?w
      = available_permits (cap_streams (cw_cap w) p) + streams_running p w"
    using streams_running_lease_end [OF assms(2), of p "give_back p 1 (cw_cap w)"]
    by (simp add: give_back_def Let_def)
qed (simp_all add: give_back_def Let_def cap_invD(1) [OF assms(1)])

lemma cap_inv_widen:
  assumes "cap_inv n w" "extra_permits_new p (cw_cap w) = (e, cap)"
  shows "cap_inv n (w\<lparr>cw_cap := cap, cw_extras := e # cw_extras w\<rparr>)"
proof -
  have e: "ep_provider e = p" "ep_held e = 0"
    and cap: "cap_n cap = cap_n (cw_cap w)" "cap_streams cap q = cap_streams (cw_cap w) q" for q
    using assms(2) by (auto simp: extra_permits_new_def)
  show ?thesis
  proof (rule cap_inv_frame [where p = p and cap' = cap, OF assms(1)])
    show "cl_lane ` set (ps_claims (cap_streams cap p))
        \<subseteq> lanes_to p (cw_extras (w\<lparr>cw_cap := cap, cw_extras := e # cw_extras w\<rparr>))"
      using cap_invD(2) [OF assms(1), of p] by (auto simp: cap e)
  qed (auto simp: cap e streams_running_lease cap_invD(1) [OF assms(1)])
qed

text \<open>A step of one lane changes its own permits and its provider only.\<close>

lemma cap_inv_lane:
  assumes "cap_inv n w" "i < length (cw_extras w)" "e = cw_extras w ! i"
    and e': "ep_provider e' = ep_provider e" "ep_lane e' = ep_lane e"
    and cap: "cap = cap_put (ep_provider e) ps (cw_cap w)"
    and permits: "available_permits ps + ep_held e' = available_permits (cap_streams (cw_cap w) (ep_provider e)) + ep_held e"
    and claims: "distinct (map cl_lane (ps_claims ps))"
      "cl_lane ` set (ps_claims ps)
         \<subseteq> insert (ep_lane e) (cl_lane ` set (ps_claims (cap_streams (cw_cap w) (ep_provider e))))"
  shows "cap_inv n (w\<lparr>cw_cap := cap, cw_extras := (cw_extras w)[i := e']\<rparr>)"
proof (rule cap_inv_frame [where p = "ep_provider e" and cap' = cap, OF assms(1)])
  let ?w = "w\<lparr>cw_cap := cap, cw_extras := (cw_extras w)[i := e']\<rparr>"
  have lanes: "lanes_to p ((cw_extras w)[i := e']) = lanes_to p (cw_extras w)" for p
    using assms(2,3) e' by (simp add: lanes_to_replace)
  have own: "ep_lane e \<in> lanes_to (ep_provider e) (cw_extras w)"
    using assms(2,3) by (auto simp: lanes_to_def)
  note run = streams_running_update [OF assms(2), of e' _ cap, folded assms(3), OF e'(1)]
  show "available_permits (cap_streams cap (ep_provider e)) + streams_running (ep_provider e) ?w
      = available_permits (cap_streams (cw_cap w) (ep_provider e)) + streams_running (ep_provider e) w"
    using run [of "ep_provider e"] permits by (simp add: cap e'(1))
  show "cl_lane ` set (ps_claims (cap_streams cap (ep_provider e))) \<subseteq> lanes_to (ep_provider e) (cw_extras ?w)"
    using subset_trans [OF claims(2) insert_subsetI [OF own cap_invD(2) [OF assms(1)]]] by (simp add: cap lanes)
  show "streams_running q ?w = streams_running q w" if "q \<noteq> ep_provider e" for q
    using run [of q] that e'(1) by simp
  show "lanes_to q (cw_extras w) \<subseteq> lanes_to q (cw_extras ?w)" for q
    by (simp add: lanes)
qed (simp_all add: cap claims(1))

lemma cap_inv_grow:
  assumes "cap_inv n w" "i < length (cw_extras w)"
    "extra_grant now kind (cw_extras w ! i) (cw_cap w) = (granted, e', cap)"
  shows "cap_inv n (w\<lparr>cw_cap := cap, cw_extras := (cw_extras w)[i := e']\<rparr>)"
proof -
  let ?e = "cw_extras w ! i"
  obtain ps keep bare where g:
    "streams_take now (ep_lane ?e) keep bare (cap_streams (cw_cap w) (ep_provider ?e)) = (granted, ps)"
    "cap = cap_put (ep_provider ?e) ps (cw_cap w)" "e' = ?e\<lparr>ep_held := ep_held ?e + (if granted then 1 else 0)\<rparr>"
    using assms(3) by (rule extra_grant_cases)
  note d = cap_invD(1) [OF assms(1), of "ep_provider ?e"]
  show ?thesis
    by (rule cap_inv_lane [OF assms(1,2) refl _ _ g(2)])
      (use streams_take_permits [OF d g(1)] streams_take_claims [OF d g(1)] in \<open>simp_all add: g(3)\<close>)
qed

lemma cap_inv_shrink:
  assumes "cap_inv n w" "i < length (cw_extras w)" "extra_release_one (cw_extras w ! i) (cw_cap w) = (e', cap)"
  shows "cap_inv n (w\<lparr>cw_cap := cap, cw_extras := (cw_extras w)[i := e']\<rparr>)"
proof (cases "ep_held (cw_extras w ! i) = 0")
  case True
  then have "e' = cw_extras w ! i" "cap = cw_cap w"
    using assms(3) by (simp_all add: extra_release_one_def)
  then show ?thesis
    using assms(1) by simp
next
  case False
  show ?thesis
    by (rule cap_inv_lane [OF assms(1,2) refl])
      (use False assms(3) cap_invD(1) [OF assms(1)] in \<open>auto simp: extra_release_one_def give_back_def Let_def\<close>)
qed

lemma cap_inv_lane_end:
  assumes "cap_inv n w" "i < length (cw_extras w)"
  shows "cap_inv n (w\<lparr>cw_cap := extra_drop (cw_extras w ! i) (cw_cap w),
                      cw_extras := take i (cw_extras w) @ drop (Suc i) (cw_extras w)\<rparr>)" (is "cap_inv n ?w")
proof -
  define e where "e = cw_extras w ! i"
  define cap where "cap = extra_drop e (cw_cap w)"
  have cap_at: "cap_n cap = cap_n (cw_cap w)" "q \<noteq> ep_provider e \<Longrightarrow> cap_streams cap q = cap_streams (cw_cap w) q"
    "available_permits (cap_streams cap (ep_provider e)) = available_permits (cap_streams (cw_cap w) (ep_provider e)) + ep_held e"
    "ps_claims (cap_streams cap (ep_provider e))
       = filter (\<lambda>c. cl_lane c \<noteq> ep_lane e) (ps_claims (cap_streams (cw_cap w) (ep_provider e)))" for q
    by (simp_all add: cap_def extra_drop_def give_back_def Let_def streams_forget_def)
  note run = streams_running_remove [OF assms(2), of _ cap, folded e_def]
  note lanes = lanes_to_remove [OF assms(2), folded e_def]
  show ?thesis unfolding e_def [symmetric] cap_def [symmetric]
  proof (rule cap_inv_frame [where p = "ep_provider e" and cap' = cap, OF assms(1)])
    let ?w = "w\<lparr>cw_cap := cap, cw_extras := take i (cw_extras w) @ drop (Suc i) (cw_extras w)\<rparr>"
    show "available_permits (cap_streams cap (ep_provider e)) + streams_running (ep_provider e) ?w
        = available_permits (cap_streams (cw_cap w) (ep_provider e)) + streams_running (ep_provider e) w"
      using run [of "ep_provider e"] by (simp add: cap_at)
    show "streams_running q ?w = streams_running q w" if "q \<noteq> ep_provider e" for q
      using run [of q] that by simp
    show "lanes_to q (cw_extras w) \<subseteq> lanes_to q (cw_extras ?w)" if "q \<noteq> ep_provider e" for q
      using lanes [of q] that by simp
    show "cl_lane ` set (ps_claims (cap_streams cap (ep_provider e))) \<subseteq> lanes_to (ep_provider e) (cw_extras ?w)"
      using lanes [of "ep_provider e"] cap_invD(2) [OF assms(1), of "ep_provider e"] by (auto simp: cap_at)
  qed (simp_all add: cap_at distinct_map_filter cap_invD(1) [OF assms(1)])
qed

lemma cap_inv_step:
  assumes "cap_inv n w" "cap_step w w'"
  shows "cap_inv n w'"
  using assms(2)
proof cases
  case (lease p cap)
  then show ?thesis using cap_inv_lease [OF assms(1) lease(2)] by simp
next
  case (lease_refused p cap)
  then show ?thesis using cap_inv_lease [OF assms(1) lease_refused(2)] by simp
next
  case (lease_end p)
  then show ?thesis using cap_inv_lease_end [OF assms(1)] by simp
qed (auto intro: assms(1) cap_inv_widen cap_inv_grow cap_inv_shrink cap_inv_lane_end)

lemma cap_inv_reachable: "cap_reachable n w \<Longrightarrow> cap_inv n w"
proof (induction rule: cap_reachable.induct)
  case start
  then show ?case
    by (simp add: cap_inv_def LaneStreamCap_new_def cap_streams_def ProviderStreams_new_def streams_running_def)
qed (rule cap_inv_step)

subsection \<open>Properties\<close>

text \<open>C21. However many fetches run at once and however their leases, growths, releases and ends
  fall, the permits of a provider are conserved: the free ones and the streams that run, the leases
  and the extra streams of every lane to it, are always exactly the cap, so no more than the cap
  ever run. At most one claim stands per lane, and none for a lane that has ended.\<close>

theorem streams_never_exceed_cap:
  assumes "cap_reachable n w"
  shows "available_permits (cap_streams (cw_cap w) p) + streams_running p w = max n 1 \<and>
         distinct (map cl_lane (ps_claims (cap_streams (cw_cap w) p))) \<and>
         cl_lane ` set (ps_claims (cap_streams (cw_cap w) p)) \<subseteq> lanes_to p (cw_extras w)"
  using cap_invD [OF cap_inv_reachable [OF assms]] by blast

text \<open>C22. No lane overtakes a lane that waits. When a lane with no claim, or with a later one, is
  granted a permit ahead of a live claim (an ask of a lane that runs no stream passes only claims of
  lanes that run one), then enough permits were free for both: the waiting lane's own ask, made at
  once on what is left, is granted too.\<close>

theorem waiting_lane_not_overtaken:
  assumes "cap_reachable n w" "ps = cap_streams (cw_cap w) p"
    and "j < length (live_claims now (ps_claims ps))" "c = live_claims now (ps_claims ps) ! j"
    and "lane \<noteq> cl_lane c"
      "case claim_position lane (live_claims now (ps_claims ps)) of None \<Rightarrow> True | Some i \<Rightarrow> j < i"
    and "bare \<longrightarrow> cl_bare c"
    and "streams_take now lane keep bare ps = (True, ps')"
  shows "fst (streams_take now (cl_lane c) (cl_keep c) (cl_bare c) ps')"
proof -
  have "distinct (map cl_lane (ps_claims ps))"
    using cap_invD(1) [OF cap_inv_reachable [OF assms(1)]] assms(2) by simp
  with assms(3-) show ?thesis by (intro grant_leaves_room [OF refl])
qed

text \<open>Two leases to provider 1 leave lane 0 a claim; both end before a newer lane asks.\<close>

definition claimed_world :: cap_world where
  "claimed_world =
     \<lparr>cw_cap = \<lparr>cap_map = [(1, \<lparr>available_permits = 2,
          ps_claims = [\<lparr>cl_lane = 0, cl_keep = 0, cl_bare = True, cl_at = 0\<rparr>]\<rparr>)], cap_n = 2, cap_next_lane = 1\<rparr>,
      cw_leases = [], cw_extras = [\<lparr>ep_provider = 1, ep_keep = 0, ep_lane = 0, ep_held = 0\<rparr>]\<rparr>"

lemmas cap_eval = LaneStreamCap_new_def extra_permits_new_def extra_keep_def cap_put_def cap_streams_def
  ProviderStreams_new_def try_permit_def give_back_def extra_grant_def streams_take_def held_back_def
  live_claims_def CLAIM_TTL_def GROWTH_RETRY_def Let_def

lemma claimed_world_reachable: "cap_reachable 2 claimed_world"
proof -
  let ?w = "\<lambda>a cs ls. \<lparr>cw_cap = \<lparr>cap_map = [(1, \<lparr>available_permits = a, ps_claims = cs\<rparr>)], cap_n = 2, cap_next_lane = 1\<rparr>,
      cw_leases = ls, cw_extras = [\<lparr>ep_provider = 1, ep_keep = 0, ep_lane = 0, ep_held = 0\<rparr>]\<rparr>"
  let ?c = "\<lparr>cl_lane = 0, cl_keep = 0, cl_bare = True, cl_at = 0\<rparr>"
  note start = cap_reachable.start [of 2]
  have "cap_reachable 2 (?w 2 [] [])"
    using cap_reachable.step [OF start cap_step.widen [of 1, OF prod.collapse [symmetric]]]
    by (simp add: cap_eval numeral_2_eq_2)
  from cap_reachable.step [OF this cap_step.lease [where p = 1]]
  have "cap_reachable 2 (?w 1 [] [1])" by (simp add: cap_eval)
  from cap_reachable.step [OF this cap_step.lease [where p = 1]]
  have "cap_reachable 2 (?w 0 [] [1, 1])" by (simp add: cap_eval)
  from cap_reachable.step [OF this cap_step.grow [where i = 0 and now = 0 and kind = Restart and granted = False]]
  have "cap_reachable 2 (?w 0 [?c] [1, 1])" by (simp add: cap_eval)
  from cap_reachable.step [OF this cap_step.lease_end [where p = 1]]
  have "cap_reachable 2 (?w 1 [?c] [1])" by (simp add: cap_eval)
  from cap_reachable.step [OF this cap_step.lease_end [where p = 1]]
  show ?thesis by (simp add: cap_eval claimed_world_def numeral_2_eq_2)
qed

theorem streams_never_exceed_cap_witness:
  "available_permits (cap_streams (cw_cap claimed_world) 1) + streams_running 1 claimed_world = 2"
  using streams_never_exceed_cap [OF claimed_world_reachable, of 1] by simp

theorem waiting_lane_not_overtaken_witness:
  "fst (streams_take 10 0 0 True \<lparr>available_permits = 1,
      ps_claims = [\<lparr>cl_lane = 0, cl_keep = 0, cl_bare = True, cl_at = 0\<rparr>]\<rparr>)"
  using waiting_lane_not_overtaken [OF claimed_world_reachable refl, where p = 1 and j = 0 and now = 10 and lane = 1
      and bare = True and keep = 0]
  by (simp add: claimed_world_def cap_eval)

end
