(* ===== verification/Pool_Contract.thy ===== *)
theory Pool_Contract
  imports Lane
begin

text \<open>
  What the settlement contract (\<open>src/contracts/src/PaymentPool.sol\<close>) does with one submitted
  voucher, up to the money it draws: it unpacks the meter word, walks the preimage to the root, extends
  the anchor by the proved chunks and checks that the extended figures fit their 64-bit fields
  (\<open>_resolveClaim\<close>), rebuilds the signed digest and recovers its signer
  (\<open>_verifyVoucher\<close>), and draws what the capability, the pool and the lane's watermark allow
  (\<open>_applyVoucher\<close>). A revert is an error value. The crediting of delivered bytes, the
  registration of capabilities, and the routing of the drawn money are not modelled.

  The typed-data digest is the one of the parameter \<open>A\<close>, which stands for the same standard on
  both sides. The recovery of a signer from a compact signature is code of a library and a parameter.
\<close>

subsection \<open>The voucher as submitted\<close>

record lane_voucher_sol =
  lv_signer :: address
  lv_cumulative :: u64
  lv_bytesDelivered :: u64
  lv_r :: b256
  lv_vs :: b256
  lv_chainRoot :: b256
  lv_preimage :: b256
  lv_chainMeter :: u256

record authorization =
  au_cap :: u64
  au_expiry :: u64
  au_spent :: u64

record chain_lane =
  cl_amount :: u64
  cl_bytesDelivered :: u64

datatype contract_error =
  ChainMeterReservedNonZero | BadChainPreimage | ClaimOverflow | InvalidVoucherSignature | ArithmeticPanic

type_synonym try_recover = "b256 \<Rightarrow> b256 \<Rightarrow> b256 \<Rightarrow> address option"

subsection \<open>The checks\<close>

definition resolveClaim :: "(b256 \<Rightarrow> b256) \<Rightarrow> lane_voucher_sol \<Rightarrow> contract_error + u64 \<times> u64 \<times> u256" where
  "resolveClaim keccak v =
     (let meter = lv_chainMeter v in
      if drop_bit 72 meter \<noteq> 0 then Inl ChainMeterReservedNonZero
      else let chunkPrice = ucast (ucast (drop_bit 8 meter) :: u64) :: u256;
               chainIndex = ucast (ucast meter :: u8) :: u256;
               walked = fold (\<lambda>_ w. keccak w) [0..<unat chainIndex] (lv_preimage v)
           in if walked \<noteq> lv_chainRoot v then Inl BadChainPreimage
              else let wideClaimed = ucast (lv_cumulative v) + chainIndex * chunkPrice;
                       wideBytes = ucast (lv_bytesDelivered v) + chainIndex * ucast CHUNK_BYTES
                   in if ucast (- 1 :: u64) < wideClaimed \<or> ucast (- 1 :: u64) < wideBytes then Inl ClaimOverflow
                      else Inr (ucast wideClaimed, ucast wideBytes, chunkPrice))"

definition voucher_struct :: "b256 \<Rightarrow> address \<Rightarrow> lane_voucher_sol \<Rightarrow> u256 \<Rightarrow> voucher_sol" where
  "voucher_struct poolId sender v chunkPrice =
     \<lparr>sol_poolId = poolId, sol_signer = lv_signer v, sol_provider = sender, sol_amount = ucast (lv_cumulative v),
      sol_bytesDelivered = ucast (lv_bytesDelivered v), sol_chainRoot = lv_chainRoot v, sol_chunkPrice = chunkPrice\<rparr>"

definition verifyVoucher ::
  "'sig alloy \<Rightarrow> try_recover \<Rightarrow> eip712_domain \<Rightarrow> b256 \<Rightarrow> address \<Rightarrow> lane_voucher_sol \<Rightarrow> u256 \<Rightarrow> contract_error + unit" where
  "verifyVoucher A tryRecover domain poolId sender v chunkPrice =
     (case tryRecover (eip712_signing_hash A (voucher_struct poolId sender v chunkPrice) domain) (lv_r v) (lv_vs v) of
        None \<Rightarrow> Inl InvalidVoucherSignature
      | Some recovered \<Rightarrow> if recovered \<noteq> lv_signer v then Inl InvalidVoucherSignature else Inr ())"

text \<open>The money one voucher draws; zero is the empty voucher that a batch skips.\<close>

definition voucher_draw ::
  "(b256 \<Rightarrow> b256) \<Rightarrow> 'sig alloy \<Rightarrow> try_recover \<Rightarrow> eip712_domain \<Rightarrow> address \<Rightarrow> u256 \<Rightarrow> b256 \<Rightarrow> lane_voucher_sol \<Rightarrow> u64 \<Rightarrow>
     authorization \<Rightarrow> chain_lane \<Rightarrow> contract_error + u64" where
  "voucher_draw keccak A tryRecover domain sender timestamp poolId v remaining a w =
     (if au_cap a = 0 \<and> au_expiry a = 0 then Inr 0
      else case resolveClaim keccak v of
             Inl e \<Rightarrow> Inl e
           | Inr (claimed, claimedBytes, chunkPrice) \<Rightarrow>
               (case verifyVoucher A tryRecover domain poolId sender v chunkPrice of
                  Inl e \<Rightarrow> Inl e
                | Inr _ \<Rightarrow>
                    if ucast (au_expiry a) \<le> timestamp then Inr 0
                    else if claimed \<le> cl_amount w then Inr 0
                    else let desired = claimed - cl_amount w in
                         if au_cap a < au_spent a then Inl ArithmeticPanic
                         else Inr (min desired (min (au_cap a - au_spent a) remaining))))"

subsection \<open>Reading a packed claim\<close>

lemma u64_max_less: "ucast (- 1 :: u64) < (x :: u256) \<longleftrightarrow> 2 ^ 64 \<le> unat x"
proof -
  have "unat (ucast (- 1 :: u64) :: u256) = 2 ^ 64 - 1" unfolding unat_widen_u64 by (simp add: unat_max_word)
  then show ?thesis by (simp add: word_less_nat_alt del: unat_widen_u64) linarith
qed

lemma narrow_wide_u64: "ucast (ucast (x :: u64) :: u256) = x"
  by (rule bit_eqI) (auto simp: bit_ucast_iff dest: bit_u64_bound)

lemma resolveClaim_packed:
  assumes "pack_chain_meter price idx = Inr (lv_chainMeter v)"
    and "hash_forward keccak (lv_preimage v) idx = lv_chainRoot v"
    and "claimed = ucast (lv_cumulative v) + ucast idx * price"
    and "(bytes :: u256) = ucast (lv_bytesDelivered v) + ucast idx * ucast CHUNK_BYTES"
  shows "resolveClaim keccak v =
    (if unat claimed < 2 ^ 64 \<and> unat bytes < 2 ^ 64 then Inr (ucast claimed, ucast bytes, price) else Inl ClaimOverflow)"
proof -
  obtain p where p: "price = ucast (p :: u64)" using assms(1) by (rule pack_chain_meter_shape)
  have "ucast (ucast (drop_bit 8 (lv_chainMeter v)) :: u64) = price"
    using pack_chain_meter_price [OF assms(1)] by (simp add: p narrow_wide_u64)
  moreover have "fold (\<lambda>_ w. keccak w) [0..<unat idx] (lv_preimage v) = lv_chainRoot v"
    using assms(2) by (simp add: hash_forward_def)
  ultimately show ?thesis
    using pack_chain_meter_reserved [OF assms(1)] pack_chain_meter_index [OF assms(1)]
    by (auto simp: resolveClaim_def Let_def u64_max_less assms(3,4) not_less simp del: One_nat_def)
qed

end
