(* ===== verification/Pool_View.thy ===== *)
theory Pool_View
  imports Decdn_Prelude
begin

text \<open>
  The node's in-memory view of the payment pools (\<open>src/crates/node/src/pool_view.rs\<close>): what each
  pool holds, folded from the contract's event log by the settlement watcher, seeded from a direct
  read for a pool opened before the watcher's scan start, and anchored again at a pinned block.

  A projection is an association list from pool ids to entries, published whole by every write, so
  each operation is one function. The tables inside an entry are only looked up and updated and are
  maps. The last part relates a projection to the chain whose log it folds: a fixed history of
  events with their blocks, delivered in order with rewinds, and reads of the pool at some block.
\<close>

subsection \<open>Entries and snapshots\<close>

datatype lifecycle = LifecycleOpen | LifecycleClosing u64

record pool_view_status =
  st_owner :: address
  st_remaining :: u256
  st_lifecycle :: lifecycle

record snapshot =
  sn_redeemed :: u64
  sn_anchor :: "u64 option"
  sn_since :: u64
  sn_stale :: bool
  sn_folded_through :: u64

record pool_entry =
  pe_owner :: address
  pe_deposit :: u64
  pe_total_redeemed :: u64
  pe_lanes :: "address \<times> address \<rightharpoonup> u64"
  pe_signer_spent :: "address \<rightharpoonup> u64"
  pe_lifecycle :: lifecycle
  pe_snapshot :: "snapshot option"

definition PoolEntry_default :: pool_entry where
  "PoolEntry_default = \<lparr>pe_owner = 0, pe_deposit = 0, pe_total_redeemed = 0, pe_lanes = Map.empty,
     pe_signer_spent = Map.empty, pe_lifecycle = LifecycleOpen, pe_snapshot = None\<rparr>"

definition needs_read :: "snapshot \<Rightarrow> bool" where
  "needs_read s \<longleftrightarrow> sn_anchor s = None \<or> sn_stale s"

definition fold_block :: "u64 option \<Rightarrow> snapshot \<Rightarrow> snapshot" where
  "fold_block block s =
     (case block of None \<Rightarrow> s | Some b \<Rightarrow> s\<lparr>sn_folded_through := max (sn_folded_through s) b\<rparr>)"

definition snapshot_covers :: "u64 option \<Rightarrow> snapshot \<Rightarrow> bool" where
  "snapshot_covers block s =
     (case (sn_anchor s, block) of (Some anchor, Some b) \<Rightarrow> b \<le> anchor | _ \<Rightarrow> False)"

definition entry_redeemed :: "pool_entry \<Rightarrow> u64" where
  "entry_redeemed e =
     (case pe_snapshot e of
        None \<Rightarrow> pe_total_redeemed e
      | Some s \<Rightarrow> max (pe_total_redeemed e) (sat_add (sn_redeemed s) (sn_since s)))"

definition entry_status :: "pool_entry \<Rightarrow> pool_view_status" where
  "entry_status e = \<lparr>st_owner = pe_owner e,
     st_remaining = ucast (sat_sub (pe_deposit e) (entry_redeemed e)), st_lifecycle = pe_lifecycle e\<rparr>"

definition u64_saturating :: "u256 \<Rightarrow> u64" where
  "u64_saturating x = (if unat x < 2 ^ 64 then ucast x else - 1)"

subsection \<open>Folding the event log\<close>

type_synonym projection = "(b256 \<times> pool_entry) list"

text \<open>A write to an entry the projection holds; a pool it does not hold is left alone.\<close>

definition on_entry :: "b256 \<Rightarrow> (pool_entry \<Rightarrow> pool_entry) \<Rightarrow> projection \<Rightarrow> projection" where
  "on_entry pool_id f pools =
     (case map_of pools pool_id of None \<Rightarrow> pools | Some e \<Rightarrow> AList.update pool_id (f e) pools)"

definition entry_opened :: "address \<Rightarrow> u256 \<Rightarrow> pool_entry \<Rightarrow> pool_entry" where
  "entry_opened owner deposit e =
     (let e' = e\<lparr>pe_owner := owner\<rparr> in
      if pe_snapshot e = None then e'\<lparr>pe_deposit := u64_saturating deposit\<rparr> else e')"

definition record_opened :: "b256 \<Rightarrow> address \<Rightarrow> u256 \<Rightarrow> projection \<Rightarrow> projection" where
  "record_opened pool_id owner deposit pools =
     AList.update pool_id
       (entry_opened owner deposit (case map_of pools pool_id of None \<Rightarrow> PoolEntry_default | Some e \<Rightarrow> e)) pools"

definition entry_topup :: "u64 \<Rightarrow> u64 option \<Rightarrow> pool_entry \<Rightarrow> pool_entry" where
  "entry_topup new_deposit block e =
     (case pe_snapshot e of
        None \<Rightarrow> e\<lparr>pe_deposit := new_deposit\<rparr>
      | Some s \<Rightarrow>
          (let covered = snapshot_covers block s;
               ordered = sn_anchor s \<noteq> None \<and> block \<noteq> None;
               e' = e\<lparr>pe_snapshot := Some (fold_block block s)\<rparr>
           in if covered then e'
              else e'\<lparr>pe_deposit := (if ordered then new_deposit else max (pe_deposit e) new_deposit)\<rparr>))"

definition record_topup :: "b256 \<Rightarrow> u256 \<Rightarrow> u64 option \<Rightarrow> projection \<Rightarrow> projection" where
  "record_topup pool_id new_deposit block pools =
     on_entry pool_id (entry_topup (u64_saturating new_deposit) block) pools"

text \<open>One settled lane of a \<open>PoolRedeemed\<close>: the body of the loop. The snapshot is a local copy of
  the entry's, written back at the end.\<close>

definition redeemed_lane ::
  "address \<Rightarrow> u64 option \<Rightarrow> address \<times> u64 \<Rightarrow> pool_entry \<times> snapshot option \<Rightarrow> pool_entry \<times> snapshot option" where
  "redeemed_lane provider block lane es =
     (let (signer, new_paid) = lane; (e, snap) = es;
          key = (signer, provider);
          baseline = pe_lanes e key;
          prev = (case baseline of None \<Rightarrow> 0 | Some b \<Rightarrow> b)
      in if prev < new_paid then
           (let delta = new_paid - prev;
                spent = (case pe_signer_spent e signer of None \<Rightarrow> 0 | Some v \<Rightarrow> v)
            in (e\<lparr>pe_total_redeemed := sat_add (pe_total_redeemed e) delta,
                  pe_signer_spent := (pe_signer_spent e)(signer \<mapsto> sat_add spent delta),
                  pe_lanes := (pe_lanes e)(key \<mapsto> new_paid)\<rparr>,
                map_option (\<lambda>s.
                  if snapshot_covers block s then s
                  else if sn_anchor s \<noteq> None \<and> block \<noteq> None \<and> baseline \<noteq> None
                  then s\<lparr>sn_since := sat_add (sn_since s) delta\<rparr>
                  else s\<lparr>sn_stale := True\<rparr>) snap))
         else es)"

definition entry_redeemed_event ::
  "address \<Rightarrow> (address \<times> u64) list \<Rightarrow> u64 option \<Rightarrow> pool_entry \<Rightarrow> pool_entry" where
  "entry_redeemed_event provider lanes block e =
     (let (e', snap) = fold (redeemed_lane provider block) lanes (e, map_option (fold_block block) (pe_snapshot e))
      in e'\<lparr>pe_snapshot := snap\<rparr>)"

definition record_redeemed ::
  "b256 \<Rightarrow> address \<Rightarrow> (address \<times> u64) list \<Rightarrow> u64 option \<Rightarrow> projection \<Rightarrow> projection" where
  "record_redeemed pool_id provider lanes block pools =
     on_entry pool_id (entry_redeemed_event provider lanes block) pools"

definition record_closing :: "b256 \<Rightarrow> u64 \<Rightarrow> projection \<Rightarrow> projection" where
  "record_closing pool_id deadline pools =
     on_entry pool_id (\<lambda>e. e\<lparr>pe_lifecycle := LifecycleClosing deadline\<rparr>) pools"

definition proj_forget :: "b256 \<Rightarrow> projection \<Rightarrow> projection" where
  "proj_forget pool_id pools = AList.delete pool_id pools"

subsection \<open>Seeding and anchoring from direct reads\<close>

record pool_read =
  pr_pool_id :: b256
  pr_deposit :: u64
  pr_total_redeemed :: u64
  pr_lifecycle :: lifecycle

definition resolved_entry :: "address \<Rightarrow> pool_read \<Rightarrow> pool_entry" where
  "resolved_entry owner read = \<lparr>pe_owner = owner, pe_deposit = pr_deposit read, pe_total_redeemed = 0,
     pe_lanes = Map.empty, pe_signer_spent = Map.empty, pe_lifecycle = pr_lifecycle read,
     pe_snapshot = Some \<lparr>sn_redeemed = pr_total_redeemed read, sn_anchor = None, sn_since = 0,
       sn_stale = False, sn_folded_through = 0\<rparr>\<rparr>"

definition record_resolved :: "address \<Rightarrow> pool_read \<Rightarrow> projection \<Rightarrow> projection" where
  "record_resolved owner read pools =
     (case map_of pools (pr_pool_id read) of
        Some _ \<Rightarrow> pools
      | None \<Rightarrow> AList.update (pr_pool_id read) (resolved_entry owner read) pools)"

datatype reanchor_stale = BelowFolded u64 | LowerRedeemed u64 | LowerDeposit u64

record reanchor_report =
  rr_anchored :: nat
  rr_skipped :: "(pool_read \<times> reanchor_stale) list"

definition ReanchorReport_default :: reanchor_report where
  "ReanchorReport_default = \<lparr>rr_anchored = 0, rr_skipped = []\<rparr>"

definition reanchor_verdict :: "u64 \<Rightarrow> pool_read \<Rightarrow> pool_entry \<Rightarrow> snapshot \<Rightarrow> reanchor_stale option" where
  "reanchor_verdict block read e s =
     (if block < sn_folded_through s then Some (BelowFolded (sn_folded_through s))
      else if pr_total_redeemed read < entry_redeemed e then Some (LowerRedeemed (entry_redeemed e))
      else if pr_deposit read < pe_deposit e then Some (LowerDeposit (pe_deposit e))
      else None)"

definition entry_anchored :: "u64 \<Rightarrow> pool_read \<Rightarrow> snapshot \<Rightarrow> pool_entry \<Rightarrow> pool_entry" where
  "entry_anchored block read s e =
     e\<lparr>pe_snapshot := Some \<lparr>sn_redeemed = pr_total_redeemed read, sn_anchor = Some block, sn_since = 0,
         sn_stale = False, sn_folded_through = sn_folded_through s\<rparr>,
       pe_deposit := pr_deposit read,
       pe_lifecycle := (case pr_lifecycle read of LifecycleClosing d \<Rightarrow> LifecycleClosing d | LifecycleOpen \<Rightarrow> pe_lifecycle e)\<rparr>"

definition reanchor_one ::
  "u64 \<Rightarrow> pool_read \<Rightarrow> reanchor_report \<times> projection \<Rightarrow> reanchor_report \<times> projection" where
  "reanchor_one block read st =
     (let (report, pools) = st in
      case map_of pools (pr_pool_id read) of
        None \<Rightarrow> st
      | Some e \<Rightarrow>
          (case pe_snapshot e of
             None \<Rightarrow> st
           | Some s \<Rightarrow>
               (case reanchor_verdict block read e s of
                  Some reason \<Rightarrow> (report\<lparr>rr_skipped := rr_skipped report @ [(read, reason)]\<rparr>, pools)
                | None \<Rightarrow> (report\<lparr>rr_anchored := rr_anchored report + 1\<rparr>,
                           AList.update (pr_pool_id read) (entry_anchored block read s e) pools))))"

definition proj_reanchor :: "u64 \<Rightarrow> pool_read list \<Rightarrow> projection \<Rightarrow> reanchor_report \<times> projection" where
  "proj_reanchor block reads pools = fold (reanchor_one block) reads (ReanchorReport_default, pools)"

subsection \<open>Reading the projection\<close>

definition pending_rereads :: "projection \<Rightarrow> b256 list" where
  "pending_rereads pools =
     sort (map fst (filter (\<lambda>(_, e). case pe_snapshot e of None \<Rightarrow> False | Some s \<Rightarrow> needs_read s) pools))"

definition proj_snapshot :: "b256 \<Rightarrow> projection \<Rightarrow> pool_view_status option" where
  "proj_snapshot pool_id pools = map_option entry_status (map_of pools pool_id)"

definition signer_spent :: "b256 \<Rightarrow> address \<Rightarrow> projection \<Rightarrow> u64" where
  "signer_spent pool_id signer pools =
     (case map_of pools pool_id of
        None \<Rightarrow> 0
      | Some e \<Rightarrow> (case pe_signer_spent e signer of None \<Rightarrow> 0 | Some v \<Rightarrow> v))"

subsection \<open>The watcher's fold\<close>

datatype pool_event =
    PoolOpened b256 address u256
  | PoolRedeemed b256 address "(address \<times> u64) list"
  | PoolToppedUp b256 u256
  | PoolCloseInitiated b256 u256
  | PoolReclaimed b256

fun project_event :: "u64 option \<Rightarrow> pool_event \<Rightarrow> projection \<Rightarrow> projection" where
  "project_event block (PoolOpened p owner deposit) = record_opened p owner deposit"
| "project_event block (PoolRedeemed p provider lanes) = record_redeemed p provider lanes block"
| "project_event block (PoolToppedUp p deposit) = record_topup p deposit block"
| "project_event block (PoolCloseInitiated p deadline) = record_closing p (u64_saturating deadline)"
| "project_event block (PoolReclaimed p) = proj_forget p"

subsection \<open>The chain and the watcher\<close>

text \<open>
  The chain of one contract is a history of events with their blocks. What a pool holds after the
  first \<open>k\<close> of them is computed as the contract does: each settled lane moves to its new cumulative,
  and the pool's \<open>totalRedeemed\<close> is the sum of its lanes. \<open>event_ok\<close> is what the contract guarantees
  of its events: cumulatives and deposits rise, and a pool is opened before anything is settled.
\<close>

type_synonym history = "(u64 \<times> pool_event) list"

definition settle_lanes :: "address \<Rightarrow> (address \<times> u64) list \<Rightarrow> (address \<times> address \<Rightarrow> nat) \<Rightarrow> address \<times> address \<Rightarrow> nat" where
  "settle_lanes provider = fold (\<lambda>(signer, paid) f. f((signer, provider) := unat paid))"

definition paid_event :: "b256 \<Rightarrow> pool_event \<Rightarrow> (address \<times> address \<Rightarrow> nat) \<Rightarrow> address \<times> address \<Rightarrow> nat" where
  "paid_event p ev f = (case ev of PoolRedeemed q provider lanes \<Rightarrow>
     if q = p then settle_lanes provider lanes f else f | _ \<Rightarrow> f)"

definition deposit_event :: "b256 \<Rightarrow> pool_event \<Rightarrow> nat \<Rightarrow> nat" where
  "deposit_event p ev d = (case ev of
     PoolOpened q _ x \<Rightarrow> if q = p then unat x else d
   | PoolToppedUp q x \<Rightarrow> if q = p then unat x else d
   | _ \<Rightarrow> d)"

definition paid_at :: "b256 \<Rightarrow> history \<Rightarrow> nat \<Rightarrow> address \<times> address \<Rightarrow> nat" where
  "paid_at p hist k = fold (\<lambda>(_, ev). paid_event p ev) (take k hist) (\<lambda>_. 0)"

definition deposit_at :: "b256 \<Rightarrow> history \<Rightarrow> nat \<Rightarrow> nat" where
  "deposit_at p hist k = fold (\<lambda>(_, ev). deposit_event p ev) (take k hist) 0"

definition total_at :: "b256 \<Rightarrow> history \<Rightarrow> nat \<Rightarrow> nat" where
  "total_at p hist k = (\<Sum>l \<in> UNIV. paid_at p hist k l)"

fun settles :: "address \<Rightarrow> (address \<times> u64) list \<Rightarrow> (address \<times> address \<Rightarrow> nat) \<Rightarrow> bool" where
  "settles provider [] f \<longleftrightarrow> True"
| "settles provider ((signer, paid) # lanes) f \<longleftrightarrow>
     f (signer, provider) < unat paid \<and> settles provider lanes (f((signer, provider) := unat paid))"

definition event_ok :: "b256 \<Rightarrow> pool_event \<Rightarrow> (address \<times> address \<Rightarrow> nat) \<Rightarrow> nat \<Rightarrow> bool" where
  "event_ok p ev f d = (case ev of
     PoolRedeemed q provider lanes \<Rightarrow> q = p \<longrightarrow> settles provider lanes f
   | PoolOpened q _ x \<Rightarrow> q = p \<longrightarrow> f = (\<lambda>_. 0) \<and> d = 0 \<and> unat x < 2 ^ 64
   | PoolToppedUp q x \<Rightarrow> q = p \<longrightarrow> d \<le> unat x \<and> unat x < 2 ^ 64
   | _ \<Rightarrow> True)"

definition opens :: "b256 \<Rightarrow> pool_event \<Rightarrow> bool" where
  "opens p ev = (case ev of PoolOpened q _ _ \<Rightarrow> q = p | _ \<Rightarrow> False)"

definition opened_at :: "b256 \<Rightarrow> history \<Rightarrow> nat \<Rightarrow> bool" where
  "opened_at p hist k \<longleftrightarrow> list_ex (\<lambda>(_, ev). opens p ev) (take k hist)"

definition chain_ok :: "b256 \<Rightarrow> history \<Rightarrow> bool" where
  "chain_ok p hist \<longleftrightarrow> sorted (map fst hist) \<and>
     (\<forall>k < length hist. event_ok p (snd (hist ! k)) (paid_at p hist k) (deposit_at p hist k) \<and>
        (opens p (snd (hist ! k)) \<longrightarrow> \<not> opened_at p hist k)) \<and>
     total_at p hist (length hist) < 2 ^ 64"

definition upto_block :: "history \<Rightarrow> u64 \<Rightarrow> nat" where
  "upto_block hist b = length (takeWhile (\<lambda>(b', _). b' \<le> b) hist)"

definition read_at :: "history \<Rightarrow> nat \<Rightarrow> pool_read \<Rightarrow> bool" where
  "read_at hist k r \<longleftrightarrow> opened_at (pr_pool_id r) hist k \<and> unat (pr_deposit r) = deposit_at (pr_pool_id r) hist k \<and>
     unat (pr_total_redeemed r) = total_at (pr_pool_id r) hist k"

text \<open>
  The watcher starts its scan at some position of the history, applies logs in order and may go back
  to apply some again; the chain grows meanwhile. A direct read for an unknown pool shows the chain
  at some earlier point, and is used only when the pool exists there. The reads of an anchoring tick are pinned at a block that is not behind the
  logs applied so far (\<open>reanchor_block\<close>); whether it may be behind the scan's start is the parameter
  \<open>lag\<close>: no log below the start is ever applied, so the code's check does not see them.
\<close>

record watch_world =
  ww_proj :: projection
  ww_cursor :: nat
  ww_front :: nat
  ww_head :: nat
  ww_applied :: u64

inductive watch_step :: "bool \<Rightarrow> history \<Rightarrow> nat \<Rightarrow> watch_world \<Rightarrow> watch_world \<Rightarrow> bool" for lag hist start where
  mine: "ww_head w < length hist \<Longrightarrow> watch_step lag hist start w (w\<lparr>ww_head := Suc (ww_head w)\<rparr>)"
| apply_log: "ww_cursor w < ww_head w \<Longrightarrow> hist ! ww_cursor w = (b, ev) \<Longrightarrow>
    watch_step lag hist start w (w\<lparr>ww_proj := project_event (Some b) ev (ww_proj w),
      ww_cursor := Suc (ww_cursor w), ww_front := max (ww_front w) (Suc (ww_cursor w)),
      ww_applied := max (ww_applied w) b\<rparr>)"
| rewind: "c \<le> ww_cursor w \<Longrightarrow> watch_step lag hist start w (w\<lparr>ww_cursor := c\<rparr>)"
| resolve: "k \<le> ww_head w \<Longrightarrow> read_at hist k r \<Longrightarrow>
    watch_step lag hist start w (w\<lparr>ww_proj := record_resolved owner r (ww_proj w)\<rparr>)"
| anchor: "ww_applied w \<le> b \<Longrightarrow> upto_block hist b \<le> ww_head w \<Longrightarrow> lag \<or> start \<le> upto_block hist b \<Longrightarrow>
    list_all (read_at hist (upto_block hist b)) reads \<Longrightarrow>
    watch_step lag hist start w (w\<lparr>ww_proj := snd (proj_reanchor b reads (ww_proj w))\<rparr>)"
| found_closed: "watch_step lag hist start w (w\<lparr>ww_proj := proj_forget p (ww_proj w)\<rparr>)"

inductive watch_reachable :: "bool \<Rightarrow> history \<Rightarrow> nat \<Rightarrow> watch_world \<Rightarrow> bool" for lag hist start where
  init: "start \<le> head \<Longrightarrow> head \<le> length hist \<Longrightarrow>
    watch_reachable lag hist start
      \<lparr>ww_proj = [], ww_cursor = start, ww_front = start, ww_head = head, ww_applied = 0\<rparr>"
| step: "watch_reachable lag hist start w \<Longrightarrow> watch_step lag hist start w w' \<Longrightarrow> watch_reachable lag hist start w'"

subsection \<open>Facts about the chain\<close>

lemma paid_at_Suc:
  "k < length hist \<Longrightarrow> paid_at p hist (Suc k) = paid_event p (snd (hist ! k)) (paid_at p hist k)"
  by (simp add: paid_at_def take_Suc_conv_app_nth split_beta)

lemma deposit_at_Suc:
  "k < length hist \<Longrightarrow> deposit_at p hist (Suc k) = deposit_event p (snd (hist ! k)) (deposit_at p hist k)"
  by (simp add: deposit_at_def take_Suc_conv_app_nth split_beta)

lemma settles_mono: "settles provider lanes f \<Longrightarrow> f l \<le> settle_lanes provider lanes f l"
proof (induction lanes arbitrary: f)
  case (Cons lane lanes)
  then show ?case
    by (cases lane) (fastforce simp: settle_lanes_def intro: order_trans split: if_splits)
qed (simp add: settle_lanes_def)

lemma chain_step_mono:
  assumes "chain_ok p hist" "k < length hist"
  shows "paid_at p hist k l \<le> paid_at p hist (Suc k) l" "deposit_at p hist k \<le> deposit_at p hist (Suc k)"
proof -
  have ok: "event_ok p (snd (hist ! k)) (paid_at p hist k) (deposit_at p hist k)"
    using assms by (simp add: chain_ok_def)
  show "paid_at p hist k l \<le> paid_at p hist (Suc k) l"
    using ok by (auto simp: paid_at_Suc [OF assms(2)] paid_event_def event_ok_def settles_mono split: pool_event.splits)
  show "deposit_at p hist k \<le> deposit_at p hist (Suc k)"
    using ok by (auto simp: deposit_at_Suc [OF assms(2)] deposit_event_def event_ok_def split: pool_event.splits)
qed

lemma at_beyond: "length hist \<le> k \<Longrightarrow> paid_at p hist k = paid_at p hist (length hist)"
  "length hist \<le> k \<Longrightarrow> deposit_at p hist k = deposit_at p hist (length hist)"
  by (simp_all add: paid_at_def deposit_at_def)

lemma chain_mono:
  assumes "chain_ok p hist" "j \<le> k"
  shows "paid_at p hist j l \<le> paid_at p hist k l" "deposit_at p hist j \<le> deposit_at p hist k"
  using assms(2)
proof (induction rule: dec_induct)
  case (step k)
  {
    case 1
    show ?case
      using step.IH(1) chain_step_mono(1) [OF assms(1), of k l] at_beyond(1) [of hist k p] at_beyond(1) [of hist "Suc k" p]
      by (cases "k < length hist") auto
  next
    case 2
    show ?case
      using step.IH(2) chain_step_mono(2) [OF assms(1), of k] at_beyond(2) [of hist k p] at_beyond(2) [of hist "Suc k" p]
      by (cases "k < length hist") auto
  }
qed simp_all

lemma paid_at_max:
  "chain_ok p hist \<Longrightarrow> paid_at p hist (max j k) l = max (paid_at p hist j l) (paid_at p hist k l)"
  using chain_mono(1) [of p hist j k l] chain_mono(1) [of p hist k j l]
  by (cases "j \<le> k") (auto simp: max_def)

lemma total_mono: "chain_ok p hist \<Longrightarrow> j \<le> k \<Longrightarrow> total_at p hist j \<le> total_at p hist k"
  unfolding total_at_def by (intro sum_mono chain_mono(1))

lemma total_bound: "chain_ok p hist \<Longrightarrow> total_at p hist k < 2 ^ 64"
proof -
  assume ok: "chain_ok p hist"
  have "total_at p hist k \<le> total_at p hist (length hist)"
    using total_mono [OF ok, of k "length hist"] at_beyond(1) [of hist k p]
    by (cases "k \<le> length hist") (auto simp: total_at_def)
  then show ?thesis using ok by (simp add: chain_ok_def)
qed

lemma block_order:
  assumes "chain_ok p hist" "k < length hist"
  shows "fst (hist ! k) \<le> b \<longleftrightarrow> k < upto_block hist b"
proof -
  have s: "sorted (map fst hist)" using assms(1) by (simp add: chain_ok_def)
  show ?thesis
  proof
    assume "k < upto_block hist b"
    then have "hist ! k \<in> set (takeWhile (\<lambda>(b', _). b' \<le> b) hist)"
      by (metis nth_mem takeWhile_nth upto_block_def)
    then show "fst (hist ! k) \<le> b" by (auto dest: set_takeWhileD)
  next
    assume le: "fst (hist ! k) \<le> b"
    show "k < upto_block hist b"
    proof (rule ccontr)
      assume "\<not> k < upto_block hist b"
      then have u: "upto_block hist b \<le> k" by simp
      then have "upto_block hist b < length hist" using assms(2) by simp
      then have "\<not> fst (hist ! upto_block hist b) \<le> b"
        using nth_length_takeWhile [of "\<lambda>(b', _). b' \<le> b" hist] by (auto simp: upto_block_def split_beta)
      moreover have "fst (hist ! upto_block hist b) \<le> fst (hist ! k)"
        using sorted_nth_mono [OF s, of "upto_block hist b" k] u assms(2) by simp
      ultimately show False using le by simp
    qed
  qed
qed

subsection \<open>What an entry knows\<close>

text \<open>
  The predicates compare an entry with two readings of the chain's lanes: \<open>cur\<close>, at the watcher's
  position, and \<open>fr\<close>, at the furthest position it has reached. \<open>anc\<close> is the reading at the anchor.
\<close>

definition base :: "pool_entry \<Rightarrow> address \<times> address \<Rightarrow> nat" where
  "base e l = (case pe_lanes e l of None \<Rightarrow> 0 | Some b \<Rightarrow> unat b)"

definition lanes_known :: "(address \<times> address \<Rightarrow> nat) \<Rightarrow> (address \<times> address \<Rightarrow> nat) \<Rightarrow> pool_entry \<Rightarrow> bool" where
  "lanes_known cur fr e \<longleftrightarrow>
     (\<forall>l b. pe_lanes e l = Some b \<longrightarrow> cur l \<le> unat b \<and> unat b \<le> fr l) \<and>
     unat (pe_total_redeemed e) = (\<Sum>l \<in> UNIV. base e l)"

definition since_sound :: "(address \<times> address \<Rightarrow> nat) \<Rightarrow> pool_entry \<Rightarrow> snapshot \<Rightarrow> bool" where
  "since_sound anc e s \<longleftrightarrow> unat (sn_since s) \<le> (\<Sum>l \<in> UNIV. base e l - anc l)"

definition since_exact :: "(address \<times> address \<Rightarrow> nat) \<Rightarrow> (address \<times> address \<Rightarrow> nat) \<Rightarrow> pool_entry \<Rightarrow> snapshot \<Rightarrow> bool" where
  "since_exact anc fr e s \<longleftrightarrow> sn_stale s \<or>
     unat (sn_since s) + (\<Sum>l \<in> UNIV. anc l) = (\<Sum>l \<in> UNIV. max (fr l) (anc l)) \<and>
     (\<forall>l. anc l < fr l \<longrightarrow> (\<exists>b. pe_lanes e l = Some b \<and> unat b = fr l))"

lemma lanes_knownD:
  assumes "lanes_known cur fr e"
  shows "pe_lanes e l = Some b \<Longrightarrow> cur l \<le> unat b" "pe_lanes e l = Some b \<Longrightarrow> unat b \<le> fr l"
    and "unat (pe_total_redeemed e) = (\<Sum>l \<in> UNIV. base e l)"
  using assms unfolding lanes_known_def by blast+

lemma base_le: "lanes_known cur fr e \<Longrightarrow> base e l \<le> fr l"
  by (cases "pe_lanes e l") (simp_all add: base_def lanes_knownD)

lemma base_upd:
  "base (e\<lparr>pe_total_redeemed := t, pe_signer_spent := ss, pe_lanes := (pe_lanes e)(l \<mapsto> v)\<rparr>) = (base e)(l := unat v)"
  by (auto simp: base_def fun_eq_iff)

lemma sum_fun_upd:
  fixes f :: "'a::finite \<Rightarrow> nat"
  shows "(\<Sum>x \<in> UNIV. (f(l := v)) x) + f l = (\<Sum>x \<in> UNIV. f x) + v"
proof -
  have "(\<Sum>x \<in> UNIV. (f(l := v)) x) = v + (\<Sum>x \<in> UNIV - {l}. f x)"
    by (subst sum.remove [of _ l]) (auto intro: sum.cong)
  moreover have "(\<Sum>x \<in> UNIV. f x) = f l + (\<Sum>x \<in> UNIV - {l}. f x)"
    by (subst sum.remove [of _ l]) auto
  ultimately show ?thesis by simp
qed

lemma sum_pointwise_upd:
  fixes f g :: "'a::finite \<Rightarrow> nat"
  assumes "\<And>x. x \<noteq> l \<Longrightarrow> f x = g x"
  shows "(\<Sum>x \<in> UNIV. f x) + g l = (\<Sum>x \<in> UNIV. g x) + f l"
proof -
  have "f = g(l := f l)" using assms by (auto simp: fun_eq_iff)
  with sum_fun_upd [of g l "f l"] show ?thesis by metis
qed

lemma redeemed_lane_cases:
  assumes "redeemed_lane provider block (signer, v) (e, snap) = (e', snap')"
  obtains (kept) "unat v \<le> base e (signer, provider)" "e' = e" "snap' = snap"
  | (advanced) delta where "unat delta + base e (signer, provider) = unat v" "base e (signer, provider) < unat v"
      "pe_total_redeemed e' = sat_add (pe_total_redeemed e) delta"
      "pe_lanes e' = (pe_lanes e)((signer, provider) \<mapsto> v)" "pe_deposit e' = pe_deposit e"
      "snap' = map_option (\<lambda>s. if snapshot_covers block s then s
         else if sn_anchor s \<noteq> None \<and> block \<noteq> None \<and> pe_lanes e (signer, provider) \<noteq> None
         then s\<lparr>sn_since := sat_add (sn_since s) delta\<rparr> else s\<lparr>sn_stale := True\<rparr>) snap"
proof (cases "base e (signer, provider) < unat v")
  case False
  then show thesis
    using assms that(1)
    by (auto simp: redeemed_lane_def Let_def base_def word_less_nat_alt split: if_splits option.splits)
next
  case True
  define prev where "prev = (case pe_lanes e (signer, provider) of None \<Rightarrow> 0 | Some b \<Rightarrow> b)"
  have base: "base e (signer, provider) = unat prev"
    by (simp add: base_def prev_def split: option.splits)
  have "unat (v - prev) + base e (signer, provider) = unat v"
    using True by (simp add: base unat_sub_exact word_le_nat_alt)
  then show thesis
    using assms True
    by (intro that(2) [of "v - prev"])
      (auto simp: redeemed_lane_def Let_def base word_less_nat_alt prev_def [symmetric])
qed

lemma base_lanes: "pe_lanes e' = (pe_lanes e)(l \<mapsto> v) \<Longrightarrow> base e' = (base e)(l := unat v)"
  by (auto simp: base_def fun_eq_iff)

lemma lanes_known_lane:
  assumes known: "lanes_known cur fr e" and rise: "cur (signer, provider) < unat v"
    and small: "(\<Sum>l \<in> UNIV. (fr((signer, provider) := max (fr (signer, provider)) (unat v))) l) < 2 ^ 64"
    and step: "redeemed_lane provider block (signer, v) (e, snap) = (e', snap')"
  shows "lanes_known (cur((signer, provider) := unat v)) (fr((signer, provider) := max (fr (signer, provider)) (unat v))) e'"
  using step
proof (cases rule: redeemed_lane_cases)
  case kept
  with rise obtain b where "pe_lanes e (signer, provider) = Some b" "unat v \<le> unat b"
    by (cases "pe_lanes e (signer, provider)") (auto simp: base_def)
  moreover from this have "max (fr (signer, provider)) (unat v) = fr (signer, provider)"
    using lanes_knownD(2) [OF known, of "(signer, provider)" b] by simp
  ultimately show ?thesis using known kept by (auto simp: lanes_known_def)
next
  case (advanced delta)
  let ?l = "(signer, provider)"
  let ?fr = "fr(?l := max (fr ?l) (unat v))"
  note base' = base_lanes [OF advanced(4)]
  have sum: "(\<Sum>l \<in> UNIV. base e' l) + base e ?l = (\<Sum>l \<in> UNIV. base e l) + unat v"
    unfolding base' by (rule sum_fun_upd)
  have "base e' l \<le> ?fr l" for l
    using base_le [OF known, of l] by (auto simp: base')
  then have "(\<Sum>l \<in> UNIV. base e' l) < 2 ^ 64"
    using small by (meson le_less_trans sum_mono)
  then have "unat (pe_total_redeemed e') = (\<Sum>l \<in> UNIV. base e' l)"
    using sum advanced(1) lanes_knownD(3) [OF known] by (simp add: advanced(3) unat_sat_add)
  then show ?thesis using known by (auto simp: lanes_known_def advanced(4))
qed

lemma since_lane:
  assumes known: "lanes_known cur fr e" and rise: "cur (signer, provider) < unat v"
    and anchored: "sn_anchor s = Some a"
    and placed: "if b \<le> a then unat v \<le> anc (signer, provider) else anc (signer, provider) \<le> cur (signer, provider)"
    and small: "(\<Sum>l \<in> UNIV. max ((fr((signer, provider) := max (fr (signer, provider)) (unat v))) l) (anc l)) < 2 ^ 64"
    and step: "redeemed_lane provider (Some b) (signer, v) (e, Some s) = (e', snap')"
    and sound: "since_sound anc e s"
  obtains s' where "snap' = Some s'" "sn_anchor s' = sn_anchor s" "sn_redeemed s' = sn_redeemed s" "since_sound anc e' s'"
    "since_exact anc fr e s \<Longrightarrow> since_exact anc (fr((signer, provider) := max (fr (signer, provider)) (unat v))) e' s'"
  using step
proof (cases rule: redeemed_lane_cases)
  case kept
  with rise obtain x where "pe_lanes e (signer, provider) = Some x" "unat v \<le> unat x"
    by (cases "pe_lanes e (signer, provider)") (auto simp: base_def)
  then have "max (fr (signer, provider)) (unat v) = fr (signer, provider)"
    using lanes_knownD(2) [OF known, of "(signer, provider)" x] by simp
  with kept sound show thesis by (intro that [of s]) simp_all
next
  case (advanced delta)
  let ?l = "(signer, provider)"
  let ?fr = "fr(?l := max (fr ?l) (unat v))"
  note base' = base_lanes [OF advanced(4)]
  have grows: "(\<Sum>l \<in> UNIV. base e' l - anc l) + (base e ?l - anc ?l) = (\<Sum>l \<in> UNIV. base e l - anc l) + (unat v - anc ?l)"
    using sum_pointwise_upd [of ?l "\<lambda>l. base e' l - anc l" "\<lambda>l. base e l - anc l"] by (simp add: base')
  have more: "(\<Sum>l \<in> UNIV. base e l - anc l) \<le> (\<Sum>l \<in> UNIV. base e' l - anc l)"
    using grows advanced(2) by (simp add: diff_le_mono)
  consider (covered) "b \<le> a" | (counted) x where "\<not> b \<le> a" "pe_lanes e ?l = Some x" | (first) "\<not> b \<le> a" "pe_lanes e ?l = None"
    by (cases "b \<le> a"; cases "pe_lanes e ?l") auto
  then show thesis
  proof cases
    case covered
    have "since_exact anc ?fr e' s" if "since_exact anc fr e s"
    proof -
      have same: "max (?fr l) (anc l) = max (fr l) (anc l)" for l
        using placed covered by auto
      show ?thesis
      proof (cases "sn_stale s")
        case False
        with that have eq: "unat (sn_since s) + (\<Sum>l \<in> UNIV. anc l) = (\<Sum>l \<in> UNIV. max (fr l) (anc l))"
          and full: "\<And>l. anc l < fr l \<Longrightarrow> \<exists>b. pe_lanes e l = Some b \<and> unat b = fr l"
          by (auto simp: since_exact_def)
        have "\<exists>b. pe_lanes e' l = Some b \<and> unat b = ?fr l" if "anc l < ?fr l" for l
          using that full [of l] placed covered advanced(2)
          by (auto simp: advanced(4) base_def less_max_iff_disj split: if_splits)
        with eq same show ?thesis by (simp add: since_exact_def del: fun_upd_apply)
      qed (simp add: since_exact_def)
    qed
    with covered sound more show thesis
      by (intro that [of s]) (auto simp: advanced(6) snapshot_covers_def anchored since_sound_def)
  next
    case first
    with sound more show thesis
      by (intro that [of "s\<lparr>sn_stale := True\<rparr>"])
        (auto simp: advanced(6) snapshot_covers_def anchored since_sound_def since_exact_def)
  next
    case (counted x)
    define s' where "s' = s\<lparr>sn_since := sat_add (sn_since s) delta\<rparr>"
    have x: "base e ?l = unat x" "anc ?l \<le> unat x" "unat x \<le> fr ?l"
      using placed counted lanes_knownD(1,2) [OF known counted(2)] by (auto simp: base_def)
    have sum: "(\<Sum>l \<in> UNIV. base e' l - anc l) = (\<Sum>l \<in> UNIV. base e l - anc l) + unat delta"
      using grows x advanced(1,2) by linarith
    have "base e' l - anc l \<le> max (?fr l) (anc l)" for l
      using base_le [OF known, of l] by (auto simp: base')
    then have "(\<Sum>l \<in> UNIV. base e' l - anc l) \<le> (\<Sum>l \<in> UNIV. max (?fr l) (anc l))"
      by (intro sum_mono)
    then have since: "unat (sn_since s') = unat (sn_since s) + unat delta"
      using sound small sum by (simp add: s'_def since_sound_def unat_sat_add)
    have "since_exact anc ?fr e' s'" if "since_exact anc fr e s"
    proof (cases "sn_stale s")
      case False
      with that have exact: "unat (sn_since s) + (\<Sum>l \<in> UNIV. anc l) = (\<Sum>l \<in> UNIV. max (fr l) (anc l))"
        and full: "\<And>l. anc l < fr l \<Longrightarrow> \<exists>b. pe_lanes e l = Some b \<and> unat b = fr l"
        by (auto simp: since_exact_def)
      have top: "max (fr ?l) (anc ?l) = unat x"
        using full [of ?l] x counted(2) by (cases "anc ?l < fr ?l") auto
      have "(\<Sum>l \<in> UNIV. max (?fr l) (anc l)) + max (fr ?l) (anc ?l) = (\<Sum>l \<in> UNIV. max (fr l) (anc l)) + unat v"
        using sum_pointwise_upd [of ?l "\<lambda>l. max (?fr l) (anc l)" "\<lambda>l. max (fr l) (anc l)"] x advanced(2) top by simp
      then have "unat (sn_since s') + (\<Sum>l \<in> UNIV. anc l) = (\<Sum>l \<in> UNIV. max (?fr l) (anc l))"
        using exact since top x(1) advanced(1) by linarith
      moreover have "\<exists>b. pe_lanes e' l = Some b \<and> unat b = ?fr l" if "anc l < ?fr l" for l
        using that full [of l] top x advanced(2) by (auto simp: advanced(4))
      ultimately show ?thesis by (simp add: since_exact_def del: fun_upd_apply)
    qed (simp add: since_exact_def s'_def)
    with counted sound sum since show thesis
      by (intro that [of s']) (auto simp: advanced(6) snapshot_covers_def anchored since_sound_def s'_def)
  qed
qed

text \<open>A whole event: the lanes move from \<open>cur\<close> to \<open>settle_lanes provider lanes cur\<close>.\<close>

lemma settle_lanes_Cons:
  "settle_lanes provider ((signer, v) # lanes) cur = settle_lanes provider lanes (cur((signer, provider) := unat v))"
  by (simp add: settle_lanes_def)

lemma settle_front:
  assumes "settles provider ((signer, v) # lanes) cur" "\<And>l. cur l \<le> fr l"
  defines "cur' \<equiv> settle_lanes provider ((signer, v) # lanes) cur"
    and "fr1 \<equiv> fr((signer, provider) := max (fr (signer, provider)) (unat v))"
  shows "unat v \<le> cur' (signer, provider)" "max (fr1 l) (cur' l) = max (fr l) (cur' l)"
    "(cur((signer, provider) := unat v)) l \<le> fr1 l"
proof -
  show le: "unat v \<le> cur' (signer, provider)"
    using settles_mono [of provider lanes "cur((signer, provider) := unat v)" "(signer, provider)"] assms(1)
    by (simp add: cur'_def settle_lanes_Cons)
  show "max (fr1 l) (cur' l) = max (fr l) (cur' l)"
    using le by (auto simp: fr1_def)
  show "(cur((signer, provider) := unat v)) l \<le> fr1 l"
    using assms(2) by (simp add: fr1_def)
qed

lemma redeemed_lanes_known:
  assumes "settles provider lanes cur" "lanes_known cur fr e" "\<And>l. cur l \<le> fr l"
    and "(\<Sum>l \<in> UNIV. max (fr l) (settle_lanes provider lanes cur l)) < 2 ^ 64"
    and "fold (redeemed_lane provider block) lanes (e, snap) = (e', snap')"
  shows "lanes_known (settle_lanes provider lanes cur) (\<lambda>l. max (fr l) (settle_lanes provider lanes cur l)) e' \<and>
    pe_deposit e' = pe_deposit e \<and>
    ((\<forall>l. cur l \<le> base e l) \<longrightarrow> (\<forall>l. settle_lanes provider lanes cur l \<le> base e' l)) \<and>
    (snap = None \<longrightarrow> snap' = None) \<and>
    (\<forall>s. snap = Some s \<and> sn_anchor s = None \<longrightarrow>
       (\<exists>s'. snap' = Some s' \<and> sn_anchor s' = None \<and> sn_since s' = sn_since s \<and> sn_redeemed s' = sn_redeemed s))"
  using assms
proof (induction lanes arbitrary: cur fr e snap)
  case Nil
  have "(\<lambda>l. max (fr l) (cur l)) = fr" using Nil.prems(3) by (auto simp: max_def fun_eq_iff intro: antisym)
  with Nil.prems show ?case by (simp add: settle_lanes_def)
next
  case (Cons lane lanes)
  obtain signer v where lane: "lane = (signer, v)" by (cases lane)
  let ?l = "(signer, provider)"
  let ?cur = "cur(?l := unat v)" and ?fr = "fr(?l := max (fr ?l) (unat v))"
  obtain e1 snap1 where one: "redeemed_lane provider block (signer, v) (e, snap) = (e1, snap1)"
    by (cases "redeemed_lane provider block (signer, v) (e, snap)")
  have rest: "fold (redeemed_lane provider block) lanes (e1, snap1) = (e', snap')"
    using Cons.prems(5) by (simp add: lane one)
  note front = settle_front [OF Cons.prems(1) [unfolded lane] Cons.prems(3)]
  note cur' = settle_lanes_Cons [of provider signer v lanes cur]
  have sum: "(\<Sum>l \<in> UNIV. max (?fr l) (settle_lanes provider lanes ?cur l)) < 2 ^ 64"
    using Cons.prems(4) front(2) by (simp add: lane cur' del: fun_upd_apply)
  have "(\<Sum>l \<in> UNIV. ?fr l) \<le> (\<Sum>l \<in> UNIV. max (?fr l) (settle_lanes provider lanes ?cur l))"
    by (intro sum_mono) simp
  then have known: "lanes_known ?cur ?fr e1"
    using Cons.prems(1) sum by (intro lanes_known_lane [OF Cons.prems(2) _ _ one]) (simp_all add: lane del: fun_upd_apply)
  have more: "\<forall>l. ?cur l \<le> base e1 l" if "\<forall>l. cur l \<le> base e l"
    using one that by (cases rule: redeemed_lane_cases) (auto simp: base_lanes)
  have dep: "pe_deposit e1 = pe_deposit e" and none: "snap = None \<Longrightarrow> snap1 = None"
    using one by (cases rule: redeemed_lane_cases; simp)+
  have unanchored: "\<exists>s'. snap1 = Some s' \<and> sn_anchor s' = None \<and> sn_since s' = sn_since s \<and> sn_redeemed s' = sn_redeemed s"
    if "snap = Some s" "sn_anchor s = None" for s
    using one by (cases rule: redeemed_lane_cases) (use that in \<open>auto simp: snapshot_covers_def\<close>)
  have IH: "lanes_known (settle_lanes provider lanes ?cur) (\<lambda>l. max (?fr l) (settle_lanes provider lanes ?cur l)) e' \<and>
    pe_deposit e' = pe_deposit e1 \<and>
    ((\<forall>l. ?cur l \<le> base e1 l) \<longrightarrow> (\<forall>l. settle_lanes provider lanes ?cur l \<le> base e' l)) \<and>
    (snap1 = None \<longrightarrow> snap' = None) \<and>
    (\<forall>s. snap1 = Some s \<and> sn_anchor s = None \<longrightarrow>
       (\<exists>s'. snap' = Some s' \<and> sn_anchor s' = None \<and> sn_since s' = sn_since s \<and> sn_redeemed s' = sn_redeemed s))"
    by (intro Cons.IH known front(3) sum rest) (use Cons.prems(1) in \<open>simp add: lane fun_upd_def\<close>)
  have funs: "(\<lambda>l. max (?fr l) (settle_lanes provider lanes ?cur l)) = (\<lambda>l. max (fr l) (settle_lanes provider (lane # lanes) cur l))"
    using front(2) by (simp add: lane cur' fun_eq_iff del: fun_upd_apply)
  have later: "\<exists>s'. snap' = Some s' \<and> sn_anchor s' = None \<and> sn_since s' = sn_since s \<and> sn_redeemed s' = sn_redeemed s"
    if prem: "snap = Some s" "sn_anchor s = None" for s
  proof -
    obtain s1 where "snap1 = Some s1" "sn_anchor s1 = None" "sn_since s1 = sn_since s" "sn_redeemed s1 = sn_redeemed s"
      using unanchored [OF prem] by blast
    with IH show ?thesis by simp
  qed
  show ?case
  proof (intro conjI impI allI)
    show "lanes_known (settle_lanes provider (lane # lanes) cur) (\<lambda>l. max (fr l) (settle_lanes provider (lane # lanes) cur l)) e'"
      using IH [THEN conjunct1] unfolding funs by (simp only: lane cur')
    show "settle_lanes provider (lane # lanes) cur l \<le> base e' l" if "\<forall>l. cur l \<le> base e l" for l
      unfolding lane cur' using IH [THEN conjunct2, THEN conjunct2, THEN conjunct1, THEN mp, OF more [OF that]] by (rule spec)
  qed (use IH dep none later in auto)
qed

lemma redeemed_lanes_since:
  assumes "settles provider lanes cur" "lanes_known cur fr e" "\<And>l. cur l \<le> fr l" "sn_anchor s = Some a"
    and "if b \<le> a then \<forall>l. settle_lanes provider lanes cur l \<le> anc l else \<forall>l. anc l \<le> cur l"
    and "(\<Sum>l \<in> UNIV. max (max (fr l) (settle_lanes provider lanes cur l)) (anc l)) < 2 ^ 64"
    and "fold (redeemed_lane provider (Some b)) lanes (e, Some s) = (e', snap')" "since_sound anc e s"
  shows "\<exists>s'. snap' = Some s' \<and> sn_anchor s' = sn_anchor s \<and> sn_redeemed s' = sn_redeemed s \<and> since_sound anc e' s' \<and>
    (since_exact anc fr e s \<longrightarrow> since_exact anc (\<lambda>l. max (fr l) (settle_lanes provider lanes cur l)) e' s')"
  using assms
proof (induction lanes arbitrary: cur fr e s)
  case Nil
  have "(\<lambda>l. max (fr l) (cur l)) = fr" using Nil.prems(3) by (auto simp: max_def fun_eq_iff intro: antisym)
  with Nil.prems show ?case by (auto simp: settle_lanes_def)
next
  case (Cons lane lanes)
  obtain signer v where lane: "lane = (signer, v)" by (cases lane)
  let ?l = "(signer, provider)"
  let ?cur = "cur(?l := unat v)" and ?fr = "fr(?l := max (fr ?l) (unat v))"
  obtain e1 snap1 where one: "redeemed_lane provider (Some b) (signer, v) (e, Some s) = (e1, snap1)"
    by (cases "redeemed_lane provider (Some b) (signer, v) (e, Some s)")
  have rest: "fold (redeemed_lane provider (Some b)) lanes (e1, snap1) = (e', snap')"
    using Cons.prems(7) by (simp add: lane one)
  note front = settle_front [OF Cons.prems(1) [unfolded lane] Cons.prems(3)]
  note cur' = settle_lanes_Cons [of provider signer v lanes cur]
  have rise: "cur ?l < unat v" using Cons.prems(1) by (simp add: lane)
  have funs: "(\<lambda>l. max (?fr l) (settle_lanes provider lanes ?cur l)) = (\<lambda>l. max (fr l) (settle_lanes provider (lane # lanes) cur l))"
    using front(2) by (simp add: lane cur' fun_eq_iff del: fun_upd_apply)
  have sum: "(\<Sum>l \<in> UNIV. max (max (?fr l) (settle_lanes provider lanes ?cur l)) (anc l)) < 2 ^ 64"
    using Cons.prems(6) fun_cong [OF funs] by (simp del: fun_upd_apply)
  have "(\<Sum>l \<in> UNIV. max (?fr l) (anc l)) \<le> (\<Sum>l \<in> UNIV. max (max (?fr l) (settle_lanes provider lanes ?cur l)) (anc l))"
    by (intro sum_mono) simp
  then have small: "(\<Sum>l \<in> UNIV. max (?fr l) (anc l)) < 2 ^ 64" using sum by linarith
  have "(\<Sum>l \<in> UNIV. ?fr l) \<le> (\<Sum>l \<in> UNIV. max (?fr l) (anc l))"
    by (intro sum_mono) simp
  then have known: "lanes_known ?cur ?fr e1"
    using small by (intro lanes_known_lane [OF Cons.prems(2) rise _ one]) linarith
  have placed: "if b \<le> a then unat v \<le> anc ?l else anc ?l \<le> cur ?l"
    using Cons.prems(5) front(1) by (auto simp: lane intro: order_trans)
  obtain s1 where s1: "snap1 = Some s1" "sn_anchor s1 = sn_anchor s" "sn_redeemed s1 = sn_redeemed s"
    "since_sound anc e1 s1" "since_exact anc fr e s \<Longrightarrow> since_exact anc ?fr e1 s1"
    by (rule since_lane [OF Cons.prems(2) rise Cons.prems(4) placed small one Cons.prems(8)]) (rule that)
  have "\<exists>s'. snap' = Some s' \<and> sn_anchor s' = sn_anchor s1 \<and> sn_redeemed s' = sn_redeemed s1 \<and> since_sound anc e' s' \<and>
    (since_exact anc ?fr e1 s1 \<longrightarrow> since_exact anc (\<lambda>l. max (?fr l) (settle_lanes provider lanes ?cur l)) e' s')"
  proof (rule Cons.IH [OF _ known front(3) _ _ sum rest [unfolded s1(1)] s1(4)])
    show "settles provider lanes ?cur" using Cons.prems(1) by (simp add: lane)
    show "sn_anchor s1 = Some a" using s1(2) Cons.prems(4) by simp
    show "if b \<le> a then \<forall>l. settle_lanes provider lanes ?cur l \<le> anc l else \<forall>l. anc l \<le> ?cur l"
      using Cons.prems(5) by (auto simp: lane cur' intro: order_trans [OF _ less_imp_le [OF rise]])
  qed
  then obtain s' where "snap' = Some s'" "sn_anchor s' = sn_anchor s1" "sn_redeemed s' = sn_redeemed s1" "since_sound anc e' s'"
    "since_exact anc ?fr e1 s1 \<longrightarrow> since_exact anc (\<lambda>l. max (?fr l) (settle_lanes provider lanes ?cur l)) e' s'"
    by blast
  then show ?case using s1 unfolding funs by auto
qed

subsection \<open>The invariant of a projected pool\<close>

definition entry_sound :: "b256 \<Rightarrow> history \<Rightarrow> nat \<Rightarrow> nat \<Rightarrow> nat \<Rightarrow> pool_entry \<Rightarrow> bool" where
  "entry_sound p hist c f h e \<longleftrightarrow>
     lanes_known (paid_at p hist c) (paid_at p hist f) e \<and> unat (pe_deposit e) \<le> deposit_at p hist h \<and>
     (case pe_snapshot e of
        None \<Rightarrow> \<forall>l. paid_at p hist c l \<le> base e l
      | Some s \<Rightarrow>
          (case sn_anchor s of
             None \<Rightarrow> sn_since s = 0 \<and> unat (sn_redeemed s) \<le> total_at p hist h
           | Some a \<Rightarrow> upto_block hist a \<le> h \<and> opened_at p hist (upto_block hist a) \<and> unat (sn_redeemed s) = total_at p hist (upto_block hist a) \<and>
               since_sound (paid_at p hist (upto_block hist a)) e s))"

definition entry_exact :: "b256 \<Rightarrow> history \<Rightarrow> nat \<Rightarrow> nat \<Rightarrow> pool_entry \<Rightarrow> bool" where
  "entry_exact p hist c f e \<longleftrightarrow>
     (case pe_snapshot e of
        None \<Rightarrow> deposit_at p hist c \<le> unat (pe_deposit e) \<and> unat (pe_deposit e) \<le> deposit_at p hist f
      | Some s \<Rightarrow>
          (case sn_anchor s of
             None \<Rightarrow> True
           | Some a \<Rightarrow> since_exact (paid_at p hist (upto_block hist a)) (paid_at p hist f) e s \<and>
               deposit_at p hist (max c (upto_block hist a)) \<le> unat (pe_deposit e) \<and>
               unat (pe_deposit e) \<le> deposit_at p hist (max f (upto_block hist a))))"

lemma entry_sound_redeemed:
  assumes "chain_ok p hist" "entry_sound p hist c f h e" "f \<le> h"
  shows "unat (entry_redeemed e) \<le> total_at p hist h"
proof -
  have known: "lanes_known (paid_at p hist c) (paid_at p hist f) e"
    using assms(2) by (simp add: entry_sound_def)
  have b: "base e l \<le> paid_at p hist h l" for l
    using base_le [OF known, of l] chain_mono(1) [OF assms(1,3), of l] by (rule order_trans)
  then have total: "unat (pe_total_redeemed e) \<le> total_at p hist h"
    using lanes_knownD(3) [OF known] by (simp add: total_at_def sum_mono)
  show ?thesis
  proof (cases "pe_snapshot e")
    case (Some s)
    have "unat (sn_redeemed s) + unat (sn_since s) \<le> total_at p hist h"
    proof (cases "sn_anchor s")
      case (Some a)
      let ?v = "paid_at p hist (upto_block hist a)"
      have s: "upto_block hist a \<le> h" "unat (sn_redeemed s) = total_at p hist (upto_block hist a)" "since_sound ?v e s"
        using assms(2) \<open>pe_snapshot e = Some s\<close> Some by (simp_all add: entry_sound_def)
      have "unat (sn_redeemed s) + unat (sn_since s) \<le> (\<Sum>l \<in> UNIV. ?v l + (base e l - ?v l))"
        using s(2,3) by (simp add: since_sound_def total_at_def sum.distrib)
      also have "\<dots> \<le> total_at p hist h"
        unfolding total_at_def using b chain_mono(1) [OF assms(1) s(1)]
        by (intro sum_mono) (metis le_add_diff_inverse nat_le_linear add.right_neutral diff_is_0_eq)
      finally show ?thesis .
    qed (use assms(2) Some in \<open>simp add: entry_sound_def\<close>)
    with total Some show ?thesis
      using total_bound [OF assms(1), of h] by (simp add: entry_redeemed_def max_def unat_sat_add)
  qed (use total in \<open>simp add: entry_redeemed_def\<close>)
qed

lemma entry_exact_values:
  assumes ok: "chain_ok p hist" and e: "entry_sound p hist c f h e" "entry_exact p hist c f e" and caught_up: "c = f"
    and fresh: "case pe_snapshot e of None \<Rightarrow> True | Some s \<Rightarrow> \<not> needs_read s"
  defines "m \<equiv> (case pe_snapshot e of None \<Rightarrow> f | Some s \<Rightarrow> max f (upto_block hist (the (sn_anchor s))))"
  shows "unat (entry_redeemed e) = total_at p hist m" "unat (pe_deposit e) = deposit_at p hist m"
proof -
  have known: "lanes_known (paid_at p hist f) (paid_at p hist f) e"
    using e(1) caught_up by (simp add: entry_sound_def)
  have "unat (entry_redeemed e) = total_at p hist m \<and> unat (pe_deposit e) = deposit_at p hist m"
  proof (cases "pe_snapshot e")
    case None
    have "base e l = paid_at p hist f l" for l
      using e(1) caught_up None base_le [OF known, of l]
      by (simp add: entry_sound_def antisym del: split_paired_All)
    then show ?thesis
      using e(2) caught_up None lanes_knownD(3) [OF known]
      by (simp add: entry_exact_def entry_redeemed_def total_at_def m_def)
  next
    case (Some s)
    then obtain a where a: "sn_anchor s = Some a" "\<not> sn_stale s"
      using fresh by (auto simp: needs_read_def)
    let ?u = "upto_block hist a"
    have s: "unat (sn_redeemed s) = total_at p hist ?u" "since_exact (paid_at p hist ?u) (paid_at p hist f) e s"
      "unat (pe_deposit e) = deposit_at p hist (max f ?u)"
      using e Some a caught_up by (simp_all add: entry_sound_def entry_exact_def)
    have sum: "unat (sn_redeemed s) + unat (sn_since s) = total_at p hist (max f ?u)"
      using s(1,2) a(2) by (simp add: since_exact_def total_at_def paid_at_max [OF ok])
    have "base e l \<le> paid_at p hist (max f ?u) l" for l
      using base_le [OF known, of l] chain_mono(1) [OF ok, of f "max f ?u" l] by simp
    then have "unat (pe_total_redeemed e) \<le> total_at p hist (max f ?u)"
      using lanes_knownD(3) [OF known] by (simp add: total_at_def sum_mono)
    then show ?thesis
      using sum s(3) Some a total_bound [OF ok, of "max f ?u"]
      by (auto simp: entry_redeemed_def m_def max_def [of "pe_total_redeemed e"] word_le_nat_alt unat_sat_add)
  qed
  then show "unat (entry_redeemed e) = total_at p hist m" "unat (pe_deposit e) = deposit_at p hist m"
    by auto
qed

subsection \<open>Every step keeps the invariant\<close>

lemma opened_at_mono: "opened_at p hist j \<Longrightarrow> j \<le> k \<Longrightarrow> opened_at p hist k"
  using set_take_subset_set_take [of j k hist] by (auto simp: opened_at_def list_ex_iff)

lemma u64_saturating_exact: "unat x < 2 ^ 64 \<Longrightarrow> unat (u64_saturating x) = unat x"
  by (simp add: u64_saturating_def unsigned_ucast_eq take_bit_nat_eq_self)

lemma entry_irrelevant [simp]:
  "base (e\<lparr>pe_owner := o'\<rparr>) = base e" "base (e\<lparr>pe_deposit := d\<rparr>) = base e"
  "base (e\<lparr>pe_lifecycle := lc\<rparr>) = base e" "base (e\<lparr>pe_snapshot := sn\<rparr>) = base e"
  "lanes_known cur fr (e\<lparr>pe_owner := o'\<rparr>) = lanes_known cur fr e"
  "lanes_known cur fr (e\<lparr>pe_deposit := d\<rparr>) = lanes_known cur fr e"
  "lanes_known cur fr (e\<lparr>pe_lifecycle := lc\<rparr>) = lanes_known cur fr e"
  "lanes_known cur fr (e\<lparr>pe_snapshot := sn\<rparr>) = lanes_known cur fr e"
  by (simp_all add: base_def fun_eq_iff lanes_known_def)

lemma since_irrelevant [simp]:
  "since_sound anc (e\<lparr>pe_owner := o'\<rparr>) s = since_sound anc e s" "since_sound anc (e\<lparr>pe_deposit := d\<rparr>) s = since_sound anc e s"
  "since_sound anc (e\<lparr>pe_lifecycle := lc\<rparr>) s = since_sound anc e s" "since_sound anc (e\<lparr>pe_snapshot := sn\<rparr>) s = since_sound anc e s"
  "since_exact anc fr (e\<lparr>pe_owner := o'\<rparr>) s = since_exact anc fr e s" "since_exact anc fr (e\<lparr>pe_deposit := d\<rparr>) s = since_exact anc fr e s"
  "since_exact anc fr (e\<lparr>pe_lifecycle := lc\<rparr>) s = since_exact anc fr e s" "since_exact anc fr (e\<lparr>pe_snapshot := sn\<rparr>) s = since_exact anc fr e s"
  by (simp_all add: since_sound_def since_exact_def)

lemma entry_keys [simp]:
  "entry_sound p hist c f h (e\<lparr>pe_owner := o'\<rparr>) = entry_sound p hist c f h e"
  "entry_exact p hist c f (e\<lparr>pe_owner := o'\<rparr>) = entry_exact p hist c f e"
  "entry_sound p hist c f h (e\<lparr>pe_lifecycle := lc\<rparr>) = entry_sound p hist c f h e"
  "entry_exact p hist c f (e\<lparr>pe_lifecycle := lc\<rparr>) = entry_exact p hist c f e"
  by (simp_all add: entry_sound_def entry_exact_def split: option.splits)

lemma fold_block_keeps [simp]:
  "sn_anchor (fold_block b s) = sn_anchor s" "sn_since (fold_block b s) = sn_since s"
  "sn_redeemed (fold_block b s) = sn_redeemed s" "sn_stale (fold_block b s) = sn_stale s"
  "since_sound anc e (fold_block b s) = since_sound anc e s" "since_exact anc fr e (fold_block b s) = since_exact anc fr e s"
  by (simp_all add: fold_block_def since_sound_def since_exact_def split: option.splits)

lemma front_paid:
  "chain_ok p hist \<Longrightarrow> paid_at p hist (max f (Suc c)) = (\<lambda>l. max (paid_at p hist f l) (paid_at p hist (Suc c) l))"
  by (simp add: fun_eq_iff paid_at_max)

text \<open>Positions that settle nothing for the pool, and those that change nothing for it.\<close>

lemma entry_unsettled:
  assumes "chain_ok p hist" "c \<le> f" "paid_at p hist (Suc c) = paid_at p hist c"
  shows "paid_at p hist (max f (Suc c)) = paid_at p hist f"
    and "entry_sound p hist (Suc c) (max f (Suc c)) h e = entry_sound p hist c f h e"
proof -
  show paid: "paid_at p hist (max f (Suc c)) = paid_at p hist f"
    using chain_mono(1) [OF assms(1,2)] by (simp add: front_paid [OF assms(1)] assms(3) max_absorb1)
  show "entry_sound p hist (Suc c) (max f (Suc c)) h e = entry_sound p hist c f h e"
    by (simp only: entry_sound_def paid assms(3))
qed

lemma deposit_still:
  assumes "deposit_at p hist (Suc c) = deposit_at p hist c" "c \<le> f"
  shows "deposit_at p hist (max (Suc c) k) = deposit_at p hist (max c k)"
    and "deposit_at p hist (max (max f (Suc c)) k) = deposit_at p hist (max f k)"
    and "deposit_at p hist (max f (Suc c)) = deposit_at p hist f"
proof -
  show at: "deposit_at p hist (max (Suc c) k) = deposit_at p hist (max c k)" for k
    using assms(1) by (cases "k \<le> c") (auto simp: max_def le_Suc_eq)
  show at_front: "deposit_at p hist (max (max f (Suc c)) k) = deposit_at p hist (max f k)" for k
    using at [of "max f k"] assms(2) by (simp add: ac_simps max_absorb2)
  show "deposit_at p hist (max f (Suc c)) = deposit_at p hist f"
    using at_front [of 0] by simp
qed

lemma entry_quiet:
  assumes "chain_ok p hist" "c \<le> f" "paid_at p hist (Suc c) = paid_at p hist c" "deposit_at p hist (Suc c) = deposit_at p hist c"
  shows "entry_exact p hist (Suc c) (max f (Suc c)) e = entry_exact p hist c f e"
  by (simp add: entry_exact_def entry_unsettled(1) [OF assms(1-3)] assms(4) deposit_still [OF assms(4,2)] split: option.splits)

lemma entry_redeemed_step:
  assumes ok: "chain_ok p hist" and c: "c < length hist" "c \<le> f" "c < h" "f \<le> h" and ev: "hist ! c = (b, PoolRedeemed p provider lanes)"
    and e: "entry_sound p hist c f h e"
  defines "e' \<equiv> entry_redeemed_event provider lanes (Some b) e"
  shows "entry_sound p hist (Suc c) (max f (Suc c)) h e'"
    and "entry_exact p hist c f e \<Longrightarrow> entry_exact p hist (Suc c) (max f (Suc c)) e'"
proof -
  let ?cur = "paid_at p hist c" and ?f = "max f (Suc c)"
  have settles: "settles provider lanes ?cur"
    using ok c(1) ev unfolding chain_ok_def by (auto simp: event_ok_def)
  have next_paid: "paid_at p hist (Suc c) = settle_lanes provider lanes ?cur"
    and next_dep: "deposit_at p hist (Suc c) = deposit_at p hist c"
    by (simp_all add: paid_at_Suc deposit_at_Suc c(1) ev paid_event_def deposit_event_def)
  have front: "(\<lambda>l. max (paid_at p hist f l) (settle_lanes provider lanes ?cur l)) = paid_at p hist ?f"
    by (simp add: front_paid [OF ok] next_paid)
  have known: "lanes_known ?cur (paid_at p hist f) e"
    using e by (simp add: entry_sound_def)
  obtain e1 snap1 where fold: "fold (redeemed_lane provider (Some b)) lanes (e, map_option (fold_block (Some b)) (pe_snapshot e)) = (e1, snap1)"
    by (cases "fold (redeemed_lane provider (Some b)) lanes (e, map_option (fold_block (Some b)) (pe_snapshot e))")
  have e': "e' = e1\<lparr>pe_snapshot := snap1\<rparr>" by (simp add: e'_def entry_redeemed_event_def fold)
  have small: "(\<Sum>l \<in> UNIV. max (paid_at p hist f l) (settle_lanes provider lanes ?cur l)) < 2 ^ 64"
    using total_bound [OF ok, of ?f] by (simp add: total_at_def fun_cong [OF front])
  note all = redeemed_lanes_known [OF settles known chain_mono(1) [OF ok c(2)] small fold, unfolded front]
  note dep = deposit_still [OF next_dep c(2)]
  have both: "entry_sound p hist (Suc c) ?f h e' \<and> (entry_exact p hist c f e \<longrightarrow> entry_exact p hist (Suc c) ?f e')"
  proof (cases "pe_snapshot e")
    case None
    then show ?thesis
      using all e by (auto simp: entry_sound_def entry_exact_def e' next_paid next_dep dep)
  next
    case snap: (Some s)
    show ?thesis
    proof (cases "sn_anchor s")
      case None
      then show ?thesis
        using all e snap by (auto simp: entry_sound_def entry_exact_def e' next_paid)
    next
      case (Some a)
      let ?u = "upto_block hist a"
      have s: "?u \<le> h" "opened_at p hist ?u" "unat (sn_redeemed s) = total_at p hist ?u" "since_sound (paid_at p hist ?u) e s"
        using e snap Some by (simp_all add: entry_sound_def)
      have placed: "if b \<le> a then \<forall>l. settle_lanes provider lanes ?cur l \<le> paid_at p hist ?u l else \<forall>l. paid_at p hist ?u l \<le> ?cur l"
        using block_order [OF ok c(1), of a] chain_mono(1) [OF ok, of "Suc c" ?u] chain_mono(1) [OF ok, of ?u c]
        by (auto simp: ev next_paid [symmetric])
      have "(\<Sum>l \<in> UNIV. max (max (paid_at p hist f l) (settle_lanes provider lanes ?cur l)) (paid_at p hist ?u l)) < 2 ^ 64"
        using total_bound [OF ok, of "max ?f ?u"] by (simp add: total_at_def paid_at_max [OF ok] next_paid)
      then obtain s' where s': "snap1 = Some s'" "sn_anchor s' = Some a" "sn_redeemed s' = sn_redeemed s"
        "since_sound (paid_at p hist ?u) e1 s'"
        "since_exact (paid_at p hist ?u) (paid_at p hist f) e s \<longrightarrow> since_exact (paid_at p hist ?u) (paid_at p hist ?f) e1 s'"
        using redeemed_lanes_since [OF settles known chain_mono(1) [OF ok c(2)], of "fold_block (Some b) s" a b "paid_at p hist ?u"]
          placed fold snap Some s(4) unfolding front by auto
      then show ?thesis
        using all e snap Some s by (simp add: entry_sound_def entry_exact_def e' next_paid dep)
    qed
  qed
  then show "entry_sound p hist (Suc c) ?f h e'" by simp
  show "entry_exact p hist (Suc c) ?f e'" if "entry_exact p hist c f e" using both that by simp
qed

lemma entry_deposit_step:
  assumes ok: "chain_ok p hist" and c: "c < length hist" "c \<le> f" "c < h"
    and paid: "paid_at p hist (Suc c) = paid_at p hist c" and d: "unat d = deposit_at p hist (Suc c)"
    and e: "entry_sound p hist c f h e"
  shows "entry_sound p hist (Suc c) (max f (Suc c)) h (e\<lparr>pe_deposit := d\<rparr>)"
    and "(case pe_snapshot e of None \<Rightarrow> True | Some s \<Rightarrow> (case sn_anchor s of None \<Rightarrow> True
            | Some a \<Rightarrow> upto_block hist a \<le> c)) \<Longrightarrow> entry_exact p hist c f e \<Longrightarrow>
          entry_exact p hist (Suc c) (max f (Suc c)) (e\<lparr>pe_deposit := d\<rparr>)"
proof -
  have "deposit_at p hist (Suc c) \<le> deposit_at p hist h"
    using c(3) by (intro chain_mono(2) [OF ok]) simp
  then show "entry_sound p hist (Suc c) (max f (Suc c)) h (e\<lparr>pe_deposit := d\<rparr>)"
    unfolding entry_unsettled(2) [OF ok c(2) paid] using e d by (auto simp: entry_sound_def split: option.splits)
  have above: "deposit_at p hist (Suc c) \<le> deposit_at p hist (max f (Suc c))"
    "deposit_at p hist (Suc c) \<le> deposit_at p hist (max (max f (Suc c)) k)" for k
    by (auto intro: chain_mono(2) [OF ok])
  show "entry_exact p hist (Suc c) (max f (Suc c)) (e\<lparr>pe_deposit := d\<rparr>)"
    if "case pe_snapshot e of None \<Rightarrow> True | Some s \<Rightarrow> (case sn_anchor s of None \<Rightarrow> True
            | Some a \<Rightarrow> upto_block hist a \<le> c)" "entry_exact p hist c f e"
    using that d above
    by (auto simp: entry_exact_def entry_unsettled(1) [OF ok c(2) paid] max_absorb1 split: option.splits)
qed

lemma entry_below_anchor:
  assumes "chain_ok p hist" "c \<le> f" "paid_at p hist (Suc c) = paid_at p hist c" "entry_exact p hist c f e"
    and "pe_snapshot e = Some s" "\<And>a. sn_anchor s = Some a \<Longrightarrow> c < upto_block hist a"
  shows "entry_exact p hist (Suc c) (max f (Suc c)) e"
proof (cases "sn_anchor s")
  case (Some a)
  then have "max (Suc c) (upto_block hist a) = max c (upto_block hist a)"
    "max (max f (Suc c)) (upto_block hist a) = max f (upto_block hist a)"
    using assms(6) [of a] by auto
  then show ?thesis
    using assms(4,5) Some by (simp add: entry_exact_def entry_unsettled(1) [OF assms(1-3)])
qed (use assms(5) in \<open>simp add: entry_exact_def\<close>)

lemma entry_opened_step:
  assumes ok: "chain_ok p hist" and c: "c < length hist" "c \<le> f" "c < h" and ev: "hist ! c = (b, PoolOpened p owner x)"
    and e: "entry_sound p hist c f h e"
  shows "entry_sound p hist (Suc c) (max f (Suc c)) h (entry_opened owner x e)"
    and "entry_exact p hist c f e \<Longrightarrow> entry_exact p hist (Suc c) (max f (Suc c)) (entry_opened owner x e)"
proof -
  have x: "unat x < 2 ^ 64" and new: "\<not> opened_at p hist c"
    using ok c(1) ev unfolding chain_ok_def by (auto simp: event_ok_def opens_def)
  have paid: "paid_at p hist (Suc c) = paid_at p hist c" and d: "unat (u64_saturating x) = deposit_at p hist (Suc c)"
    using x by (simp_all add: paid_at_Suc deposit_at_Suc c(1) ev paid_event_def deposit_event_def u64_saturating_exact)
  note step = entry_deposit_step [OF ok c paid d e]
  have below: "c < upto_block hist a" if "pe_snapshot e = Some s" "sn_anchor s = Some a" for s a
    using e that new opened_at_mono [of p hist "upto_block hist a" c] by (force simp: entry_sound_def not_le [symmetric])
  have same: "(e\<lparr>pe_owner := owner\<rparr>)\<lparr>pe_deposit := y\<rparr> = (e\<lparr>pe_deposit := y\<rparr>)\<lparr>pe_owner := owner\<rparr>" for y
    by simp
  show "entry_sound p hist (Suc c) (max f (Suc c)) h (entry_opened owner x e)"
    using step(1) e by (simp add: entry_opened_def Let_def same entry_unsettled(2) [OF ok c(2) paid] del: pool_entry.update_convs)
  show "entry_exact p hist (Suc c) (max f (Suc c)) (entry_opened owner x e)" if "entry_exact p hist c f e"
    using step(2) that below entry_below_anchor [OF ok c(2) paid that]
    by (cases "pe_snapshot e") (auto simp: entry_opened_def Let_def same)
qed

lemma entry_snapshot_block [simp]:
  "pe_snapshot e = Some s \<Longrightarrow> entry_sound p hist c f h (e\<lparr>pe_snapshot := Some (fold_block b s)\<rparr>) = entry_sound p hist c f h e"
  "pe_snapshot e = Some s \<Longrightarrow> entry_exact p hist c f (e\<lparr>pe_snapshot := Some (fold_block b s)\<rparr>) = entry_exact p hist c f e"
  by (simp_all add: entry_sound_def entry_exact_def split: option.splits)

lemma entry_topup_step:
  assumes ok: "chain_ok p hist" and c: "c < length hist" "c \<le> f" "c < h" and ev: "hist ! c = (b, PoolToppedUp p x)"
    and e: "entry_sound p hist c f h e"
  defines "e' \<equiv> entry_topup (u64_saturating x) (Some b) e"
  shows "entry_sound p hist (Suc c) (max f (Suc c)) h e'"
    and "entry_exact p hist c f e \<Longrightarrow> entry_exact p hist (Suc c) (max f (Suc c)) e'"
proof -
  have x: "unat x < 2 ^ 64"
    using ok c(1) ev unfolding chain_ok_def by (auto simp: event_ok_def)
  have paid: "paid_at p hist (Suc c) = paid_at p hist c" and d: "unat (u64_saturating x) = deposit_at p hist (Suc c)"
    using x by (simp_all add: paid_at_Suc deposit_at_Suc c(1) ev paid_event_def deposit_event_def u64_saturating_exact)
  have both: "entry_sound p hist (Suc c) (max f (Suc c)) h e' \<and>
      (entry_exact p hist c f e \<longrightarrow> entry_exact p hist (Suc c) (max f (Suc c)) e')"
  proof (cases "pe_snapshot e")
    case None
    then show ?thesis
      using entry_deposit_step [OF ok c paid d e] by (simp add: e'_def entry_topup_def)
  next
    case snap: (Some s)
    define e1 where "e1 = e\<lparr>pe_snapshot := Some (fold_block (Some b) s)\<rparr>"
    have e1: "entry_sound p hist c f h e1" "entry_exact p hist c f e1 = entry_exact p hist c f e"
      "pe_snapshot e1 = Some (fold_block (Some b) s)" "pe_deposit e1 = pe_deposit e"
      using e snap by (simp_all add: e1_def)
    note step = entry_deposit_step [OF ok c paid d e1(1)]
    show ?thesis
    proof (cases "sn_anchor s")
      case None
      have "entry_sound p hist (Suc c) (max f (Suc c)) h (e1\<lparr>pe_deposit := max (pe_deposit e) (u64_saturating x)\<rparr>)"
        using step(1) e1(1,4) unfolding entry_unsettled(2) [OF ok c(2) paid]
        by (auto simp: entry_sound_def max_def split: option.splits)
      moreover have "e' = e1\<lparr>pe_deposit := max (pe_deposit e) (u64_saturating x)\<rparr>"
        using None by (simp add: e'_def entry_topup_def snap snapshot_covers_def e1_def)
      moreover from this have "entry_exact p hist (Suc c) (max f (Suc c)) e'"
        using None by (simp add: entry_exact_def e1_def)
      ultimately show ?thesis by simp
    next
      case (Some a)
      have e': "e' = (if c < upto_block hist a then e1 else e1\<lparr>pe_deposit := u64_saturating x\<rparr>)"
        using Some block_order [OF ok c(1), of a]
        by (simp add: e'_def entry_topup_def snap snapshot_covers_def e1_def ev)
      show ?thesis
        using step e1 entry_below_anchor [OF ok c(2) paid, of e1] Some
        by (auto simp: e' entry_unsettled(2) [OF ok c(2) paid])
    qed
  qed
  show "entry_sound p hist (Suc c) (max f (Suc c)) h e'" using both by simp
  show "entry_exact p hist (Suc c) (max f (Suc c)) e'" if "entry_exact p hist c f e" using both that by simp
qed

lemma entry_new:
  assumes "pe_lanes e = Map.empty" "pe_total_redeemed e = 0"
  shows "base e l = 0" "lanes_known cur fr e"
  using assms by (simp_all add: base_def lanes_known_def)

lemma entry_default_ok:
  assumes "paid_at p hist c = (\<lambda>_. 0)"
  shows "entry_sound p hist c f h PoolEntry_default" "deposit_at p hist c = 0 \<Longrightarrow> entry_exact p hist c f PoolEntry_default"
  using assms by (auto simp: entry_sound_def entry_exact_def entry_new PoolEntry_default_def)

lemma entry_resolved_ok:
  assumes "chain_ok p hist" "k \<le> h" "read_at hist k r" "pr_pool_id r = p"
  shows "entry_sound p hist c f h (resolved_entry owner r)" "entry_exact p hist c f (resolved_entry owner r)"
  using assms chain_mono(2) [OF assms(1,2)] total_mono [OF assms(1,2)]
  by (auto simp: entry_sound_def entry_exact_def entry_new resolved_entry_def read_at_def)

lemma entry_anchored_ok:
  assumes ok: "chain_ok p hist" and k: "upto_block hist b \<le> h" and r: "read_at hist (upto_block hist b) r" "pr_pool_id r = p"
    and e: "entry_sound p hist c f h e" and "c \<le> f"
  shows "entry_sound p hist c f h (entry_anchored b r s e)"
    and "f \<le> upto_block hist b \<Longrightarrow> entry_exact p hist c f (entry_anchored b r s e)"
proof -
  let ?e = "entry_anchored b r s e"
  have lanes: "pe_lanes ?e = pe_lanes e" "pe_total_redeemed ?e = pe_total_redeemed e"
    by (simp_all add: entry_anchored_def)
  then have base: "base ?e = base e" by (simp add: base_def fun_eq_iff)
  then have known: "lanes_known (paid_at p hist c) (paid_at p hist f) ?e"
    using e lanes unfolding entry_sound_def lanes_known_def by metis
  show "entry_sound p hist c f h ?e"
    using known r k chain_mono(2) [OF ok k] unfolding entry_sound_def
    by (auto simp: entry_anchored_def read_at_def since_sound_def)
  show "entry_exact p hist c f ?e" if "f \<le> upto_block hist b"
  proof -
    have "paid_at p hist f l \<le> paid_at p hist (upto_block hist b) l" for l
      using that by (rule chain_mono(1) [OF ok])
    then have "since_exact (paid_at p hist (upto_block hist b)) (paid_at p hist f) ?e (the (pe_snapshot ?e))"
      by (simp add: since_exact_def entry_anchored_def max_absorb2 del: split_paired_All) (metis not_le)
    then show ?thesis
      using r that \<open>c \<le> f\<close> by (simp add: entry_exact_def entry_anchored_def read_at_def max_absorb2)
  qed
qed

lemma entry_head: "chain_ok p hist \<Longrightarrow> h \<le> h' \<Longrightarrow> entry_sound p hist c f h e \<Longrightarrow> entry_sound p hist c f h' e"
  using chain_mono(2) [of p hist h h'] total_mono [of p hist h h']
  by (auto simp: entry_sound_def split: option.splits)

lemma entry_rewind:
  assumes ok: "chain_ok p hist" and c: "c' \<le> c"
  shows "entry_sound p hist c f h e \<Longrightarrow> entry_sound p hist c' f h e" "entry_exact p hist c f e \<Longrightarrow> entry_exact p hist c' f e"
proof -
  note back_paid = chain_mono(1) [OF ok c] and back_dep = chain_mono(2) [OF ok c]
  have "deposit_at p hist (max c' k) \<le> deposit_at p hist (max c k)" for k
    using c by (intro chain_mono(2) [OF ok]) auto
  then show "entry_exact p hist c f e \<Longrightarrow> entry_exact p hist c' f e"
    using back_dep by (auto simp: entry_exact_def split: option.splits intro: order_trans)
  show "entry_sound p hist c' f h e" if "entry_sound p hist c f h e"
  proof -
    have known: "lanes_known (paid_at p hist c') (paid_at p hist f) e"
      using that back_paid unfolding entry_sound_def lanes_known_def by (meson order_trans)
    have "\<forall>l. paid_at p hist c' l \<le> base e l" if "\<forall>l. paid_at p hist c l \<le> base e l"
      using that back_paid by (meson order_trans)
    then show ?thesis
      using that known unfolding entry_sound_def by (auto simp del: split_paired_All split: option.splits)
  qed
qed

subsection \<open>The invariant of the watcher\<close>

definition watch_inv :: "bool \<Rightarrow> b256 \<Rightarrow> history \<Rightarrow> nat \<Rightarrow> watch_world \<Rightarrow> bool" where
  "watch_inv lag p hist start w \<longleftrightarrow>
     ww_cursor w \<le> ww_front w \<and> ww_front w \<le> ww_head w \<and> ww_head w \<le> length hist \<and> start \<le> ww_front w \<and>
     (\<forall>i. start \<le> i \<longrightarrow> i < ww_front w \<longrightarrow> fst (hist ! i) \<le> ww_applied w) \<and>
     (\<forall>e. map_of (ww_proj w) p = Some e \<longrightarrow>
        entry_sound p hist (ww_cursor w) (ww_front w) (ww_head w) e \<and>
        (\<not> lag \<longrightarrow> entry_exact p hist (ww_cursor w) (ww_front w) e))"

lemma map_of_on_entry:
  "map_of (on_entry q f pools) p = (if p = q then map_option f (map_of pools p) else map_of pools p)"
  by (simp add: on_entry_def update_conv' split: option.splits)

fun event_pool :: "pool_event \<Rightarrow> b256" where
  "event_pool (PoolOpened p _ _) = p"
| "event_pool (PoolRedeemed p _ _) = p"
| "event_pool (PoolToppedUp p _) = p"
| "event_pool (PoolCloseInitiated p _) = p"
| "event_pool (PoolReclaimed p) = p"

lemma project_other: "event_pool ev \<noteq> p \<Longrightarrow> map_of (project_event b ev pools) p = map_of pools p"
  by (cases ev) (auto simp: record_opened_def record_redeemed_def record_topup_def record_closing_def
      proj_forget_def map_of_on_entry update_conv' delete_conv')

lemma chain_other:
  assumes "c < length hist" "event_pool (snd (hist ! c)) \<noteq> p"
  shows "paid_at p hist (Suc c) = paid_at p hist c" "deposit_at p hist (Suc c) = deposit_at p hist c"
  using assms by (auto simp: paid_at_Suc deposit_at_Suc paid_event_def deposit_event_def split: pool_event.splits)

text \<open>One applied log: the pool's entry afterwards knows the chain one position further.\<close>

lemma entry_event_step:
  assumes ok: "chain_ok p hist" and c: "c < length hist" "c \<le> f" "c < h" "f \<le> h" and ev: "hist ! c = (b, ev)"
    and held: "\<And>e. map_of pools p = Some e \<Longrightarrow> entry_sound p hist c f h e \<and> (exact \<longrightarrow> entry_exact p hist c f e)"
    and e': "map_of (project_event (Some b) ev pools) p = Some e'"
  shows "entry_sound p hist (Suc c) (max f (Suc c)) h e' \<and> (exact \<longrightarrow> entry_exact p hist (Suc c) (max f (Suc c)) e')"
proof (cases "event_pool ev = p")
  case False
  note still = chain_other [OF c(1), of p, unfolded ev snd_conv, OF False]
  show ?thesis
    using held e' False project_other [OF False] by (simp add: entry_unsettled(2) [OF ok c(2) still(1)] entry_quiet [OF ok c(2) still])
next
  case True
  show ?thesis
  proof (cases ev)
    case (PoolOpened q owner x)
    note opened = entry_opened_step [OF ok c(1-3), of b owner x]
    have "paid_at p hist c = (\<lambda>_. 0) \<and> deposit_at p hist c = 0"
      using ok c(1) ev PoolOpened True unfolding chain_ok_def by (auto simp: event_ok_def)
    then have new: "entry_sound p hist c f h PoolEntry_default" "entry_exact p hist c f PoolEntry_default"
      by (simp_all add: entry_default_ok)
    show ?thesis
      using held e' PoolOpened True opened new ev
      by (cases "map_of pools p") (auto simp: record_opened_def update_conv')
  next
    case (PoolRedeemed q provider lanes)
    then show ?thesis
      using held e' True entry_redeemed_step [OF ok c, of b provider lanes] ev
      by (auto simp: record_redeemed_def map_of_on_entry)
  next
    case (PoolToppedUp q x)
    then show ?thesis
      using held e' True entry_topup_step [OF ok c(1-3), of b x] ev
      by (auto simp: record_topup_def map_of_on_entry)
  next
    case (PoolCloseInitiated q d)
    have still: "paid_at p hist (Suc c) = paid_at p hist c" "deposit_at p hist (Suc c) = deposit_at p hist c"
      by (simp_all add: paid_at_Suc deposit_at_Suc c(1) ev PoolCloseInitiated paid_event_def deposit_event_def)
    show ?thesis
      using held e' PoolCloseInitiated True
      by (auto simp: record_closing_def map_of_on_entry entry_unsettled(2) [OF ok c(2) still(1)] entry_quiet [OF ok c(2) still])
  next
    case (PoolReclaimed q)
    then show ?thesis using e' True by (simp add: proj_forget_def delete_conv')
  qed
qed

lemma reanchor_entry:
  assumes "map_of (snd (fold (reanchor_one b) reads (report, pools))) p = Some e'"
    and "\<And>e. map_of pools p = Some e \<Longrightarrow> P e"
    and "\<And>e r s. P e \<Longrightarrow> r \<in> set reads \<Longrightarrow> pr_pool_id r = p \<Longrightarrow> P (entry_anchored b r s e)"
  shows "P e'"
  using assms
proof (induction reads arbitrary: report pools)
  case (Cons r reads)
  obtain report1 pools1 where one: "reanchor_one b r (report, pools) = (report1, pools1)"
    by (cases "reanchor_one b r (report, pools)")
  show ?case
  proof (rule Cons.IH)
    show "map_of (snd (fold (reanchor_one b) reads (report1, pools1))) p = Some e'"
      using Cons.prems(1) by (simp add: one)
    show "P e" if "map_of pools1 p = Some e" for e
      using one that Cons.prems(2,3)
      by (auto simp: reanchor_one_def update_conv' split: option.splits if_splits)
  qed (use Cons.prems(3) in auto)
qed simp

lemma watch_inv_apply:
  assumes ok: "chain_ok p hist" and inv: "watch_inv lag p hist start w"
    and log: "ww_cursor w < ww_head w" "hist ! ww_cursor w = (b, ev)"
  shows "watch_inv lag p hist start (w\<lparr>ww_proj := project_event (Some b) ev (ww_proj w),
      ww_cursor := Suc (ww_cursor w), ww_front := max (ww_front w) (Suc (ww_cursor w)), ww_applied := max (ww_applied w) b\<rparr>)"
proof -
  let ?c = "ww_cursor w"
  have c: "?c < length hist" "?c \<le> ww_front w" "ww_front w \<le> ww_head w"
    using inv log(1) by (simp_all add: watch_inv_def)
  have "fst (hist ! i) \<le> max (ww_applied w) b" if "start \<le> i" "i < max (ww_front w) (Suc ?c)" for i
  proof (cases "i < ww_front w")
    case False
    then have "i = ?c" using that c(2) by (simp add: less_max_iff_disj)
    then show ?thesis using log(2) by (simp add: le_max_iff_disj)
  qed (use inv that in \<open>simp add: watch_inv_def le_max_iff_disj\<close>)
  moreover have "entry_sound p hist (Suc ?c) (max (ww_front w) (Suc ?c)) (ww_head w) e \<and>
      (\<not> lag \<longrightarrow> entry_exact p hist (Suc ?c) (max (ww_front w) (Suc ?c)) e)"
    if "map_of (project_event (Some b) ev (ww_proj w)) p = Some e" for e
    using inv by (intro entry_event_step [OF ok c(1,2) log(1) c(3) log(2) _ that]) (simp add: watch_inv_def)
  ultimately show ?thesis using inv log(1) by (simp add: watch_inv_def le_max_iff_disj)
qed

lemma anchor_not_behind:
  assumes ok: "chain_ok p hist" and inv: "watch_inv lag p hist start w"
    and b: "ww_applied w \<le> b" "start \<le> upto_block hist b"
  shows "ww_front w \<le> upto_block hist b"
proof (rule ccontr)
  assume u: "\<not> ww_front w \<le> upto_block hist b"
  then have "upto_block hist b < length hist" "fst (hist ! upto_block hist b) \<le> ww_applied w"
    using inv b(2) by (auto simp: watch_inv_def)
  then show False using block_order [OF ok, of "upto_block hist b" b] b(1) by simp
qed

lemma watch_inv_anchor:
  assumes ok: "chain_ok p hist" and inv: "watch_inv lag p hist start w"
    and b: "ww_applied w \<le> b" "upto_block hist b \<le> ww_head w" "lag \<or> start \<le> upto_block hist b"
    and reads: "list_all (read_at hist (upto_block hist b)) reads"
  shows "watch_inv lag p hist start (w\<lparr>ww_proj := snd (proj_reanchor b reads (ww_proj w))\<rparr>)"
proof -
  let ?P = "\<lambda>e. entry_sound p hist (ww_cursor w) (ww_front w) (ww_head w) e \<and>
    (\<not> lag \<longrightarrow> entry_exact p hist (ww_cursor w) (ww_front w) e)"
  have anchored: "?P (entry_anchored b r s e)" if "?P e" "r \<in> set reads" "pr_pool_id r = p" for e r s
    using entry_anchored_ok [OF ok b(2), of r "ww_cursor w" "ww_front w" e s] that reads inv
      anchor_not_behind [OF ok inv b(1)] b(3)
    by (auto simp: watch_inv_def list_all_iff)
  have "?P e" if held: "map_of (snd (proj_reanchor b reads (ww_proj w))) p = Some e" for e
    using held unfolding proj_reanchor_def
  proof (rule reanchor_entry [where P = ?P])
    show "?P e" if "map_of (ww_proj w) p = Some e" for e
      using inv that by (simp add: watch_inv_def)
  qed (rule anchored)
  then show ?thesis using inv by (simp add: watch_inv_def)
qed

lemma watch_inv_step:
  assumes ok: "chain_ok p hist" and inv: "watch_inv lag p hist start w" and step: "watch_step lag hist start w w'"
  shows "watch_inv lag p hist start w'"
  using step
proof cases
  case mine
  then show ?thesis using inv entry_head [OF ok, of "ww_head w" "Suc (ww_head w)"] by (auto simp: watch_inv_def)
next
  case (apply_log b ev)
  then show ?thesis using watch_inv_apply [OF ok inv] by simp
next
  case (rewind c)
  then show ?thesis using inv entry_rewind [OF ok rewind(2)] by (auto simp: watch_inv_def)
next
  case (resolve k r owner)
  then show ?thesis
    using inv entry_resolved_ok [OF ok resolve(2,3)]
    by (auto simp: watch_inv_def record_resolved_def update_conv' split: option.splits if_splits)
next
  case (anchor b reads)
  then show ?thesis using watch_inv_anchor [OF ok inv] by simp
next
  case (found_closed q)
  then show ?thesis using inv by (auto simp: watch_inv_def proj_forget_def delete_conv' split: if_splits)
qed

lemma watch_inv_reachable:
  assumes ok: "chain_ok p hist" and "watch_reachable lag hist start w"
  shows "watch_inv lag p hist start w"
  using assms(2)
proof (induction rule: watch_reachable.induct)
  case (step w w')
  then show ?case using watch_inv_step [OF ok] by blast
qed (simp add: watch_inv_def)

subsection \<open>Properties\<close>

text \<open>C31. The projection never counts a redemption the chain has not made. Whatever logs the watcher
  applied and applied again, from whatever point it started, and whatever reads seeded and anchored
  the pool, even from a backend that lags, the count of what a pool has paid out is at most the
  chain's own: the served balance errs toward serving.\<close>

theorem projection_never_overcounts:
  assumes "chain_ok p hist" "watch_reachable lag hist start w" "map_of (ww_proj w) p = Some e"
  shows "unat (entry_redeemed e) \<le> total_at p hist (ww_head w)"
proof -
  have "watch_inv lag p hist start w" using assms(1,2) by (rule watch_inv_reachable)
  then have "entry_sound p hist (ww_cursor w) (ww_front w) (ww_head w) e" "ww_front w \<le> ww_head w"
    using assms(3) by (simp_all add: watch_inv_def)
  then show ?thesis using entry_sound_redeemed [OF assms(1)] by blast
qed

text \<open>C32. A caught-up view is exact, provided that no anchoring read is pinned behind the block at which
  the scan started. When the watcher has no log left to apply again and the pool is
  not waiting to be read, the balance a request sees is the pool's deposit less its redemptions at a
  point of the chain no older than the last applied log, also for a pool whose history lies below
  the scan's start. The code does not refuse such an anchor; \<open>anchor_behind_scan_start_undercounts\<close>
  shows what it does then.\<close>

theorem caught_up_view_exact:
  assumes "chain_ok p hist" "watch_reachable False hist start w" "ww_cursor w = ww_front w"
    and "proj_snapshot p (ww_proj w) = Some status" "p \<notin> set (pending_rereads (ww_proj w))"
  shows "\<exists>k. ww_front w \<le> k \<and> k \<le> ww_head w \<and>
           unat (st_remaining status) = deposit_at p hist k - total_at p hist k"
proof -
  obtain e where e: "map_of (ww_proj w) p = Some e" "status = entry_status e"
    using assms(4) by (auto simp: proj_snapshot_def)
  have inv: "watch_inv False p hist start w" using assms(1,2) by (rule watch_inv_reachable)
  have fresh: "case pe_snapshot e of None \<Rightarrow> True | Some s \<Rightarrow> \<not> needs_read s"
    using assms(5) map_of_SomeD [OF e(1)] by (force simp: pending_rereads_def split: option.splits)
  define k where "k = (case pe_snapshot e of None \<Rightarrow> ww_front w | Some s \<Rightarrow> max (ww_front w) (upto_block hist (the (sn_anchor s))))"
  have ok: "entry_sound p hist (ww_cursor w) (ww_front w) (ww_head w) e" "entry_exact p hist (ww_cursor w) (ww_front w) e"
    using inv e(1) by (simp_all add: watch_inv_def)
  have "unat (st_remaining status) = deposit_at p hist k - total_at p hist k"
    using entry_exact_values [OF assms(1) ok assms(3) fresh, folded k_def] by (simp add: e(2) entry_status_def unat_sat_sub)
  moreover have "ww_front w \<le> k" by (simp add: k_def split: option.splits)
  moreover have "k \<le> ww_head w"
    using ok(1) inv fresh by (auto simp: k_def entry_sound_def watch_inv_def needs_read_def split: option.splits)
  ultimately show ?thesis by blast
qed

text \<open>A pool with two redemptions in its past, and a node that starts after them.\<close>

definition demo_history :: history where
  "demo_history = [(10, PoolOpened 1 9 1000), (20, PoolRedeemed 1 3 [(2, 100)]), (30, PoolRedeemed 1 3 [(2, 250)])]"

definition demo_read :: "u64 \<Rightarrow> pool_read" where
  "demo_read redeemed = \<lparr>pr_pool_id = 1, pr_deposit = 1000, pr_total_redeemed = redeemed, pr_lifecycle = LifecycleOpen\<rparr>"

definition demo_watch :: "u64 \<Rightarrow> u64 \<Rightarrow> watch_world" where
  "demo_watch redeemed block =
     \<lparr>ww_proj = snd (proj_reanchor block [demo_read redeemed] (record_resolved 9 (demo_read redeemed) [])),
      ww_cursor = 3, ww_front = 3, ww_head = 3, ww_applied = 0\<rparr>"

lemmas demo_watch_defs = demo_watch_def demo_read_def proj_reanchor_def reanchor_one_def record_resolved_def
  resolved_entry_def entry_anchored_def reanchor_verdict_def entry_redeemed_def sat_add_def ReanchorReport_default_def

lemma demo_at:
  "paid_at 1 demo_history (Suc 0) = (\<lambda>_. 0)" "paid_at 1 demo_history 2 = (\<lambda>_. 0)((2, 3) := 100)"
  "paid_at 1 demo_history 3 = (\<lambda>_. 0)((2, 3) := 250)" "paid_at 1 demo_history 0 = (\<lambda>_. 0)"
  "deposit_at 1 demo_history 0 = 0" "deposit_at 1 demo_history 2 = 1000" "deposit_at 1 demo_history 3 = 1000"
  by (simp_all add: paid_at_def deposit_at_def demo_history_def paid_event_def deposit_event_def settle_lanes_def)

lemma demo_total: "total_at 1 demo_history 2 = 100" "total_at 1 demo_history 3 = 250"
  using sum_fun_upd [of "\<lambda>_ :: address \<times> address. 0" "(2, 3)" 100] sum_fun_upd [of "\<lambda>_ :: address \<times> address. 0" "(2, 3)" 250]
  by (simp_all add: total_at_def demo_at del: fun_upd_apply)

lemma demo_chain_ok: "chain_ok 1 demo_history"
proof -
  have len: "length demo_history = 3" by (simp add: demo_history_def)
  have "total_at 1 demo_history (length demo_history) < 2 ^ 64"
    unfolding len using demo_total(2) by simp
  moreover have "event_ok 1 (snd (demo_history ! k)) (paid_at 1 demo_history k) (deposit_at 1 demo_history k) \<and>
      (opens 1 (snd (demo_history ! k)) \<longrightarrow> \<not> opened_at 1 demo_history k)" if "k < length demo_history" for k
  proof -
    have "k \<in> {0, 1, 2}" using that by (auto simp: len)
    then show ?thesis
      using demo_at by (auto simp: event_ok_def opens_def opened_at_def) (auto simp: demo_history_def)
  qed
  ultimately show ?thesis by (simp add: chain_ok_def) (simp add: demo_history_def)
qed

lemma demo_watch_reachable:
  assumes "read_at demo_history k (demo_read r)" "k = upto_block demo_history b" "k \<le> 3" "lag \<or> k = 3"
  shows "watch_reachable lag demo_history 3 (demo_watch r b)"
proof -
  have "watch_reachable lag demo_history 3 \<lparr>ww_proj = [], ww_cursor = 3, ww_front = 3, ww_head = 3, ww_applied = 0\<rparr>"
    by (rule watch_reachable.init) (simp_all add: demo_history_def)
  from watch_reachable.step [OF this watch_step.resolve [of k _ demo_history "demo_read r" lag 3 9]]
  have "watch_reachable lag demo_history 3
      \<lparr>ww_proj = record_resolved 9 (demo_read r) [], ww_cursor = 3, ww_front = 3, ww_head = 3, ww_applied = 0\<rparr>"
    using assms by simp
  from watch_reachable.step [OF this watch_step.anchor [of _ b demo_history lag 3 "[demo_read r]"]]
  show ?thesis using assms by (auto simp: demo_watch_def)
qed

lemma demo_reads:
  "read_at demo_history 3 (demo_read 250)" "read_at demo_history 2 (demo_read 100)"
  "upto_block demo_history 30 = 3" "upto_block demo_history 20 = 2"
  using demo_total demo_at
  by (simp_all add: read_at_def demo_read_def opened_at_def opens_def) (simp_all add: upto_block_def demo_history_def)

lemma demo_pending: "pending_rereads (ww_proj (demo_watch 250 30)) = []"
  by (simp_all add: pending_rereads_def demo_watch_defs needs_read_def)

theorem projection_never_overcounts_witness:
  "unat (entry_redeemed (the (map_of (ww_proj (demo_watch 250 30)) 1))) \<le> total_at 1 demo_history 3"
proof -
  have "watch_reachable False demo_history 3 (demo_watch 250 30)"
    using demo_reads by (intro demo_watch_reachable [of 3]) simp_all
  from projection_never_overcounts [OF demo_chain_ok this, of "the (map_of (ww_proj (demo_watch 250 30)) 1)"]
  show ?thesis by (simp add: demo_watch_defs)
qed

theorem caught_up_view_exact_witness:
  "\<exists>k. 3 \<le> k \<and> k \<le> 3 \<and> (750 :: nat) = deposit_at 1 demo_history k - total_at 1 demo_history k"
proof -
  have "watch_reachable False demo_history 3 (demo_watch 250 30)"
    using demo_reads by (intro demo_watch_reachable [of 3]) simp_all
  from caught_up_view_exact [OF demo_chain_ok this] demo_pending
  show ?thesis by (simp add: demo_watch_defs proj_snapshot_def entry_status_def sat_sub_def)
qed









end
