(* ===== verification/Redeemer.thy ===== *)
theory Redeemer
  imports Pool_Contract Pool_Store Pool_View Buyer_Reconcile Client_Handler "HOL-Library.Sublist" "HOL-Library.Multiset"
begin

text \<open>
  The seller's redeemer (\<open>src/crates/node/src/payment_settlement.rs\<close>): which of the persisted lanes
  are worth redeeming, how they are packed into transactions, the checks before any of them is sent,
  and the halving of a transaction that is too large.

  The chain is a parameter \<open>C\<close>: its reads and the outcome of a sent \<open>redeemMany\<close> may depend
  on a state of its own. The lane store is a parameter \<open>S\<close> of the same kind, and
  every reading of the clock is an argument. Submitting returns, beside
  the code's flag, the transactions it sent with their outcomes, in order. Logs and counters are left
  out.
\<close>

subsection \<open>What is sent\<close>

definition MAX_SPLIT_DEPTH :: nat where
  "MAX_SPLIT_DEPTH = 6"

definition WATERMARK_READ_BATCH_MAX :: nat where
  "WATERMARK_READ_BATCH_MAX = 512"

record capability_reg =
  cr_signer :: address
  cr_spendingCap :: u64
  cr_expiry :: u64
  cr_ownerSig :: sig65

record pool_batch =
  pb_poolId :: b256
  pb_capabilities :: "capability_reg list"
  pb_vouchers :: "lane_voucher_sol list"

record planned_lane =
  pn_pool_id :: b256
  pn_key :: lane_key
  pn_owed :: u256
  pn_unredeemed :: u256
  pn_voucher :: lane_voucher_sol
  pn_register :: "capability_reg option"

text \<open>A signature of the node's cryptography library: its parser and its parts.\<close>

record 'sig sig_parts =
  from_raw :: "sig65 \<Rightarrow> 'sig option"
  sig_r :: "'sig \<Rightarrow> b256"
  sig_s :: "'sig \<Rightarrow> b256"
  sig_v :: "'sig \<Rightarrow> bool"

definition compact_voucher_signature :: "'sig alloy \<Rightarrow> 'sig sig_parts \<Rightarrow> sig65 \<Rightarrow> string + b256 \<times> b256" where
  "compact_voucher_signature A P sig =
     (if length sig \<noteq> 65 then Inl ''voucher signature is not 65 bytes''
      else case from_raw P sig of
             None \<Rightarrow> Inl ''voucher signature is malformed''
           | Some parsed \<Rightarrow>
               if is_high_s A parsed then Inl ''voucher signature is non-canonical''
               else Inr (sig_r P parsed, sig_s P parsed OR (if sig_v P parsed then push_bit 255 1 else 0)))"

definition to_pool_u64 :: "u256 \<Rightarrow> string \<Rightarrow> string + u64" where
  "to_pool_u64 value what =
     (case u64_try_from value of None \<Rightarrow> Inl (what @ '' exceeds the uint64 field'') | Some v \<Rightarrow> Inr v)"

subsection \<open>The paid watermarks\<close>

type_synonym paid_watermarks = "lane_key \<rightharpoonup> u256"

definition paid_get :: "paid_watermarks \<Rightarrow> lane_key \<Rightarrow> u256" where
  "paid_get paid key = (case paid key of None \<Rightarrow> 0 | Some p \<Rightarrow> p)"

definition rehydrate_paid_watermarks :: "(store_error + lane_state list) \<Rightarrow> address \<Rightarrow> paid_watermarks" where
  "rehydrate_paid_watermarks loaded self_address =
     (case loaded of
        Inl _ \<Rightarrow> Map.empty
      | Inr states \<Rightarrow>
          fold (\<lambda>st paid. if provider st = self_address \<and> paid_cumulative st \<noteq> 0
                          then paid(lane_key_of st \<mapsto> paid_cumulative st) else paid) states Map.empty)"

subsection \<open>Planning\<close>

definition pool_is_redeemable :: "pool_view_status option \<Rightarrow> u64 \<Rightarrow> bool" where
  "pool_is_redeemable status now =
     (case status of
        None \<Rightarrow> True
      | Some s \<Rightarrow>
          if st_remaining s = 0 then False
          else (case st_lifecycle s of
                  LifecycleOpen \<Rightarrow> True
                | LifecycleClosing deadline \<Rightarrow> sat_add now REDEEM_LANDING_SLACK_SECS < deadline))"

definition partition_redeemable ::
  "lane_state list \<Rightarrow> projection \<Rightarrow> u64 \<Rightarrow> lane_state list \<times> nat" where
  "partition_redeemable states view now =
     (let ok = (\<lambda>st. pool_is_redeemable (proj_snapshot (pool_id st) view) now)
      in (filter ok states, length (filter (\<lambda>st. \<not> ok st) states)))"

definition capability_expired :: "u64 \<Rightarrow> u64 \<Rightarrow> bool" where
  "capability_expired until now \<longleftrightarrow> until = 0 \<or> until \<le> sat_add now REDEEM_LANDING_SLACK_SECS"

definition is_registered :: "u64 \<Rightarrow> u64 \<Rightarrow> bool" where
  "is_registered until now \<longleftrightarrow> now < until"

definition plan_register :: "lane_state \<Rightarrow> bool \<Rightarrow> string + (capability_reg option) option" where
  "plan_register st registered =
     (if registered then Inr (Some None)
      else case owner_sig st of
             None \<Rightarrow> Inr None
           | Some sig \<Rightarrow>
               (case to_pool_u64 (cap st) ''capability spending cap'' of
                  Inl e \<Rightarrow> Inl e
                | Inr c \<Rightarrow> Inr (Some (Some \<lparr>cr_signer = signer st, cr_spendingCap = c, cr_expiry = expiry st,
                                            cr_ownerSig = sig\<rparr>))))"

definition plan_voucher :: "'sig alloy \<Rightarrow> 'sig sig_parts \<Rightarrow> lane_state \<Rightarrow> redeem_claim \<Rightarrow> string + lane_voucher_sol" where
  "plan_voucher A P st claim =
     (case compact_voucher_signature A P (rc_signature claim) of
        Inl e \<Rightarrow> Inl e
      | Inr (r, vs) \<Rightarrow>
          (case to_pool_u64 (rc_amount claim) ''voucher cumulative'' of
             Inl e \<Rightarrow> Inl e
           | Inr cumulative \<Rightarrow>
               (case to_pool_u64 (rc_bytes_delivered claim) ''voucher bytes delivered'' of
                  Inl e \<Rightarrow> Inl e
                | Inr bytes \<Rightarrow>
                    (case claim_chain_meter claim of
                       Inl _ \<Rightarrow> Inl ''pack the chainMeter word of the lane''
                     | Inr meter \<Rightarrow>
                         Inr \<lparr>lv_signer = signer st, lv_cumulative = cumulative, lv_bytesDelivered = bytes,
                              lv_r = r, lv_vs = vs, lv_chainRoot = chain_root (rc_chain claim),
                              lv_preimage = tip (rc_chain claim), lv_chainMeter = meter\<rparr>))))"

definition plan_lane ::
  "'sig alloy \<Rightarrow> 'sig sig_parts \<Rightarrow> paid_watermarks \<Rightarrow> address \<Rightarrow> bool \<Rightarrow> lane_state \<Rightarrow> string + planned_lane option" where
  "plan_lane A P paid self_address registered st =
     (if provider st \<noteq> self_address then Inr None
      else case live_claim st of
             None \<Rightarrow> Inr None
           | Some claim \<Rightarrow>
               (let value = claim_value claim;
                    unpaid = sat_sub value (paid_get paid (lane_key_of st))
                in if value = 0 then Inr None
                   else if unpaid = 0 then Inr None
                   else case plan_register st registered of
                          Inl e \<Rightarrow> Inl e
                        | Inr None \<Rightarrow> Inr None
                        | Inr (Some register) \<Rightarrow>
                            (case plan_voucher A P st claim of
                               Inl e \<Rightarrow> Inl e
                             | Inr voucher \<Rightarrow>
                                 Inr (Some \<lparr>pn_pool_id = pool_id st, pn_key = lane_key_of st, pn_owed = value,
                                            pn_unredeemed = unpaid, pn_voucher = voucher, pn_register = register\<rparr>))))"

definition plan_one ::
  "'sig alloy \<Rightarrow> 'sig sig_parts \<Rightarrow> paid_watermarks \<Rightarrow> address \<Rightarrow> u64 \<Rightarrow> lane_state \<Rightarrow> planned_lane option" where
  "plan_one A P paid self_address now st =
     (if provider st \<noteq> self_address then None
      else case plan_lane A P paid self_address (is_registered (registered_until st) now) st of
             Inr (Some lane) \<Rightarrow> if capability_expired (expiry st) now then None else Some lane
           | Inr None \<Rightarrow> None
           | Inl _ \<Rightarrow> None)"

definition plan_lanes ::
  "'sig alloy \<Rightarrow> 'sig sig_parts \<Rightarrow> paid_watermarks \<Rightarrow> address \<Rightarrow> lane_state list \<Rightarrow> projection \<Rightarrow> u64 \<Rightarrow> planned_lane list" where
  "plan_lanes A P paid self_address states view now =
     List.map_filter (plan_one A P paid self_address now) (fst (partition_redeemable states view now))"

definition sum_unredeemed :: "planned_lane list \<Rightarrow> u256" where
  "sum_unredeemed plans = foldl (\<lambda>acc plan. sat_add acc (pn_unredeemed plan)) 0 plans"

subsection \<open>Packing\<close>

definition group_step :: "planned_lane \<Rightarrow> (b256 \<times> pool_batch) list \<Rightarrow> (b256 \<times> pool_batch) list" where
  "group_step lane by_pool =
     (let batch = (case map_of by_pool (pn_pool_id lane) of
                     None \<Rightarrow> \<lparr>pb_poolId = pn_pool_id lane, pb_capabilities = [], pb_vouchers = []\<rparr>
                   | Some b \<Rightarrow> b);
          batch' = (case pn_register lane of None \<Rightarrow> batch
                    | Some reg \<Rightarrow> batch\<lparr>pb_capabilities := pb_capabilities batch @ [reg]\<rparr>)
      in AList.update (pn_pool_id lane) (batch'\<lparr>pb_vouchers := pb_vouchers batch' @ [pn_voucher lane]\<rparr>) by_pool)"

definition group_by_pool :: "planned_lane list \<Rightarrow> pool_batch list" where
  "group_by_pool lanes = map snd (fold group_step lanes [])"

definition reverse_key :: "planned_lane \<Rightarrow> nat" where
  "reverse_key plan = 2 ^ 256 - unat (pn_unredeemed plan)"

definition deal :: "nat \<Rightarrow> 'a list \<Rightarrow> nat \<Rightarrow> 'a list" where
  "deal k xs j = map snd (filter (\<lambda>(i, _). i mod k = j) (enumerate 0 xs))"

definition chunk_redemptions :: "planned_lane list \<Rightarrow> u256 \<Rightarrow> nat \<Rightarrow> planned_lane list list" where
  "chunk_redemptions plans floor max_vouchers =
     (if plans = [] then []
      else let most = max max_vouchers 1;
               k = (length plans + most - 1) div most;
               buckets = map (deal k (sort_key reverse_key plans)) [0..<k]
           in filter (\<lambda>bucket. floor \<le> foldl (\<lambda>a l. a + pn_unredeemed l) 0 bucket) buckets)"

subsection \<open>Checks before a send\<close>

datatype tx_outcome =
    Landed
  | Reverted
  | SendErr bool string
  | MaybeBroadcast bool string
  | ReceiptErr
  | Timeout

record 'w redeem_chain =
  ch_order :: "b256 list \<Rightarrow> 'w \<Rightarrow> b256 list"
  ch_get_pool :: "b256 \<Rightarrow> 'w \<Rightarrow> (string + chain_pool) \<times> 'w"
  ch_get_watermarks :: "(b256 \<times> address \<times> address) list \<Rightarrow> 'w \<Rightarrow> (string + u64 list) \<times> 'w"
  ch_get_authorizations :: "(b256 \<times> address) list \<Rightarrow> 'w \<Rightarrow> (string + authorization list) \<times> 'w"
  ch_redeem_many :: "pool_batch list \<Rightarrow> 'w \<Rightarrow> tx_outcome \<times> 'w"

record 'st redeem_store =
  rs_load_all :: "'st \<Rightarrow> store_error + lane_state list"
  rs_get :: "'st \<Rightarrow> lane_key \<Rightarrow> store_error + lane_state option"
  rs_flush :: "'st \<Rightarrow> (store_error + unit) \<times> 'st"
  rs_set_registered_until :: "u64 \<Rightarrow> 'st \<Rightarrow> lane_key \<Rightarrow> (store_error + unit) \<times> 'st"

record ('st, 'w) redeem_world =
  rw_store :: 'st
  rw_view :: projection
  rw_chain :: 'w

definition resolved_lifecycle :: "chain_pool \<Rightarrow> lifecycle option" where
  "resolved_lifecycle pool =
     (if cp_owner pool = 0 then None
      else case cp_status pool of
             Open \<Rightarrow> Some LifecycleOpen
           | Closing \<Rightarrow> Some (LifecycleClosing (cp_disputeDeadline pool))
           | Closed \<Rightarrow> None)"

text \<open>The reads of unknown pools run side by side and are taken in the order they finish, which the
  chain decides; the first that fails ends them.\<close>

fun resolve_reads ::
  "'w redeem_chain \<Rightarrow> b256 list \<Rightarrow> projection \<Rightarrow> 'w \<Rightarrow> bool \<times> projection \<times> 'w" where
  "resolve_reads C [] view w = (False, view, w)"
| "resolve_reads C (p # ps) view w =
     (case ch_get_pool C p w of
        (Inl _, w') \<Rightarrow> (True, view, w')
      | (Inr pool, w') \<Rightarrow>
          resolve_reads C ps
            (case resolved_lifecycle pool of
               None \<Rightarrow> view
             | Some lc \<Rightarrow> record_resolved (cp_owner pool)
                 \<lparr>pr_pool_id = p, pr_deposit = cp_deposit pool, pr_total_redeemed = cp_totalRedeemed pool,
                  pr_lifecycle = lc\<rparr> view) w')"

definition resolve_unknown_pools ::
  "'w redeem_chain \<Rightarrow> u64 \<Rightarrow> planned_lane list \<Rightarrow> ('st, 'w) redeem_world \<Rightarrow> planned_lane list \<times> bool \<times> ('st, 'w) redeem_world" where
  "resolve_unknown_pools C now plans rw =
     (let unknown = remdups (filter (\<lambda>p. proj_snapshot p (rw_view rw) = None) (map pn_pool_id plans));
          (failed, view, w) = resolve_reads C (ch_order C unknown (rw_chain rw)) (rw_view rw) (rw_chain rw)
      in (filter (\<lambda>plan. case proj_snapshot (pn_pool_id plan) view of
                           None \<Rightarrow> False | Some status \<Rightarrow> pool_is_redeemable (Some status) now) plans,
          failed, rw\<lparr>rw_view := view, rw_chain := w\<rparr>))"

function chunks_of :: "nat \<Rightarrow> 'a list \<Rightarrow> 'a list list" where
  "chunks_of n xs = (if n = 0 \<or> xs = [] then [] else take n xs # chunks_of n (drop n xs))"
  by pat_completeness auto
termination
  by (relation "measure (length \<circ> snd)") auto

declare chunks_of.simps [simp del]

fun read_watermarks ::
  "'w redeem_chain \<Rightarrow> planned_lane list list \<Rightarrow> 'w \<Rightarrow> u256 list \<times> bool \<times> 'w" where
  "read_watermarks C [] w = ([], False, w)"
| "read_watermarks C (chunk # rest) w =
     (case ch_get_watermarks C (map (\<lambda>p. (pn_pool_id p, lk_signer (pn_key p), lk_provider (pn_key p))) chunk) w of
        (Inl _, w') \<Rightarrow> ([], True, w')
      | (Inr lanes, w') \<Rightarrow>
          if length lanes \<noteq> length chunk
          then (if length lanes < length chunk then map ucast lanes else [], True, w')
          else (let (later, failed, w'') = read_watermarks C rest w' in (map ucast lanes @ later, failed, w'')))"

fun reconcile_plans :: "planned_lane list \<Rightarrow> u256 list \<Rightarrow> planned_lane list \<times> nat" where
  "reconcile_plans [] paid = ([], 0)"
| "reconcile_plans (plan # plans) [] = (plan # plans, 0)"
| "reconcile_plans (plan # plans) (onchain # paid) =
     (let (kept, skipped) = reconcile_plans plans paid in
      if pn_owed plan \<le> onchain then (kept, skipped + 1)
      else (plan\<lparr>pn_unredeemed := sat_sub (pn_owed plan) onchain\<rparr> # kept, skipped))"

definition reconcile_onchain_watermarks ::
  "'w redeem_chain \<Rightarrow> planned_lane list \<Rightarrow> 'w \<Rightarrow> planned_lane list \<times> bool \<times> 'w" where
  "reconcile_onchain_watermarks C plans w =
     (if plans = [] then (plans, False, w)
      else let (paid, failed, w') = read_watermarks C (chunks_of WATERMARK_READ_BATCH_MAX plans) w
           in (fst (reconcile_plans plans paid), failed, w'))"

subsection \<open>Sending\<close>

definition to_ascii_lowercase :: "string \<Rightarrow> string" where
  "to_ascii_lowercase = map (\<lambda>c. let n = of_char c :: nat in if 65 \<le> n \<and> n \<le> 90 then char_of (n + 32) else c)"

fun str_contains :: "string \<Rightarrow> string \<Rightarrow> bool" where
  "str_contains needle [] \<longleftrightarrow> needle = []"
| "str_contains needle (c # cs) \<longleftrightarrow> take (length needle) (c # cs) = needle \<or> str_contains needle cs"

definition is_oversize_send_err :: "string \<Rightarrow> bool" where
  "is_oversize_send_err msg \<longleftrightarrow>
     list_ex (\<lambda>marker. str_contains marker (to_ascii_lowercase msg))
       [''gas required exceeds'', ''exceeds block gas limit'', ''oversized data'', ''transaction too large'',
        ''request entity too large'']"

definition is_oversize_send :: "bool \<Rightarrow> string \<Rightarrow> bool" where
  "is_oversize_send http_413 text \<longleftrightarrow> http_413 \<or> is_oversize_send_err text"

fun oversize :: "tx_outcome \<Rightarrow> bool" where
  "oversize (SendErr http_413 text) = is_oversize_send http_413 text"
| "oversize (MaybeBroadcast http_413 text) = is_oversize_send http_413 text"
| "oversize _ = False"

definition is_chain_fault :: "tx_outcome \<Rightarrow> bool" where
  "is_chain_fault outcome \<longleftrightarrow> outcome \<noteq> Landed"

fun persist_registered_expiries ::
  "'st redeem_store \<Rightarrow> lane_key list \<Rightarrow> authorization list \<Rightarrow> 'st \<Rightarrow> 'st" where
  "persist_registered_expiries S (key # keys) (auth # auths) st =
     persist_registered_expiries S keys auths
       (if au_cap auth = 0 \<and> au_expiry auth = 0 then st
        else snd (rs_set_registered_until S (au_expiry auth) st key))"
| "persist_registered_expiries S _ _ st = st"

fun record_registrations ::
  "'w redeem_chain \<Rightarrow> 'st redeem_store \<Rightarrow> lane_key list list \<Rightarrow> ('st, 'w) redeem_world \<Rightarrow> ('st, 'w) redeem_world" where
  "record_registrations C S [] rw = rw"
| "record_registrations C S (chunk # rest) rw =
     (case ch_get_authorizations C (map (\<lambda>key. (lk_pool_id key, lk_signer key)) chunk) (rw_chain rw) of
        (Inl _, w) \<Rightarrow> rw\<lparr>rw_chain := w\<rparr>
      | (Inr auths, w) \<Rightarrow>
          record_registrations C S rest
            (rw\<lparr>rw_chain := w, rw_store := persist_registered_expiries S chunk auths (rw_store rw)\<rparr>))"

definition record_landed_chunk ::
  "'w redeem_chain \<Rightarrow> 'st redeem_store \<Rightarrow> planned_lane list \<Rightarrow> ('st, 'w) redeem_world \<Rightarrow> ('st, 'w) redeem_world" where
  "record_landed_chunk C S lanes rw =
     record_registrations C S
       (chunks_of WATERMARK_READ_BATCH_MAX (map pn_key (filter (\<lambda>lane. pn_register lane \<noteq> None) lanes))) rw"

type_synonym sends = "(planned_lane list \<times> tx_outcome) list"

function (sequential) submit_chunk ::
  "'w redeem_chain \<Rightarrow> 'st redeem_store \<Rightarrow> nat \<Rightarrow> planned_lane list \<Rightarrow> ('st, 'w) redeem_world \<Rightarrow>
     bool \<times> sends \<times> ('st, 'w) redeem_world"
and submit_halves ::
  "'w redeem_chain \<Rightarrow> 'st redeem_store \<Rightarrow> nat \<Rightarrow> planned_lane list \<Rightarrow> ('st, 'w) redeem_world \<Rightarrow>
     bool \<times> sends \<times> ('st, 'w) redeem_world" where
  "submit_chunk C S depth lanes rw =
     (if lanes = [] then (False, [], rw)
      else case ch_redeem_many C (group_by_pool lanes) (rw_chain rw) of
             (outcome, w) \<Rightarrow>
               if outcome = Landed
               then (False, [(lanes, outcome)], record_landed_chunk C S lanes (rw\<lparr>rw_chain := w\<rparr>))
               else if 2 \<le> length lanes \<and> depth < MAX_SPLIT_DEPTH \<and> oversize outcome
               then (case submit_halves C S (depth + 1) lanes (rw\<lparr>rw_chain := w\<rparr>) of
                       (faulted, sends, rw') \<Rightarrow> (faulted, (lanes, outcome) # sends, rw'))
               else (is_chain_fault outcome, [(lanes, outcome)], rw\<lparr>rw_chain := w\<rparr>))"
| "submit_halves C S depth lanes rw =
     (case submit_chunk C S depth (take (length lanes div 2) lanes) rw of
        (left_faulted, left_sends, rw1) \<Rightarrow>
          (case submit_chunk C S depth (drop (length lanes div 2) lanes) rw1 of
             (right_faulted, right_sends, rw2) \<Rightarrow>
               (left_faulted \<or> right_faulted, left_sends @ right_sends, rw2)))"
  by pat_completeness auto
termination
  by (relation "measure (\<lambda>x. case x of
        Inl (C, S, depth, lanes, rw) \<Rightarrow> 2 * (MAX_SPLIT_DEPTH - depth)
      | Inr (C, S, depth, lanes, rw) \<Rightarrow> 2 * (MAX_SPLIT_DEPTH - depth) + 1)") auto

declare submit_chunk.simps [simp del] submit_halves.simps [simp del]

fun submit_chunks ::
  "'w redeem_chain \<Rightarrow> 'st redeem_store \<Rightarrow> planned_lane list list \<Rightarrow> bool \<Rightarrow> ('st, 'w) redeem_world \<Rightarrow>
     bool \<times> sends \<times> ('st, 'w) redeem_world" where
  "submit_chunks C S [] faulted rw = (faulted, [], rw)"
| "submit_chunks C S (chunk # rest) faulted rw =
     (case submit_chunk C S 0 chunk rw of
        (fault, sends, rw1) \<Rightarrow>
          (case submit_chunks C S rest (faulted \<or> fault) rw1 of (f, later, rw2) \<Rightarrow> (f, sends @ later, rw2)))"

definition redeem_planned_lanes ::
  "'w redeem_chain \<Rightarrow> 'st redeem_store \<Rightarrow> u256 \<Rightarrow> nat \<Rightarrow> bool \<Rightarrow> u64 \<Rightarrow> planned_lane list \<Rightarrow> ('st, 'w) redeem_world \<Rightarrow>
     bool \<times> sends \<times> ('st, 'w) redeem_world" where
  "redeem_planned_lanes C S floor max_vouchers strict_flush now plans rw =
     (if plans = [] \<or> sum_unredeemed plans < floor then (False, [], rw)
      else let (plans1, resolve_failed, rw1) = resolve_unknown_pools C now plans rw;
               (plans2, reconcile_failed, w2) = reconcile_onchain_watermarks C plans1 (rw_chain rw1);
               rw2 = rw1\<lparr>rw_chain := w2\<rparr>;
               read_failed = (reconcile_failed \<or> resolve_failed);
               chunks = chunk_redemptions plans2 floor max_vouchers
           in if chunks = [] then (read_failed, [], rw2)
              else let (flushed, st) = rs_flush S (rw_store rw2); rw3 = rw2\<lparr>rw_store := st\<rparr>
                   in if isl flushed \<and> strict_flush then (read_failed, [], rw3)
                      else submit_chunks C S chunks read_failed rw3)"

definition redeem_sweep ::
  "'sig alloy \<Rightarrow> 'sig sig_parts \<Rightarrow> 'w redeem_chain \<Rightarrow> 'st redeem_store \<Rightarrow> paid_watermarks \<Rightarrow> address \<Rightarrow> u256 \<Rightarrow> nat \<Rightarrow> bool \<Rightarrow>
     u64 \<Rightarrow> u64 \<Rightarrow> lane_state list \<Rightarrow> ('st, 'w) redeem_world \<Rightarrow> bool \<times> sends \<times> ('st, 'w) redeem_world" where
  "redeem_sweep A P C S paid self_address floor max_vouchers strict_flush plan_now now states rw =
     redeem_planned_lanes C S floor max_vouchers strict_flush now
       (plan_lanes A P paid self_address states (rw_view rw) plan_now) rw"

definition voucher_count :: "pool_batch list \<Rightarrow> nat" where
  "voucher_count batches = sum_list (map (length \<circ> pb_vouchers) batches)"

subsection \<open>What a plan promises\<close>

text \<open>What the cryptography library documents: a signature's 65 bytes parse back to it, and a signature
  with a low \<open>s\<close> leaves the top bit of \<open>s\<close> free.\<close>

definition sig_parts_ok :: "'sig alloy \<Rightarrow> 'sig sig_parts \<Rightarrow> bool" where
  "sig_parts_ok A P \<longleftrightarrow> (\<forall>g. length (as_bytes A g) = 65 \<and> from_raw P (as_bytes A g) = Some g \<and>
     (\<not> is_high_s A g \<longrightarrow> \<not> bit (sig_s P g) 255))"

text \<open>What the contract's recovery of a compact signature documents (EIP-2098): the parity is the top bit of the
  second word and \<open>s\<close> is the rest of it, and for a signature with a low \<open>s\<close> the address is the one
  every other implementation recovers.\<close>

definition compact_recovers :: "'sig alloy \<Rightarrow> 'sig sig_parts \<Rightarrow> try_recover \<Rightarrow> bool" where
  "compact_recovers A P tryRecover \<longleftrightarrow>
     (\<forall>g digest vs. \<not> is_high_s A g \<longrightarrow> take_bit 255 vs = sig_s P g \<longrightarrow> bit vs 255 = sig_v P g \<longrightarrow>
        tryRecover digest (sig_r P g) vs = recover_address_from_prehash A g digest)"

lemma to_pool_u64_exact: "unat x < 2 ^ 64 \<Longrightarrow> to_pool_u64 x what = Inr (ucast x)"
  by (simp add: to_pool_u64_def u64_try_from_def)

lemma ucast_u64_exact: "unat (x :: u256) < 2 ^ 64 \<Longrightarrow> ucast (ucast x :: u64) = x"
  by (simp add: word_unat_eq_iff unsigned_ucast_eq unsigned_take_bit_eq take_bit_nat_eq_self)

lemma plan_voucher_reachable:
  assumes reach: "lane_reachable A domain keccak rate s" and parts: "sig_parts_ok A P" and claim: "live_claim s = Some c"
  obtains g w where "verify_signer A \<lparr>sv_voucher = anchor_voucher s, sv_signature = g\<rparr> (signer s) domain = Inr ()"
    "\<not> is_high_s A g" "rc_signature c = as_bytes A g" "claim_chain_meter c = Inr w"
    "hash_forward keccak (tip (rc_chain c)) (verified_index (rc_chain c)) = chain_root (rc_chain c)"
    "plan_voucher A P s c = Inr \<lparr>lv_signer = signer s, lv_cumulative = ucast (rc_amount c),
       lv_bytesDelivered = ucast (rc_bytes_delivered c), lv_r = sig_r P g,
       lv_vs = sig_s P g OR (if sig_v P g then push_bit 255 1 else 0), lv_chainRoot = chain_root (rc_chain c),
       lv_preimage = tip (rc_chain c), lv_chainMeter = w\<rparr>"
proof -
  have inv: "lane_inv A domain keccak rate s" by (rule lane_reachable_inv [OF reach])
  obtain sig where c: "last_signature s = Some sig"
    "c = \<lparr>rc_amount = last_amount s, rc_bytes_delivered = last_bytes_delivered s, rc_signature = sig, rc_chain = chain s\<rparr>"
    using claim by (auto simp: live_claim_Some)
  obtain sv where sv: "verify_signer A sv (signer s) domain = Inr ()" "as_bytes A (sv_signature sv) = sig"
    "sv_voucher sv = anchor_voucher s"
    using inv c(1) by (auto simp: lane_inv_def claim_backed_def)
  have low: "\<not> is_high_s A (sv_signature sv)" using sv(1) by (simp add: verify_signer_Inr_iff recover_signer_Inr_iff)
  have meter: "claim_chain_meter c \<noteq> Inl PriceExceedsWireWidth"
    using inv by (simp add: claim_chain_meter_def pack_chain_meter_error_iff c lane_inv_def not_le)
  then obtain w where w: "claim_chain_meter c = Inr w"
    by (cases "claim_chain_meter c") (metis chain_meter_error.exhaust)+
  have wf: "unat (last_amount s) < 2 ^ 64" "unat (last_bytes_delivered s) < 2 ^ 64"
    using inv by (simp_all add: lane_inv_def lane_wf_def)
  have fields: "rc_amount c = last_amount s" "rc_bytes_delivered c = last_bytes_delivered s" "rc_signature c = sig"
    by (simp_all add: c(2))
  have compact: "compact_voucher_signature A P (rc_signature c) =
      Inr (sig_r P (sv_signature sv), sig_s P (sv_signature sv) OR (if sig_v P (sv_signature sv) then push_bit 255 1 else 0))"
    using parts low by (auto simp: compact_voucher_signature_def sig_parts_ok_def fields simp flip: sv(2))
  show thesis
  proof (rule that [of "sv_signature sv" w])
    show "verify_signer A \<lparr>sv_voucher = anchor_voucher s, sv_signature = sv_signature sv\<rparr> (signer s) domain = Inr ()"
      using sv by (cases sv) simp
    show "hash_forward keccak (tip (rc_chain c)) (verified_index (rc_chain c)) = chain_root (rc_chain c)"
      using inv by (simp add: lane_inv_def claim_backed_def verify_forward_def c(2))
    show "plan_voucher A P s c = Inr \<lparr>lv_signer = signer s, lv_cumulative = ucast (rc_amount c),
        lv_bytesDelivered = ucast (rc_bytes_delivered c), lv_r = sig_r P (sv_signature sv),
        lv_vs = sig_s P (sv_signature sv) OR (if sig_v P (sv_signature sv) then push_bit 255 1 else 0),
        lv_chainRoot = chain_root (rc_chain c), lv_preimage = tip (rc_chain c), lv_chainMeter = w\<rparr>"
      using wf by (simp add: plan_voucher_def compact w fields(1,2) to_pool_u64_exact)
  qed (use low sv(2) w fields in simp_all)
qed

lemma top_bit:
  assumes "Suc k = 256" "\<not> bit (s :: b256) k"
  shows "take_bit k s = s" "take_bit k (s OR push_bit k 1) = s" "bit (s OR push_bit k 1) k"
proof -
  have low: "n < k" if "bit s n" for n
    using that bit_imp_le_length [OF that] assms by (cases "n = k") auto
  then show "take_bit k s = s" by (intro bit_eqI) (auto simp: bit_take_bit_iff)
  show "take_bit k (s OR push_bit k 1) = s"
    using low by (intro bit_eqI) (auto simp: bit_take_bit_iff bit_or_iff bit_push_bit_iff simp del: push_bit_of_1)
  show "bit (s OR push_bit k 1) k" using assms(1) by (simp add: bit_or_iff bit_push_bit_iff)
qed

lemma compact_parts:
  assumes "\<not> bit s 255"
  shows "take_bit 255 (s OR (if v then push_bit 255 1 else 0)) = (s :: b256)"
    and "bit (s OR (if v then push_bit 255 1 else 0)) 255 = v"
  using top_bit [of 255 s] assms by (cases v; simp del: push_bit_of_1)+

lemma plan_lane_Some:
  assumes "plan_lane A P paid self_address registered s = Inr (Some lane)"
  obtains c voucher where "provider s = self_address" "live_claim s = Some c" "plan_voucher A P s c = Inr voucher"
    "pn_pool_id lane = pool_id s" "pn_key lane = lane_key_of s" "pn_owed lane = claim_value c" "pn_voucher lane = voucher"
    "pn_unredeemed lane = sat_sub (claim_value c) (paid_get paid (lane_key_of s))" "pn_unredeemed lane \<noteq> 0"
  using assms by (auto simp: plan_lane_def Let_def split: if_splits option.splits sum.splits)

text \<open>What a submitted voucher of a reachable lane says to the contract.\<close>

lemma planned_voucher_resolves:
  assumes "lane_reachable A domain keccak rate s" "sig_parts_ok A P" "compact_recovers A P tryRecover"
    and "live_claim s = Some c" "plan_voucher A P s c = Inr voucher"
  shows "resolveClaim keccak voucher =
      (if unat (owed s) < 2 ^ 64 \<and> unat (owed_bytes s) < 2 ^ 64
       then Inr (ucast (owed s), ucast (owed_bytes s), chunk_price (chain s)) else Inl ClaimOverflow)"
    and "verifyVoucher A tryRecover domain (pool_id s) (provider s) voucher (chunk_price (chain s)) = Inr ()"
proof -
  obtain g w where v: "verify_signer A \<lparr>sv_voucher = anchor_voucher s, sv_signature = g\<rparr> (signer s) domain = Inr ()"
    "\<not> is_high_s A g" "claim_chain_meter c = Inr w"
    "hash_forward keccak (tip (rc_chain c)) (verified_index (rc_chain c)) = chain_root (rc_chain c)"
    "voucher = \<lparr>lv_signer = signer s, lv_cumulative = ucast (rc_amount c),
       lv_bytesDelivered = ucast (rc_bytes_delivered c), lv_r = sig_r P g,
       lv_vs = sig_s P g OR (if sig_v P g then push_bit 255 1 else 0), lv_chainRoot = chain_root (rc_chain c),
       lv_preimage = tip (rc_chain c), lv_chainMeter = w\<rparr>"
    by (rule plan_voucher_reachable [OF assms(1,2,4)]) (use assms(5) in \<open>auto intro: that\<close>)
  have wf: "unat (last_amount s) < 2 ^ 64" "unat (last_bytes_delivered s) < 2 ^ 64"
    using lane_reachable_inv [OF assms(1)] by (simp_all add: lane_inv_def lane_wf_def)
  have c: "rc_amount c = last_amount s" "rc_bytes_delivered c = last_bytes_delivered s" "rc_chain c = chain s"
    using assms(4) by (auto simp: live_claim_Some)
  note wide = ucast_u64_exact [OF wf(1)] ucast_u64_exact [OF wf(2)]
  show "resolveClaim keccak voucher =
      (if unat (owed s) < 2 ^ 64 \<and> unat (owed_bytes s) < 2 ^ 64
       then Inr (ucast (owed s), ucast (owed_bytes s), chunk_price (chain s)) else Inl ClaimOverflow)"
  proof (rule resolveClaim_packed)
    show "pack_chain_meter (chunk_price (chain s)) (verified_index (chain s)) = Inr (lv_chainMeter voucher)"
      using v(3) by (simp add: v(5) claim_chain_meter_def c)
    show "hash_forward keccak (lv_preimage voucher) (verified_index (chain s)) = lv_chainRoot voucher"
      using v(4) by (simp add: v(5) c)
    show "owed s = ucast (lv_cumulative voucher) + ucast (verified_index (chain s)) * chunk_price (chain s)"
      "owed_bytes s = ucast (lv_bytesDelivered voucher) + ucast (verified_index (chain s)) * ucast CHUNK_BYTES"
      using assms(4) by (simp_all add: owed_def owed_bytes_def v(5) c wide claim_value_def claim_bytes_value_def accrued_def
          accrued_bytes_def mult.commute)
  qed
  have "voucher_struct (pool_id s) (provider s) voucher (chunk_price (chain s)) = to_sol (anchor_voucher s)"
    by (simp add: voucher_struct_def to_sol_def anchor_voucher_def v(5) c wide)
  moreover have "tryRecover digest (lv_r voucher) (lv_vs voucher) = recover_address_from_prehash A g digest" for digest
    using assms(2,3) v(2) compact_parts [of "sig_s P g" "sig_v P g"] by (simp add: compact_recovers_def sig_parts_ok_def v(5))
  ultimately show "verifyVoucher A tryRecover domain (pool_id s) (provider s) voucher (chunk_price (chain s)) = Inr ()"
    using v(1) by (simp add: verifyVoucher_def verify_signer_Inr_iff recover_signer_Inr_iff signing_hash_def) (simp add: v(5))
qed

text \<open>
  C34. What the contract pays on a planned voucher. For a lane reached by the node's own steps, submitted
  by the node that serves it, while its registration is live and its claim fits the contract's 64-bit fields: the contract's checks pass, and it
  draws the lane's whole claim less what the lane was paid before, which is what the redeemer expects of it, as far as the signer's cap and the pool's balance
  reach. A claim whose amount or whose bytes, extended by the proved chunks, exceed 64 bits is refused with
  \<open>ClaimOverflow\<close>.
\<close>

theorem planned_voucher_pays_claim:
  assumes "lane_reachable A domain keccak rate s" "sig_parts_ok A P" "compact_recovers A P tryRecover"
    and "plan_lane A P paid self_address registered s = Inr (Some lane)"
    and "au_expiry a \<noteq> 0" "timestamp < ucast (au_expiry a)" "au_spent a \<le> au_cap a"
    and "ucast (cl_amount w) = paid_get paid (pn_key lane)"
  shows "voucher_draw keccak A tryRecover domain self_address timestamp (pn_pool_id lane) (pn_voucher lane) remaining a w =
           (if unat (owed s) < 2 ^ 64 \<and> unat (owed_bytes s) < 2 ^ 64
            then Inr (min (ucast (pn_unredeemed lane)) (min (au_cap a - au_spent a) remaining))
            else Inl ClaimOverflow) \<and>
         unat (pn_unredeemed lane) = unat (owed s) - unat (cl_amount w) \<and> unat (cl_amount w) < unat (owed s)"
proof -
  obtain c voucher where p: "provider s = self_address" "live_claim s = Some c" "plan_voucher A P s c = Inr voucher"
    "pn_pool_id lane = pool_id s" "pn_key lane = lane_key_of s" "pn_voucher lane = voucher"
    "pn_unredeemed lane = sat_sub (claim_value c) (paid_get paid (lane_key_of s))" "pn_unredeemed lane \<noteq> 0"
    using assms(4) by (rule plan_lane_Some)
  note r = planned_voucher_resolves [OF assms(1-3) p(2,3)]
  have owed: "owed s = claim_value c" using p(2) by (simp add: owed_def)
  have left: "unat (pn_unredeemed lane) = unat (owed s) - unat (cl_amount w)"
  proof -
    have "paid_get paid (lane_key_of s) = ucast (cl_amount w)" using assms(8) p(5) by simp
    then show ?thesis using p(7) owed by (simp add: unat_sat_sub)
  qed
  moreover have more: "unat (cl_amount w) < unat (owed s)"
    using left p(8) by (metis unat_eq_zero zero_less_diff neq0_conv)
  moreover have "ucast (owed s) - cl_amount w = ucast (pn_unredeemed lane)" "cl_amount w < ucast (owed s)"
    if fits: "unat (owed s) < 2 ^ 64"
  proof -
    have n: "unat (ucast (owed s) :: u64) = unat (owed s)"
      using fits by (simp add: unsigned_ucast_eq unsigned_take_bit_eq take_bit_nat_eq_self)
    then show less: "cl_amount w < ucast (owed s)" using more by (simp add: word_less_nat_alt)
    have "unat (ucast (pn_unredeemed lane) :: u64) = unat (pn_unredeemed lane)"
      using fits left by (simp add: unsigned_ucast_eq unsigned_take_bit_eq take_bit_nat_eq_self)
    then show "ucast (owed s) - cl_amount w = ucast (pn_unredeemed lane)"
      using less n left by (simp add: word_unat_eq_iff unat_sub_exact order.strict_implies_order)
  qed
  ultimately show ?thesis
    using assms(5-7) r(2) by (auto simp: voucher_draw_def r(1) p(1,4,6) Let_def not_le not_less simp flip: p(1))
qed

text \<open>
  C35. No claim is left behind. A sweep plans every lane of this node that is owed more than it saw
  paid, while its capability has time to land, its signer is registered or can be registered with the stored owner
  signature, and its pool can pay or is not known yet: no encoding of a reachable lane fails.
\<close>

theorem unpaid_claim_is_planned:
  assumes "lane_reachable A domain keccak rate s" "sig_parts_ok A P" "provider s = self_address"
    and "paid_get paid (lane_key_of s) < owed s" "\<not> capability_expired (expiry s) now"
    and "now < registered_until s \<or> owner_sig s \<noteq> None \<and> unat (cap s) < 2 ^ 64"
    and "s \<in> set states" "pool_is_redeemable (proj_snapshot (pool_id s) view) now"
  shows "\<exists>lane \<in> set (plan_lanes A P paid self_address states view now).
           pn_key lane = lane_key_of s \<and> pn_owed lane = owed s"
proof -
  obtain c where c: "live_claim s = Some c" "owed s = claim_value c"
    using assms(4) by (cases "live_claim s") (auto simp: owed_def)
  obtain voucher where voucher: "plan_voucher A P s c = Inr voucher"
    using plan_voucher_reachable [OF assms(1,2) c(1)] by metis
  have unpaid: "claim_value c \<noteq> 0" "sat_sub (claim_value c) (paid_get paid (lane_key_of s)) \<noteq> 0"
    using assms(4) by (auto simp: c(2) word_unat_eq_iff unat_sat_sub word_less_nat_alt)
  have "\<exists>register. plan_register s (is_registered (registered_until s) now) = Inr (Some register)"
    using assms(6) by (auto simp: plan_register_def is_registered_def to_pool_u64_exact)
  then obtain register where "plan_register s (is_registered (registered_until s) now) = Inr (Some register)" by blast
  then obtain lane where "plan_one A P paid self_address now s = Some lane" "pn_key lane = lane_key_of s" "pn_owed lane = owed s"
    using assms(3,5) c voucher unpaid by (simp add: plan_one_def plan_lane_def Let_def)
  moreover have "s \<in> set (fst (partition_redeemable states view now))"
    using assms(7,8) by (simp add: partition_redeemable_def)
  ultimately show ?thesis
    by (force simp: plan_lanes_def List.map_filter_def)
qed

subsection \<open>A worked redeemer\<close>

text \<open>
  Signatures that serialise to 65 bytes and parse back, a lane registered on chain and owed 10, a codec that stores that
  lane, and a chain that lands one voucher at a time.
\<close>

definition rd_alloy :: "address alloy" where
  "rd_alloy = demo_alloy\<lparr>as_bytes := (\<lambda>g. to_be_bytes 20 g @ replicate 45 0)\<rparr>"

definition rd_parts :: "address sig_parts" where
  "rd_parts = \<lparr>from_raw = (\<lambda>bs. Some (from_be_bytes (take 20 bs))), sig_r = ucast, sig_s = (\<lambda>_. 4), sig_v = (\<lambda>_. True)\<rparr>"

definition rd_fresh :: lane_state where
  "rd_fresh = Lane.demo_lane\<lparr>registered_until := 4000\<rparr>"

definition rd_lane :: lane_state where
  "rd_lane = presigned_next rd_alloy rd_fresh (demo_voucher 10 1048576 355)"

definition rd_planned :: planned_lane where
  "rd_planned =
     \<lparr>pn_pool_id = 1, pn_key = lane_key_of rd_lane, pn_owed = 10, pn_unredeemed = 10,
      pn_voucher = \<lparr>lv_signer = 7, lv_cumulative = 10, lv_bytesDelivered = 1048576, lv_r = 7, lv_vs = 4 OR push_bit 255 1,
        lv_chainRoot = 355, lv_preimage = 355, lv_chainMeter = 2560\<rparr>,
      pn_register = None\<rparr>"

definition rd_enc :: lane_encoder where
  "rd_enc r = (if r = stored_from rd_lane then Inr [] else Inl ''unsupported'')"

definition rd_dec :: lane_decoder where
  "rd_dec bs = Inr (stored_from rd_lane, [])"

definition rd_store :: pstore where
  "rd_store = \<lparr>ps_lanes = [(lane_key_of rd_lane, Live rd_lane)], ps_dirty = [lane_key_of rd_lane], ps_disk = []\<rparr>"

definition rd_chain :: "unit redeem_chain" where
  "rd_chain = \<lparr>ch_order = (\<lambda>ps _. ps), ch_get_pool = (\<lambda>_ w. (Inl ''no such pool'', w)),
     ch_get_watermarks = (\<lambda>keys w. (Inr (map (\<lambda>_. 0) keys), w)),
     ch_get_authorizations = (\<lambda>_ w. (Inl ''unavailable'', w)),
     ch_redeem_many = (\<lambda>batches w. (if voucher_count batches \<le> 1 then Landed else SendErr True ''too large'', w))\<rparr>"

definition rd_world :: "(pstore, unit) redeem_world" where
  "rd_world = \<lparr>rw_store = rd_store, rw_view = record_resolved 9 (Pool_View.demo_read 0) [], rw_chain = ()\<rparr>"

lemmas rd_defs = rd_alloy_def rd_parts_def rd_fresh_def rd_lane_def Lane.demo_defs

lemma rd_parts_ok: "sig_parts_ok rd_alloy rd_parts"
  by (simp add: sig_parts_ok_def rd_alloy_def rd_parts_def)

lemma rd_lane_fields:
  "pool_id rd_lane = 1" "signer rd_lane = 7" "provider rd_lane = 8" "cap rd_lane = 1000" "expiry rd_lane = 5000"
  "registered_until rd_lane = 4000" "last_amount rd_lane = 10" "last_bytes_delivered rd_lane = 1048576"
  "last_signature rd_lane = Some (to_be_bytes 20 (7 :: address) @ replicate 45 0)" "chain rd_lane = opened 355 10"
  "owner_sig rd_lane = None"
  by (simp_all add: presigned_next_def Let_def rd_defs)

lemma rd_reachable: "lane_reachable rd_alloy demo_domain demo_keccak 10 rd_lane"
proof (rule lane_reachable.step [OF lane_reachable.fresh lane_step.accept])
  show "fresh_lane rd_fresh" by (simp add: fresh_lane_def rd_defs)
  show "lane_voucher 10 rd_fresh (sv_voucher (demo_voucher 10 1048576 355))"
    by (simp add: lane_voucher_def wire_voucher_def quoted_price_def rd_defs)
  show "stage_voucher rd_alloy demo_domain rd_fresh (demo_voucher 10 1048576 355)
      = Inr (rd_lane, \<lparr>va_amount_delta = 10, va_bytes_delta = 1048576\<rparr>)"
    by (simp add: stage_voucher_def verify_signer_def recover_signer_def is_high_s_def
        advance_presigned_def live_claim_def presigned_next_def Let_def rd_defs)
qed

lemma rd_live: "live_claim rd_lane = Some \<lparr>rc_amount = 10, rc_bytes_delivered = 1048576,
    rc_signature = to_be_bytes 20 (7 :: address) @ replicate 45 0, rc_chain = opened 355 10\<rparr>"
  by (simp add: live_claim_def rd_lane_fields)

lemma rd_owed: "owed rd_lane = 10"
  by (simp add: owed_def rd_live claim_value_def opened_def accrued_def sat_add_def)

lemma rd_plan_lane: "plan_lane rd_alloy rd_parts Map.empty 8 True rd_lane = Inr (Some rd_planned)"
proof -
  have "plan_voucher rd_alloy rd_parts rd_lane (the (live_claim rd_lane)) = Inr (pn_voucher rd_planned)"
    by (simp add: plan_voucher_def rd_live compact_voucher_signature_def to_pool_u64_exact claim_chain_meter_def
        pack_chain_meter_def u64_try_from_def rd_lane_fields rd_planned_def is_high_s_def rd_alloy_def rd_parts_def demo_alloy_def opened_def
        del: push_bit_of_1)
  moreover have "claim_value (the (live_claim rd_lane)) = 10" using rd_owed by (simp add: owed_def rd_live)
  ultimately show ?thesis
    by (simp add: plan_lane_def rd_live rd_lane_fields plan_register_def paid_get_def sat_sub_def rd_planned_def)
qed

subsection \<open>How lanes are packed\<close>

definition lanes_value :: "planned_lane list \<Rightarrow> nat" where
  "lanes_value lanes = (\<Sum>lane \<leftarrow> lanes. unat (pn_unredeemed lane))"

lemma deal_Nil [simp]: "deal k [] j = []"
  by (simp add: deal_def)

lemma deal_snoc: "deal k (xs @ [x]) j = deal k xs j @ (if length xs mod k = j then [x] else [])"
  by (simp add: deal_def enumerate_append_eq)

lemma deal_append: "length xs = k \<Longrightarrow> j < k \<Longrightarrow> deal k (xs @ ys) j = xs ! j # deal k ys j"
proof (induction ys rule: rev_induct)
  case Nil
  have "deal k (take n xs) j = (if j < n then [xs ! j] else [])" if "n \<le> k" for n
    using that
  proof (induction n)
    case (Suc n)
    then have "take (Suc n) xs = take n xs @ [xs ! n]" using Nil by (simp add: take_Suc_conv_app_nth)
    with Suc Nil show ?case by (auto simp: deal_snoc less_Suc_eq)
  qed simp
  from this [of k] Nil show ?case by simp
next
  case (snoc y ys)
  then show ?case by (simp add: deal_snoc flip: append_assoc)
qed

lemma deal_short: "length xs \<le> k \<Longrightarrow> j < k \<Longrightarrow> deal k xs j = (if j < length xs then [xs ! j] else [])"
  by (induction xs rule: rev_induct) (auto simp: deal_snoc nth_append less_Suc_eq)

lemma mset_deal:
  assumes "0 < k"
  shows "mset (concat (map (deal k xs) [0..<k])) = mset xs"
proof (induction xs rule: rev_induct)
  case (snoc x xs)
  have "(\<Sum>j \<leftarrow> [0..<k]. mset (deal k (xs @ [x]) j)) =
      (\<Sum>j \<leftarrow> [0..<k]. mset (deal k xs j)) + (\<Sum>j \<leftarrow> [0..<k]. if length xs mod k = j then {#x#} else {#})"
    by (simp add: deal_snoc sum_list_addf flip: sum_list_addf)
      (rule arg_cong [of _ _ sum_list], simp)
  also have "(\<Sum>j \<leftarrow> [0..<k]. if length xs mod k = j then {#x#} else {#}) = {#x#}"
    using assms by (simp add: interv_sum_list_conv_sum_set_nat sum.delta)
  finally show ?case using snoc by (simp add: mset_concat comp_def)
qed (simp add: mset_concat comp_def)

lemma length_deal: "j < k \<Longrightarrow> length xs \<le> k * m \<Longrightarrow> length (deal k xs j) \<le> m"
proof (induction m arbitrary: xs)
  case (Suc m)
  show ?case
  proof (cases "length xs \<le> k")
    case False
    then have "deal k xs j = take k xs ! j # deal k (drop k xs) j"
      using deal_append [of "take k xs" k j "drop k xs"] Suc.prems(1) by simp
    with Suc.IH [of "drop k xs"] Suc.prems show ?thesis by simp
  qed (use Suc.prems in \<open>simp add: deal_short\<close>)
qed simp

text \<open>Dealing a descending list keeps the piles within its largest element of one another.\<close>

lemma deal_balanced:
  fixes v :: "'a \<Rightarrow> nat"
  assumes "i < k" "j < k" "sorted_wrt (\<lambda>x y. v y \<le> v x) xs" "\<forall>x \<in> set xs. v x \<le> m"
  shows "sum_list (map v (deal k xs i)) \<le> m + sum_list (map v (deal k xs j))"
  using assms(3,4)
proof (induction "length xs" arbitrary: xs m rule: less_induct)
  case less
  show ?case
  proof (cases "length xs \<le> k")
    case True
    then show ?thesis using less.prems(2) assms(1,2) by (auto simp: deal_short trans_le_add1)
  next
    case False
    let ?a = "take k xs" and ?b = "drop k xs"
    have d: "deal k xs h = xs ! h # deal k ?b h" if "h < k" for h
      using deal_append [of ?a k h ?b] that False by simp
    have le: "\<forall>x \<in> set ?b. v x \<le> v (xs ! j)"
      using less.prems(1) False assms(2) by (auto simp: sorted_wrt_iff_nth_less set_conv_nth)
    have "sum_list (map v (deal k ?b i)) \<le> v (xs ! j) + sum_list (map v (deal k ?b j))"
      using less.prems(1) False assms(1) by (intro less.hyps le) (auto simp: sorted_wrt_drop)
    moreover have "v (xs ! i) \<le> m" using less.prems(2) False assms(1) by simp
    ultimately show ?thesis using d assms(1,2) by simp
  qed
qed

lemma le_diff_flip: "a < n \<Longrightarrow> b < n \<Longrightarrow> n - a \<le> n - b \<longleftrightarrow> b \<le> (a :: nat)"
  by auto

lemma sorted_reverse_key: "sorted_wrt (\<lambda>x y. unat (pn_unredeemed y) \<le> unat (pn_unredeemed x)) (sort_key reverse_key plans)"
proof -
  have "unat (pn_unredeemed x) < 2 ^ 256" for x by (rule order.strict_trans2 [OF unsigned_less]) simp
  then have "reverse_key x \<le> reverse_key y \<longleftrightarrow> unat (pn_unredeemed y) \<le> unat (pn_unredeemed x)" for x y
    unfolding reverse_key_def using le_diff_flip by blast
  then show ?thesis using sorted_sort_key [of reverse_key plans] by (simp add: sorted_map)
qed

lemma lanes_value_append [simp]: "lanes_value (xs @ ys) = lanes_value xs + lanes_value ys"
  by (simp add: lanes_value_def)

lemma lanes_value_mset: "mset xs = mset ys \<Longrightarrow> lanes_value xs = lanes_value ys"
  unfolding lanes_value_def by (metis mset_map sum_mset_sum_list)

lemma lanes_value_part: "bucket \<in> set buckets \<Longrightarrow> lanes_value bucket \<le> lanes_value (concat buckets)"
  by (induction buckets) auto

lemma unat_lanes_value:
  assumes "lanes_value bucket < 2 ^ 256"
  shows "unat (foldl (\<lambda>a l. a + pn_unredeemed l) 0 bucket) = lanes_value bucket"
  using assms
proof (induction bucket rule: rev_induct)
  case (snoc l bucket)
  then have "unat (foldl (\<lambda>a l. a + pn_unredeemed l) 0 bucket) + unat (pn_unredeemed l) < 2 ^ 256"
    by (simp add: lanes_value_def)
  with snoc show ?case
    by (simp add: unat_word_ariths(1) lanes_value_def)
qed (simp add: lanes_value_def)

lemma ceil_div_enough: "0 < m \<Longrightarrow> n \<le> ((n + m - 1) div m) * (m :: nat)"
  using dividend_less_times_div [of m "n + m - 1"] by (simp add: mult.commute)

text \<open>
  C38. Packing. Planned lanes are dealt into as many piles as the voucher limit requires
  and no more, each within the limit and each lane in exactly one. The piles sent are those worth the floor, the others wait;
  and no pile is worth more than any other by more than the most valuable single lane, so that small claims
  ride with large ones.
\<close>

theorem chunks_packed:
  assumes "lanes_value plans < 2 ^ 256" "plans \<noteq> []"
  shows "\<exists>deferred. let sent = chunk_redemptions plans floor max_vouchers; most = max max_vouchers 1 in
     mset (concat sent) + mset (concat deferred) = mset plans \<and>
     length sent + length deferred = (length plans + most - 1) div most \<and>
     (\<forall>chunk \<in> set sent. unat floor \<le> lanes_value chunk) \<and>
     (\<forall>chunk \<in> set deferred. lanes_value chunk < unat floor) \<and>
     (\<forall>chunk \<in> set (sent @ deferred). length chunk \<le> most) \<and>
     (\<forall>a \<in> set (sent @ deferred). \<forall>b \<in> set (sent @ deferred).
        lanes_value a \<le> Max ((\<lambda>lane. unat (pn_unredeemed lane)) ` set plans) + lanes_value b)"
proof -
  let ?most = "max max_vouchers 1" and ?sorted = "sort_key reverse_key plans"
  let ?k = "(length plans + ?most - 1) div ?most"
  let ?buckets = "map (deal ?k ?sorted) [0..<?k]"
  let ?ok = "\<lambda>bucket. floor \<le> foldl (\<lambda>a l. a + pn_unredeemed l) 0 bucket"
  have most: "0 < ?most" by simp
  have k: "0 < ?k" using assms(2) most by (cases plans) (simp_all add: div_greater_zero_iff)
  have sent: "chunk_redemptions plans floor max_vouchers = filter ?ok ?buckets"
    using assms(2) by (simp add: chunk_redemptions_def Let_def)
  have all: "mset (concat ?buckets) = mset plans" using mset_deal [OF k, of ?sorted] by simp
  have part: "mset (concat (filter Q bs)) + mset (concat (filter (\<lambda>b. \<not> Q b) bs)) = mset (concat bs)" for Q and bs :: "planned_lane list list"
    by (induction bs) (auto simp: ac_simps)
  have "length ?sorted \<le> ?k * ?most" using ceil_div_enough [OF most] by simp
  then have len: "length bucket \<le> ?most" if "bucket \<in> set ?buckets" for bucket
    using that length_deal [of _ ?k ?sorted ?most] by (auto simp del: length_sort)
  have val: "unat (foldl (\<lambda>a l. a + pn_unredeemed l) 0 bucket) = lanes_value bucket" if "bucket \<in> set ?buckets" for bucket
    using assms(1) lanes_value_part [OF that] unfolding lanes_value_mset [OF all] by (intro unat_lanes_value) linarith
  have bal: "lanes_value a \<le> Max ((\<lambda>lane. unat (pn_unredeemed lane)) ` set plans) + lanes_value b"
    if "a \<in> set ?buckets" "b \<in> set ?buckets" for a b
    using that by (auto simp: lanes_value_def intro!: deal_balanced sorted_reverse_key)
  show ?thesis
    unfolding Let_def sent
  proof (intro exI [of _ "filter (\<lambda>b. \<not> ?ok b) ?buckets"] conjI)
    show "mset (concat (filter ?ok ?buckets)) + mset (concat (filter (\<lambda>b. \<not> ?ok b) ?buckets)) = mset plans"
      by (simp only: part all)
    show "length (filter ?ok ?buckets) + length (filter (\<lambda>b. \<not> ?ok b) ?buckets) = ?k"
      by (simp only: sum_length_filter_compl length_map length_upt minus_nat.diff_0)
  qed (use val len bal in \<open>auto simp: word_le_nat_alt not_le simp del: set_map\<close>)
qed

subsection \<open>What a submit accounts for\<close>

definition landed :: "sends \<Rightarrow> planned_lane list" where
  "landed sends = concat (map fst (filter (\<lambda>(_, outcome). outcome = Landed) sends))"

lemma landed_simps [simp]:
  "landed [] = []" "landed (xs @ ys) = landed xs @ landed ys"
  "landed ((ls, outcome) # xs) = (if outcome = Landed then ls @ landed xs else landed xs)"
  by (simp_all add: landed_def)

definition accounted :: "planned_lane list \<Rightarrow> bool \<Rightarrow> sends \<Rightarrow> bool" where
  "accounted lanes faulted sends \<longleftrightarrow>
     subseq (landed sends) lanes \<and> (\<not> faulted \<longleftrightarrow> landed sends = lanes) \<and> (\<forall>(ls, _) \<in> set sends. set ls \<subseteq> set lanes)"

lemma accounted_append:
  assumes "accounted a f xs" "accounted b g ys"
  shows "accounted (a @ b) (f \<or> g) (xs @ ys)"
proof -
  have len: "length (landed xs) \<le> length a" "length (landed ys) \<le> length b"
    using assms by (auto simp: accounted_def dest: list_emb_length)
  have "landed xs @ landed ys = a @ b \<longleftrightarrow> landed xs = a \<and> landed ys = b"
  proof
    assume eq: "landed xs @ landed ys = a @ b"
    then have "length (landed xs) + length (landed ys) = length a + length b"
      by (metis length_append)
    with eq len show "landed xs = a \<and> landed ys = b" by simp
  qed simp
  then show ?thesis
    using assms by (auto simp: accounted_def intro: list_emb_append_mono)
qed

lemma submit_accounted:
  "submit_chunk C S depth lanes rw = (f, sends, rw') \<Longrightarrow> depth \<le> MAX_SPLIT_DEPTH \<Longrightarrow>
     accounted lanes f sends \<and> length sends < 2 ^ (Suc MAX_SPLIT_DEPTH - depth)"
  "submit_halves C S depth lanes rw = (f, sends, rw') \<Longrightarrow> depth \<le> MAX_SPLIT_DEPTH \<Longrightarrow>
     accounted lanes f sends \<and> Suc (length sends) < 2 * 2 ^ (Suc MAX_SPLIT_DEPTH - depth)"
proof (induction C S depth lanes rw and C S depth lanes rw arbitrary: f sends rw' and f sends rw'
    rule: submit_chunk_submit_halves.induct)
  case (1 C S depth lanes rw)
  obtain outcome w where o: "ch_redeem_many C (group_by_pool lanes) (rw_chain rw) = (outcome, w)"
    by (cases "ch_redeem_many C (group_by_pool lanes) (rw_chain rw)")
  have "(1 :: nat) \<le> 2 ^ (MAX_SPLIT_DEPTH - depth)" by simp
  then have pos: "(1 :: nat) < 2 ^ (Suc MAX_SPLIT_DEPTH - depth)" "(0 :: nat) < 2 ^ (Suc MAX_SPLIT_DEPTH - depth)"
    unfolding Suc_diff_le [OF "1.prems"(2)] power_Suc by linarith+
  consider (empty) "lanes = []" | (landed) "lanes \<noteq> []" "outcome = Landed"
    | (split) "lanes \<noteq> []" "outcome \<noteq> Landed" "2 \<le> length lanes \<and> depth < MAX_SPLIT_DEPTH \<and> oversize outcome"
    | (failed) "lanes \<noteq> []" "outcome \<noteq> Landed" "\<not> (2 \<le> length lanes \<and> depth < MAX_SPLIT_DEPTH \<and> oversize outcome)"
    by blast
  then show ?case
  proof cases
    case split
    obtain f1 sends1 rw1 where h: "submit_halves C S (depth + 1) lanes (rw\<lparr>rw_chain := w\<rparr>) = (f1, sends1, rw1)"
      by (cases "submit_halves C S (depth + 1) lanes (rw\<lparr>rw_chain := w\<rparr>)")
    have "accounted lanes f1 sends1 \<and> Suc (length sends1) < 2 * 2 ^ (Suc MAX_SPLIT_DEPTH - (depth + 1))"
      using "1.IH" [OF split(1) o [symmetric] split(2,3) h] split(3) by simp
    moreover have "f = f1" "sends = (lanes, outcome) # sends1"
      using "1.prems"(1) split h o by (simp_all add: submit_chunk.simps)
    moreover have "2 * 2 ^ (Suc MAX_SPLIT_DEPTH - (depth + 1)) = (2 :: nat) ^ (Suc MAX_SPLIT_DEPTH - depth)"
      using split(3) by (simp add: Suc_diff_le)
    ultimately show ?thesis using split(2) by (auto simp: accounted_def)
  next
    case failed
    then have "f" "sends = [(lanes, outcome)]"
      using "1.prems"(1) o by (auto simp: submit_chunk.simps is_chain_fault_def)
    with failed pos show ?thesis by (simp add: accounted_def)
  qed (use "1.prems"(1) o pos in \<open>auto simp: submit_chunk.simps accounted_def is_chain_fault_def\<close>)
next
  case (2 C S depth lanes rw)
  let ?h = "length lanes div 2"
  obtain f1 s1 rw1 where l: "submit_chunk C S depth (take ?h lanes) rw = (f1, s1, rw1)"
    by (cases "submit_chunk C S depth (take ?h lanes) rw")
  obtain f2 s2 rw2 where r: "submit_chunk C S depth (drop ?h lanes) rw1 = (f2, s2, rw2)"
    by (cases "submit_chunk C S depth (drop ?h lanes) rw1")
  have res: "f = (f1 \<or> f2)" "sends = s1 @ s2"
    using "2.prems"(1) by (simp_all add: submit_halves.simps l r)
  have "accounted (take ?h lanes) f1 s1 \<and> length s1 < 2 ^ (Suc MAX_SPLIT_DEPTH - depth)"
    "accounted (drop ?h lanes) f2 s2 \<and> length s2 < 2 ^ (Suc MAX_SPLIT_DEPTH - depth)"
    using "2.IH"(1) [OF l "2.prems"(2)] "2.IH"(2) [OF l [symmetric] refl r "2.prems"(2)] by simp_all
  then show ?case
    using accounted_append [of "take ?h lanes" f1 s1 "drop ?h lanes" f2 s2] by (simp add: res)
qed

text \<open>Grouping keeps every lane: each pool's batch holds its lanes' vouchers and capabilities in order.\<close>

definition pool_lanes :: "b256 \<Rightarrow> planned_lane list \<Rightarrow> planned_lane list" where
  "pool_lanes p lanes = filter (\<lambda>lane. pn_pool_id lane = p) lanes"

definition batch_of :: "b256 \<Rightarrow> planned_lane list \<Rightarrow> pool_batch option" where
  "batch_of p lanes = (if pool_lanes p lanes = [] then None
     else Some \<lparr>pb_poolId = p, pb_capabilities = List.map_filter pn_register (pool_lanes p lanes),
                pb_vouchers = map pn_voucher (pool_lanes p lanes)\<rparr>)"

lemma batch_of_snoc:
  "batch_of q (lanes @ [lane]) =
     (if q = pn_pool_id lane
      then Some \<lparr>pb_poolId = q,
        pb_capabilities = List.map_filter pn_register (pool_lanes q lanes) @ (case pn_register lane of None \<Rightarrow> [] | Some r \<Rightarrow> [r]),
        pb_vouchers = map pn_voucher (pool_lanes q lanes) @ [pn_voucher lane]\<rparr>
      else batch_of q lanes)"
  by (simp add: batch_of_def pool_lanes_def List.map_filter_def split: option.splits)

lemma group_step_batch:
  assumes "map_of al (pn_pool_id lane) = batch_of (pn_pool_id lane) lanes"
  shows "group_step lane al = AList.update (pn_pool_id lane) (the (batch_of (pn_pool_id lane) (lanes @ [lane]))) al"
  unfolding group_step_def batch_of_snoc using assms [unfolded batch_of_def]
  by (cases "pool_lanes (pn_pool_id lane) lanes = []"; cases "pn_register lane") (simp_all add: List.map_filter_def)

lemma group_fold:
  "map_of (fold group_step lanes []) = (\<lambda>p. batch_of p lanes) \<and> distinct (map fst (fold group_step lanes []))"
proof (induction lanes rule: rev_induct)
  case (snoc lane lanes)
  then have "group_step lane (fold group_step lanes []) =
      AList.update (pn_pool_id lane) (the (batch_of (pn_pool_id lane) (lanes @ [lane]))) (fold group_step lanes [])"
    by (intro group_step_batch) (simp add: fun_eq_iff)
  with snoc show ?case by (simp add: update_conv' fun_eq_iff batch_of_snoc distinct_update)
qed (simp add: batch_of_def pool_lanes_def fun_eq_iff)

lemma sum_list_update_alist:
  fixes f :: "'v \<Rightarrow> nat"
  assumes "distinct (map fst al)"
  shows "(\<Sum>x \<leftarrow> AList.update k v al. f (snd x)) + (case map_of al k of None \<Rightarrow> 0 | Some b \<Rightarrow> f b)
           = (\<Sum>x \<leftarrow> al. f (snd x)) + f v"
  using assms by (induction al) auto

lemma group_count: "voucher_count (group_by_pool lanes) = length lanes"
proof (induction lanes rule: rev_induct)
  case (snoc lane lanes)
  let ?al = "fold group_step lanes []"
  have d: "distinct (map fst ?al)" using group_fold by blast
  have held: "map_of ?al (pn_pool_id lane) = batch_of (pn_pool_id lane) lanes" using group_fold [of lanes] by simp
  have "length (pb_vouchers (the (batch_of (pn_pool_id lane) (lanes @ [lane])))) = Suc (length (pool_lanes (pn_pool_id lane) lanes))"
    by (simp add: batch_of_snoc)
  moreover have "(case batch_of (pn_pool_id lane) lanes of None \<Rightarrow> 0 | Some b \<Rightarrow> length (pb_vouchers b))
      = length (pool_lanes (pn_pool_id lane) lanes)"
    by (simp add: batch_of_def)
  ultimately have "(\<Sum>x \<leftarrow> group_step lane ?al. length (pb_vouchers (snd x))) = Suc (\<Sum>x \<leftarrow> ?al. length (pb_vouchers (snd x)))"
    using sum_list_update_alist [OF d, of "\<lambda>b. length (pb_vouchers b)" "pn_pool_id lane"
        "the (batch_of (pn_pool_id lane) (lanes @ [lane]))"]
    unfolding group_step_batch [OF held] held by simp
  with snoc show ?case
    by (simp add: voucher_count_def group_by_pool_def comp_def)
qed (simp add: voucher_count_def group_by_pool_def)

text \<open>A chain that lands every batch of at most \<open>m\<close> vouchers and refuses a larger one as too large.\<close>

definition lands_up_to :: "nat \<Rightarrow> 'w redeem_chain \<Rightarrow> bool" where
  "lands_up_to m C \<longleftrightarrow> (\<forall>batches w. if voucher_count batches \<le> m then fst (ch_redeem_many C batches w) = Landed
     else fst (ch_redeem_many C batches w) \<noteq> Landed \<and> oversize (fst (ch_redeem_many C batches w)))"

lemma submit_lands:
  "submit_chunk C S depth lanes rw = (f, sends, rw') \<Longrightarrow> lands_up_to m C \<Longrightarrow> 0 < m \<Longrightarrow> depth \<le> MAX_SPLIT_DEPTH \<Longrightarrow>
     length lanes \<le> m * 2 ^ (MAX_SPLIT_DEPTH - depth) \<Longrightarrow> \<not> f"
  "submit_halves C S depth lanes rw = (f, sends, rw') \<Longrightarrow> lands_up_to m C \<Longrightarrow> 0 < m \<Longrightarrow> depth \<le> MAX_SPLIT_DEPTH \<Longrightarrow>
     length lanes \<le> 2 * (m * 2 ^ (MAX_SPLIT_DEPTH - depth)) \<Longrightarrow> \<not> f"
proof (induction C S depth lanes rw and C S depth lanes rw arbitrary: f sends rw' and f sends rw'
    rule: submit_chunk_submit_halves.induct)
  case (1 C S depth lanes rw)
  obtain outcome w where o: "ch_redeem_many C (group_by_pool lanes) (rw_chain rw) = (outcome, w)"
    by (cases "ch_redeem_many C (group_by_pool lanes) (rw_chain rw)")
  have out: "if length lanes \<le> m then outcome = Landed else outcome \<noteq> Landed \<and> oversize outcome"
    using "1.prems"(2) o group_count [of lanes] unfolding lands_up_to_def by (metis fst_conv)
  show ?case
  proof (cases "length lanes \<le> m")
    case True
    then show ?thesis using out "1.prems"(1) o by (auto simp: submit_chunk.simps split: if_splits)
  next
    case False
    then have d: "depth < MAX_SPLIT_DEPTH" using "1.prems"(4,5) by (cases "depth = MAX_SPLIT_DEPTH") auto
    then have len: "length lanes \<le> 2 * (m * 2 ^ (MAX_SPLIT_DEPTH - (depth + 1)))"
      using "1.prems"(5) unfolding Suc_diff_Suc [OF d, symmetric] by simp
    have split: "lanes \<noteq> []" "outcome \<noteq> Landed" "2 \<le> length lanes \<and> depth < MAX_SPLIT_DEPTH \<and> oversize outcome"
      using False out d "1.prems"(3) by auto
    obtain f1 sends1 rw1 where h: "submit_halves C S (depth + 1) lanes (rw\<lparr>rw_chain := w\<rparr>) = (f1, sends1, rw1)"
      by (cases "submit_halves C S (depth + 1) lanes (rw\<lparr>rw_chain := w\<rparr>)")
    have "\<not> f1"
      using "1.IH" [OF split(1) o [symmetric] split(2,3) h "1.prems"(2,3) _ len] d by simp
    then show ?thesis
      using "1.prems"(1) split h o by (simp add: submit_chunk.simps)
  qed
next
  case (2 C S depth lanes rw)
  let ?h = "length lanes div 2"
  obtain f1 s1 rw1 where l: "submit_chunk C S depth (take ?h lanes) rw = (f1, s1, rw1)"
    by (cases "submit_chunk C S depth (take ?h lanes) rw")
  obtain f2 s2 rw2 where r: "submit_chunk C S depth (drop ?h lanes) rw1 = (f2, s2, rw2)"
    by (cases "submit_chunk C S depth (drop ?h lanes) rw1")
  have "length (take ?h lanes) \<le> m * 2 ^ (MAX_SPLIT_DEPTH - depth)" "length (drop ?h lanes) \<le> m * 2 ^ (MAX_SPLIT_DEPTH - depth)"
    using "2.prems"(5) by auto
  then have "\<not> f1" "\<not> f2"
    using "2.IH"(1) [OF l "2.prems"(2-4)] "2.IH"(2) [OF l [symmetric] refl r "2.prems"(2-4)] by simp_all
  then show ?case using "2.prems"(1) by (simp add: submit_halves.simps l r)
qed

text \<open>
  C37. Splitting loses nothing. Whatever the chain answers, submitting a chunk lands each of its lanes at most
  once and in order, reports no fault exactly when all of them landed, and sends at most 127
  transactions. Against a chain that lands every transaction of up to \<open>m\<close> vouchers and refuses a larger
  one as too large, a chunk of up to \<open>64 * m\<close> lanes lands whole.
\<close>

theorem submitted_lanes_accounted:
  assumes "submit_chunk C S 0 lanes rw = (faulted, sends, rw')"
  shows "subseq (landed sends) lanes \<and> (\<not> faulted \<longleftrightarrow> landed sends = lanes) \<and> length sends < 128 \<and>
         (\<forall>m. lands_up_to m C \<and> 0 < m \<and> length lanes \<le> 64 * m \<longrightarrow> landed sends = lanes)"
proof -
  have acc: "accounted lanes faulted sends" "length sends < 128"
    using submit_accounted(1) [OF assms] by (simp_all add: MAX_SPLIT_DEPTH_def)
  have "\<not> faulted" if "lands_up_to m C" "0 < m" "length lanes \<le> 64 * m" for m
    using submit_lands(1) [OF assms that(1,2)] that(3) by (simp add: MAX_SPLIT_DEPTH_def mult.commute)
  with acc show ?thesis by (auto simp: accounted_def)
qed

subsection \<open>What a cycle has checked before it sends\<close>

text \<open>Sending writes nothing to the view, and to the store only registrations.\<close>

definition store_stable :: "'st redeem_store \<Rightarrow> ('st \<Rightarrow> bool) \<Rightarrow> bool" where
  "store_stable S Q \<longleftrightarrow> (\<forall>r st k. Q st \<longrightarrow> Q (snd (rs_set_registered_until S r st k)))"

lemma persist_stable: "store_stable S Q \<Longrightarrow> Q st \<Longrightarrow> Q (persist_registered_expiries S keys auths st)"
  by (induction S keys auths st rule: persist_registered_expiries.induct) (auto simp: store_stable_def)

lemma registrations_stable:
  "store_stable S Q \<Longrightarrow> Q (rw_store rw) \<Longrightarrow>
     Q (rw_store (record_registrations C S chunks rw)) \<and> rw_view (record_registrations C S chunks rw) = rw_view rw"
  by (induction C S chunks rw rule: record_registrations.induct) (auto simp: persist_stable split: prod.splits sum.splits)

lemma submit_stable:
  "submit_chunk C S depth lanes rw = (f, sends, rw') \<Longrightarrow> store_stable S Q \<Longrightarrow> Q (rw_store rw) \<Longrightarrow>
     Q (rw_store rw') \<and> rw_view rw' = rw_view rw"
  "submit_halves C S depth lanes rw = (f, sends, rw') \<Longrightarrow> store_stable S Q \<Longrightarrow> Q (rw_store rw) \<Longrightarrow>
     Q (rw_store rw') \<and> rw_view rw' = rw_view rw"
proof (induction C S depth lanes rw and C S depth lanes rw arbitrary: f sends rw' and f sends rw'
    rule: submit_chunk_submit_halves.induct)
  case (1 C S depth lanes rw)
  obtain outcome w where o: "ch_redeem_many C (group_by_pool lanes) (rw_chain rw) = (outcome, w)"
    by (cases "ch_redeem_many C (group_by_pool lanes) (rw_chain rw)")
  show ?case
  proof (cases "lanes \<noteq> [] \<and> outcome \<noteq> Landed \<and> 2 \<le> length lanes \<and> depth < MAX_SPLIT_DEPTH \<and> oversize outcome")
    case True
    obtain f1 sends1 rw1 where h: "submit_halves C S (depth + 1) lanes (rw\<lparr>rw_chain := w\<rparr>) = (f1, sends1, rw1)"
      by (cases "submit_halves C S (depth + 1) lanes (rw\<lparr>rw_chain := w\<rparr>)")
    show ?thesis
      using "1.IH" [OF _ o [symmetric] _ _ h] True "1.prems" h o by (auto simp: submit_chunk.simps)
  next
    case False
    then show ?thesis
      using "1.prems" o registrations_stable [of S Q "rw\<lparr>rw_chain := w\<rparr>" C]
      by (auto simp: submit_chunk.simps record_landed_chunk_def split: if_splits)
  qed
next
  case (2 C S depth lanes rw)
  let ?h = "length lanes div 2"
  obtain f1 s1 rw1 where l: "submit_chunk C S depth (take ?h lanes) rw = (f1, s1, rw1)"
    by (cases "submit_chunk C S depth (take ?h lanes) rw")
  obtain f2 s2 rw2 where r: "submit_chunk C S depth (drop ?h lanes) rw1 = (f2, s2, rw2)"
    by (cases "submit_chunk C S depth (drop ?h lanes) rw1")
  show ?case
    using "2.IH"(1) [OF l "2.prems"(2,3)] "2.IH"(2) [OF l [symmetric] refl r "2.prems"(2)] "2.prems"(1)
    by (auto simp: submit_halves.simps l r)
qed

lemma submit_chunks_sent:
  "submit_chunks C S chunks faulted rw = (f, sends, rw') \<Longrightarrow> store_stable S Q \<Longrightarrow> Q (rw_store rw) \<Longrightarrow>
     Q (rw_store rw') \<and> rw_view rw' = rw_view rw \<and> (\<forall>(ls, _) \<in> set sends. set ls \<subseteq> set (concat chunks))"
proof (induction chunks arbitrary: faulted rw f sends)
  case (Cons chunk rest)
  obtain f1 s1 rw1 where one: "submit_chunk C S 0 chunk rw = (f1, s1, rw1)"
    by (cases "submit_chunk C S 0 chunk rw")
  obtain f2 s2 rw2 where more: "submit_chunks C S rest (faulted \<or> f1) rw1 = (f2, s2, rw2)"
    by (cases "submit_chunks C S rest (faulted \<or> f1) rw1")
  have res: "sends = s1 @ s2" "rw' = rw2" using Cons.prems(1) by (simp_all add: one more)
  note a = submit_stable(1) [OF one Cons.prems(2,3)] submit_accounted(1) [OF one]
  then have "Q (rw_store rw2) \<and> rw_view rw2 = rw_view rw1 \<and> (\<forall>(ls, _) \<in> set s2. set ls \<subseteq> set (concat rest))"
    using Cons.IH [OF more [unfolded res(2) [symmetric]] Cons.prems(2)] res(2) by simp
  then show ?case using a by (auto simp: res accounted_def)
qed simp

lemma resolve_unknown_pools_kept:
  assumes "resolve_unknown_pools C now plans rw = (kept, failed, rw')"
  shows "set kept \<subseteq> set plans" "rw_store rw' = rw_store rw"
    and "lane \<in> set kept \<Longrightarrow> \<exists>status. proj_snapshot (pn_pool_id lane) (rw_view rw') = Some status \<and>
           pool_is_redeemable (Some status) now"
  using assms by (auto simp: resolve_unknown_pools_def Let_def split: prod.splits option.splits)

lemma reconcile_plans_kept:
  "lane \<in> set (fst (reconcile_plans plans paid)) \<Longrightarrow> \<forall>plan \<in> set plans. pn_unredeemed plan \<noteq> 0 \<Longrightarrow>
     \<exists>plan \<in> set plans. lane = plan\<lparr>pn_unredeemed := pn_unredeemed lane\<rparr> \<and> pn_unredeemed lane \<noteq> 0"
proof (induction plans paid rule: reconcile_plans.induct)
  case (3 plan plans onchain paid)
  have pos: "sat_sub (pn_owed plan) onchain \<noteq> 0" if "\<not> pn_owed plan \<le> onchain"
    using that by (auto simp: word_unat_eq_iff unat_sat_sub word_le_nat_alt)
  obtain kept skipped where r: "reconcile_plans plans paid = (kept, skipped)"
    by (cases "reconcile_plans plans paid")
  show ?case using 3 pos by (auto simp: r split: if_splits)
next
  case (2 plan plans)
  then show ?case by (intro bexI [of _ lane]) auto
qed simp

lemma set_deal: "j < k \<Longrightarrow> set (deal k xs j) \<subseteq> set xs"
  by (auto simp: deal_def in_set_enumerate_eq)

lemma chunk_redemptions_mem: "chunk \<in> set (chunk_redemptions plans floor n) \<Longrightarrow> set chunk \<subseteq> set plans"
  using set_deal by (fastforce simp: chunk_redemptions_def Let_def split: if_splits)

lemma redeem_planned_lanes_run:
  assumes run: "redeem_planned_lanes C S floor max_vouchers True now plans rw = (faulted, sends, rw')"
    and sent: "(lanes, outcome) \<in> set sends" "lane \<in> set lanes"
  obtains plans1 resolve_failed rw1 plans2 reconcile_failed w2 st
  where "resolve_unknown_pools C now plans rw = (plans1, resolve_failed, rw1)"
    "reconcile_onchain_watermarks C plans1 (rw_chain rw1) = (plans2, reconcile_failed, w2)"
    "lane \<in> set plans2" "rs_flush S (rw_store rw) = (Inr (), st)" "rw_view rw' = rw_view rw1"
    "\<forall>Q. store_stable S Q \<longrightarrow> Q st \<longrightarrow> Q (rw_store rw')"
proof -
  obtain plans1 resolve_failed rw1 where r: "resolve_unknown_pools C now plans rw = (plans1, resolve_failed, rw1)"
    by (cases "resolve_unknown_pools C now plans rw")
  obtain plans2 reconcile_failed w2 where w: "reconcile_onchain_watermarks C plans1 (rw_chain rw1) = (plans2, reconcile_failed, w2)"
    by (cases "reconcile_onchain_watermarks C plans1 (rw_chain rw1)")
  obtain flushed st where fl: "rs_flush S (rw_store rw) = (flushed, st)"
    by (cases "rs_flush S (rw_store rw)")
  note kept = resolve_unknown_pools_kept [OF r]
  let ?chunks = "chunk_redemptions plans2 floor max_vouchers"
  let ?rw3 = "rw1\<lparr>rw_chain := w2, rw_store := st\<rparr>"
  have "sends \<noteq> []" using sent(1) by auto
  then have ok: "\<not> isl flushed" and go: "submit_chunks C S ?chunks (reconcile_failed \<or> resolve_failed) ?rw3 = (faulted, sends, rw')"
    using run unfolding redeem_planned_lanes_def by (auto simp: r w fl kept(2) Let_def split: if_splits)
  have all: "store_stable S Q \<Longrightarrow> Q st \<Longrightarrow> Q (rw_store rw') \<and> rw_view rw' = rw_view rw1 \<and>
      (\<forall>(ls, _) \<in> set sends. set ls \<subseteq> set (concat ?chunks))" for Q
    using submit_chunks_sent [OF go, of Q] by simp
  have any: "rw_view rw' = rw_view rw1" "\<forall>(ls, _) \<in> set sends. set ls \<subseteq> set (concat ?chunks)"
    using all [of "\<lambda>_. True"] by (simp_all add: store_stable_def)
  then have "lane \<in> set (concat ?chunks)" using sent by fastforce
  then have "lane \<in> set plans2" using chunk_redemptions_mem by fastforce
  moreover have "rs_flush S (rw_store rw) = (Inr (), st)" using ok fl by (cases flushed) auto
  ultimately show thesis using that r w any(1) all by blast
qed

lemma redeem_planned_lanes_sent:
  assumes run: "redeem_planned_lanes C S floor max_vouchers True now plans rw = (faulted, sends, rw')"
    and sent: "(lanes, outcome) \<in> set sends" "lane \<in> set lanes" and pos: "\<forall>plan \<in> set plans. pn_unredeemed plan \<noteq> 0"
  obtains plan st where "plan \<in> set plans" "lane = plan\<lparr>pn_unredeemed := pn_unredeemed lane\<rparr>" "pn_unredeemed lane \<noteq> 0"
    "\<exists>status. proj_snapshot (pn_pool_id lane) (rw_view rw') = Some status \<and> pool_is_redeemable (Some status) now"
    "rs_flush S (rw_store rw) = (Inr (), st)" "\<forall>Q. store_stable S Q \<longrightarrow> Q st \<longrightarrow> Q (rw_store rw')"
proof -
  obtain plans1 resolve_failed rw1 plans2 reconcile_failed w2 st
    where r: "resolve_unknown_pools C now plans rw = (plans1, resolve_failed, rw1)"
    and w: "reconcile_onchain_watermarks C plans1 (rw_chain rw1) = (plans2, reconcile_failed, w2)"
    and l: "lane \<in> set plans2" "rs_flush S (rw_store rw) = (Inr (), st)" "rw_view rw' = rw_view rw1"
      "\<forall>Q. store_stable S Q \<longrightarrow> Q st \<longrightarrow> Q (rw_store rw')"
    by (rule redeem_planned_lanes_run [OF run sent])
  note kept = resolve_unknown_pools_kept [OF r]
  have "\<forall>plan \<in> set plans1. pn_unredeemed plan \<noteq> 0" using pos kept(1) by blast
  then obtain plan where plan: "plan \<in> set plans1" "lane = plan\<lparr>pn_unredeemed := pn_unredeemed lane\<rparr>" "pn_unredeemed lane \<noteq> 0"
    using l(1) w reconcile_plans_kept [of lane plans1]
    by (fastforce simp: reconcile_onchain_watermarks_def split: if_splits prod.splits)
  have same: "pn_pool_id lane = pn_pool_id plan" by (subst plan(2)) simp
  have "\<exists>status. proj_snapshot (pn_pool_id lane) (rw_view rw') = Some status \<and> pool_is_redeemable (Some status) now"
    using kept(3) [OF plan(1)] by (simp add: l(3) same)
  then show thesis using that plan kept(1) l(2,4) by blast
qed

text \<open>The redeemer on the disk-backed lane store, whose commit may fail.\<close>

definition redeem_pool_store :: "lane_encoder \<Rightarrow> store_error option \<Rightarrow> pstore redeem_store" where
  "redeem_pool_store enc txn =
     \<lparr>rs_load_all = ps_load_all, rs_get = ps_get, rs_flush = flush enc txn,
      rs_set_registered_until = ps_set_registered_until\<rparr>"

lemma disk_stable: "store_stable (redeem_pool_store enc txn) (\<lambda>st. ps_disk st = disk)"
  by (simp add: store_stable_def redeem_pool_store_def ps_set_registered_until_def split: option.splits lane_slot.splits)

lemma plan_lanes_mem:
  assumes "lane \<in> set (plan_lanes A P paid self_address states view now)"
  obtains s c where "s \<in> set states" "live_claim s = Some c" "pn_key lane = lane_key_of s" "pn_owed lane = owed s"
    "pn_unredeemed lane \<noteq> 0"
proof -
  obtain s where s: "s \<in> set states" "plan_one A P paid self_address now s = Some lane"
    using assms by (auto simp: plan_lanes_def partition_redeemable_def List.map_filter_def)
  then have "plan_lane A P paid self_address (is_registered (registered_until s) now) s = Inr (Some lane)"
    by (auto simp: plan_one_def split: if_splits sum.splits option.splits)
  then show thesis
    by (rule plan_lane_Some) (use s(1) in \<open>auto simp: owed_def intro: that\<close>)
qed

text \<open>
  C36. What is checked before a send. In a sweep that insists on durability and runs while no
  other flush of the store does, whatever the chain answers: every lane of every transaction sent, landed or not, is on a pool the view holds and can be paid from
  at that time, has something left to redeem, and has its claim on disk. A process that
  reopens the table as the sweep left it finds the lane with at least the claim that was submitted, even if the lane
  advanced between being loaded and the sweep. Beside a background flush the sweep's own flush
  may return before the claim is on disk, and the last part does not hold then.
\<close>

theorem sent_lanes_checked:
  assumes "codec_ok enc dec" "ps_reachable enc dec (rw_store rw, None)"
    and held: "\<forall>s \<in> set states. \<exists>t. ps_get (rw_store rw) (lane_key_of s) = Inr (Some t) \<and> owed s \<le> owed t"
    and run: "redeem_sweep A P C (redeem_pool_store enc txn) paid self_address floor max_vouchers True plan_now now states rw
           = (faulted, sends, rw')"
    and sent: "(lanes, outcome) \<in> set sends" "lane \<in> set lanes"
  shows "(\<exists>status. proj_snapshot (pn_pool_id lane) (rw_view rw') = Some status \<and> pool_is_redeemable (Some status) now) \<and>
         pn_unredeemed lane \<noteq> 0 \<and>
         (\<exists>st t. ps_open dec (ps_disk (rw_store rw')) = Inr st \<and> ps_get st (pn_key lane) = Inr (Some t) \<and>
            pn_owed lane \<le> owed t)"
proof -
  let ?plans = "plan_lanes A P paid self_address states (rw_view rw) plan_now"
  have pos: "\<forall>plan \<in> set ?plans. pn_unredeemed plan \<noteq> 0" by (meson plan_lanes_mem)
  obtain plan st where plan: "plan \<in> set ?plans" "lane = plan\<lparr>pn_unredeemed := pn_unredeemed lane\<rparr>" "pn_unredeemed lane \<noteq> 0"
    "\<exists>status. proj_snapshot (pn_pool_id lane) (rw_view rw') = Some status \<and> pool_is_redeemable (Some status) now"
    and fl: "rs_flush (redeem_pool_store enc txn) (rw_store rw) = (Inr (), st)"
    and keep: "\<forall>Q. store_stable (redeem_pool_store enc txn) Q \<longrightarrow> Q st \<longrightarrow> Q (rw_store rw')"
    by (rule redeem_planned_lanes_sent [OF run [unfolded redeem_sweep_def] sent pos])
  obtain s where s: "s \<in> set states" "pn_key plan = lane_key_of s" "pn_owed plan = owed s"
    using plan(1) by (rule plan_lanes_mem)
  have same: "pn_key lane = lane_key_of s" "pn_owed lane = owed s" using s by (subst plan(2), simp)+
  have "flush enc txn (rw_store rw) = (Inr (), st)" using fl by (simp add: redeem_pool_store_def)
  note f = flush_Ok [OF ps_reachable_inv [OF assms(1,2)] this]
  obtain st2 where "ps_open dec (ps_disk st) = Inr st2" "\<forall>k. ps_get st2 k = ps_get (rw_store rw) k"
    using clean_store_reopens [OF assms(1) f(1,2)] f(3) by auto
  moreover have "ps_disk (rw_store rw') = ps_disk st" using keep disk_stable by blast
  ultimately show ?thesis using plan(3,4) held s(1) by (auto simp: same)
qed

text \<open>A chain that answers every watermark read, so that a lane it shows settled is never sent.\<close>

lemma concat_chunks_of: "0 < n \<Longrightarrow> concat (chunks_of n xs) = xs"
  by (induction n xs rule: chunks_of.induct) (subst chunks_of.simps, simp)

definition chain_paid :: "(b256 \<times> address \<times> address \<Rightarrow> u64) \<Rightarrow> planned_lane \<Rightarrow> u256" where
  "chain_paid f plan = ucast (f (pn_pool_id plan, lk_signer (pn_key plan), lk_provider (pn_key plan)))"

lemma read_watermarks_exact:
  assumes "\<And>keys w. ch_get_watermarks C keys w = (Inr (map f keys), w)"
  shows "read_watermarks C chunks w =
    (map (chain_paid f) (concat chunks), False, w)"
  by (induction chunks) (simp_all add: assms comp_def chain_paid_def [abs_def])

lemma reconcile_plans_exact:
  "fst (reconcile_plans plans (map g plans)) =
     map (\<lambda>plan. plan\<lparr>pn_unredeemed := sat_sub (pn_owed plan) (g plan)\<rparr>) (filter (\<lambda>plan. g plan < pn_owed plan) plans)"
  by (induction plans) (auto split: prod.splits)

lemma reconcile_exact:
  assumes "\<And>keys w. ch_get_watermarks C keys w = (Inr (map f keys), w)"
    and "reconcile_onchain_watermarks C plans w = (plans', failed, w')" "lane \<in> set plans'"
  shows "chain_paid f lane < pn_owed lane \<and> pn_unredeemed lane = pn_owed lane - chain_paid f lane"
proof -
  have "plans' = fst (reconcile_plans plans (map (chain_paid f) plans))"
    using assms(2) read_watermarks_exact [OF assms(1)]
    by (auto simp: reconcile_onchain_watermarks_def concat_chunks_of WATERMARK_READ_BATCH_MAX_def split: if_splits)
  then show ?thesis
    using assms(3) by (auto simp: reconcile_plans_exact chain_paid_def sat_sub_def)
qed

text \<open>
  No transaction for a settled lane. When the chain answers its watermark reads, every lane of
  every transaction a sweep sends is one the chain shows paid strictly below the claim, and what the sweep
  expects of it is exactly the difference. A lagging local cache never costs a transaction that moves nothing.
\<close>

theorem settled_lane_not_sent:
  assumes "\<And>keys w. ch_get_watermarks C keys w = (Inr (map f keys), w)"
    and run: "redeem_sweep A P C S paid self_address floor max_vouchers True plan_now now states rw = (faulted, sends, rw')"
    and sent: "(lanes, outcome) \<in> set sends" "lane \<in> set lanes"
  shows "chain_paid f lane < pn_owed lane \<and> pn_unredeemed lane = pn_owed lane - chain_paid f lane"
  using redeem_planned_lanes_run [OF run [unfolded redeem_sweep_def] sent] reconcile_exact [OF assms(1)] by metis

subsection \<open>The worked redeemer at work\<close>

definition rd_recover :: try_recover where
  "rd_recover digest r vs = Some (ucast r)"

lemma rd_recovers: "compact_recovers rd_alloy rd_parts rd_recover"
proof -
  have "ucast (ucast g :: b256) = (g :: address)" for g
    by (rule bit_eqI) (auto simp: bit_ucast_iff dest: bit_imp_le_length)
  then show ?thesis by (simp add: compact_recovers_def rd_recover_def rd_alloy_def rd_parts_def demo_alloy_def)
qed

theorem planned_voucher_pays_claim_witness:
  "voucher_draw demo_keccak rd_alloy rd_recover demo_domain 8 1000 1 (pn_voucher rd_planned) 600
     \<lparr>au_cap = 1000, au_expiry = 4000, au_spent = 0\<rparr> \<lparr>cl_amount = 0, cl_bytesDelivered = 0\<rparr> = Inr 10"
proof -
  have "unat (owed_bytes rd_lane) < 2 ^ 64"
    using rd_live by (simp add: owed_bytes_def claim_bytes_value_def accrued_bytes_def rd_lane_fields opened_def)
  with planned_voucher_pays_claim [OF rd_reachable rd_parts_ok rd_recovers rd_plan_lane,
      of "\<lparr>au_cap = 1000, au_expiry = 4000, au_spent = 0\<rparr>" 1000 "\<lparr>cl_amount = 0, cl_bytesDelivered = 0\<rparr>" 600]
  show ?thesis by (simp add: rd_owed paid_get_def) (simp add: rd_planned_def)
qed

theorem unpaid_claim_is_planned_witness:
  "\<exists>lane \<in> set (plan_lanes rd_alloy rd_parts Map.empty 8 [rd_lane] [] 1000).
     pn_key lane = lane_key_of rd_lane \<and> pn_owed lane = 10"
proof -
  have "\<exists>lane \<in> set (plan_lanes rd_alloy rd_parts Map.empty 8 [rd_lane] [] 1000).
      pn_key lane = lane_key_of rd_lane \<and> pn_owed lane = owed rd_lane"
    by (rule unpaid_claim_is_planned [OF rd_reachable rd_parts_ok])
      (simp_all add: rd_lane_fields rd_owed paid_get_def capability_expired_def sat_add_def REDEEM_LANDING_SLACK_SECS_def
        pool_is_redeemable_def proj_snapshot_def)
  then show ?thesis by (simp add: rd_owed)
qed

theorem chunks_packed_witness:
  "\<exists>deferred. mset (concat (chunk_redemptions [rd_planned] 1 10)) + mset (concat deferred) = {#rd_planned#} \<and>
     (\<forall>chunk \<in> set deferred. lanes_value chunk < 1)"
  using chunks_packed [of "[rd_planned]" 1 10] by (auto simp: Let_def lanes_value_def rd_planned_def)

lemma rd_lands: "lands_up_to 1 rd_chain"
  by (simp add: lands_up_to_def rd_chain_def is_oversize_send_def)

theorem submitted_lanes_accounted_witness:
  "\<exists>sends rw. submit_chunk rd_chain (redeem_pool_store rd_enc None) 0 [rd_planned, rd_planned\<lparr>pn_pool_id := 2\<rparr>] rd_world
     = (False, sends, rw) \<and> landed sends = [rd_planned, rd_planned\<lparr>pn_pool_id := 2\<rparr>]"
proof (cases "submit_chunk rd_chain (redeem_pool_store rd_enc None) 0 [rd_planned, rd_planned\<lparr>pn_pool_id := 2\<rparr>] rd_world")
  case (fields f sends rw)
  from submitted_lanes_accounted [OF fields] rd_lands show ?thesis using fields by auto
qed

lemma rd_store_reachable: "ps_reachable rd_enc rd_dec (rd_store, None)"
proof -
  have "sigs_ok rd_lane" by (simp add: sigs_ok_def rd_lane_fields)
  from ps_reachable.ps_next [OF ps_reachable.ps_init ps_step.step_record [OF this]] show ?thesis
    by (simp add: ps_record_def rd_store_def Let_def)
qed

lemma rd_codec: "codec_ok rd_enc rd_dec"
  by (simp add: codec_ok_def rd_enc_def rd_dec_def)

lemma rd_view: "proj_snapshot 1 (rw_view rd_world) = Some \<lparr>st_owner = 9, st_remaining = 1000, st_lifecycle = LifecycleOpen\<rparr>"
  by (simp add: rd_world_def proj_snapshot_def record_resolved_def resolved_entry_def Pool_View.demo_read_def entry_status_def
      entry_redeemed_def sat_sub_def sat_add_def)

lemma rd_plans: "plan_lanes rd_alloy rd_parts Map.empty 8 [rd_lane] (rw_view rd_world) 1000 = [rd_planned]"
  by (simp add: plan_lanes_def partition_redeemable_def List.map_filter_def rd_lane_fields rd_view pool_is_redeemable_def
      plan_one_def is_registered_def rd_plan_lane capability_expired_def sat_add_def REDEEM_LANDING_SLACK_SECS_def)

lemma rd_flush: "\<exists>st. flush rd_enc None rd_store = (Inr (), st)"
  by (simp add: flush_def flush_begin_def rd_store_def rd_enc_def flush_commit_def commit_snapshot_def)

lemma rd_sweep:
  "\<exists>rw. redeem_sweep rd_alloy rd_parts rd_chain (redeem_pool_store rd_enc None) Map.empty 8 1 10 True 1000 1000 [rd_lane] rd_world
     = (False, [([rd_planned], Landed)], rw)"
proof -
  obtain st where st: "flush rd_enc None rd_store = (Inr (), st)" using rd_flush by blast
  have planned: "pn_pool_id rd_planned = 1" "pn_unredeemed rd_planned = 10" "pn_owed rd_planned = 10" "pn_register rd_planned = None"
    "rd_planned\<lparr>pn_unredeemed := 10\<rparr> = rd_planned"
    by (simp_all add: rd_planned_def)
  have resolve: "resolve_unknown_pools rd_chain 1000 [rd_planned] rd_world = ([rd_planned], False, rd_world)"
    using rd_view by (simp add: resolve_unknown_pools_def planned pool_is_redeemable_def rd_chain_def)
  have "chunks_of WATERMARK_READ_BATCH_MAX [rd_planned] = [[rd_planned]]"
    by (simp add: chunks_of.simps WATERMARK_READ_BATCH_MAX_def)
  then have reconcile: "reconcile_onchain_watermarks rd_chain [rd_planned] w = ([rd_planned], False, w)" for w
    by (simp add: reconcile_onchain_watermarks_def rd_chain_def planned sat_sub_def)
  have chunks: "chunk_redemptions [rd_planned] 1 10 = [[rd_planned]]"
    by (simp add: chunk_redemptions_def deal_def planned)
  have send: "ch_redeem_many rd_chain (group_by_pool [rd_planned]) w = (Landed, w)" for w
    by (simp add: rd_chain_def group_count)
  have submit: "submit_chunk rd_chain S 0 [rd_planned] rw =
      (False, [([rd_planned], Landed)], record_landed_chunk rd_chain S [rd_planned] (rw\<lparr>rw_chain := rw_chain rw\<rparr>))" for S :: "pstore redeem_store" and rw
    by (simp add: submit_chunk.simps send)
  have "rs_flush (redeem_pool_store rd_enc None) (rw_store rd_world) = (Inr (), st)"
    by (simp add: redeem_pool_store_def rd_world_def st)
  then show ?thesis
    by (simp add: redeem_sweep_def redeem_planned_lanes_def rd_plans resolve reconcile chunks sum_unredeemed_def planned
        sat_add_def Let_def submit)
qed

theorem sent_lanes_checked_witness:
  "\<exists>rw st t. redeem_sweep rd_alloy rd_parts rd_chain (redeem_pool_store rd_enc None) Map.empty 8 1 10 True 1000 1000 [rd_lane] rd_world
     = (False, [([rd_planned], Landed)], rw) \<and>
     ps_open rd_dec (ps_disk (rw_store rw)) = Inr st \<and> ps_get st (lane_key_of rd_lane) = Inr (Some t) \<and> 10 \<le> owed t"
proof -
  obtain rw where rw: "redeem_sweep rd_alloy rd_parts rd_chain (redeem_pool_store rd_enc None) Map.empty 8 1 10 True 1000 1000 [rd_lane] rd_world
     = (False, [([rd_planned], Landed)], rw)"
    using rd_sweep by blast
  have "rw_store rd_world = rd_store" "ps_get rd_store (lane_key_of rd_lane) = Inr (Some rd_lane)"
    by (simp_all add: rd_world_def rd_store_def ps_get_def slot_live_def)
  then show ?thesis
    using sent_lanes_checked [OF rd_codec _ _ rw] rd_store_reachable rw by (simp add: rd_planned_def)
qed

end
