(* ===== verification/Redeemer_Loop.thy ===== *)
theory Redeemer_Loop
  imports Redeemer
begin

text \<open>
  The redeemer's task (\<open>redeemer_loop\<close> of \<open>src/crates/node/src/payment_settlement.rs\<close>): when a lane
  must be swept because its capability's margin begins, hints for single lanes, the parking of lanes
  after a chain fault, ticks and cutoff sweeps, and the schedule it publishes.

  One iteration of the loop is one definition. The paid watermarks and the lane store are shared with
  the rest of the node, so each iteration takes them as they are when it runs. Every reading
  of the clock is an argument of its own.
\<close>

subsection \<open>Serve cutoffs\<close>

definition lane_cutoff_wake :: "lane_state \<Rightarrow> paid_watermarks \<Rightarrow> address \<Rightarrow> u64 \<Rightarrow> u64 option" where
  "lane_cutoff_wake st paid self_address margin_secs =
     (if provider st \<noteq> self_address \<or> expiry st = 0 \<or> owed st \<le> paid_get paid (lane_key_of st) then None
      else Some (sat_add (sat_sub (expiry st) margin_secs) 1))"

definition serve_cutoff_wake :: "lane_state \<Rightarrow> paid_watermarks \<Rightarrow> address \<Rightarrow> u64 \<Rightarrow> u64 \<Rightarrow> u64 \<Rightarrow> u64 option" where
  "serve_cutoff_wake st paid self_address margin_secs swept_at now =
     (case lane_cutoff_wake st paid self_address margin_secs of
        None \<Rightarrow> None
      | Some wake \<Rightarrow> if swept_at < wake \<and> \<not> capability_expired (expiry st) now then Some (max wake now) else None)"



subsection \<open>The published schedule\<close>




subsection \<open>The loop\<close>



text \<open>The parameters the task is spawned with, and what it keeps between iterations.\<close>

record redeemer_cfg =
  rl_self :: address
  rl_threshold :: u256
  rl_max_vouchers :: nat
  rl_interval_secs :: u64
  rl_margin_secs :: u64








subsection \<open>What the loop has seen\<close>

text \<open>
  A run of the loop, with the lanes it has read since its last scan beside their wakes: the lanes of the
  last load, and the lane of every later hint that was not dropped. A failed load that runs after one of these wakes makes
  the loop forget its timer; the lanes read before it then move to a list of their own. Between two iterations the rest of the
  node may change the store and the watermarks in any way.
\<close>

definition wakes :: "paid_watermarks \<Rightarrow> redeemer_cfg \<Rightarrow> u64 \<Rightarrow> u64 \<Rightarrow> lane_state list \<Rightarrow> (lane_state \<times> u64) list" where
  "wakes paid cfg swept_at now states =
     List.map_filter (\<lambda>st. map_option (Pair st) (serve_cutoff_wake st paid (rl_self cfg) (rl_margin_secs cfg) swept_at now)) states"










lemma wakes_Nil [simp]: "wakes paid cfg swept_at now [] = []"
  by (simp add: wakes_def List.map_filter_def)














subsection \<open>A worked loop\<close>







end
