(* ===== verification/Spec2Isabelle.thy ===== *)
theory Spec2Isabelle
  imports Payer_Heal Unpaid_Spans Bao_Range Circuit_Breaker Coverage_Plan Pacer Ordered_Writes Warming_Allowance
    Buyer_Reconcile Stream_Cap Redeemer_Loop
begin

text \<open>
  Verification of deCDN: a content delivery network in which a client pays a node for verified bytes
  as they arrive, and a node that lacks a blob buys it from an origin or another node.

  \<^bold>\<open>The program.\<close> A buyer deposits into an on-chain pool and opens a \<^emph>\<open>lane\<close> to a provider: a pair of a
  capability (signer, cap, expiry) and cumulative signed vouchers. Between two vouchers the buyer
  pays by revealing preimages of a hash chain whose root the last voucher committed, one per
  mebibyte. The node verifies each proof against its lane, credits the stream it came from, keeps the
  lane in a buffered disk store, and redeems the largest claim on chain. A client that loses track is
  answered with the node's signed watermark and heals its ledger from it. Around this payment core
  sit the range arithmetic of verified transfer, the planners that decide which source serves which
  bytes, the pacers that bound how far a node pulls ahead of what it is paid for, the circuit breaker
  in front of an origin, the allowance for speculative buys, the queue of durable client writes, the cap
  on concurrent streams, the buyer's record of its own pools, and the node's view of everyone's.

  \<^bold>\<open>Theories and sources\<close> (paths under \<open>src/crates/\<close>):

  \<^item> \<open>Decdn_Prelude\<close>: fixed-width words with the saturating and checked operations of the language,
    their reading as naturals (collection \<open>word_nat\<close>), rounding division, big-endian bytes.
  \<^item> \<open>Hash_Chain\<close>: \<open>incentive/src/chain.rs\<close>. The chain walk, preimages, and the packed meter word.
  \<^item> \<open>Voucher\<close>: \<open>incentive/src/\<close> \<open>voucher.rs\<close>, \<open>sig_canon.rs\<close>, \<open>rate.rs\<close>, \<open>credit.rs\<close>. EIP-712 hashing
    and ECDSA recovery are parameters; rates and the ramped credit window are computed.
  \<^item> \<open>Lane\<close>: \<open>incentive/src/lane.rs\<close>. The record \<open>lane_state\<close>, every operation on it, acceptance as a
    specification (\<open>advance_presigned\<close> refines it), and the step relation of a node's lane.
  \<^item> \<open>Pool_Store\<close>: \<open>incentive/src/store.rs\<close>, \<open>node/src/pool_store.rs\<close>. The locale \<open>lane_store\<close> is the
    store interface the lane's application function relies on; the in-memory and the disk-backed
    store are its two interpretations. A flush is two steps, so that other calls fall between them.
  \<^item> \<open>Wire\<close>: \<open>protocol/src/client.rs\<close>, \<open>incentive/src/client_bridge.rs\<close>. Payment messages and the
    bridge between wire and signed vouchers.
  \<^item> \<open>Client_Handler\<close>: \<open>node/src/handlers/client/\<close>. How a node commits one proof: checks in their order,
    lane, store, credit, receipt, and the frames it answers with.
  \<^item> \<open>Buyer_Ledger\<close>, \<open>Unpaid_Spans\<close>: \<open>client/src/ledger.rs\<close>. The payer's pipeline of claims, its chain,
    the two halves of issuing a voucher, and the spans it owes for.
  \<^item> \<open>Payer_Stream\<close>, \<open>Payer_Heal\<close>: \<open>client/src/lib.rs\<close>. Paying for delivered bytes over a transport that
    is a parameter, instantiated by the node's handler of \<open>Client_Handler\<close>, while sibling streams move the
    shared ledger, and healing from a rejection.
  \<^item> \<open>Bao_Range\<close>: \<open>bao-range/src/lib.rs\<close>. Alignment to chunk groups and the wire size in closed form.
  \<^item> \<open>Coverage\<close>, \<open>Coverage_Plan\<close>: \<open>protocol/src/coverage.rs\<close>, \<open>client/src/coverage_plan.rs\<close>. The
    discovery-block bitmap and the node's and the client's planner; the chunk-set library is a
    parameter with its documented set semantics (\<open>range_ops_ok\<close>).
  \<^item> \<open>Pacer\<close>: \<open>client/src/pacer.rs\<close> and \<open>leg_range\<close> of \<open>client/src/driver.rs\<close>. The three pacing policies.
  \<^item> \<open>Circuit_Breaker\<close>: \<open>cache/src/\<close> \<open>circuit_breaker.rs\<close>, \<open>retry.rs\<close>, the pull of one origin in
    \<open>engine.rs\<close>.
  \<^item> \<open>Warming_Allowance\<close>: \<open>node/src/warming_allowance.rs\<close>. Ledgers, tags and the credit queue.
  \<^item> \<open>Ordered_Writes\<close>: \<open>client/src/ordered_writes.rs\<close>. The queue and its worker.
  \<^item> \<open>Stream_Cap\<close>: \<open>client/src/stream_cap.rs\<close>. Permits, claims and grants of every provider, and the
    permits lanes hold.
  \<^item> \<open>Buyer_Pool\<close>, \<open>Buyer_Pool_Table\<close>: \<open>incentive/src/\<close> \<open>buyer_pool.rs\<close>, \<open>buyer_pool_table.rs\<close>,
    \<open>buyer_pool_redb.rs\<close>. The row a buyer keeps per pool, its operations, and the two stores of it. The
    locale \<open>buyer_store\<close> is what a store promises; the in-memory map and the table in a database
    whose calls may fail are its interpretations.
  \<^item> \<open>Buyer_Reconcile\<close>: \<open>node/src/buyer_pool.rs\<close>. Reconciling the rows with the chain at start, opening a
    pool, and the reclaim sweep, over the locales \<open>buyer_service\<close> and \<open>healthy_service\<close>.
  \<^item> \<open>Pool_View\<close>: \<open>node/src/pool_view.rs\<close>. The projection of the contract's log a node serves from, and
    the chain's history as its specification.
  \<^item> \<open>Pool_Contract\<close>: \<open>contracts/src/PaymentPool.sol\<close> (under \<open>src/\<close>). How the contract reads one voucher with its chain
    claim, checks it and computes its draw, at the widths of its types, with its reverts as errors.
  \<^item> \<open>Redeemer\<close>, \<open>Redeemer_Loop\<close>: \<open>node/src/payment_settlement.rs\<close>. Which lanes are planned, how they are
    packed, checked and sent, the halving of a transaction that is too large; then the loop around it
    with hints, parked lanes, ticks and the sweep at a capability's margin. The chain and the lane store are
    parameters, the store instantiated by that of \<open>Pool_Store\<close> where durability matters.

  \<^bold>\<open>State and concurrency.\<close> A struct is a record, an enum a datatype, a fallible function returns a
  sum. A mutex-protected method is one step; where the code releases a lock inside an operation (a
  flush, issuing a voucher, the off-lock hash walk) the halves are separate definitions, and a step
  relation interleaves them with everything else. Guards, workers and watermarks that live across
  steps are part of the configuration of such a relation, and invariants are proved by rule
  induction.

  \<^bold>\<open>What is proved.\<close> For the seller: a lane's claim is always redeemable, never shrinks while one rate is quoted,
  never grows past its cap, and no voucher is taken twice, also across a crash and restart while one flush runs at a
  time; concurrent streams are never credited more than the claim grew. For the buyer: paying for delivered bytes
  terminates whatever the transport answers and whatever finitely many moves of sibling streams do to the shared
  ledger; a funded payer in step with a node is refused no proof by the node's handler, and the node is owed exactly
  the price of the bytes; a rejection is rewound whole, and a heal brings both sides in step. For the
  data path: aligned ranges enclose what was asked, their predicted wire size is that of the hash
  tree, plans account for every missing chunk without overlap and share it fairly, a node's exposure
  to unpaid bytes is bounded and its pulls never wait for a payment that cannot come. For the
  cache: the breaker never wedges and bounds the attempts against a dead origin; speculative losses
  are bounded by the allowance and the buys in flight; durable writes run once, in order, with none stranded; streams to
  a provider never exceed its cap and a waiting lane is not overtaken. For the pools: the disk-backed table answers as the
  in-memory one does while the database does not fail, and its committed totals never fall, whatever database call fails; a
  restarted buyer whose store works finds its funded pool again instead of opening a second; the node's view of a pool never
  counts a redemption the chain has not made, and is exact when it has caught up, unless the pool was anchored behind
  the start of the scan. For redemption: from what is submitted for a reachable lane the contract draws all the lane is owed, or
  reverts because the claimed bytes overflow; every unpaid claim is planned, packing and splitting lose no lane,
  with one flusher nothing is sent before it is on disk, and a claim that has become final is swept in time unless a
  failed load forgot its timer. Some theorems show where the
  code does not do what its documentation says (overlapping flushes, a reseed during an issue, a rate cut that
  re-prices a kept frontier, a byte claim past 64 bits, a closing pool that is replaced,
  a view anchored behind the start of its scan).

  \<^bold>\<open>Bounds.\<close> Loops recurse on a measure; the payer's release loop, which the transport could keep
  alive, is a \<open>partial_function\<close> with a proof that it returns. The pages of a buyer's pools on chain are read
  with fuel, and any fuel above their number is enough. A transaction is split at most six times, so that a chunk
  costs at most 127 sends. Block indices are exact up to
  \<open>2 ^ 58 - 2 ^ 26\<close> bytes, where the code's cast to 32 bits begins to truncate; theorems on plans carry
  that bound. Amounts are 256-bit words; that vouchers carry 64-bit figures keeps their sums exact.

  \<^bold>\<open>Not modelled.\<close> Sockets, task wiring, HTTP and the command line (no state of their own); on-chain
  calls and generated bindings; the Solidity contracts (another language) except the
  draw of one voucher; the asynchronous drivers that stitch the modelled
  decisions together (\<open>client/src/driver.rs\<close>, \<open>scheduler.rs\<close>, \<open>cache/src/engine.rs\<close>); configuration
  parsing; floating-point jitter of the retry delay; metrics. Of the buyer's pools: the top-up slot, the settling of
  unconfirmed transactions, seeding of lanes, opening the database file. Of the view: chain
  reorganisations. Of settlement: the ledger of landed transactions, the caches of the view that reads the chain
  at admission, the log sink's writes beside the view, a background flush during a redemption. The settlement ledger (\<open>node/src/settlement_ledger.rs\<close>), rate limiting and local
  reputation are outside the development.
\<close>

end
